(* ===== verification/Prelude.thy ===== *)
theory Prelude
  imports Main "HOL-Library.Word"
begin

text \<open>
  Shared vocabulary of the development: the byte and word types of the wire
  formats, the errors a C++ exception stands for, the buffer operations
  (\<open>memcpy\<close> into a vector, \<open>resize\<close>, the byte-wise \<open>^=\<close> loop) and the generic
  lemmas on lists and words that several components use.
\<close>

unbundle bit_operations_syntax

section \<open>Types\<close>

type_synonym byte = "8 word"
type_synonym bytes = "8 word list"
type_synonym u16 = "16 word"
type_synonym u32 = "32 word"
type_synonym u64 = "64 word"

text \<open>
  \<open>std::size_t\<close> values are lengths of buffers that exist in memory, so they are
  \<open>nat\<close>. A thrown \<open>std::runtime_error\<close> is \<open>Runtime_error\<close> with its message; the
  two control-flow exceptions of the command line parser have constructors of their
  own; \<open>Library_exception\<close> is an exception thrown by a library the source calls
  (\<open>CryptoPP::Exception\<close>, the exceptions of Boost.JSON); \<open>Undefined_behaviour\<close> marks
  a path on which the C++ standard gives the program no meaning (signed overflow).
\<close>

datatype cpp_error =
    Runtime_error string
  | Help_requested
  | Version_requested
  | Library_exception
  | Undefined_behaviour

type_synonym 'a result = "cpp_error + 'a"

section \<open>Buffers\<close>

text \<open>\<open>std::memcpy(buf.data() + off, src.data(), src.size())\<close>.\<close>

definition memcpy :: "'a list \<Rightarrow> nat \<Rightarrow> 'a list \<Rightarrow> 'a list" where
  "memcpy buf off src = take off buf @ src @ drop (off + length src) buf"

text \<open>\<open>v.resize(n, fill)\<close>: truncates or pads.\<close>

definition resize :: "nat \<Rightarrow> 'a \<Rightarrow> 'a list \<Rightarrow> 'a list" where
  "resize n x xs = take n xs @ replicate (n - length xs) x"

text \<open>The loop \<open>data[i] ^= key[i]\<close> for \<open>i\<close> up to the shorter of the two lengths.\<close>

fun xor_bytes :: "bytes \<Rightarrow> bytes \<Rightarrow> bytes" where
  "xor_bytes (d # ds) (k # ks) = (d XOR k) # xor_bytes ds ks"
| "xor_bytes ds _ = ds"

lemma length_memcpy [simp]:
  "off + length src \<le> length buf \<Longrightarrow> length (memcpy buf off src) = length buf"
  by (simp add: memcpy_def)

lemma memcpy_append:
  "length ys = length src \<Longrightarrow> memcpy (xs @ ys @ zs) (length xs) src = xs @ src @ zs"
  by (simp add: memcpy_def)

lemma memcpy_zero: "memcpy buf 0 src = src @ drop (length src) buf"
  by (simp add: memcpy_def)

lemma length_resize [simp]: "length (resize n x xs) = n"
  by (simp add: resize_def)

lemma resize_ge: "length xs \<le> n \<Longrightarrow> resize n x xs = xs @ replicate (n - length xs) x"
  by (simp add: resize_def)

lemma resize_same [simp]: "length xs = n \<Longrightarrow> resize n x xs = xs"
  by (simp add: resize_def)

lemma take_resize: "length xs \<le> n \<Longrightarrow> take (length xs) (resize n x xs) = xs"
  by (simp add: resize_ge)

lemma xor_bytes_Nil [simp]: "xor_bytes [] ks = []" "xor_bytes ds [] = ds"
  by (cases ds; simp)+

lemma length_xor_bytes [simp]: "length (xor_bytes ds ks) = length ds"
  by (induction ds ks rule: xor_bytes.induct) auto

lemma xor_bytes_involution [simp]: "xor_bytes (xor_bytes ds ks) ks = ds"
  by (induction ds ks rule: xor_bytes.induct) (auto simp: xor.assoc)

lemma nth_xor_bytes:
  "i < length ds \<Longrightarrow>
     xor_bytes ds ks ! i = (if i < length ks then ds ! i XOR ks ! i else ds ! i)"
proof (induction ds ks arbitrary: i rule: xor_bytes.induct)
  case (1 d ds k ks)
  then show ?case by (cases i) auto
qed auto

section \<open>Lists\<close>

lemma list_eq_take_drop: "n \<le> length xs \<Longrightarrow> \<exists>ys zs. xs = ys @ zs \<and> length ys = n"
  by (metis append_take_drop_id length_take min.absorb2)

lemma concat_append_singleton: "concat (xss @ [xs]) = concat xss @ xs"
  by simp

lemma foldl_invariant:
  assumes "P s" and "\<And>s x. P s \<Longrightarrow> x \<in> set xs \<Longrightarrow> P (f s x)"
  shows "P (foldl f s xs)"
  using assms by (induction xs arbitrary: s) auto

section \<open>Words\<close>

lemma unat_byte_less [simp]: "unat (b :: byte) < 256"
  using unsigned_less [of b] by simp

lemma unat_u16_less [simp]: "unat (b :: u16) < 65536"
  using unsigned_less [of b] by simp

lemma unat_u32_less [simp]: "unat (b :: u32) < 4294967296"
  using unsigned_less [of b] by simp

lemma xor_cancel_left: "x XOR y = x XOR z \<longleftrightarrow> y = (z :: 'a::len word)"
proof
  assume "x XOR y = x XOR z"
  then have "x XOR (x XOR y) = x XOR (x XOR z)" by simp
  then show "y = z" by (simp flip: xor.assoc)
qed simp

lemma unat_of_nat_lt: "n < 2 ^ LENGTH('a) \<Longrightarrow> unat (of_nat n :: 'a::len word) = n"
  by (simp add: unsigned_of_nat take_bit_nat_eq_self)

lemma word_255_mask: "(255 :: 'a::len word) = mask 8"
  by (simp add: mask_eq_exp_minus_1)

lemma bit_ucast_byte: "bit (ucast (b :: byte) :: 'a::len word) n \<longleftrightarrow> n < LENGTH('a) \<and> n < 8 \<and> bit b n"
  by (auto simp: bit_simps dest: bit_imp_le_length)

end
