(* ===== verification/Wire.thy ===== *)
theory Wire
  imports Prelude
begin

text \<open>
  The byte codecs of the wire formats: the \<open>read_le16\<close>, \<open>write_le16\<close>, \<open>read_le32\<close>,
  \<open>write_le32\<close> helpers that \<open>smux.cpp\<close>, \<open>fec.cpp\<close>, \<open>crypto.cpp\<close>,
  \<open>snappy_stream.cpp\<close> and \<open>kcp_transport.cpp\<close> each repeat word for word, the big-endian
  pair of \<open>utils.cpp\<close>, the 24-bit length of the Snappy framing and \<open>read_le64\<close> of
  \<open>qpp.cpp\<close>. A pointer into a buffer is the buffer and an offset.

  Every pair is an instance of the locale \<open>byte_codec\<close>: fixed width, and reading what
  was written gives it back, wherever the field stands in the buffer.
\<close>

unbundle bit_operations_syntax

section \<open>Readers and writers\<close>

definition read_le16 :: "bytes \<Rightarrow> nat \<Rightarrow> u16" where
  "read_le16 d off = ucast (d ! off) OR push_bit 8 (ucast (d ! (off + 1)))"

definition le16_bytes :: "u16 \<Rightarrow> bytes" where
  "le16_bytes v = [ucast (v AND 0xff), ucast (drop_bit 8 v AND 0xff)]"

definition write_le16 :: "bytes \<Rightarrow> nat \<Rightarrow> u16 \<Rightarrow> bytes" where
  "write_le16 d off v = memcpy d off (le16_bytes v)"

definition read_le32 :: "bytes \<Rightarrow> nat \<Rightarrow> u32" where
  "read_le32 d off =
     ucast (d ! off) OR push_bit 8 (ucast (d ! (off + 1))) OR
     push_bit 16 (ucast (d ! (off + 2))) OR push_bit 24 (ucast (d ! (off + 3)))"

definition le32_bytes :: "u32 \<Rightarrow> bytes" where
  "le32_bytes v =
     [ucast (v AND 0xff), ucast (drop_bit 8 v AND 0xff),
      ucast (drop_bit 16 v AND 0xff), ucast (drop_bit 24 v AND 0xff)]"

definition write_le32 :: "bytes \<Rightarrow> nat \<Rightarrow> u32 \<Rightarrow> bytes" where
  "write_le32 d off v = memcpy d off (le32_bytes v)"

definition read_be32 :: "bytes \<Rightarrow> nat \<Rightarrow> u32" where
  "read_be32 d off =
     push_bit 24 (ucast (d ! off)) OR push_bit 16 (ucast (d ! (off + 1))) OR
     push_bit 8 (ucast (d ! (off + 2))) OR ucast (d ! (off + 3))"

definition be32_bytes :: "u32 \<Rightarrow> bytes" where
  "be32_bytes v =
     [ucast (drop_bit 24 v AND 0xff), ucast (drop_bit 16 v AND 0xff),
      ucast (drop_bit 8 v AND 0xff), ucast (v AND 0xff)]"

definition write_be32 :: "bytes \<Rightarrow> nat \<Rightarrow> u32 \<Rightarrow> bytes" where
  "write_be32 d off v = memcpy d off (be32_bytes v)"

text \<open>
  The 24-bit length of a Snappy chunk is a \<open>std::size_t\<close> masked byte by byte, so a
  length of 2^24 or more loses its upper part.
\<close>

definition len24_bytes :: "nat \<Rightarrow> bytes" where
  "len24_bytes n = [of_nat n, of_nat (n div 256), of_nat (n div 65536)]"

definition write_len24 :: "bytes \<Rightarrow> nat \<Rightarrow> bytes" where
  "write_len24 chunk n = memcpy chunk 1 (len24_bytes n)"

definition read_len24 :: "bytes \<Rightarrow> nat \<Rightarrow> nat" where
  "read_len24 d off =
     unat (d ! off) + 256 * unat (d ! (off + 1)) + 65536 * unat (d ! (off + 2))"

text \<open>The loop of \<open>read_le64\<close> over the eight bytes of its span.\<close>

definition read_le64 :: "bytes \<Rightarrow> nat \<Rightarrow> u64" where
  "read_le64 d off =
     foldl (\<lambda>value i. value OR push_bit (i * 8) (ucast (d ! (off + i)))) 0 [0..<8]"

section \<open>The codec contract\<close>

locale byte_codec =
  fixes enc :: "'v \<Rightarrow> bytes"
    and dec :: "bytes \<Rightarrow> nat \<Rightarrow> 'v"
    and width :: nat
    and valid :: "'v \<Rightarrow> bool"
  assumes enc_width: "length (enc v) = width"
    and dec_local: "off + width \<le> length xs \<Longrightarrow>
          dec (pre @ xs) (length pre + off) = dec (take width (drop off xs)) 0"
    and dec_enc: "valid v \<Longrightarrow> dec (enc v) 0 = v"
begin

lemma dec_at:
  assumes "valid v"
  shows "dec (pre @ enc v @ post) (length pre) = v"
  using dec_local [of 0 "enc v @ post" pre] assms by (simp add: enc_width dec_enc)

lemma dec_front: "valid v \<Longrightarrow> dec (enc v @ post) 0 = v"
  using dec_at [of v "[]" post] by simp

lemma dec_after: "valid v \<Longrightarrow> length pre = n \<Longrightarrow> dec (pre @ enc v @ post) n = v"
  using dec_at by blast

lemma dec_prefix:
  assumes "off + width \<le> length xs"
  shows "dec (xs @ ys) off = dec xs off"
  using dec_local [of off "xs @ ys" "[]"] dec_local [of off xs "[]"] assms by simp

lemma dec_memcpy:
  assumes "valid v" and "off + width \<le> length buf"
  shows "dec (memcpy buf off (enc v)) off = v"
proof -
  have "memcpy buf off (enc v) = take off buf @ enc v @ drop (off + width) buf"
    by (simp add: memcpy_def enc_width)
  moreover have "length (take off buf) = off" using assms(2) by simp
  ultimately show ?thesis using dec_after assms(1) by metis
qed

end

lemma nth_take_drop: "i < n \<Longrightarrow> off + i < length xs \<Longrightarrow> take n (drop off xs) ! i = xs ! (off + i)"
  by (simp add: add.commute)

lemma nth_append_offset:
  "(pre @ xs) ! (length pre + off) = xs ! off"
  "(pre @ xs) ! Suc (length pre + off) = xs ! Suc off"
  "(pre @ xs) ! Suc (Suc (length pre + off)) = xs ! Suc (Suc off)"
  using nth_append_length_plus [of pre xs off] nth_append_length_plus [of pre xs "Suc off"]
    nth_append_length_plus [of pre xs "Suc (Suc off)"]
  by simp_all

text \<open>A bit position of a 32-bit word lies in one of its four bytes.\<close>

lemma byte_position_cases:
  assumes "n < (32 :: nat)"
  obtains "n < 8" | k where "n = 8 + k" "k < 8" | k where "n = 16 + k" "k < 8"
    | k where "n = 24 + k" "k < 8"
proof -
  consider "n < 8" | "8 \<le> n" "n < 16" | "16 \<le> n" "n < 24" | "24 \<le> n" "n < 32"
    using assms by linarith
  then show thesis
  proof cases
    case 1 then show ?thesis by (rule that(1))
  next
    case 2 then show ?thesis using that(2) [of "n - 8"] by simp
  next
    case 3 then show ?thesis using that(3) [of "n - 16"] by simp
  next
    case 4 then show ?thesis using that(4) [of "n - 24"] by simp
  qed
qed

lemmas byte_bit_simps = bit_simps word_255_mask nth_Cons'

lemma le16_roundtrip: "read_le16 (le16_bytes v) 0 = v"
  unfolding read_le16_def le16_bytes_def
  by (rule bit_word_eqI) (auto simp: byte_bit_simps)

lemma le32_roundtrip: "read_le32 (le32_bytes v) 0 = v"
  unfolding read_le32_def le32_bytes_def
proof (rule bit_word_eqI, goal_cases)
  case (1 n)
  then have "n < 32" by simp
  then show ?case by (cases n rule: byte_position_cases) (auto simp: byte_bit_simps)
qed

lemma be32_bytes_rev: "be32_bytes v = rev (le32_bytes v)"
  by (simp add: be32_bytes_def le32_bytes_def)

lemma be32_roundtrip: "read_be32 (be32_bytes v) 0 = v"
  using le32_roundtrip [of v]
  by (simp add: read_be32_def read_le32_def be32_bytes_def le32_bytes_def or.commute or.left_commute
      or.assoc)

lemma len24_roundtrip: "n < 2 ^ 24 \<Longrightarrow> read_len24 (len24_bytes n) 0 = n"
proof -
  assume "n < 2 ^ 24"
  then have top: "n div 65536 < 256" by (simp add: div_less_iff_less_mult)
  have "n div 256 div 256 = n div 65536" by (simp add: div_mult2_eq [symmetric])
  moreover have "n = n mod 256 + 256 * (n div 256)" by simp
  moreover have "n div 256 = n div 256 mod 256 + 256 * (n div 256 div 256)" by simp
  ultimately have "n mod 256 + 256 * (n div 256 mod 256) + 65536 * (n div 65536) = n"
    by linarith
  then show ?thesis
    using top by (simp add: read_len24_def len24_bytes_def unsigned_of_nat take_bit_eq_mod)
qed

lemma length_wire_bytes [simp]:
  "length (le16_bytes v) = 2" "length (le32_bytes w) = 4" "length (be32_bytes w) = 4"
  "length (len24_bytes n) = 3"
  by (simp_all add: le16_bytes_def le32_bytes_def be32_bytes_def len24_bytes_def)

interpretation le16: byte_codec le16_bytes read_le16 2 "\<lambda>_. True"
  by unfold_locales
    (simp add: le16_bytes_def, simp add: read_le16_def nth_append_offset, rule le16_roundtrip)

interpretation le32: byte_codec le32_bytes read_le32 4 "\<lambda>_. True"
  by unfold_locales
    (simp add: le32_bytes_def, simp add: read_le32_def nth_append_offset add.assoc,
      rule le32_roundtrip)

interpretation be32: byte_codec be32_bytes read_be32 4 "\<lambda>_. True"
  by unfold_locales
    (simp add: be32_bytes_def, simp add: read_be32_def nth_append_offset add.assoc,
      rule be32_roundtrip)

interpretation len24: byte_codec len24_bytes read_len24 3 "\<lambda>n. n < 2 ^ 24"
  by unfold_locales
    (simp add: len24_bytes_def, simp add: read_len24_def nth_append_offset, rule len24_roundtrip)

end
