(* ===== verification/Cpp_String.thy ===== *)
theory Cpp_String
  imports Prelude
begin

text \<open>
  The operations of \<open>std::string\<close> and \<open>std::string_view\<close> that the source uses, on
  \<open>string\<close> (a list of byte characters): decimal printing, \<open>std::tolower\<close> of the C
  locale, \<open>find\<close>, \<open>rfind\<close>, \<open>starts_with\<close> and the replace loop of \<open>stats.cpp\<close>.
  \<open>npos\<close> is \<open>None\<close>.
\<close>

text \<open>The bytes of a string, as \<open>reinterpret_cast\<close> to \<open>unsigned char\<close> reads them.\<close>

definition string_bytes :: "string \<Rightarrow> bytes" where
  "string_bytes s = map (\<lambda>c. of_char c) s"

section \<open>Numbers\<close>

definition digit_char :: "nat \<Rightarrow> char" where
  "digit_char d = char_of (48 + d)"

fun to_string :: "nat \<Rightarrow> string" where
  "to_string n =
     (if n < 10 then [digit_char n] else to_string (n div 10) @ [digit_char (n mod 10)])"

declare to_string.simps [simp del]

definition is_digit :: "char \<Rightarrow> bool" where
  "is_digit c \<longleftrightarrow> 48 \<le> (of_char c :: nat) \<and> (of_char c :: nat) \<le> 57"

definition digit_val :: "char \<Rightarrow> nat" where
  "digit_val c = of_char c - 48"

text \<open>The value of a digit string, most significant digit first.\<close>

definition decimal_value :: "string \<Rightarrow> nat" where
  "decimal_value s = foldl (\<lambda>v c. v * 10 + digit_val c) 0 s"

lemma of_digit_char: "d < 10 \<Longrightarrow> (of_char (digit_char d) :: nat) = 48 + d"
  by (simp add: digit_char_def of_char_of)

lemma digit_char_props [simp]:
  "d < 10 \<Longrightarrow> is_digit (digit_char d)"
  "d < 10 \<Longrightarrow> digit_val (digit_char d) = d"
  by (simp_all add: is_digit_def digit_val_def of_digit_char)

lemma to_string_nonempty [simp]: "to_string n \<noteq> []"
  by (subst to_string.simps) simp

lemma to_string_digits: "c \<in> set (to_string n) \<Longrightarrow> is_digit c"
proof (induction n rule: to_string.induct)
  case (1 n)
  then show ?case by (subst (asm) (2) to_string.simps) (auto split: if_splits)
qed

lemma decimal_value_snoc: "decimal_value (s @ [c]) = decimal_value s * 10 + digit_val c"
  by (simp add: decimal_value_def)

lemma decimal_value_to_string [simp]: "decimal_value (to_string n) = n"
proof (induction n rule: to_string.induct)
  case (1 n)
  then show ?case
    by (subst to_string.simps) (auto simp: decimal_value_snoc decimal_value_def [of "[_]"])
qed

lemma to_string_inj: "to_string m = to_string n \<longleftrightarrow> m = n"
  by (metis decimal_value_to_string)

section \<open>Case and search\<close>

text \<open>\<open>std::tolower\<close> in the C locale.\<close>

definition tolower :: "char \<Rightarrow> char" where
  "tolower c =
     (let n = of_char c :: nat in if 65 \<le> n \<and> n \<le> 90 then char_of (n + 32) else c)"

lemma tolower_idem [simp]: "tolower (tolower c) = tolower c"
  by (simp add: tolower_def Let_def of_char_of)

definition starts_with :: "string \<Rightarrow> string \<Rightarrow> bool" where
  "starts_with text pat \<longleftrightarrow> take (length pat) text = pat"

definition find_char :: "string \<Rightarrow> char \<Rightarrow> nat option" where
  "find_char text c = List.find (\<lambda>i. text ! i = c) [0..<length text]"

definition rfind_char :: "string \<Rightarrow> char \<Rightarrow> nat option" where
  "rfind_char text c = List.find (\<lambda>i. text ! i = c) (rev [0..<length text])"

definition find_str :: "string \<Rightarrow> string \<Rightarrow> nat \<Rightarrow> nat option" where
  "find_str text pat pos =
     List.find (\<lambda>i. take (length pat) (drop i text) = pat)
       [pos..<Suc (length text - length pat)]"

lemma find_char_None: "find_char text c = None \<longleftrightarrow> c \<notin> set text"
  by (auto simp: find_char_def find_None_iff in_set_conv_nth)

lemma find_char_append:
  "c \<notin> set pre \<Longrightarrow> find_char (pre @ c # post) c = Some (length pre)"
  unfolding find_char_def find_Some_iff
  by (intro exI [of _ "length pre"]) (auto simp: nth_append dest: nth_mem)

lemma rfind_char_append:
  assumes "c \<notin> set post"
  shows "rfind_char (pre @ c # post) c = Some (length pre)"
proof -
  let ?t = "pre @ c # post"
  have split: "[0..<length ?t] = [0..<length pre] @ length pre # [Suc (length pre)..<length ?t]"
    using upt_add_eq_append [of 0 "length pre" "Suc (length post)"]
    by (simp add: upt_conv_Cons del: upt_Suc)
  have none: "List.find (\<lambda>i. ?t ! i = c) (rev [Suc (length pre)..<length ?t]) = None"
    unfolding find_None_iff using assms by (auto simp: nth_append nth_Cons' dest: nth_mem)
  have app: "List.find P xs = None \<Longrightarrow> List.find P (xs @ ys) = List.find P ys"
    for P :: "nat \<Rightarrow> bool" and xs ys by (induction xs) (auto split: if_splits)
  show ?thesis
    unfolding rfind_char_def split rev_append rev.simps append_assoc app [OF none] by simp
qed

lemma rfind_char_None: "rfind_char text c = None \<longleftrightarrow> c \<notin> set text"
  by (auto simp: rfind_char_def find_None_iff in_set_conv_nth)

lemma find_str_Some:
  assumes "find_str text pat pos = Some i"
  shows "pos \<le> i" and "take (length pat) (drop i text) = pat"
    and "pat \<noteq> [] \<Longrightarrow> i + length pat \<le> length text"
proof -
  obtain k where k: "k < length [pos..<Suc (length text - length pat)]"
      "i = [pos..<Suc (length text - length pat)] ! k"
    and p: "take (length pat) (drop i text) = pat"
    using assms unfolding find_str_def find_Some_iff by blast
  from k have "i \<in> set [pos..<Suc (length text - length pat)]" by (metis nth_mem)
  then show "pos \<le> i" by (simp del: upt_Suc)
  show "take (length pat) (drop i text) = pat" by (rule p)
  from arg_cong [OF p, of length] have "length pat \<le> length text - i" by simp
  then show "i + length pat \<le> length text" if "pat \<noteq> []"
    using that by (cases "i \<le> length text") auto
qed

section \<open>The replace loop\<close>

text \<open>
  \<open>replace_all\<close> of \<open>stats.cpp\<close>: every match found from \<open>pos\<close> on is replaced and the
  search goes on behind the replacement. All its calls pass a non-empty pattern; with an
  empty one the C++ loop would not end, so the model stops there at once.
\<close>

function replace_loop :: "string \<Rightarrow> string \<Rightarrow> string \<Rightarrow> nat \<Rightarrow> string" where
  "replace_loop text pat new pos =
     (if pat = [] then text
      else case find_str text pat pos of
             None \<Rightarrow> text
           | Some i \<Rightarrow>
               replace_loop (take i text @ new @ drop (i + length pat) text) pat new (i + length new))"
  by pat_completeness auto
termination
proof (relation "measure (\<lambda>(text, pat, new, pos). length text - pos)", goal_cases)
  case (2 s pat new pos i)
  note f = find_str_Some [OF 2(2)]
  from 2(1) have "0 < length pat" by simp
  with f(1) f(3) [OF 2(1)] have "length s - (length pat + i) < length s - pos" by linarith
  with f(3) [OF 2(1)] show ?case by simp
qed simp

declare replace_loop.simps [simp del]

definition replace_all :: "string \<Rightarrow> string \<Rightarrow> string \<Rightarrow> string" where
  "replace_all text pat new = replace_loop text pat new 0"

end
