(* ===== verification/Stats.thy ===== *)
theory Stats
  imports Cpp_String
begin

text \<open>
  The SNMP counters of \<open>stats.cpp\<close>: the 30 atomic 64-bit counters, the connection
  gauge with its high-water mark, the JSON and CSV reports. The counters are state that
  every other component threads through its operations. The two compare-exchange loops
  are modelled twice: as the sequential functions the other components call, and as an
  interleaving step relation of threads for the high-water mark under concurrency.
\<close>

section \<open>The counters\<close>

datatype snmp_field =
    Bytes_sent
  | Bytes_received
  | Max_conn
  | Active_opens
  | Passive_opens
  | Curr_estab
  | In_errs
  | In_csum_errors
  | Kcp_in_errors
  | In_pkts
  | Out_pkts
  | In_segs
  | Out_segs
  | In_bytes
  | Out_bytes
  | Retrans_segs
  | Fast_retrans_segs
  | Early_retrans_segs
  | Lost_segs
  | Repeat_segs
  | Fec_full_shard_set
  | Fec_parity_shards
  | Fec_errs
  | Fec_recovered
  | Fec_shard_set
  | Fec_shard_min
  | Ring_buffer_snd_queue
  | Ring_buffer_rcv_queue
  | Ring_buffer_snd_buffer
  | Oob_packets

definition all_fields :: "snmp_field list" where
  "all_fields =
    [Bytes_sent, Bytes_received, Max_conn, Active_opens, Passive_opens, Curr_estab,
     In_errs, In_csum_errors, Kcp_in_errors, In_pkts, Out_pkts, In_segs, Out_segs,
     In_bytes, Out_bytes, Retrans_segs, Fast_retrans_segs, Early_retrans_segs, Lost_segs,
     Repeat_segs, Fec_full_shard_set, Fec_parity_shards, Fec_errs, Fec_recovered,
     Fec_shard_set, Fec_shard_min, Ring_buffer_snd_queue, Ring_buffer_rcv_queue,
     Ring_buffer_snd_buffer, Oob_packets]"

definition field_names :: "string list" where
  "field_names =
    [''BytesSent'', ''BytesReceived'', ''MaxConn'', ''ActiveOpens'', ''PassiveOpens'',
     ''CurrEstab'', ''InErrs'', ''InCsumErrors'', ''KCPInErrors'', ''InPkts'', ''OutPkts'',
     ''InSegs'', ''OutSegs'', ''InBytes'', ''OutBytes'', ''RetransSegs'',
     ''FastRetransSegs'', ''EarlyRetransSegs'', ''LostSegs'', ''RepeatSegs'',
     ''FECFullShards'', ''FECParityShards'', ''FECErrs'', ''FECRecovered'',
     ''FECShardSet'', ''FECShardMin'', ''RingBufferSndQueue'', ''RingBufferRcvQueue'',
     ''RingBufferSndBuffer'', ''OOBPackets'']"

text \<open>\<open>index_of\<close> is the position of an enumerator, \<open>SnmpStorage\<close> the array of counters.\<close>

type_synonym snmp = "snmp_field \<Rightarrow> u64"

definition index_of :: "snmp_field \<Rightarrow> nat" where
  "index_of f = length (takeWhile (\<lambda>g. g \<noteq> f) all_fields)"

definition empty_snmp :: snmp where
  "empty_snmp = (\<lambda>_. 0)"

definition snmp_add :: "snmp_field \<Rightarrow> u64 \<Rightarrow> snmp \<Rightarrow> snmp" where
  "snmp_add f v s = s(f := s f + v)"

definition snmp_store :: "snmp_field \<Rightarrow> u64 \<Rightarrow> snmp \<Rightarrow> snmp" where
  "snmp_store f v s = s(f := v)"

text \<open>Without interference each compare-exchange loop runs its body at most once.\<close>

definition snmp_connection_open :: "bool \<Rightarrow> snmp \<Rightarrow> snmp" where
  "snmp_connection_open active s =
     (let s = snmp_add (if active then Active_opens else Passive_opens) 1 s;
          current = s Curr_estab + 1;
          s = snmp_add Curr_estab 1 s;
          observed = s Max_conn
      in if current > observed then snmp_store Max_conn current s else s)"

definition snmp_connection_close :: "snmp \<Rightarrow> snmp" where
  "snmp_connection_close s =
     (let current = s Curr_estab
      in if current > 0 then snmp_store Curr_estab (current - 1) s else s)"

definition snmp_header :: "string list" where
  "snmp_header = field_names"

definition snmp_values :: "snmp \<Rightarrow> string list" where
  "snmp_values s = map (\<lambda>f. to_string (unat (s f))) all_fields"

lemma length_fields [simp]: "length all_fields = 30" "length field_names = 30"
  by (simp_all add: all_fields_def field_names_def)

lemma all_fields_complete: "f \<in> set all_fields"
  by (cases f) (simp_all add: all_fields_def)

lemma nth_index_of: "all_fields ! index_of f = f" and index_of_less: "index_of f < 30"
proof -
  obtain ys zs where "all_fields = ys @ f # zs" and "f \<notin> set ys"
    using all_fields_complete [of f] by (meson split_list_first)
  moreover from this have "takeWhile (\<lambda>g. g \<noteq> f) all_fields = ys"
    by (metis (mono_tags, lifting) takeWhile.simps(2) takeWhile_append2 append_Nil2)
  ultimately have "index_of f < length all_fields"
    unfolding index_of_def by (metis length_append length_Cons less_add_Suc1 add_Suc_right)
  then show "index_of f < 30" by simp
  show "all_fields ! index_of f = f"
    using nth_length_takeWhile [of "\<lambda>g. g \<noteq> f" all_fields] \<open>index_of f < length all_fields\<close>
    by (simp add: index_of_def)
qed

lemma snmp_values_nth: "snmp_values s ! index_of f = to_string (unat (s f))"
  by (simp add: snmp_values_def index_of_less nth_index_of)

lemma length_snmp_values [simp]: "length (snmp_values s) = length snmp_header"
  by (simp add: snmp_values_def snmp_header_def)

lemma snmp_apply [simp]:
  "snmp_add f v s g = (if g = f then s f + v else s g)"
  "snmp_store f v s g = (if g = f then v else s g)"
  by (simp_all add: snmp_add_def snmp_store_def)

section \<open>Reports\<close>

definition snmp_json :: "snmp \<Rightarrow> string" where
  "snmp_json s =
     ''{'' @
     foldl (\<lambda>os i. os @ (if i \<noteq> 0 then '','' else []) @
         [CHR 0x22] @ field_names ! i @ [CHR 0x22] @ '':'' @ snmp_values s ! i)
       [] [0..<length field_names] @
     ''}''"

definition go_time_path_to_strftime :: "string \<Rightarrow> string" where
  "go_time_path_to_strftime path =
     (let path = replace_all path ''2006'' ''%Y'';
          path = replace_all path ''06'' ''%y'';
          path = replace_all path ''01'' ''%m'';
          path = replace_all path ''02'' ''%d'';
          path = replace_all path ''15'' ''%H'';
          path = replace_all path ''04'' ''%M'';
          path = replace_all path ''05'' ''%S''
      in path)"

definition format_time_path :: "(string \<Rightarrow> string) \<Rightarrow> string \<Rightarrow> string" where
  "format_time_path put_time path = put_time (go_time_path_to_strftime path)"

text \<open>
  \<open>write_csv_record\<close>. The clock and \<open>std::put_time\<close> are the parameters \<open>put_time\<close>
  (format string to text) and \<open>unix\<close>; the file system is a map from paths to contents,
  and \<open>writable\<close> says which paths \<open>std::ofstream\<close> opens.
\<close>

definition comma_line :: "string \<Rightarrow> string list \<Rightarrow> string" where
  "comma_line first cols = foldl (\<lambda>line c. line @ '','' @ c) first cols @ [CHR 0x0A]"

definition write_csv_record ::
  "(string \<Rightarrow> string) \<Rightarrow> nat \<Rightarrow> (string \<Rightarrow> bool) \<Rightarrow> string \<Rightarrow> snmp \<Rightarrow>
     (string \<rightharpoonup> string) \<Rightarrow> (string \<rightharpoonup> string) result" where
  "write_csv_record put_time unix writable path s fs =
     (let formatted_path = format_time_path put_time path;
          write_header = (case fs formatted_path of None \<Rightarrow> True | Some c \<Rightarrow> c = [])
      in if \<not> writable formatted_path then
           Inl (Runtime_error (''failed to open snmp log: '' @ formatted_path))
         else
           Inr (fs(formatted_path \<mapsto>
             (case fs formatted_path of None \<Rightarrow> [] | Some c \<Rightarrow> c) @
             (if write_header then comma_line ''Unix'' field_names else []) @
             comma_line (to_string unix) (snmp_values s))))"

text \<open>\<open>start_snmp_logger\<close> starts a logger only for a path and a positive interval.\<close>

definition start_snmp_logger :: "string \<Rightarrow> int \<Rightarrow> (string \<times> int) option" where
  "start_snmp_logger path interval_seconds =
     (if path = [] \<or> interval_seconds \<le> 0 then None else Some (path, interval_seconds))"

text \<open>Splitting a line at its commas, and a file at its newlines.\<close>

definition split_on :: "char \<Rightarrow> string \<Rightarrow> string list" where
  "split_on sep line =
     foldr (\<lambda>c cols. if c = sep then [] # cols else (c # hd cols) # tl cols) line [[]]"

lemma split_on_append:
  "sep \<notin> set x \<Longrightarrow> split_on sep (x @ sep # rest) = x # split_on sep rest"
  by (induction x) (auto simp: split_on_def)

lemma split_on_none: "sep \<notin> set x \<Longrightarrow> split_on sep x = [x]"
  by (induction x) (auto simp: split_on_def)

lemma comma_line_append:
  "comma_line first cols = first @ concat (map (\<lambda>c. CHR '','' # c) cols) @ [CHR 0x0A]"
proof -
  have "foldl (\<lambda>line c. line @ '','' @ c) first cols = first @ concat (map (\<lambda>c. CHR '','' # c) cols)"
    by (induction cols arbitrary: first) auto
  then show ?thesis by (simp add: comma_line_def)
qed

lemma split_comma_line:
  assumes "\<forall>c \<in> set (first # cols). CHR '','' \<notin> set c"
  shows "split_on CHR '','' (butlast (comma_line first cols)) = first # cols"
  using assms
proof (induction cols arbitrary: first)
  case Nil
  then show ?case by (simp add: comma_line_append butlast_append split_on_none)
next
  case (Cons c cols)
  from Cons.IH [of c] Cons.prems
  have "split_on CHR '','' (c @ concat (map (\<lambda>c. CHR '','' # c) cols)) = c # cols"
    by (simp add: comma_line_append butlast_append)
  with Cons.prems show ?case
    by (simp add: comma_line_append butlast_append split_on_append)
qed

lemma digit_not_sep: "is_digit c \<Longrightarrow> c \<noteq> CHR '','' \<and> c \<noteq> CHR 0x0A"
  by (auto simp: is_digit_def)

lemma snmp_values_plain: "c \<in> set (snmp_values s) \<Longrightarrow> CHR '','' \<notin> set c \<and> CHR 0x0A \<notin> set c"
  using digit_not_sep to_string_digits by (fastforce simp: snmp_values_def)

lemma to_string_plain: "CHR '','' \<notin> set (to_string n)" "CHR 0x0A \<notin> set (to_string n)"
  using digit_not_sep to_string_digits by blast+

lemma field_names_plain: "c \<in> set field_names \<Longrightarrow> CHR '','' \<notin> set c \<and> CHR 0x0A \<notin> set c"
  by (auto simp: field_names_def)

lemma json_body:
  "foldl (\<lambda>os i. os @ (if i \<noteq> 0 then '','' else []) @ f i) [] [0..<n] =
     concat (map (\<lambda>i. (if i \<noteq> 0 then '','' else []) @ f i) [0..<n])"
  for n :: nat
  by (induction n) auto

section \<open>The gauge under concurrency\<close>

text \<open>
  The atomic accesses of \<open>snmp_connection_open\<close> and \<open>snmp_connection_close\<close>, one step
  each, for any number of threads interleaved in any order. \<open>compare_exchange_weak\<close> may
  fail spuriously, so a retry is possible even when the expected value is still there;
  a retry loads the current value, and is taken only while the loop condition holds.
  \<open>peak\<close> is a history variable: the largest value the gauge ever had.
\<close>

datatype thread =
    Idle
  | Open_begin bool
  | Open_fetch
  | Open_load u64
  | Open_cas u64 u64
  | Close_load
  | Close_cas u64

inductive thread_step :: "snmp \<times> u64 \<times> thread \<Rightarrow> snmp \<times> u64 \<times> thread \<Rightarrow> bool" where
  call_open: "thread_step (c, pk, Idle) (c, pk, Open_begin active)"
| call_close: "thread_step (c, pk, Idle) (c, pk, Close_load)"
| count_open: "thread_step (c, pk, Open_begin active)
     (snmp_add (if active then Active_opens else Passive_opens) 1 c, pk, Open_fetch)"
| fetch_add: "thread_step (c, pk, Open_fetch)
     (snmp_add Curr_estab 1 c, max pk (c Curr_estab + 1), Open_load (c Curr_estab + 1))"
| load_max: "thread_step (c, pk, Open_load current) (c, pk, Open_cas current (c Max_conn))"
| open_leave: "\<not> current > observed \<Longrightarrow>
     thread_step (c, pk, Open_cas current observed) (c, pk, Idle)"
| open_swap: "current > observed \<Longrightarrow> c Max_conn = observed \<Longrightarrow>
     thread_step (c, pk, Open_cas current observed) (snmp_store Max_conn current c, pk, Idle)"
| open_retry: "current > observed \<Longrightarrow>
     thread_step (c, pk, Open_cas current observed) (c, pk, Open_cas current (c Max_conn))"
| load_curr: "thread_step (c, pk, Close_load) (c, pk, Close_cas (c Curr_estab))"
| close_leave: "\<not> current > 0 \<Longrightarrow> thread_step (c, pk, Close_cas current) (c, pk, Idle)"
| close_swap: "current > 0 \<Longrightarrow> c Curr_estab = current \<Longrightarrow>
     thread_step (c, pk, Close_cas current) (snmp_store Curr_estab (current - 1) c, pk, Idle)"
| close_retry: "current > 0 \<Longrightarrow>
     thread_step (c, pk, Close_cas current) (c, pk, Close_cas (c Curr_estab))"

inductive gauge_step :: "snmp \<times> u64 \<times> thread list \<Rightarrow> snmp \<times> u64 \<times> thread list \<Rightarrow> bool" where
  interleave: "thread_step (c, pk, t) (c', pk', t') \<Longrightarrow>
     gauge_step (c, pk, xs @ t # ys) (c', pk', xs @ t' # ys)"

inductive gauge_run :: "nat \<Rightarrow> snmp \<times> u64 \<times> thread list \<Rightarrow> bool" for n where
  start: "gauge_run n (empty_snmp, 0, replicate n Idle)"
| go: "gauge_run n s \<Longrightarrow> gauge_step s s' \<Longrightarrow> gauge_run n s'"

inductive_cases gauge_stepE: "gauge_step (c, pk, ts) s'"
inductive_cases thread_stepE: "thread_step (c, pk, t) (c', pk', t')"

fun pending :: "thread \<Rightarrow> u64 set" where
  "pending (Open_load current) = {current}"
| "pending (Open_cas current observed) = {current}"
| "pending _ = {}"

fun observed_ok :: "u64 \<Rightarrow> thread \<Rightarrow> bool" where
  "observed_ok m (Open_cas current observed) \<longleftrightarrow> observed \<le> m"
| "observed_ok m _ \<longleftrightarrow> True"

text \<open>
  The peak is the largest of the stored maximum and the values that the threads inside
  \<open>snmp_connection_open\<close> still have to store.
\<close>

definition gauge_inv :: "snmp \<times> u64 \<times> thread list \<Rightarrow> bool" where
  "gauge_inv s =
     (case s of (c, pk, ts) \<Rightarrow>
        let outstanding = insert (c Max_conn) (\<Union>t\<in>set ts. pending t)
        in c Curr_estab \<le> pk \<and> pk \<in> outstanding \<and> (\<forall>x\<in>outstanding. x \<le> pk) \<and>
           (\<forall>t\<in>set ts. observed_ok (c Max_conn) t))"

lemma observed_ok_mono: "observed_ok m t \<Longrightarrow> m \<le> m' \<Longrightarrow> observed_ok m' t"
  by (cases t) auto

lemma word_pred_le: "0 < (x :: 'a::len word) \<Longrightarrow> x - 1 \<le> x"
  by uint_arith

lemma gauge_inv_step:
  assumes "thread_step (c, pk, t) (c', pk', t')" and "gauge_inv (c, pk, xs @ t # ys)"
  shows "gauge_inv (c', pk', xs @ t' # ys)"
  using assms
  by (elim thread_stepE)
    (auto simp: gauge_inv_def Let_def max_def 
      intro: word_pred_le order_trans observed_ok_mono [OF _ less_imp_le])

lemma gauge_inv_run: "gauge_run n s \<Longrightarrow> gauge_inv s"
proof (induction rule: gauge_run.induct)
  case start
  show ?case by (simp add: gauge_inv_def Let_def empty_snmp_def)
next
  case (go s s')
  from go(2) obtain c pk t xs ys c' pk' t' where
    "s = (c, pk, xs @ t # ys)" "s' = (c', pk', xs @ t' # ys)" "thread_step (c, pk, t) (c', pk', t')"
    by (cases rule: gauge_step.cases) auto
  with go(3) show ?case using gauge_inv_step by blast
qed

section \<open>Properties\<close>

lemma json_concat:
  "snmp_json s =
     ''{'' @ concat (map (\<lambda>i. (if i \<noteq> 0 then '','' else []) @
         CHR 0x22 # field_names ! i @ CHR 0x22 # CHR '':'' # snmp_values s ! i) [0..<30]) @ ''}''"
  unfolding snmp_json_def json_body by simp

text \<open>After any interleaving of any number of threads that open and close
  connections, once no thread is inside an operation, \<open>MaxConn\<close> is exactly the largest
  value the gauge \<open>CurrEstab\<close> ever had, and the gauge is at most that (it never
  underflows).\<close>

theorem gauge_high_water:
  assumes "gauge_run n (c, pk, ts)" and "\<forall>t\<in>set ts. t = Idle"
  shows "c Max_conn = pk \<and> c Curr_estab \<le> c Max_conn"
proof -
  have "gauge_inv (c, pk, ts)" using gauge_inv_run assms(1) by blast
  with assms(2) show ?thesis by (auto simp: gauge_inv_def Let_def)
qed

lemma one_open_run:
  "gauge_run 1 (snmp_store Max_conn 1 (snmp_add Curr_estab 1 (snmp_add Active_opens 1 empty_snmp)),
     1, [Idle])"
proof -
  let ?a = "snmp_add Active_opens 1 empty_snmp"
  let ?b = "snmp_add Curr_estab 1 ?a"
  note go1 = gauge_run.go [OF _ interleave [where xs = "[]" and ys = "[]", simplified]]
  have "gauge_run 1 (empty_snmp, 0, [Idle])" using gauge_run.start [of 1] by simp
  from go1 [OF this call_open [of _ _ True]]
  have "gauge_run 1 (empty_snmp, 0, [Open_begin True])" .
  from go1 [OF this count_open] have "gauge_run 1 (?a, 0, [Open_fetch])" by simp
  from go1 [OF this fetch_add] have "gauge_run 1 (?b, 1, [Open_load 1])"
    by (simp add: empty_snmp_def max_def)
  from go1 [OF this load_max] have "gauge_run 1 (?b, 1, [Open_cas 1 0])"
    by (simp add: empty_snmp_def)
  from go1 [OF this open_swap] show ?thesis by (simp add: empty_snmp_def)
qed

lemma gauge_high_water_witness:
  "\<exists>c. gauge_run 1 (c, 1, [Idle]) \<and> c Max_conn = 1 \<and> c Curr_estab \<le> c Max_conn"
proof (intro exI conjI)
  show "gauge_run 1 (snmp_store Max_conn 1 (snmp_add Curr_estab 1
      (snmp_add Active_opens 1 empty_snmp)), 1, [Idle])" by (rule one_open_run)
qed (use gauge_high_water [OF one_open_run] in simp_all)

definition csv_log ::
  "(string \<Rightarrow> string) \<Rightarrow> string \<Rightarrow> (nat \<times> snmp) list \<Rightarrow> (string \<rightharpoonup> string) \<Rightarrow> (string \<rightharpoonup> string) result" where
  "csv_log put_time path recs fs =
     foldl (\<lambda>r (unix, s). case r of Inl e \<Rightarrow> Inl e
              | Inr fs \<Rightarrow> write_csv_record put_time unix (\<lambda>_. True) path s fs) (Inr fs) recs"

lemma csv_log_content:
  assumes "fs (put_time (go_time_path_to_strftime path)) = None" and "recs \<noteq> []"
  shows "\<exists>fs'. csv_log put_time path recs fs = Inr fs' \<and>
           fs' (put_time (go_time_path_to_strftime path)) =
             Some (comma_line ''Unix'' snmp_header @
               concat (map (\<lambda>(unix, s). comma_line (to_string unix) (snmp_values s)) recs))"
  using assms(2)
proof (induction recs rule: rev_induct)
  case (snoc r recs)
  show ?case
  proof (cases "recs = []")
    case True
    then show ?thesis using assms(1)
      by (cases r) (simp add: csv_log_def write_csv_record_def format_time_path_def Let_def snmp_header_def)
  next
    case False
    with snoc.IH show ?thesis
      by (cases r) (auto simp: csv_log_def write_csv_record_def format_time_path_def Let_def comma_line_def)
  qed
qed simp

lemma split_lines:
  "\<forall>l \<in> set ls. CHR 0x0A \<notin> set l \<Longrightarrow> split_on CHR 0x0A (concat (map (\<lambda>l. l @ [CHR 0x0A]) ls)) = ls @ [[]]"
proof (induction ls)
  case Nil
  show ?case by (simp add: split_on_def)
qed (simp add: split_on_append)

lemma comma_line_row:
  assumes "\<forall>c \<in> set (first # cols). CHR '','' \<notin> set c \<and> CHR 0x0A \<notin> set c"
  shows "\<exists>l. comma_line first cols = l @ [CHR 0x0A] \<and> CHR 0x0A \<notin> set l \<and>
           split_on CHR '','' l = first # cols"
proof -
  let ?l = "first @ concat (map (\<lambda>c. CHR '','' # c) cols)"
  have "comma_line first cols = ?l @ [CHR 0x0A]" by (simp add: comma_line_append)
  moreover have "split_on CHR '','' ?l = first # cols"
    using split_comma_line [of first cols] assms by (simp add: comma_line_append butlast_append)
  moreover have "CHR 0x0A \<notin> set ?l" using assms by auto
  ultimately show ?thesis by blast
qed

text \<open>A CSV log that starts empty holds, after any number of records with any
  counter values, the header line once and then one line per record; each line splits at
  its commas into the 31 columns the header announces.\<close>

theorem csv_log_rows:
  assumes "fs (put_time (go_time_path_to_strftime path)) = None" and "recs \<noteq> []"
  shows "\<exists>fs' text. csv_log put_time path recs fs = Inr fs' \<and>
           fs' (put_time (go_time_path_to_strftime path)) = Some text \<and>
           map (split_on CHR '','') (split_on CHR 0x0A text) =
             (''Unix'' # snmp_header) # map (\<lambda>(unix, s). to_string unix # snmp_values s) recs @ [[[]]]"
proof -
  let ?row = "\<lambda>l r. comma_line (fst r) (snd r) = l @ [CHR 0x0A] \<and> CHR 0x0A \<notin> set l \<and>
    split_on CHR '','' l = fst r # snd r"
  define rows where "rows = (''Unix'', snmp_header) # map (\<lambda>(unix, s). (to_string unix, snmp_values s)) recs"
  have header: "\<exists>l. ?row l (''Unix'', snmp_header)"
    using comma_line_row [of "''Unix''" snmp_header] field_names_plain by (simp add: snmp_header_def)
  have "\<exists>l. ?row l (to_string unix, snmp_values s)" for unix s
    using comma_line_row [of "to_string unix" "snmp_values s"] to_string_plain snmp_values_plain by simp
  with header have "\<forall>r \<in> set rows. \<exists>l. ?row l r" by (auto simp: rows_def)
  then obtain line where line: "\<forall>r \<in> set rows. ?row (line r) r" by metis
  have "comma_line ''Unix'' snmp_header @
      concat (map (\<lambda>(unix, s). comma_line (to_string unix) (snmp_values s)) recs) =
    concat (map (\<lambda>l. l @ [CHR 0x0A]) (map line rows))"
    using line by (auto simp: rows_def comp_def split_def intro!: arg_cong [of _ _ concat])
  moreover have "map (split_on CHR '','') (map line rows) = map (\<lambda>r. fst r # snd r) rows"
    using line by simp
  moreover have "split_on CHR 0x0A (concat (map (\<lambda>l. l @ [CHR 0x0A]) (map line rows))) = map line rows @ [[]]"
    using line by (intro split_lines) auto
  ultimately show ?thesis
    using csv_log_content [of fs put_time path recs, OF assms]
    by (auto simp: rows_def comp_def split_def split_on_def [of _ "[]"])
qed

lemma csv_log_rows_witness:
  "\<exists>fs' text. csv_log (\<lambda>p. p) ''stat.csv'' [(7, empty_snmp), (67, empty_snmp)] (\<lambda>_. None) = Inr fs' \<and>
     fs' (go_time_path_to_strftime ''stat.csv'') = Some text \<and>
     length (split_on CHR 0x0A text) = 4"
  using csv_log_rows [of "\<lambda>_. None" "\<lambda>p. p" "''stat.csv''" "[(7, empty_snmp), (67, empty_snmp)]"]
  by (auto dest!: arg_cong [of _ _ length])

end
