(* ===== verification/Base_Config.thy ===== *)
theory Base_Config
  imports Prelude
begin

text \<open>
  The configuration structs of \<open>config.hpp\<close>. \<open>BaseConfig\<close> is a record, and its two
  subclasses are record extensions. An \<open>int\<close> field is an \<open>int\<close> in the range of the C++
  type (\<open>int_range\<close>), so arithmetic on fields says where it would overflow.
\<close>

definition int_range :: "int \<Rightarrow> bool" where
  "int_range n \<longleftrightarrow> - (2 ^ 31) \<le> n \<and> n < 2 ^ 31"

text \<open>\<open>int\<close> addition: an overflow has no defined behaviour.\<close>

definition int_add :: "int \<Rightarrow> int \<Rightarrow> int result" where
  "int_add a b = (if int_range (a + b) then Inr (a + b) else Inl Undefined_behaviour)"

record base_config =
  cfg_key :: string
  cfg_crypt :: string
  cfg_mode :: string
  cfg_mtu :: int
  cfg_ratelimit :: int
  cfg_sndwnd :: int
  cfg_rcvwnd :: int
  cfg_datashard :: int
  cfg_parityshard :: int
  cfg_dscp :: int
  cfg_nocomp :: bool
  cfg_acknodelay :: bool
  cfg_nodelay :: int
  cfg_interval :: int
  cfg_resend :: int
  cfg_nc :: int
  cfg_sockbuf :: int
  cfg_smuxver :: int
  cfg_smuxbuf :: int
  cfg_framesize :: int
  cfg_streambuf :: int
  cfg_keepalive :: int
  cfg_closewait :: int
  cfg_snmplog :: string
  cfg_snmpperiod :: int
  cfg_log :: string
  cfg_loglevel :: string
  cfg_quiet :: bool
  cfg_tcp :: bool
  cfg_pprof :: bool
  cfg_qpp :: bool
  cfg_qpp_count :: int

record client_config = base_config +
  cfg_localaddr :: string
  cfg_remoteaddr :: string
  cfg_conn :: int
  cfg_autoexpire :: int
  cfg_scavengettl :: int

record server_config = base_config +
  cfg_listen :: string
  cfg_target :: string

text \<open>The default member initialisers.\<close>

definition base_defaults :: "'a \<Rightarrow> 'a base_config_scheme" where
  "base_defaults derived =
     \<lparr> cfg_key = ''it'' @ [CHR 0x27] @ ''s a secrect'', cfg_crypt = ''aes'', cfg_mode = ''fast'',
       cfg_mtu = 1350, cfg_ratelimit = 0, cfg_sndwnd = 128, cfg_rcvwnd = 512,
       cfg_datashard = 10, cfg_parityshard = 3, cfg_dscp = 0, cfg_nocomp = False,
       cfg_acknodelay = False, cfg_nodelay = 0, cfg_interval = 50, cfg_resend = 0, cfg_nc = 0,
       cfg_sockbuf = 4 * 1024 * 1024, cfg_smuxver = 2, cfg_smuxbuf = 4 * 1024 * 1024,
       cfg_framesize = 8192, cfg_streambuf = 2 * 1024 * 1024, cfg_keepalive = 10,
       cfg_closewait = 0, cfg_snmplog = [], cfg_snmpperiod = 60, cfg_log = [],
       cfg_loglevel = ''info'', cfg_quiet = False, cfg_tcp = False, cfg_pprof = False,
       cfg_qpp = False, cfg_qpp_count = 61, \<dots> = derived \<rparr>"

text \<open>The constructors \<open>ClientConfig()\<close> and \<open>ServerConfig()\<close> override some of them.\<close>

definition default_client_config :: client_config where
  "default_client_config =
     (base_defaults
       \<lparr> cfg_localaddr = '':12948'', cfg_remoteaddr = ''vps:29900'', cfg_conn = 1,
         cfg_autoexpire = 0, cfg_scavengettl = 600 \<rparr>)
     \<lparr> cfg_sndwnd := 128, cfg_rcvwnd := 512, cfg_closewait := 0 \<rparr>"

definition default_server_config :: server_config where
  "default_server_config =
     (base_defaults \<lparr> cfg_listen = '':29900'', cfg_target = ''127.0.0.1:12948'' \<rparr>)
     \<lparr> cfg_sndwnd := 1024, cfg_rcvwnd := 1024, cfg_closewait := 30 \<rparr>"

end
