(* ===== verification/Galois.thy ===== *)
theory Galois
  imports Prelude
begin

text \<open>
  The arithmetic of GF(256) that the Reed-Solomon code of \<open>fec.cpp\<close> computes with
  (\<open>gf_mul\<close>, \<open>gf_pow\<close>, \<open>gf_inv\<close>), translated loop by loop, and the proof that these
  byte operations are those of a field: the type \<open>gf256\<close> wraps a byte, its class
  operations are the code's functions, and the class axioms are theorems about the code.
\<close>

unbundle bit_operations_syntax

section \<open>The code\<close>

text \<open>One doubling of \<open>a\<close> in the loop of \<open>gf_mul\<close>: shift, then reduce by 0x1d on carry.\<close>

definition gf_double :: "byte \<Rightarrow> byte" where
  "gf_double a =
     (let carry = a AND 0x80 \<noteq> 0; a = push_bit 1 a in if carry then a XOR 0x1d else a)"

lemma unat_shift1: "unat (drop_bit 1 b) = unat (b :: byte) div 2"
  by (simp add: drop_bit_eq_div unat_div)

text \<open>The loop \<open>while (b != 0)\<close>; it ends because \<open>b\<close> is shifted right.\<close>

function gf_mul_loop :: "byte \<Rightarrow> byte \<Rightarrow> byte \<Rightarrow> byte" where
  "gf_mul_loop a b result =
     (if b \<noteq> 0
      then gf_mul_loop (gf_double a) (drop_bit 1 b)
             (if b AND 1 \<noteq> 0 then result XOR a else result)
      else result)"
  by pat_completeness auto
termination
proof (relation "measure (\<lambda>(a, b, r). unat b)", goal_cases)
  case (2 a b r)
  then have "0 < unat b" by (simp add: unat_gt_0)
  then show ?case by (simp only: in_measure split_conv unat_shift1)
qed simp

declare gf_mul_loop.simps [simp del]

definition gf_mul :: "byte \<Rightarrow> byte \<Rightarrow> byte" where
  "gf_mul a b = gf_mul_loop a b 0"

text \<open>\<open>gf_pow\<close> is only called with a power that is not negative.\<close>

fun gf_pow :: "byte \<Rightarrow> nat \<Rightarrow> byte" where
  "gf_pow x 0 = 1"
| "gf_pow x (Suc n) = gf_mul (gf_pow x n) x"

definition gf_inv :: "byte \<Rightarrow> byte result" where
  "gf_inv x =
     (if x = 0 then Inl (Runtime_error ''cannot invert zero in GF(256)'')
      else Inr (gf_pow x 254))"

section \<open>The product is bilinear\<close>

text \<open>\<open>gf_scale n a b\<close> adds the doubled \<open>a\<close> for each of the low \<open>n\<close> bits of \<open>b\<close>.\<close>

fun gf_scale :: "nat \<Rightarrow> byte \<Rightarrow> byte \<Rightarrow> byte" where
  "gf_scale 0 a b = 0"
| "gf_scale (Suc n) a b =
     (if bit b 0 then a else 0) XOR gf_scale n (gf_double a) (drop_bit 1 b)"

lemma bit0_iff: "b AND 1 \<noteq> 0 \<longleftrightarrow> bit (b :: byte) 0"
  by (simp add: and_one_eq bit_0 odd_iff_mod_2_eq_one)

lemma gf_scale_zero [simp]: "gf_scale n a 0 = 0"
  by (induction n arbitrary: a) auto

lemma gf_mul_loop_scale: "unat b < 2 ^ n \<Longrightarrow> gf_mul_loop a b r = r XOR gf_scale n a b"
proof (induction n arbitrary: a b r)
  case 0
  then show ?case by (simp add: gf_mul_loop.simps unat_eq_zero)
next
  case (Suc n)
  have "unat (drop_bit 1 b) < 2 ^ n"
    using Suc.prems by (simp only: unat_shift1) (simp add: less_mult_imp_div_less)
  then show ?case
    using Suc.IH by (subst gf_mul_loop.simps) (auto simp: bit0_iff xor.assoc)
qed

lemma gf_mul_scale: "gf_mul a b = gf_scale 8 a b"
  using gf_mul_loop_scale [of b 8 a 0] by (simp add: gf_mul_def)

lemma gf_double_alt: "gf_double a = (push_bit 1 a) XOR (if bit a 7 then 0x1d else 0)"
  using and_exp_eq_0_iff_not_bit [of a 7] by (simp add: gf_double_def Let_def)

lemma gf_double_xor: "gf_double (a XOR b) = gf_double a XOR gf_double b"
  by (simp add: gf_double_alt push_bit_xor bit_xor_iff ac_simps)

lemma gf_double_0 [simp]: "gf_double 0 = 0"
  by (simp add: gf_double_alt)

lemma gf_scale_xor_left: "gf_scale n (a XOR b) c = gf_scale n a c XOR gf_scale n b c"
  by (induction n arbitrary: a b c) (auto simp: gf_double_xor ac_simps)

lemma gf_scale_0_left [simp]: "gf_scale n 0 c = 0"
  by (induction n arbitrary: c) auto

lemma gf_scale_xor_right: "gf_scale n a (b XOR c) = gf_scale n a b XOR gf_scale n a c"
  by (induction n arbitrary: a b c) (auto simp: bit_xor_iff drop_bit_xor ac_simps)

lemma gf_mul_xor_left: "gf_mul (a XOR b) c = gf_mul a c XOR gf_mul b c"
  by (simp add: gf_mul_scale gf_scale_xor_left)

lemma gf_mul_xor_right: "gf_mul a (b XOR c) = gf_mul a b XOR gf_mul a c"
  by (simp add: gf_mul_scale gf_scale_xor_right)

lemma gf_mul_0 [simp]: "gf_mul 0 a = 0" "gf_mul a 0 = 0"
  by (simp_all add: gf_mul_scale)

section \<open>Reduction to the eight basis bytes\<close>

text \<open>A property that holds of the eight powers of two and is kept by XOR holds of every byte.\<close>

lemma byte_basis_induct [case_names zero basis xor]:
  assumes zero: "P 0" and basis: "\<And>i. i < 8 \<Longrightarrow> P (push_bit i (1 :: byte))"
    and xor: "\<And>a b. P a \<Longrightarrow> P b \<Longrightarrow> P (a XOR b)"
  shows "P a"
proof -
  have "P (take_bit n a)" if "n \<le> 8" for n
    using that
  proof (induction n)
    case 0
    then show ?case by (simp add: zero)
  next
    case (Suc n)
    have "take_bit (Suc n) a = take_bit n a XOR (if bit a n then push_bit n 1 else 0)"
      by (rule bit_word_eqI) (auto simp: bit_simps less_Suc_eq)
    then show ?case using Suc basis [of n] xor by (cases "bit a n") auto
  qed
  from this [of 8] show ?thesis by (simp add: take_bit_word_eq_self)
qed

text \<open>Doubling is multiplication by two on either side of a product.\<close>

lemma gf_double_scale: "gf_double (gf_scale n a b) = gf_scale n (gf_double a) b"
  by (induction n arbitrary: a b) (auto simp: gf_double_xor)

lemma gf_double_mul: "gf_double (gf_mul a b) = gf_mul (gf_double a) b"
  by (simp add: gf_mul_scale gf_double_scale)

lemma gf_mul_comm_basis:
  "list_all (\<lambda>i. list_all (\<lambda>j.
     gf_mul (push_bit i 1) (push_bit j 1) = gf_mul (push_bit j 1) (push_bit i 1)) [0..<8]) [0..<8]"
  by code_simp

lemma gf_mul_comm: "gf_mul a b = gf_mul b a"
proof (induction a rule: byte_basis_induct)
  case zero
  show ?case by simp
next
  case (basis i)
  show ?case
  proof (induction b rule: byte_basis_induct)
    case zero
    show ?case by simp
  next
    case (basis j)
    with \<open>i < 8\<close> gf_mul_comm_basis show ?case by (simp only: list_all_iff) simp
  next
    case (xor a b)
    then show ?case by (simp add: gf_mul_xor_left gf_mul_xor_right)
  qed
next
  case (xor a b)
  then show ?case by (simp add: gf_mul_xor_left gf_mul_xor_right)
qed

lemma gf_double_mul_right: "gf_double (gf_mul a b) = gf_mul a (gf_double b)"
  by (metis gf_double_mul gf_mul_comm)

lemma gf_scale_mul: "gf_scale n (gf_mul a b) c = gf_mul a (gf_scale n b c)"
  by (induction n arbitrary: b c) (auto simp: gf_mul_xor_right gf_double_mul_right)

lemma gf_mul_assoc: "gf_mul (gf_mul a b) c = gf_mul a (gf_mul b c)"
  by (simp add: gf_mul_scale [of _ c] gf_scale_mul)

lemma gf_scale_one: "gf_scale (Suc n) a 1 = a"
  by simp

lemma gf_mul_1 [simp]: "gf_mul a 1 = a" "gf_mul 1 a = a"
proof -
  show "gf_mul a 1 = a" using gf_scale_one [of 7 a] by (simp add: gf_mul_scale)
  then show "gf_mul 1 a = a" by (simp add: gf_mul_comm)
qed

section \<open>Every nonzero byte is invertible\<close>

lemma gf_pow_add: "gf_pow a (m + n) = gf_mul (gf_pow a m) (gf_pow a n)"
  by (induction n) (auto simp: gf_mul_assoc)

definition gf_square :: "byte \<Rightarrow> byte" where
  "gf_square a = gf_mul a a"

lemma gf_pow_double: "gf_pow a (2 * n) = gf_square (gf_pow a n)"
  by (simp add: gf_pow_add mult_2 gf_square_def)

text \<open>
  Squaring is a ring homomorphism, so its eighth iterate is the identity on every byte
  once it maps 2, a generator of all basis bytes, to itself.
\<close>

lemma gf_square_xor: "gf_square (a XOR b) = gf_square a XOR gf_square b"
proof -
  have "gf_square (a XOR b) = (gf_square a XOR gf_square b) XOR (gf_mul a b XOR gf_mul b a)"
    by (simp add: gf_square_def gf_mul_xor_left gf_mul_xor_right ac_simps)
  then show ?thesis by (simp add: gf_mul_comm)
qed

lemma gf_square_mul: "gf_square (gf_mul a b) = gf_mul (gf_square a) (gf_square b)"
  unfolding gf_square_def by (metis gf_mul_assoc gf_mul_comm)

lemma gf_square_0 [simp]: "gf_square 0 = 0"
  by (simp add: gf_square_def)

lemma gf_square_1 [simp]: "gf_square 1 = 1"
  by (simp add: gf_square_def)

lemmas gf_eval = gf_mul_def gf_mul_loop.simps gf_double_def Let_def

lemma gf_square_chain:
  "gf_square 2 = 4" "gf_square 4 = 16" "gf_square 16 = 29" "gf_square 29 = 76"
  "gf_square 76 = 157" "gf_square 157 = 95" "gf_square 95 = 133" "gf_square 133 = 2"
  by (simp_all add: gf_square_def gf_eval)

lemma gf_iterate_mul: "(gf_square ^^ n) (gf_mul a b) = gf_mul ((gf_square ^^ n) a) ((gf_square ^^ n) b)"
  by (induction n) (auto simp: gf_square_mul)

lemma gf_iterate_pow: "(gf_square ^^ n) (gf_pow a k) = gf_pow ((gf_square ^^ n) a) k"
proof (induction k)
  case 0
  show ?case by (induction n) auto
qed (simp add: gf_iterate_mul)

lemma gf_iterate_xor: "(gf_square ^^ n) (a XOR b) = (gf_square ^^ n) a XOR (gf_square ^^ n) b"
  by (induction n) (auto simp: gf_square_xor)

lemma gf_mul_2: "gf_mul a 2 = gf_double a"
proof -
  have "gf_double 1 = 2" by (simp add: gf_double_def)
  then show ?thesis by (metis gf_double_mul_right gf_mul_1(1))
qed

lemma gf_basis_pow: "i < 8 \<Longrightarrow> push_bit i 1 = gf_pow 2 i"
proof (induction i)
  case 0
  then show ?case by simp
next
  case (Suc i)
  have "push_bit (Suc i) 1 = gf_double (push_bit i 1)"
    using Suc.prems by (simp add: gf_double_alt bit_simps)
  then show ?case using Suc by (simp add: gf_mul_2)
qed

lemma gf_square_8: "(gf_square ^^ 8) a = a"
proof (induction a rule: byte_basis_induct)
  case zero
  then show ?case by (simp add: numeral_eq_Suc)
next
  case (basis i)
  have "(gf_square ^^ 8) 2 = 2"
    using gf_square_chain by (simp only: numeral_nat funpow.simps o_apply id_apply)
  then show ?case using gf_basis_pow [OF basis] gf_iterate_pow [of 8 2 i] by metis
next
  case (xor a b)
  then show ?case by (simp add: gf_iterate_xor)
qed

lemma gf_pow_256: "gf_pow a 256 = a"
proof -
  have "gf_pow a (2 ^ n) = (gf_square ^^ n) a" for n
    by (induction n) (simp_all add: gf_pow_double)
  from this [of 8] show ?thesis by (simp add: gf_square_8)
qed

text \<open>An idempotent is 0 or 1: the additive map \<open>e\<^sup>2 + e\<close> has no other root.\<close>

definition gf_artin :: "byte \<Rightarrow> byte" where
  "gf_artin e = gf_square e XOR e"

lemma gf_artin_xor: "gf_artin (a XOR b) = gf_artin a XOR gf_artin b"
  by (simp add: gf_artin_def gf_square_xor ac_simps)

lemma gf_artin_basis:
  "gf_artin 1 = 0" "gf_artin 2 = 6" "gf_artin 4 = 20" "gf_artin 8 = 72"
  "gf_artin 16 = 13" "gf_artin 32 = 84" "gf_artin 64 = 141" "gf_artin 128 = 147"
  by (simp_all add: gf_artin_def gf_square_def gf_eval)

lemma bit_if_zero: "bit (if c then x else 0) n \<longleftrightarrow> c \<and> bit (x :: byte) n"
  by simp

lemma byte_bits:
  "a = (if bit a 0 then 1 else 0) XOR (if bit a 1 then 2 else 0) XOR (if bit a 2 then 4 else 0) XOR
       (if bit a 3 then 8 else 0) XOR (if bit a 4 then 16 else 0) XOR (if bit a 5 then 32 else 0) XOR
       (if bit a 6 then 64 else 0) XOR (if bit a 7 then 128 else (0 :: byte))"
proof (rule bit_word_eqI, goal_cases)
  case (1 n)
  then have "n \<in> {0, 1, 2, 3, 4, 5, 6, 7}" by auto
  then show ?case by (elim insertE emptyE; simp only: bit_xor_iff bit_if_zero; simp)
qed

lemma gf_artin_bits:
  "gf_artin a = (if bit a 1 then 6 else 0) XOR (if bit a 2 then 20 else 0) XOR
       (if bit a 3 then 72 else 0) XOR (if bit a 4 then 13 else 0) XOR (if bit a 5 then 84 else 0) XOR
       (if bit a 6 then 141 else 0) XOR (if bit a 7 then 147 else 0)"
proof -
  have zero: "gf_artin (if c then x else 0) = (if c then gf_artin x else 0)" for c x
    by (simp add: gf_artin_def)
  show ?thesis
    using arg_cong [OF byte_bits [of a], of gf_artin]
    unfolding gf_artin_xor zero gf_artin_basis if_cancel xor.left_neutral .
qed

lemma gf_idempotent:
  assumes "gf_mul e e = e"
  shows "e = 0 \<or> e = 1"
proof -
  have "gf_artin e = 0" using assms by (simp add: gf_artin_def gf_square_def)
  then have "\<not> bit e 1 \<and> \<not> bit e 2 \<and> \<not> bit e 3 \<and> \<not> bit e 4 \<and> \<not> bit e 5 \<and> \<not> bit e 6 \<and> \<not> bit e 7"
    unfolding gf_artin_bits
    by (cases "bit e 1"; cases "bit e 2"; cases "bit e 3"; cases "bit e 4"; cases "bit e 5";
        cases "bit e 6"; cases "bit e 7"; simp)
  then show ?thesis using byte_bits [of e] by (cases "bit e 0") auto
qed

lemma gf_mul_inverse:
  assumes "a \<noteq> 0"
  shows "gf_mul a (gf_pow a 254) = 1"
proof -
  let ?e = "gf_pow a 255"
  have e: "?e = gf_mul a (gf_pow a 254)" using gf_pow_add [of a 1 254] by simp
  have "gf_mul ?e ?e = gf_mul (gf_pow a 256) (gf_pow a 254)"
    by (simp flip: gf_pow_add)
  also have "\<dots> = ?e" by (simp add: gf_pow_256 e)
  finally have "?e = 0 \<or> ?e = 1" by (rule gf_idempotent)
  moreover have "a = gf_mul a ?e" using gf_pow_256 [of a] gf_pow_add [of a 1 255] by simp
  ultimately show ?thesis using assms e by auto
qed

section \<open>GF(256) as a field of the library\<close>

typedef gf256 = "UNIV :: byte set"
  morphisms gf_byte gf ..

setup_lifting type_definition_gf256

instantiation gf256 :: field
begin

lift_definition zero_gf256 :: gf256 is 0 .

lift_definition one_gf256 :: gf256 is 1 .

lift_definition plus_gf256 :: "gf256 \<Rightarrow> gf256 \<Rightarrow> gf256" is "(XOR)" .

lift_definition minus_gf256 :: "gf256 \<Rightarrow> gf256 \<Rightarrow> gf256" is "(XOR)" .

lift_definition uminus_gf256 :: "gf256 \<Rightarrow> gf256" is "\<lambda>a. a" .

lift_definition times_gf256 :: "gf256 \<Rightarrow> gf256 \<Rightarrow> gf256" is gf_mul .

lift_definition inverse_gf256 :: "gf256 \<Rightarrow> gf256" is "\<lambda>a. gf_pow a 254" .

lift_definition divide_gf256 :: "gf256 \<Rightarrow> gf256 \<Rightarrow> gf256" is "\<lambda>a b. gf_mul a (gf_pow b 254)" .

lemma gf_pow_0: "0 < n \<Longrightarrow> gf_pow 0 n = 0"
  by (cases n) auto

instance
proof
  fix a b c :: gf256
  show "a + b + c = a + (b + c)" by transfer (simp add: xor.assoc)
  show "a + b = b + a" by transfer (simp add: xor.commute)
  show "0 + a = a" by transfer simp
  show "- a + a = 0" by transfer simp
  show "a - b = a + - b" by transfer simp
  show "a * b * c = a * (b * c)" by transfer (rule gf_mul_assoc)
  show "a * b = b * a" by transfer (rule gf_mul_comm)
  show "1 * a = a" by transfer simp
  show "(a + b) * c = a * c + b * c" by transfer (rule gf_mul_xor_left)
  show "(0 :: gf256) \<noteq> 1" by transfer simp
  show "a \<noteq> 0 \<Longrightarrow> inverse a * a = 1" by transfer (metis gf_mul_comm gf_mul_inverse)
  show "a div b = a * inverse b" by transfer simp
  show "inverse (0 :: gf256) = 0" by transfer (rule gf_pow_0, simp)
qed

end

lemma gf_add: "gf (a XOR b) = gf a + gf b"
  by transfer simp

lemma gf_times: "gf (gf_mul a b) = gf a * gf b"
  by transfer simp

lemma gf_zero [simp]: "gf 0 = 0"
  by transfer simp

lemma gf_one [simp]: "gf 1 = 1"
  by transfer simp

lemma gf_power: "gf (gf_pow a n) = gf a ^ n"
  by (induction n) (simp_all add: gf_times mult.commute)

lemma gf_eq_iff [simp]: "gf a = gf b \<longleftrightarrow> a = b"
  by (simp add: gf_inject)

lemma gf_eq_0_iff [simp]: "gf a = 0 \<longleftrightarrow> a = 0"
  by (metis gf_eq_iff gf_zero)

lemma gf_eq_1_iff [simp]: "gf a = 1 \<longleftrightarrow> a = 1"
  by (metis gf_eq_iff gf_one)

lemma gf_add_self [simp]: "(a :: gf256) + a = 0"
  by transfer simp

lemma gf_inv_ok: "a \<noteq> 0 \<Longrightarrow> \<exists>b. gf_inv a = Inr b \<and> gf b * gf a = 1"
  by (simp add: gf_inv_def gf_mul_comm gf_mul_inverse flip: gf_times)

section \<open>Properties\<close>

text \<open>The shift-and-add product of \<open>gf_mul\<close> is a field multiplication over the
  byte-wise exclusive or: commutative, associative, distributive, with unit 1; \<open>gf_inv\<close>
  throws exactly on 0 and otherwise returns the inverse (the 254th power).\<close>

theorem gf_mul_is_field:
  "gf_mul a b = gf_mul b a \<and> gf_mul (gf_mul a b) c = gf_mul a (gf_mul b c) \<and>
   gf_mul a (b XOR c) = gf_mul a b XOR gf_mul a c \<and> gf_mul 1 a = a \<and>
   (if a = 0 then gf_inv a = Inl (Runtime_error ''cannot invert zero in GF(256)'')
    else \<exists>i. gf_inv a = Inr i \<and> gf_mul a i = 1)"
  using gf_mul_comm gf_mul_assoc gf_mul_xor_right gf_mul_inverse by (simp add: gf_inv_def)

end
