(* ===== verification/Matrix.thy ===== *)
theory Matrix
  imports Galois
begin

text \<open>
  The matrix routines of \<open>fec.cpp\<close> over GF(256): \<open>multiply_matrix\<close> and the
  Gauss-Jordan elimination of \<open>invert_matrix\<close>, loop by loop on the augmented work
  matrix. The lemmas read a byte matrix through \<open>ent\<close> as a function into the field
  \<open>gf256\<close> and follow the elimination with one invariant (\<open>work_inv\<close>): the left half is
  the right half times the input, and the rows of the work matrix never gain a common
  zero. From it come both directions of correctness: a returned matrix is the two-sided
  inverse, and the "singular" exception means the input has a nonzero kernel vector.
\<close>

unbundle bit_operations_syntax

section \<open>The code\<close>

type_synonym matrix = "byte list list"

definition multiply_matrix :: "matrix \<Rightarrow> matrix \<Rightarrow> matrix" where
  "multiply_matrix left right =
     map (\<lambda>r. map (\<lambda>c.
            foldl (\<lambda>value i. value XOR gf_mul (left ! r ! i) (right ! i ! c)) 0 [0..<length right])
          [0..<length (hd right)])
       [0..<length left]"

definition init_work :: "matrix \<Rightarrow> matrix" where
  "init_work input =
     (let size = length input in
      map (\<lambda>r. map (\<lambda>c. input ! r ! c) [0..<size] @ (replicate size 0)[r := 1]) [0..<size])"

definition swap_rows :: "matrix \<Rightarrow> nat \<Rightarrow> nat \<Rightarrow> matrix" where
  "swap_rows work i j = work[i := work ! j, j := work ! i]"

text \<open>Lines 91 to 99: a zero on the diagonal is swapped with the first nonzero entry below.\<close>

definition pivot_row :: "nat \<Rightarrow> matrix \<Rightarrow> nat \<Rightarrow> matrix" where
  "pivot_row sz work r =
     (if work ! r ! r = 0
      then case List.find (\<lambda>row_below. work ! row_below ! r \<noteq> 0) [r + 1..<sz] of
             None \<Rightarrow> work
           | Some row_below \<Rightarrow> swap_rows work r row_below
      else work)"

definition scale_row :: "matrix \<Rightarrow> nat \<Rightarrow> byte \<Rightarrow> matrix" where
  "scale_row work r scale = work[r := map (\<lambda>x. gf_mul x scale) (work ! r)]"

text \<open>\<open>work[row] ^= work[row][r] * work[r]\<close>, skipped when the factor is zero.\<close>

definition eliminate :: "nat \<Rightarrow> nat \<Rightarrow> matrix \<Rightarrow> matrix" where
  "eliminate r row work =
     (if work ! row ! r = 0 then work
      else let scale = work ! row ! r in
           work[row := map2 (\<lambda>x y. x XOR gf_mul scale y) (work ! row) (work ! r)])"

definition forward_step :: "nat \<Rightarrow> matrix \<Rightarrow> nat \<Rightarrow> matrix result" where
  "forward_step sz work0 r =
     (let work = pivot_row sz work0 r in
      if work ! r ! r = 0 then Inl (Runtime_error ''singular Reed-Solomon matrix'')
      else if work ! r ! r \<noteq> 1
      then case gf_inv (work ! r ! r) of
             Inl e \<Rightarrow> Inl e
           | Inr scale \<Rightarrow> Inr (fold (eliminate r) [r + 1..<sz] (scale_row work r scale))
      else Inr (fold (eliminate r) [r + 1..<sz] work))"

fun forward_loop :: "nat \<Rightarrow> matrix \<Rightarrow> nat list \<Rightarrow> matrix result" where
  "forward_loop sz work [] = Inr work"
| "forward_loop sz work (r # rs) =
     (case forward_step sz work r of
        Inl e \<Rightarrow> Inl e
      | Inr work' \<Rightarrow> forward_loop sz work' rs)"

definition backward_loop :: "nat \<Rightarrow> matrix \<Rightarrow> matrix" where
  "backward_loop sz work = fold (\<lambda>d. fold (eliminate d) [0..<d]) [0..<sz] work"

definition invert_matrix :: "matrix \<Rightarrow> matrix result" where
  "invert_matrix input =
     (let size = length input in
      case forward_loop size (init_work input) [0..<size] of
        Inl e \<Rightarrow> Inl e
      | Inr work \<Rightarrow> Inr (map (\<lambda>row. take size (drop size row)) (backward_loop size work)))"

section \<open>Matrices as functions into the field\<close>

definition ent :: "matrix \<Rightarrow> nat \<Rightarrow> nat \<Rightarrow> gf256" where
  "ent m r c = gf (m ! r ! c)"

definition wf_mat :: "nat \<Rightarrow> nat \<Rightarrow> matrix \<Rightarrow> bool" where
  "wf_mat rows cols m \<longleftrightarrow> length m = rows \<and> (\<forall>row \<in> set m. length row = cols)"

definition mat_apply :: "nat \<Rightarrow> matrix \<Rightarrow> (nat \<Rightarrow> gf256) \<Rightarrow> nat \<Rightarrow> gf256" where
  "mat_apply n m x r = (\<Sum>c<n. ent m r c * x c)"

definition unit_vec :: "nat \<Rightarrow> nat \<Rightarrow> gf256" where
  "unit_vec j i = (if i = j then 1 else 0)"

lemma wf_mat_row: "wf_mat rows cols m \<Longrightarrow> r < rows \<Longrightarrow> length (m ! r) = cols"
  by (auto simp: wf_mat_def)

lemma wf_mat_length: "wf_mat rows cols m \<Longrightarrow> length m = rows"
  by (simp add: wf_mat_def)

lemma wf_mat_update:
  "wf_mat rows cols m \<Longrightarrow> length v = cols \<Longrightarrow> wf_mat rows cols (m[r := v])"
  by (auto simp: wf_mat_def dest: set_update_subset_insert [THEN subsetD])

lemma gf_foldl_xor:
  "gf (foldl (\<lambda>value i. value XOR f i) v [0..<n]) = gf v + (\<Sum>i<n. gf (f i))"
  by (induction n) (simp_all add: gf_add add.assoc)

lemma ent_multiply:
  assumes "r < length left" and "c < length (hd right)"
  shows "ent (multiply_matrix left right) r c = (\<Sum>i<length right. ent left r i * ent right i c)"
  using assms gf_foldl_xor [of "\<lambda>i. gf_mul (left ! r ! i) (right ! i ! c)" 0 "length right"]
  by (simp add: ent_def multiply_matrix_def gf_times)

lemma wf_multiply:
  "length left = rows \<Longrightarrow> length (hd right) = cols \<Longrightarrow> wf_mat rows cols (multiply_matrix left right)"
  by (auto simp: wf_mat_def multiply_matrix_def)

lemma sum_unit_vec: "j < n \<Longrightarrow> (\<Sum>c<n. f c * unit_vec j c) = f j"
  by (simp add: unit_vec_def if_distrib [of "\<lambda>z. _ * z"] sum.delta cong: if_cong)

lemma mat_apply_cong: "(\<And>c. c < n \<Longrightarrow> x c = y c) \<Longrightarrow> mat_apply n m x r = mat_apply n m y r"
  by (simp add: mat_apply_def)

lemma mat_apply_add: "mat_apply n m (\<lambda>c. x c + y c) r = mat_apply n m x r + mat_apply n m y r"
  by (simp add: mat_apply_def distrib_left sum.distrib)

text \<open>Applying a product is applying the factors one after the other.\<close>

lemma sum_product_swap:
  "(\<Sum>c<k. (\<Sum>i<n. a i * b i c) * x c) = (\<Sum>i<n. a i * (\<Sum>c<k. b i c * (x c :: gf256)))"
proof -
  have "(\<Sum>c<k. (\<Sum>i<n. a i * b i c) * x c) = (\<Sum>c<k. \<Sum>i<n. a i * (b i c * x c))"
    by (simp add: sum_distrib_right mult.assoc)
  also have "\<dots> = (\<Sum>i<n. \<Sum>c<k. a i * (b i c * x c))" by (rule sum.swap)
  finally show ?thesis by (simp add: sum_distrib_left)
qed

section \<open>Row operations keep the elimination invariant\<close>

definition half_solved :: "nat \<Rightarrow> matrix \<Rightarrow> matrix \<Rightarrow> bool" where
  "half_solved n m w \<longleftrightarrow>
     (\<forall>r<n. \<forall>j<n. ent w r j = (\<Sum>i<n. ent w r (n + i) * ent m i j))"

definition kernel_in :: "nat \<Rightarrow> matrix \<Rightarrow> matrix \<Rightarrow> bool" where
  "kernel_in n w0 w \<longleftrightarrow>
     (\<forall>x. (\<forall>r<n. mat_apply (2 * n) w x r = 0) \<longrightarrow> (\<forall>r<n. mat_apply (2 * n) w0 x r = 0))"

definition work_inv :: "nat \<Rightarrow> matrix \<Rightarrow> matrix \<Rightarrow> bool" where
  "work_inv n m w \<longleftrightarrow>
     wf_mat n (2 * n) w \<and> half_solved n m w \<and> kernel_in n (init_work m) w"

lemma work_inv_wf: "work_inv n m w \<Longrightarrow> wf_mat n (2 * n) w"
  by (simp add: work_inv_def)

lemma kernel_in_trans: "kernel_in n u v \<Longrightarrow> kernel_in n v w \<Longrightarrow> kernel_in n u w"
  by (simp add: kernel_in_def)

lemma mat_apply_comb:
  assumes "\<And>c. c < n \<Longrightarrow> ent w' row c = a * ent w row c + b * ent w r c"
  shows "mat_apply n w' x row = a * mat_apply n w x row + b * mat_apply n w x r"
  using assms by (simp add: mat_apply_def distrib_right sum.distrib sum_distrib_left mult.assoc)

lemma mat_apply_row_cong: "w' ! r = w ! r' \<Longrightarrow> mat_apply n w' x r = mat_apply n w x r'"
  by (simp add: mat_apply_def ent_def)

text \<open>
  The two row updates of the elimination have one shape: the row becomes \<open>a\<close> times
  itself plus \<open>b\<close> times another row, with \<open>a\<close> not zero.
\<close>

lemma work_inv_row_update:
  assumes inv: "work_inv n m w" and row: "row < n" "r < n" "length v = 2 * n"
    and comb: "\<And>c. c < 2 * n \<Longrightarrow> gf (v ! c) = a * ent w row c + b * ent w r c"
    and nz: "a \<noteq> 0" and other: "r \<noteq> row \<or> b = 0"
  shows "work_inv n m (w[row := v])"
proof -
  let ?w = "w[row := v]"
  have wf: "wf_mat n (2 * n) w" and half: "half_solved n m w" and ker: "kernel_in n (init_work m) w"
    using inv by (auto simp: work_inv_def)
  have len: "length w = n" using wf by (simp add: wf_mat_def)
  have new: "ent ?w row c = a * ent w row c + b * ent w r c" if "c < 2 * n" for c
    using comb [OF that] row len by (simp add: ent_def)
  have old: "ent ?w i c = ent w i c" if "i \<noteq> row" for i c
    using that by (simp add: ent_def)
  have "half_solved n m ?w"
    unfolding half_solved_def
  proof (intro allI impI)
    fix i j assume i: "i < n" and j: "j < n"
    have *: "ent w i' j = (\<Sum>k<n. ent w i' (n + k) * ent m k j)" if "i' < n" for i'
      using half that j by (simp add: half_solved_def)
    show "ent ?w i j = (\<Sum>k<n. ent ?w i (n + k) * ent m k j)"
    proof (cases "i = row")
      case True
      have "(\<Sum>k<n. ent ?w row (n + k) * ent m k j) =
          a * (\<Sum>k<n. ent w row (n + k) * ent m k j) + b * (\<Sum>k<n. ent w r (n + k) * ent m k j)"
        by (simp add: new distrib_right sum.distrib sum_distrib_left mult.assoc)
      then show ?thesis using True new [of j] j *[OF row(1)] *[OF row(2)] by simp
    next
      case False
      then show ?thesis using * [OF i] by (simp add: old)
    qed
  qed
  moreover have "kernel_in n w ?w"
    unfolding kernel_in_def
  proof (intro allI impI)
    fix x i assume zero: "\<forall>r<n. mat_apply (2 * n) ?w x r = 0" and i: "i < n"
    have same: "mat_apply (2 * n) ?w x i' = mat_apply (2 * n) w x i'" if "i' \<noteq> row" for i'
      by (rule mat_apply_row_cong) (use that in simp)
    show "mat_apply (2 * n) w x i = 0"
    proof (cases "i = row")
      case True
      have "0 = a * mat_apply (2 * n) w x row + b * mat_apply (2 * n) w x r"
        using mat_apply_comb [of "2 * n" ?w row a w b r x] new zero row by simp
      moreover have "b * mat_apply (2 * n) w x r = 0" using other same [of r] zero row by auto
      ultimately show ?thesis using nz True by simp
    next
      case False
      then show ?thesis using same [of i] zero i by simp
    qed
  qed
  then have "kernel_in n (init_work m) ?w" by (rule kernel_in_trans [OF ker])
  ultimately show ?thesis
    using wf_mat_update [OF wf row(3)] by (simp add: work_inv_def)
qed

lemma swap_rows_nth:
  assumes "i < length w" "j < length w"
  shows "swap_rows w i j ! k = (if k = j then w ! i else if k = i then w ! j else w ! k)"
  using assms by (auto simp: swap_rows_def nth_list_update)

lemma work_inv_swap:
  assumes inv: "work_inv n m w" and ij: "i < n" "j < n"
  shows "work_inv n m (swap_rows w i j)"
proof -
  have wf: "wf_mat n (2 * n) w" and half: "half_solved n m w" and ker: "kernel_in n (init_work m) w"
    using inv by (auto simp: work_inv_def)
  have len: "length w = n" using wf by (simp add: wf_mat_def)
  have wf': "wf_mat n (2 * n) (swap_rows w i j)"
    using ij wf_mat_row [OF wf] unfolding swap_rows_def by (intro wf_mat_update wf) simp_all
  have ent: "ent (swap_rows w i j) k c = ent w (if k = j then i else if k = i then j else k) c" for k c
    using ij len by (simp add: ent_def swap_rows_nth)
  have half': "half_solved n m (swap_rows w i j)"
    using half ij by (simp add: half_solved_def ent)
  have "kernel_in n w (swap_rows w i j)"
    unfolding kernel_in_def
  proof (intro allI impI)
    fix x k assume zero: "\<forall>r<n. mat_apply (2 * n) (swap_rows w i j) x r = 0" and k: "k < n"
    let ?k = "if k = j then i else if k = i then j else k"
    have "mat_apply (2 * n) w x k = mat_apply (2 * n) (swap_rows w i j) x ?k"
      by (rule mat_apply_row_cong) (use ij len in \<open>auto simp: swap_rows_nth\<close>)
    then show "mat_apply (2 * n) w x k = 0" using zero ij k by simp
  qed
  then have "kernel_in n (init_work m) (swap_rows w i j)" by (rule kernel_in_trans [OF ker])
  then show ?thesis using wf' half' by (simp add: work_inv_def)
qed

lemma work_inv_scale:
  assumes "work_inv n m w" "r < n" "s \<noteq> 0"
  shows "work_inv n m (scale_row w r s)"
  unfolding scale_row_def
proof (rule work_inv_row_update [where r = r and a = "gf s" and b = 0])
  have "length (w ! r) = 2 * n" using assms by (auto intro: wf_mat_row work_inv_wf)
  then show "length (map (\<lambda>x. gf_mul x s) (w ! r)) = 2 * n"
    and "\<And>c. c < 2 * n \<Longrightarrow>
      gf (map (\<lambda>x. gf_mul x s) (w ! r) ! c) = gf s * ent w r c + 0 * ent w r c"
    by (simp_all add: ent_def gf_times mult.commute)
qed (use assms in simp_all)

lemma eliminate_ent:
  assumes "wf_mat n k w" "row < n" "r < n" "c < k"
  shows "ent (eliminate r row w) row c = ent w row c + ent w row r * ent w r c"
  using assms wf_mat_row [OF assms(1)] wf_mat_length [OF assms(1)]
  by (auto simp: eliminate_def ent_def Let_def gf_add gf_times)

lemma eliminate_other: "i \<noteq> row \<Longrightarrow> eliminate r row w ! i = w ! i"
  by (simp add: eliminate_def Let_def)

lemma eliminate_other_ent: "i \<noteq> row \<Longrightarrow> ent (eliminate r row w) i c = ent w i c"
  by (simp add: ent_def eliminate_other)

lemma work_inv_eliminate:
  assumes "work_inv n m w" "row < n" "r < n" "r \<noteq> row"
  shows "work_inv n m (eliminate r row w)"
proof (cases "w ! row ! r = 0")
  case True
  then show ?thesis using assms by (simp add: eliminate_def)
next
  case False
  have len: "length (w ! r) = 2 * n" "length (w ! row) = 2 * n"
    using assms by (auto intro: wf_mat_row work_inv_wf)
  let ?v = "map2 (\<lambda>x y. x XOR gf_mul (w ! row ! r) y) (w ! row) (w ! r)"
  have "work_inv n m (w[row := ?v])"
    by (rule work_inv_row_update [where r = r and a = 1 and b = "ent w row r"])
      (use assms len in \<open>simp_all add: ent_def gf_add gf_times\<close>)
  then show ?thesis using False by (simp add: eliminate_def Let_def)
qed

section \<open>Forward elimination\<close>

lemma init_work_ent:
  assumes "wf_mat n n m" "r < n"
  shows "c < n \<Longrightarrow> ent (init_work m) r c = ent m r c"
    and "i < n \<Longrightarrow> ent (init_work m) r (n + i) = unit_vec r i"
  using assms by (auto simp: init_work_def Let_def wf_mat_def ent_def nth_append unit_vec_def nth_list_update)

lemma work_inv_init: "wf_mat n n m \<Longrightarrow> work_inv n m (init_work m)"
proof -
  assume wf: "wf_mat n n m"
  have "wf_mat n (2 * n) (init_work m)"
    using wf by (auto simp: wf_mat_def init_work_def Let_def)
  moreover have "half_solved n m (init_work m)"
    unfolding half_solved_def
  proof (intro allI impI)
    fix r j assume r: "r < n" and j: "j < n"
    have "(\<Sum>i<n. ent (init_work m) r (n + i) * ent m i j) = (\<Sum>i<n. ent m i j * unit_vec r i)"
      by (intro sum.cong) (simp_all add: init_work_ent(2) [OF wf r] mult.commute)
    then show "ent (init_work m) r j = (\<Sum>i<n. ent (init_work m) r (n + i) * ent m i j)"
      using init_work_ent(1) [OF wf r j] sum_unit_vec [OF r] by simp
  qed
  ultimately show ?thesis by (simp add: work_inv_def kernel_in_def)
qed

text \<open>Columns below \<open>k\<close> are done: a one on the diagonal, zeros under it.\<close>

definition upper :: "nat \<Rightarrow> nat \<Rightarrow> matrix \<Rightarrow> bool" where
  "upper n k w \<longleftrightarrow> (\<forall>j<k. ent w j j = 1 \<and> (\<forall>i<n. j < i \<longrightarrow> ent w i j = 0))"

lemma fold_eliminate:
  assumes "work_inv n m w" "r < n" "distinct rows" "set rows \<subseteq> {..<n}" "r \<notin> set rows"
  shows "work_inv n m (fold (eliminate r) rows w)
    \<and> (\<forall>i. i \<notin> set rows \<longrightarrow> fold (eliminate r) rows w ! i = w ! i)
    \<and> (\<forall>i \<in> set rows. \<forall>c<2 * n.
         ent (fold (eliminate r) rows w) i c = ent w i c + ent w i r * ent w r c)"
  using assms
proof (induction rows arbitrary: w)
  case Nil
  then show ?case by simp
next
  case (Cons row rows)
  let ?w = "eliminate r row w"
  have inv: "work_inv n m ?w" using Cons.prems by (auto intro: work_inv_eliminate)
  then have IH: "work_inv n m (fold (eliminate r) rows ?w)"
    "\<forall>i. i \<notin> set rows \<longrightarrow> fold (eliminate r) rows ?w ! i = ?w ! i"
    "\<forall>i \<in> set rows. \<forall>c<2 * n.
         ent (fold (eliminate r) rows ?w) i c = ent ?w i c + ent ?w i r * ent ?w r c"
    using Cons.IH [of ?w] Cons.prems by auto
  have row: "ent ?w row c = ent w row c + ent w row r * ent w r c" if "c < 2 * n" for c
    using eliminate_ent [OF work_inv_wf [OF Cons.prems(1)]] Cons.prems that by simp
  have "ent (fold (eliminate r) rows ?w) row c = ent ?w row c" for c
    using IH(2) Cons.prems(3) by (simp add: ent_def)
  moreover have "ent ?w i c = ent w i c" if "i \<in> set rows" for i c
    using that Cons.prems(3) by (auto intro: eliminate_other_ent)
  ultimately show ?case
    using IH row Cons.prems(5) by (auto simp: eliminate_other eliminate_other_ent)
qed

lemma upper_fold_eliminate:
  assumes "work_inv n m w" "r < n" "upper n r w" "ent w r r = 1"
  shows "work_inv n m (fold (eliminate r) [r + 1..<n] w)
    \<and> upper n (Suc r) (fold (eliminate r) [r + 1..<n] w)"
proof -
  let ?w = "fold (eliminate r) [r + 1..<n] w"
  have sub: "set [r + 1..<n] \<subseteq> {..<n}" by auto
  have F: "work_inv n m ?w" "\<And>i. i \<le> r \<or> n \<le> i \<Longrightarrow> ent ?w i c = ent w i c"
    "\<And>i. r < i \<Longrightarrow> i < n \<Longrightarrow> c < 2 * n \<Longrightarrow> ent ?w i c = ent w i c + ent w i r * ent w r c" for c
    using fold_eliminate [OF assms(1,2) distinct_upt sub] by (auto simp: ent_def)
  have "upper n (Suc r) ?w"
    unfolding upper_def
  proof (intro allI impI conjI)
    fix j assume j: "j < Suc r"
    show "ent ?w j j = 1" using j F(2) [of j j] assms(3,4) by (auto simp: upper_def less_Suc_eq)
    fix i assume i: "i < n" "j < i"
    show "ent ?w i j = 0"
    proof (cases "i \<le> r")
      case True
      then show ?thesis using i j F(2) [of i j] assms(3) by (simp add: upper_def)
    next
      case False
      then have "ent ?w i j = ent w i j + ent w i r * ent w r j" using F(3) [of i j] i by simp
      then show ?thesis using i j assms(3,4) False by (auto simp: upper_def less_Suc_eq)
    qed
  qed
  then show ?thesis using F(1) by simp
qed

lemma upper_swap:
  assumes "upper n r w" "wf_mat n k w" "r \<le> i" "i < n" "r < n"
  shows "upper n r (swap_rows w r i)"
proof -
  have "ent (swap_rows w r i) a c = ent w (if a = i then r else if a = r then i else a) c" for a c
    using assms by (simp add: ent_def swap_rows_nth wf_mat_length)
  then show ?thesis using assms by (auto simp: upper_def)
qed

lemma pivot_row_spec:
  assumes inv: "work_inv n m w" and up: "upper n r w" and r: "r < n"
  shows "work_inv n m (pivot_row n w r) \<and> upper n r (pivot_row n w r)
    \<and> (pivot_row n w r ! r ! r = 0 \<longrightarrow> (\<forall>i. r \<le> i \<and> i < n \<longrightarrow> ent w i r = 0))"
proof (cases "w ! r ! r = 0")
  case False
  then show ?thesis using assms by (simp add: pivot_row_def)
next
  case True
  have len: "length w = n" using inv by (simp add: work_inv_def wf_mat_def)
  show ?thesis
  proof (cases "List.find (\<lambda>i. w ! i ! r \<noteq> 0) [r + 1..<n]")
    case None
    then have "\<forall>i. r < i \<and> i < n \<longrightarrow> w ! i ! r = 0" by (auto simp: find_None_iff)
    then show ?thesis using True None assms by (auto simp: pivot_row_def ent_def le_less)
  next
    case (Some i)
    then have i: "r < i" "i < n" "w ! i ! r \<noteq> 0" by (auto simp: find_Some_iff dest: nth_mem)
    have "work_inv n m (swap_rows w r i)" using inv r i by (intro work_inv_swap) auto
    moreover have "upper n r (swap_rows w r i)"
      using i r by (intro upper_swap [OF up work_inv_wf [OF inv]]) auto
    moreover have "swap_rows w r i ! r ! r \<noteq> 0" using i r len by (simp add: swap_rows_nth)
    ultimately show ?thesis using True Some by (simp add: pivot_row_def)
  qed
qed

lemma upper_scale:
  assumes "upper n r w" "wf_mat n (2 * n) w" "r < n"
  shows "upper n r (scale_row w r s)" and "ent (scale_row w r s) r r = gf s * ent w r r"
proof -
  have e: "ent (scale_row w r s) i c = (if i = r then gf s * ent w r c else ent w i c)"
    if "c < 2 * n" for i c
    using assms that wf_mat_row [OF assms(2), of r]
    by (simp add: scale_row_def ent_def gf_times mult.commute wf_mat_length)
  show "ent (scale_row w r s) r r = gf s * ent w r r" using e assms(3) by simp
  show "upper n r (scale_row w r s)"
    using assms(1,3) e by (auto simp: upper_def)
qed

lemma forward_step_spec:
  assumes "work_inv n m w" "upper n r w" "r < n"
  shows "case forward_step n w r of
      Inr w' \<Rightarrow> work_inv n m w' \<and> upper n (Suc r) w'
    | Inl e \<Rightarrow> e = Runtime_error ''singular Reed-Solomon matrix''
        \<and> (\<forall>i. r \<le> i \<and> i < n \<longrightarrow> ent w i r = 0)"
proof -
  let ?p = "pivot_row n w r"
  have P: "work_inv n m ?p" "upper n r ?p"
    "?p ! r ! r = 0 \<Longrightarrow> \<forall>i. r \<le> i \<and> i < n \<longrightarrow> ent w i r = 0"
    using pivot_row_spec [OF assms] by auto
  show ?thesis
  proof (cases "?p ! r ! r = 0")
    case True
    then show ?thesis using P by (simp add: forward_step_def Let_def)
  next
    case nz: False
    show ?thesis
    proof (cases "?p ! r ! r = 1")
      case True
      then show ?thesis using nz upper_fold_eliminate [OF P(1) assms(3) P(2)]
        by (simp add: forward_step_def Let_def ent_def)
    next
      case False
      obtain s where s: "gf_inv (?p ! r ! r) = Inr s" "gf s * ent ?p r r = 1"
        using gf_inv_ok [OF nz] by (auto simp: ent_def)
      then have "s \<noteq> 0" by auto
      then have "work_inv n m (scale_row ?p r s)" by (rule work_inv_scale [OF P(1) assms(3)])
      from upper_fold_eliminate [OF this assms(3)] show ?thesis
        using nz False s upper_scale [OF P(2) work_inv_wf [OF P(1)] assms(3), of s]
        by (simp add: forward_step_def Let_def)
    qed
  qed
qed

section \<open>A failed pivot gives a kernel vector\<close>

definition trivial_kernel :: "nat \<Rightarrow> matrix \<Rightarrow> bool" where
  "trivial_kernel n m \<longleftrightarrow>
     (\<forall>x. (\<forall>i<n. mat_apply n m x i = 0) \<longrightarrow> (\<forall>i<n. x i = 0))"

lemma mat_apply_scaled_unit:
  "k < n \<Longrightarrow> mat_apply n m (\<lambda>j. s * unit_vec k j) i = s * ent m i k"
  using sum_unit_vec [of k n "ent m i"]
  by (simp add: mat_apply_def mult.left_commute [of _ s] flip: sum_distrib_left)

text \<open>Back substitution: the done columns can cancel column \<open>r\<close>, row by row from below.\<close>

lemma back_substitution:
  assumes up: "upper n r w" and r: "r < n" and zero: "\<And>i. r \<le> i \<Longrightarrow> i < n \<Longrightarrow> ent w i r = 0"
    and k: "k \<le> r"
  shows "\<exists>x. x r = 1 \<and> (\<forall>j. r < j \<longrightarrow> x j = 0) \<and> (\<forall>j. j < k \<longrightarrow> x j = 0)
    \<and> (\<forall>i. k \<le> i \<and> i < n \<longrightarrow> mat_apply n w x i = 0)"
  using k
proof (induction "r - k" arbitrary: k)
  case 0
  have "mat_apply n w (unit_vec r) i = 0" if "r \<le> i" "i < n" for i
    using sum_unit_vec [OF r, of "ent w i"] zero that by (simp add: mat_apply_def)
  moreover have "unit_vec r r = 1" "\<And>j. j \<noteq> r \<Longrightarrow> unit_vec r j = 0" by (simp_all add: unit_vec_def)
  ultimately show ?case using 0 by (intro exI [of _ "unit_vec r"]) auto
next
  case (Suc d)
  then have kr: "k < r" and d: "d = r - Suc k" by simp_all
  obtain x where x: "x r = 1" "\<forall>j. r < j \<longrightarrow> x j = 0" "\<forall>j. j < Suc k \<longrightarrow> x j = 0"
    "\<forall>i. Suc k \<le> i \<and> i < n \<longrightarrow> mat_apply n w x i = 0"
    using Suc.hyps(1) [OF d] kr by auto
  let ?s = "- mat_apply n w x k"
  let ?x = "\<lambda>j. x j + ?s * unit_vec k j"
  have kn: "k < n" using kr r by simp
  have app: "mat_apply n w ?x i = mat_apply n w x i + ?s * ent w i k" for i
    by (simp only: mat_apply_add mat_apply_scaled_unit [OF kn])
  have "ent w k k = 1" "\<And>i. k < i \<Longrightarrow> i < n \<Longrightarrow> ent w i k = 0" using up kr by (auto simp: upper_def)
  then have "mat_apply n w ?x i = 0" if "k \<le> i" "i < n" for i
    using app x(4) that by (cases "i = k") auto
  then show ?case using x kr by (intro exI [of _ ?x]) (auto simp: unit_vec_def)
qed

lemma mat_apply_left_half:
  "(\<And>c. n \<le> c \<Longrightarrow> x c = 0) \<Longrightarrow> mat_apply (2 * n) w x i = mat_apply n w x i"
  unfolding mat_apply_def by (rule sum.mono_neutral_right) auto

lemma mat_apply_right_half:
  assumes "\<And>c. c < n \<Longrightarrow> x c = 0"
  shows "mat_apply (2 * n) w x i = (\<Sum>k<n. ent w i (n + k) * x (n + k))"
proof -
  have "mat_apply (2 * n) w x i = (\<Sum>c\<in>{n..<2 * n}. ent w i c * x c)"
    unfolding mat_apply_def by (rule sum.mono_neutral_right) (use assms in auto)
  also have "\<dots> = (\<Sum>k<n. ent w i (n + k) * x (n + k))"
    by (rule sum.reindex_bij_witness [of _ "\<lambda>k. n + k" "\<lambda>c. c - n"]) auto
  finally show ?thesis .
qed

lemma failed_pivot_singular:
  assumes wf: "wf_mat n n m" and inv: "work_inv n m w" and up: "upper n r w" and r: "r < n"
    and zero: "\<And>i. r \<le> i \<Longrightarrow> i < n \<Longrightarrow> ent w i r = 0"
  shows "\<not> trivial_kernel n m"
proof -
  obtain x where x: "x r = 1" "\<forall>j. r < j \<longrightarrow> x j = 0" "\<forall>i<n. mat_apply n w x i = 0"
    using back_substitution [OF up r zero, of 0] by auto
  have xz: "x c = 0" if "n \<le> c" for c using x(2) r that by simp
  have "\<forall>i<n. mat_apply (2 * n) w x i = 0" using x(3) mat_apply_left_half xz by simp
  then have "\<forall>i<n. mat_apply (2 * n) (init_work m) x i = 0"
    using inv unfolding work_inv_def kernel_in_def by blast
  then have "\<forall>i<n. mat_apply n (init_work m) x i = 0" using mat_apply_left_half xz by simp
  moreover have "mat_apply n (init_work m) x i = mat_apply n m x i" if "i < n" for i
    using init_work_ent(1) [OF wf that] by (simp add: mat_apply_def)
  ultimately have "\<forall>i<n. mat_apply n m x i = 0" by simp
  then show ?thesis using x(1) r unfolding trivial_kernel_def by (metis zero_neq_one)
qed

lemma forward_loop_spec:
  assumes "wf_mat n n m" "work_inv n m w" "upper n r w" "r \<le> n"
  shows "case forward_loop n w [r..<n] of
      Inr w' \<Rightarrow> work_inv n m w' \<and> upper n n w'
    | Inl e \<Rightarrow> e = Runtime_error ''singular Reed-Solomon matrix'' \<and> \<not> trivial_kernel n m"
  using assms(2-)
proof (induction "n - r" arbitrary: r w)
  case 0
  then show ?case by simp
next
  case (Suc d)
  then have r: "r < n" and rs: "[r..<n] = r # [Suc r..<n]" by (auto simp: upt_conv_Cons)
  note step = forward_step_spec [OF Suc.prems(1,2) r]
  show ?case
  proof (cases "forward_step n w r")
    case (Inl e)
    then show ?thesis
      using step failed_pivot_singular [OF assms(1) Suc.prems(1,2) r] by (auto simp: rs)
  next
    case (Inr w')
    then have "work_inv n m w'" "upper n (Suc r) w'" using step by auto
    then show ?thesis using Suc.hyps(1) [of "Suc r" w'] Suc.hyps(2) Inr r by (simp add: rs)
  qed
qed

section \<open>Backward elimination and the inverse\<close>

text \<open>Columns below \<open>d\<close> are also zero above the diagonal.\<close>

definition cleared :: "nat \<Rightarrow> matrix \<Rightarrow> bool" where
  "cleared d w \<longleftrightarrow> (\<forall>j<d. \<forall>i<j. ent w i j = 0)"

lemma backward_step:
  assumes "work_inv n m w" "upper n n w" "cleared d w" "d < n"
  shows "work_inv n m (fold (eliminate d) [0..<d] w) \<and> upper n n (fold (eliminate d) [0..<d] w)
    \<and> cleared (Suc d) (fold (eliminate d) [0..<d] w)"
proof -
  let ?w = "fold (eliminate d) [0..<d] w"
  have sub: "set [0..<d] \<subseteq> {..<n}" using assms(4) by auto
  have F: "work_inv n m ?w" "\<And>i c. d \<le> i \<Longrightarrow> ent ?w i c = ent w i c"
    "\<And>i c. i < d \<Longrightarrow> c < 2 * n \<Longrightarrow> ent ?w i c = ent w i c + ent w i d * ent w d c"
    using fold_eliminate [OF assms(1,4) distinct_upt sub] by (auto simp: ent_def)
  have diag: "ent w d d = 1" and low: "\<And>j. j < d \<Longrightarrow> ent w d j = 0"
    using assms(2,4) by (auto simp: upper_def)
  have keep: "ent ?w i c = ent w i c" if "c < d" "i < n" for i c
    using that F(2) [of i c] F(3) [of i c] low [of c] assms(4) by (cases "d \<le> i") auto
  have "upper n n ?w"
    unfolding upper_def
  proof (intro allI impI conjI)
    fix j assume j: "j < n"
    show "ent ?w j j = 1"
      using j keep [of j j] F(2) [of j j] assms(2) by (cases "j < d") (auto simp: upper_def)
    fix i assume i: "i < n" "j < i"
    have old: "ent w i j = 0" using assms(2) i by (auto simp: upper_def)
    show "ent ?w i j = 0"
      using old keep [of j i] F(2) [of i j] i by (cases "d \<le> i") auto
  qed
  moreover have "cleared (Suc d) ?w"
    unfolding cleared_def
  proof (intro allI impI)
    fix j i assume j: "j < Suc d" and i: "i < j"
    show "ent ?w i j = 0"
    proof (cases "j = d")
      case True
      then show ?thesis using F(3) [of i d] i assms(4) diag by simp
    next
      case False
      then show ?thesis using keep [of j i] i j assms(3,4) by (auto simp: cleared_def)
    qed
  qed
  ultimately show ?thesis using F(1) by simp
qed

lemma backward_loop_spec:
  assumes "work_inv n m w" "upper n n w"
  shows "work_inv n m (backward_loop n w) \<and> upper n n (backward_loop n w)
    \<and> cleared n (backward_loop n w)"
proof -
  let ?f = "\<lambda>d. fold (eliminate d) [0..<d]"
  have "work_inv n m (fold ?f [0..<d] w) \<and> upper n n (fold ?f [0..<d] w)
      \<and> cleared d (fold ?f [0..<d] w)" if "d \<le> n" for d
    using that
  proof (induction d)
    case 0
    then show ?case using assms by (simp add: cleared_def)
  next
    case (Suc d)
    then show ?case using backward_step [of n m "fold ?f [0..<d] w" d] by simp
  qed
  then show ?thesis by (simp add: backward_loop_def)
qed

text \<open>What \<open>invert_matrix\<close> returns, and when it raises.\<close>

lemma invert_matrix_Inr:
  assumes wf: "wf_mat n n m" and inv: "invert_matrix m = Inr k"
  shows "wf_mat n n k"
    and "\<And>r j. r < n \<Longrightarrow> j < n \<Longrightarrow> (\<Sum>i<n. ent k r i * ent m i j) = unit_vec r j"
    and "trivial_kernel n k"
proof -
  have len: "length m = n" using wf by (simp add: wf_mat_def)
  obtain w0 where w0: "forward_loop n (init_work m) [0..<n] = Inr w0"
    and k: "k = map (\<lambda>row. take n (drop n row)) (backward_loop n w0)"
    using inv len by (auto simp: invert_matrix_def Let_def split: sum.splits)
  have "work_inv n m w0 \<and> upper n n w0"
    using forward_loop_spec [OF wf work_inv_init [OF wf], of 0] w0 by (simp add: upper_def)
  then have W: "work_inv n m (backward_loop n w0)" "upper n n (backward_loop n w0)"
    "cleared n (backward_loop n w0)"
    using backward_loop_spec by auto
  let ?w = "backward_loop n w0"
  have wfw: "wf_mat n (2 * n) ?w" using W(1) by (rule work_inv_wf)
  show "wf_mat n n k" using wfw by (auto simp: wf_mat_def k)
  have ent: "ent k r i = ent ?w r (n + i)" if "r < n" "i < n" for r i
    using that wfw wf_mat_row [OF wfw, of r] by (simp add: ent_def k wf_mat_length)
  show "(\<Sum>i<n. ent k r i * ent m i j) = unit_vec r j" if "r < n" "j < n" for r j
  proof -
    have "(\<Sum>i<n. ent k r i * ent m i j) = ent ?w r j"
      using W(1) that by (simp add: work_inv_def half_solved_def ent)
    also have "\<dots> = unit_vec r j"
      using W(2,3) that by (cases r j rule: linorder_cases) (auto simp: upper_def cleared_def unit_vec_def)
    finally show ?thesis .
  qed
  show "trivial_kernel n k"
    unfolding trivial_kernel_def
  proof (intro allI impI)
    fix x r assume zero: "\<forall>i<n. mat_apply n k x i = 0" and r: "r < n"
    let ?y = "\<lambda>c. if c < n then 0 else x (c - n)"
    have "mat_apply (2 * n) ?w ?y i = mat_apply n k x i" if "i < n" for i
      using mat_apply_right_half [of n ?y ?w i] ent that by (simp add: mat_apply_def)
    then have "\<forall>i<n. mat_apply (2 * n) (init_work m) ?y i = 0"
      using W(1) zero unfolding work_inv_def kernel_in_def by simp
    moreover have "mat_apply (2 * n) (init_work m) ?y r = x r"
      using mat_apply_right_half [of n ?y "init_work m" r] init_work_ent(2) [OF wf r]
        sum_unit_vec [OF r, of x] by (simp add: mult.commute)
    ultimately show "x r = 0" using r by simp
  qed
qed

text \<open>A left inverse with a trivial kernel is a right inverse.\<close>

lemma invert_matrix_right:
  assumes wf: "wf_mat n n m" and inv: "invert_matrix m = Inr k" and rj: "r < n" "j < n"
  shows "(\<Sum>i<n. ent m r i * ent k i j) = unit_vec r j"
proof -
  let ?col = "\<lambda>i. ent k i j"
  let ?y = "\<lambda>i. mat_apply n m ?col i + unit_vec j i"
  note left = invert_matrix_Inr [OF wf inv]
  have "mat_apply n k ?y i = 0" if i: "i < n" for i
  proof -
    have "mat_apply n k (mat_apply n m ?col) i = (\<Sum>c<n. (\<Sum>l<n. ent k i l * ent m l c) * ?col c)"
      unfolding mat_apply_def by (simp only: sum_product_swap)
    also have "\<dots> = (\<Sum>c<n. ?col c * unit_vec i c)"
      by (intro sum.cong) (simp_all add: left(2) [OF i] mult.commute)
    also have "\<dots> = ent k i j" using sum_unit_vec [OF i] by simp
    finally show ?thesis
      using sum_unit_vec [OF rj(2), of "ent k i"] mat_apply_add [of n k] by (simp add: mat_apply_def [of n k "unit_vec j"])
  qed
  then have "?y r = 0" using left(3) rj(1) unfolding trivial_kernel_def by blast
  then have "mat_apply n m ?col r = unit_vec j r"
    by (metis add.assoc add_0 gf_add_self)
  then show ?thesis by (simp add: mat_apply_def unit_vec_def eq_commute)
qed

lemma invert_matrix_Inl:
  assumes "wf_mat n n m" and "invert_matrix m = Inl e"
  shows "e = Runtime_error ''singular Reed-Solomon matrix'' \<and> \<not> trivial_kernel n m"
proof -
  have "length m = n" using assms(1) by (simp add: wf_mat_def)
  then have "forward_loop n (init_work m) [0..<n] = Inl e"
    using assms(2) by (auto simp: invert_matrix_def Let_def split: sum.splits)
  then show ?thesis
    using forward_loop_spec [OF assms(1) work_inv_init [OF assms(1)], of 0] by (simp add: upper_def)
qed

lemma invert_matrix_total:
  assumes "wf_mat n n m" and "trivial_kernel n m"
  obtains k where "invert_matrix m = Inr k"
  using invert_matrix_Inl [OF assms(1)] assms(2) by (cases "invert_matrix m") auto

section \<open>Properties\<close>

text \<open>C25: The Gauss-Jordan routine \<open>invert_matrix\<close> is correct and complete for square
  matrices over GF(256): a returned matrix is a two-sided inverse of the same shape, and the
  exception for a singular matrix is raised only for a matrix that maps some non-zero
  vector to zero.\<close>

theorem invert_matrix_correct:
  assumes "wf_mat n n m"
  shows "case invert_matrix m of
      Inr k \<Rightarrow> wf_mat n n k \<and>
        (\<forall>r<n. \<forall>j<n. (\<Sum>i<n. ent k r i * ent m i j) = unit_vec r j \<and>
                        (\<Sum>i<n. ent m r i * ent k i j) = unit_vec r j)
    | Inl e \<Rightarrow> e = Runtime_error ''singular Reed-Solomon matrix'' \<and> \<not> trivial_kernel n m"
  using invert_matrix_Inr [OF assms] invert_matrix_right [OF assms] invert_matrix_Inl [OF assms]
  by (auto split: sum.split)

lemma invert_matrix_correct_witness:
  "case invert_matrix [[1, 1], [1, 2]] of
      Inr k \<Rightarrow> wf_mat 2 2 k \<and>
        (\<forall>r<2. \<forall>j<2. (\<Sum>i<2. ent k r i * ent [[1, 1], [1, 2]] i j) = unit_vec r j \<and>
                        (\<Sum>i<2. ent [[1, 1], [1, 2]] r i * ent k i j) = unit_vec r j)
    | Inl e \<Rightarrow> e = Runtime_error ''singular Reed-Solomon matrix'' \<and> \<not> trivial_kernel 2 [[1, 1], [1, 2]]"
  by (rule invert_matrix_correct) (simp add: wf_mat_def)

end
