(* ===== verification/Reed_Solomon.thy ===== *)
theory Reed_Solomon
  imports Matrix
begin

text \<open>
  \<open>build_rs_matrix\<close> and the class \<open>FecCodec::ReedSolomon\<close> of \<open>fec.cpp\<close>: the systematic
  coding matrix (a Vandermonde matrix times the inverse of its top square), the parity
  computation of \<open>encode\<close> and the erasure decoding of \<open>reconstruct_data\<close>. The main
  result is that any \<open>k\<close> of the \<open>k + m\<close> shards determine the data and that the code
  computes it: any \<open>k\<close> rows of the coding matrix are independent, because a polynomial
  of degree below \<open>k\<close> with \<open>k\<close> roots is zero.

  The locale \<open>erasure_code\<close> is the contract the FEC codec relies on; it is interpreted
  here on the Reed-Solomon functions.
\<close>

unbundle bit_operations_syntax

section \<open>The code\<close>

definition vandermonde :: "nat \<Rightarrow> nat \<Rightarrow> matrix" where
  "vandermonde data_shards total_shards =
     map (\<lambda>r. map (\<lambda>c. gf_pow (of_nat r) c) [0..<data_shards]) [0..<total_shards]"

definition build_rs_matrix :: "nat \<Rightarrow> nat \<Rightarrow> matrix result" where
  "build_rs_matrix data_shards total_shards =
     (let v = vandermonde data_shards total_shards;
          top = map (\<lambda>r. take data_shards (v ! r)) [0..<data_shards] in
      case invert_matrix top of
        Inl e \<Rightarrow> Inl e
      | Inr top_inverse \<Rightarrow> Inr (multiply_matrix v top_inverse))"

record reed_solomon =
  rs_data_shards :: nat
  rs_parity_shards :: nat
  rs_total_shards :: nat
  rs_matrix :: matrix

definition make_reed_solomon :: "nat \<Rightarrow> nat \<Rightarrow> reed_solomon result" where
  "make_reed_solomon data_shards parity_shards =
     (case build_rs_matrix data_shards (data_shards + parity_shards) of
        Inl e \<Rightarrow> Inl e
      | Inr m \<Rightarrow> Inr \<lparr>rs_data_shards = data_shards, rs_parity_shards = parity_shards,
                     rs_total_shards = data_shards + parity_shards, rs_matrix = m\<rparr>)"

text \<open>The inner loop \<open>out[i] ^= gf_mul(coefficient, shard[i])\<close>, skipped for a zero coefficient.\<close>

definition mul_add :: "byte \<Rightarrow> bytes \<Rightarrow> bytes \<Rightarrow> bytes" where
  "mul_add coefficient shard out =
     (if coefficient = 0 then out else xor_bytes out (map (gf_mul coefficient) shard))"

definition rs_encode :: "reed_solomon \<Rightarrow> bytes list \<Rightarrow> bytes list \<Rightarrow> bytes list" where
  "rs_encode rs data parity =
     map (\<lambda>p. fold (\<lambda>d. mul_add (rs_matrix rs ! (rs_data_shards rs + p) ! d) (data ! d))
                [0..<rs_data_shards rs] (replicate (length (parity ! p)) 0))
       [0..<rs_parity_shards rs]"

text \<open>The first \<open>data_shards\<close> indices that are present (lines 191 to 197).\<close>

definition valid_indices :: "reed_solomon \<Rightarrow> bool list \<Rightarrow> nat list" where
  "valid_indices rs present =
     take (rs_data_shards rs) (filter (\<lambda>i. present ! i) [0..<rs_total_shards rs])"

definition recover_shard :: "nat \<Rightarrow> bytes \<Rightarrow> bytes list \<Rightarrow> nat list \<Rightarrow> nat \<Rightarrow> bytes" where
  "recover_shard k row shards valid shard_len =
     fold (\<lambda>r. mul_add (row ! r) (shards ! (valid ! r))) [0..<k] (replicate shard_len 0)"

definition reconstruct_data ::
    "reed_solomon \<Rightarrow> bytes list \<Rightarrow> bool list \<Rightarrow> (bool \<times> bytes list) result" where
  "reconstruct_data rs shards0 present =
     (let k = rs_data_shards rs; valid = valid_indices rs present in
      if length valid < k then Inr (False, shards0)
      else
        case invert_matrix (map (\<lambda>r. rs_matrix rs ! (valid ! r)) [0..<k]) of
          Inl e \<Rightarrow> Inl e
        | Inr data_decode \<Rightarrow>
            let shard_len = length (shards0 ! hd valid) in
            Inr (True,
              fold (\<lambda>missing shards.
                  if present ! missing then shards
                  else shards[missing := recover_shard k (data_decode ! missing) shards valid shard_len])
                [0..<k] shards0))"

section \<open>Polynomials with too many roots\<close>

fun poly_eval :: "gf256 list \<Rightarrow> gf256 \<Rightarrow> gf256" where
  "poly_eval [] z = 0"
| "poly_eval (c # cs) z = c + z * poly_eval cs z"

text \<open>Synthetic division by \<open>z - a\<close>.\<close>

fun synth_div :: "gf256 \<Rightarrow> gf256 list \<Rightarrow> gf256 list" where
  "synth_div a [] = []"
| "synth_div a [c] = []"
| "synth_div a (c # c' # cs) = poly_eval (c' # cs) a # synth_div a (c' # cs)"

lemma length_synth_div [simp]: "length (synth_div a cs) = length cs - 1"
  by (induction a cs rule: synth_div.induct) auto

lemma synth_div_eval: "poly_eval cs z = (z - a) * poly_eval (synth_div a cs) z + poly_eval cs a"
proof (induction a cs rule: synth_div.induct)
  case (3 a c c' cs)
  have "poly_eval (c # c' # cs) z = c + z * poly_eval (c' # cs) z" by simp
  also have "\<dots> = c + z * ((z - a) * poly_eval (synth_div a (c' # cs)) z + poly_eval (c' # cs) a)"
    using 3 by simp
  also have "\<dots> = (z - a) * (poly_eval (c' # cs) a + z * poly_eval (synth_div a (c' # cs)) z)
      + (c + a * poly_eval (c' # cs) a)"
    by (simp only: algebra_simps)
  finally show ?case by simp
qed auto

lemma synth_div_zero:
  "poly_eval cs a = 0 \<Longrightarrow> set (synth_div a cs) \<subseteq> {0} \<Longrightarrow> set cs \<subseteq> {0}"
proof (induction a cs rule: synth_div.induct)
  case (3 a c c' cs)
  then have "poly_eval (c' # cs) a = 0" and "set (synth_div a (c' # cs)) \<subseteq> {0}" by auto
  then have "set (c' # cs) \<subseteq> {0}" by (rule "3.IH")
  moreover have "c = 0" using "3.prems"(1) \<open>poly_eval (c' # cs) a = 0\<close> by (simp only: poly_eval.simps) simp
  ultimately show ?case by simp
qed auto

lemma poly_roots_zero:
  assumes "distinct as" "length as = length cs" "\<forall>a \<in> set as. poly_eval cs a = 0"
  shows "set cs \<subseteq> {0}"
  using assms
proof (induction as arbitrary: cs)
  case Nil
  then show ?case by simp
next
  case (Cons a as)
  have "poly_eval (synth_div a cs) b = 0" if "b \<in> set as" for b
  proof -
    have "b \<noteq> a" using Cons.prems(1) that by auto
    moreover have "(b - a) * poly_eval (synth_div a cs) b = 0"
      using synth_div_eval [of cs b a] Cons.prems(3) that by simp
    ultimately show ?thesis by simp
  qed
  then have "set (synth_div a cs) \<subseteq> {0}" using Cons.IH [of "synth_div a cs"] Cons.prems by auto
  then show ?case using synth_div_zero [of cs a] Cons.prems(3) by simp
qed

lemma poly_eval_sum: "poly_eval cs z = (\<Sum>i<length cs. z ^ i * cs ! i)"
  by (induction cs)
    (simp_all add: sum.lessThan_Suc_shift sum_distrib_left mult.assoc del: sum.lessThan_Suc)

section \<open>The coding matrix\<close>

definition node :: "nat \<Rightarrow> gf256" where
  "node r = gf (of_nat r)"

lemma node_inj: "r < 256 \<Longrightarrow> s < 256 \<Longrightarrow> node r = node s \<longleftrightarrow> r = s"
  by (simp add: node_def word_of_nat_eq_iff take_bit_nat_eq_self)

lemma wf_vandermonde: "wf_mat t k (vandermonde k t)"
  by (auto simp: wf_mat_def vandermonde_def)

lemma ent_vandermonde: "r < t \<Longrightarrow> c < k \<Longrightarrow> ent (vandermonde k t) r c = node r ^ c"
  by (simp add: ent_def vandermonde_def node_def gf_power)

text \<open>Evaluating a polynomial at \<open>k\<close> different nodes: only the zero polynomial vanishes.\<close>

lemma nodes_determine:
  assumes "distinct idx" "length idx = k" "\<forall>r \<in> set idx. r < 256"
    and "\<And>i. i < k \<Longrightarrow> (\<Sum>c<k. node (idx ! i) ^ c * x c) = 0" and "c < k"
  shows "x c = 0"
proof -
  let ?cs = "map x [0..<k]"
  have "poly_eval ?cs (node (idx ! i)) = 0" if "i < k" for i
    using assms(4) [OF that] by (simp add: poly_eval_sum)
  then have "\<forall>a \<in> set (map node idx). poly_eval ?cs a = 0"
    using assms(2) by (auto simp: in_set_conv_nth)
  moreover have "distinct (map node idx)"
    using assms(1,3) by (auto simp: distinct_map inj_on_def node_inj)
  ultimately have "set ?cs \<subseteq> {0}" using poly_roots_zero [of "map node idx" ?cs] assms(2) by simp
  then show ?thesis using assms(5) by (auto simp: image_subset_iff)
qed

definition top_square :: "nat \<Rightarrow> nat \<Rightarrow> matrix" where
  "top_square k t = map (\<lambda>r. take k (vandermonde k t ! r)) [0..<k]"

lemma top_square_facts:
  assumes "k \<le> t"
  shows "wf_mat k k (top_square k t)"
    and "r < k \<Longrightarrow> c < k \<Longrightarrow> ent (top_square k t) r c = node r ^ c"
  using assms by (auto simp: wf_mat_def top_square_def vandermonde_def ent_def node_def gf_power)

lemma top_square_kernel:
  assumes "k \<le> t" "t \<le> 256"
  shows "trivial_kernel k (top_square k t)"
  unfolding trivial_kernel_def
proof (intro allI impI)
  fix x c assume zero: "\<forall>i<k. mat_apply k (top_square k t) x i = 0" and c: "c < k"
  have "(\<Sum>c<k. node ([0..<k] ! i) ^ c * x c) = 0" if "i < k" for i
    using zero that assms(1) by (simp add: mat_apply_def top_square_facts(2))
  then show "x c = 0" using nodes_determine [of "[0..<k]" k x c] assms c by simp
qed

lemma build_rs_matrix_eq:
  "build_rs_matrix k t =
     (case invert_matrix (top_square k t) of
        Inl e \<Rightarrow> Inl e | Inr n \<Rightarrow> Inr (multiply_matrix (vandermonde k t) n))"
  by (simp add: build_rs_matrix_def top_square_def Let_def)

lemma build_rs_matrix_total:
  assumes "k \<le> t" "t \<le> 256"
  obtains m where "build_rs_matrix k t = Inr m"
proof -
  obtain n where "invert_matrix (top_square k t) = Inr n"
    by (rule invert_matrix_total [OF top_square_facts(1) top_square_kernel, OF assms(1) assms])
  then show thesis using that by (simp add: build_rs_matrix_eq)
qed

text \<open>What \<open>build_rs_matrix\<close> returns: its rows, the unit rows on top, and independence.\<close>

definition rs_params :: "nat \<Rightarrow> nat \<Rightarrow> bool" where
  "rs_params k t \<longleftrightarrow> 0 < k \<and> k \<le> t \<and> t \<le> 256"

lemma rs_matrix_inverse:
  assumes "rs_params k t" "build_rs_matrix k t = Inr m"
  obtains n where "invert_matrix (top_square k t) = Inr n"
    "m = multiply_matrix (vandermonde k t) n" "wf_mat k k n" "trivial_kernel k n"
proof -
  have kt: "k \<le> t" "t \<le> 256" using assms(1) by (auto simp: rs_params_def)
  obtain n where n: "invert_matrix (top_square k t) = Inr n"
    by (rule invert_matrix_total [OF top_square_facts(1) top_square_kernel, OF kt(1) kt])
  then have "m = multiply_matrix (vandermonde k t) n" using assms(2) by (simp add: build_rs_matrix_eq)
  then show thesis
    using that [OF n] invert_matrix_Inr(1,3) [OF top_square_facts(1) [OF kt(1)] n] by blast
qed

lemma wf_rs_matrix:
  assumes "rs_params k t" "build_rs_matrix k t = Inr m"
  shows "wf_mat t k m"
proof -
  obtain n where n: "m = multiply_matrix (vandermonde k t) n" "wf_mat k k n"
    using rs_matrix_inverse [OF assms] by blast
  then have "length (hd n) = k" using assms(1) by (auto simp: wf_mat_def rs_params_def hd_conv_nth)
  then show ?thesis using n(1) wf_multiply wf_mat_length [OF wf_vandermonde] by blast
qed

lemma hd_row_length: "wf_mat r k n \<Longrightarrow> 0 < r \<Longrightarrow> length (hd n) = k"
  by (cases n) (auto simp: wf_mat_def)

lemma set_lessThan_nth: "set xs \<subseteq> {..<t} \<Longrightarrow> i < length xs \<Longrightarrow> xs ! i < (t :: nat)"
  using nth_mem by blast

lemma rs_matrix_ent:
  assumes "wf_mat k k n" "0 < k" "r < t" "c < k"
  shows "ent (multiply_matrix (vandermonde k t) n) r c = (\<Sum>i<k. node r ^ i * ent n i c)"
proof -
  have "length (hd n) = k" "length n = k" using assms hd_row_length by (auto simp: wf_mat_length)
  then show ?thesis
    using ent_multiply [of r "vandermonde k t" c n] assms
    by (simp add: wf_mat_length [OF wf_vandermonde] ent_vandermonde)
qed

text \<open>The code is systematic: the first \<open>k\<close> rows are the unit rows.\<close>

lemma rs_matrix_systematic:
  assumes "rs_params k t" "build_rs_matrix k t = Inr m" "r < k" "c < k"
  shows "ent m r c = unit_vec r c"
proof -
  have kt: "0 < k" "k \<le> t" using assms(1) by (auto simp: rs_params_def)
  obtain n where n: "invert_matrix (top_square k t) = Inr n"
    "m = multiply_matrix (vandermonde k t) n" "wf_mat k k n"
    using rs_matrix_inverse [OF assms(1,2)] by blast
  have "ent m r c = (\<Sum>i<k. ent (top_square k t) r i * ent n i c)"
    using n(2,3) kt assms(3,4) by (simp add: rs_matrix_ent top_square_facts(2))
  then show ?thesis
    using invert_matrix_right [OF top_square_facts(1) [OF kt(2)] n(1) assms(3,4)] by simp
qed

text \<open>Any \<open>k\<close> different rows of the coding matrix have a trivial kernel.\<close>

lemma rs_rows_independent:
  assumes "rs_params k t" "build_rs_matrix k t = Inr m"
    and idx: "distinct idx" "length idx = k" "set idx \<subseteq> {..<t}"
  shows "trivial_kernel k (map (\<lambda>r. m ! (idx ! r)) [0..<k])"
  unfolding trivial_kernel_def
proof (intro allI impI)
  let ?s = "map (\<lambda>r. m ! (idx ! r)) [0..<k]"
  have kt: "0 < k" "t \<le> 256" using assms(1) by (auto simp: rs_params_def)
  obtain n where n: "m = multiply_matrix (vandermonde k t) n" "wf_mat k k n" "trivial_kernel k n"
    using rs_matrix_inverse [OF assms(1,2)] by blast
  fix x c assume zero: "\<forall>i<k. mat_apply k ?s x i = 0" and c: "c < k"
  have "(\<Sum>j<k. node (idx ! i) ^ j * mat_apply k n x j) = 0" if i: "i < k" for i
  proof -
    have it: "idx ! i < t" using idx i by (simp add: set_lessThan_nth)
    have "mat_apply k ?s x i = (\<Sum>c<k. (\<Sum>j<k. node (idx ! i) ^ j * ent n j c) * x c)"
      using i it rs_matrix_ent [OF n(2) kt(1) it] by (simp add: mat_apply_def ent_def n(1))
    also have "\<dots> = (\<Sum>j<k. node (idx ! i) ^ j * mat_apply k n x j)"
      unfolding mat_apply_def by (rule sum_product_swap)
    finally show ?thesis using zero i by simp
  qed
  moreover have "\<forall>r \<in> set idx. r < 256" using idx(3) kt(2) by auto
  ultimately have "\<forall>j<k. mat_apply k n x j = 0"
    using nodes_determine [OF idx(1,2), of "mat_apply k n x"] by blast
  then show "x c = 0" using n(3) c unfolding trivial_kernel_def by blast
qed

section \<open>Shards\<close>

text \<open>Every row of a shard list has length \<open>len\<close>.\<close>

definition uniform :: "nat \<Rightarrow> bytes list \<Rightarrow> bool" where
  "uniform len shards \<longleftrightarrow> (\<forall>s \<in> set shards. length s = len)"

lemma uniform_nth: "uniform len shards \<Longrightarrow> i < length shards \<Longrightarrow> length (shards ! i) = len"
  by (simp add: uniform_def)

lemma uniform_append [simp]: "uniform len (xs @ ys) \<longleftrightarrow> uniform len xs \<and> uniform len ys"
  by (auto simp: uniform_def)

lemma length_mul_add [simp]: "length (mul_add c s out) = length out"
  by (simp add: mul_add_def)

lemma mul_add_nth:
  "b < length out \<Longrightarrow> b < length s \<Longrightarrow> gf (mul_add c s out ! b) = gf (out ! b) + gf c * gf (s ! b)"
  by (simp add: mul_add_def nth_xor_bytes gf_add gf_times)

lemma fold_mul_add:
  assumes "\<And>d. d < k \<Longrightarrow> length (s d) = length out"
  shows "length (fold (\<lambda>d. mul_add (c d) (s d)) [0..<k] out) = length out
    \<and> (\<forall>b<length out. gf (fold (\<lambda>d. mul_add (c d) (s d)) [0..<k] out ! b) =
         gf (out ! b) + (\<Sum>d<k. gf (c d) * gf (s d ! b)))"
  using assms by (induction k) (auto simp: mul_add_nth add.assoc)

text \<open>The bytes at one position of all shards are a codeword of the matrix.\<close>

definition codeword :: "reed_solomon \<Rightarrow> bytes list \<Rightarrow> bytes list \<Rightarrow> bool" where
  "codeword rs data shards \<longleftrightarrow>
     (\<forall>i<rs_total_shards rs. \<forall>b<length (shards ! i).
        gf (shards ! i ! b) = (\<Sum>d<rs_data_shards rs. ent (rs_matrix rs) i d * gf (data ! d ! b)))"

definition rs_ok :: "reed_solomon \<Rightarrow> bool" where
  "rs_ok rs \<longleftrightarrow>
     rs_params (rs_data_shards rs) (rs_total_shards rs)
     \<and> rs_total_shards rs = rs_data_shards rs + rs_parity_shards rs
     \<and> build_rs_matrix (rs_data_shards rs) (rs_total_shards rs) = Inr (rs_matrix rs)"

lemma make_reed_solomon_ok:
  assumes "0 < k" "k + m \<le> 256"
  obtains rs where "make_reed_solomon k m = Inr rs" "rs_ok rs"
    "rs_data_shards rs = k" "rs_parity_shards rs = m"
proof -
  obtain mat where "build_rs_matrix k (k + m) = Inr mat"
    using build_rs_matrix_total [of k "k + m"] assms by auto
  then show thesis using that assms by (simp add: make_reed_solomon_def rs_ok_def rs_params_def)
qed

lemma make_reed_solomon_fields:
  "make_reed_solomon k m = Inr rs \<Longrightarrow> 0 < k \<Longrightarrow> k + m \<le> 256 \<Longrightarrow>
     rs_ok rs \<and> rs_data_shards rs = k \<and> rs_parity_shards rs = m \<and> rs_total_shards rs = k + m"
  by (auto simp: make_reed_solomon_def rs_ok_def rs_params_def split: sum.splits)

lemma rs_encode_shape:
  assumes "length parity = rs_parity_shards rs" "uniform len parity" "uniform len data"
    "length data = rs_data_shards rs"
  shows "length (rs_encode rs data parity) = rs_parity_shards rs"
    and "uniform len (rs_encode rs data parity)"
proof -
  show "length (rs_encode rs data parity) = rs_parity_shards rs" by (simp add: rs_encode_def)
  have "length (fold (\<lambda>d. mul_add (c d) (data ! d)) [0..<rs_data_shards rs]
      (replicate (length (parity ! p)) 0)) = len" if "p < rs_parity_shards rs" for c p
    using fold_mul_add [of "rs_data_shards rs" "\<lambda>d. data ! d" "replicate len 0"] that
      uniform_nth [OF assms(2)] uniform_nth [OF assms(3)] assms(1,4) by simp
  then show "uniform len (rs_encode rs data parity)"
    by (auto simp: uniform_def rs_encode_def)
qed

lemma rs_encode_codeword:
  assumes ok: "rs_ok rs" and "length data = rs_data_shards rs" "uniform len data"
    "length parity = rs_parity_shards rs" "uniform len parity"
  shows "codeword rs data (data @ rs_encode rs data parity)"
  unfolding codeword_def
proof (intro allI impI)
  let ?k = "rs_data_shards rs" and ?all = "data @ rs_encode rs data parity"
  fix i b assume i: "i < rs_total_shards rs" and b: "b < length (?all ! i)"
  have params: "rs_params ?k (rs_total_shards rs)"
    "build_rs_matrix ?k (rs_total_shards rs) = Inr (rs_matrix rs)"
    "rs_total_shards rs = ?k + rs_parity_shards rs"
    using ok by (auto simp: rs_ok_def)
  show "gf (?all ! i ! b) = (\<Sum>d<?k. ent (rs_matrix rs) i d * gf (data ! d ! b))"
  proof (cases "i < ?k")
    case True
    have "(\<Sum>d<?k. ent (rs_matrix rs) i d * gf (data ! d ! b)) =
        (\<Sum>d<?k. gf (data ! d ! b) * unit_vec i d)"
      by (intro sum.cong) (simp_all add: rs_matrix_systematic [OF params(1,2) True] mult.commute)
    then show ?thesis using sum_unit_vec [OF True] True assms(2) by (simp add: nth_append)
  next
    case False
    let ?p = "i - ?k"
    have p: "?p < rs_parity_shards rs" "?k + ?p = i" using False i params(3) by auto
    have len: "length (parity ! ?p) = len" using assms(4,5) p by (simp add: uniform_nth)
    have all: "?all ! i = rs_encode rs data parity ! ?p" using False assms(2) by (simp add: nth_append)
    then have "b < len"
      using b uniform_nth [OF rs_encode_shape(2) [OF assms(4,5,3,2)], of ?p] p
      by (simp add: rs_encode_def)
    then show ?thesis
      using fold_mul_add [of ?k "\<lambda>d. data ! d" "replicate len 0" "\<lambda>d. rs_matrix rs ! i ! d"]
        uniform_nth [OF assms(3)] assms(2) p len all
      by (simp add: rs_encode_def ent_def)
  qed
qed

section \<open>Reconstruction\<close>

lemma valid_indices_facts:
  assumes "length present = rs_total_shards rs"
    "rs_data_shards rs \<le> length (filter (\<lambda>i. present ! i) [0..<rs_total_shards rs])"
  shows "length (valid_indices rs present) = rs_data_shards rs" "distinct (valid_indices rs present)"
    "i \<in> set (valid_indices rs present) \<Longrightarrow> i < rs_total_shards rs \<and> present ! i"
  using assms by (auto simp: valid_indices_def dest: in_set_takeD)

lemma recover_shard_correct:
  assumes ok: "rs_ok rs" and valid: "length valid = k" "distinct valid" "set valid \<subseteq> {..<rs_total_shards rs}"
    and k: "k = rs_data_shards rs"
    and dec: "invert_matrix (map (\<lambda>r. rs_matrix rs ! (valid ! r)) [0..<k]) = Inr dec"
    and word: "codeword rs data full" and len: "uniform len data" "length data = k"
    and good: "\<And>r. r < k \<Longrightarrow> shards ! (valid ! r) = full ! (valid ! r) \<and> length (full ! (valid ! r)) = len"
    and i: "i < k"
  shows "recover_shard k (dec ! i) shards valid len = data ! i"
proof (rule nth_equalityI)
  let ?sub = "map (\<lambda>r. rs_matrix rs ! (valid ! r)) [0..<k]"
  let ?rec = "recover_shard k (dec ! i) shards valid len"
  have params: "rs_params k (rs_total_shards rs)"
    "build_rs_matrix k (rs_total_shards rs) = Inr (rs_matrix rs)"
    using ok k by (auto simp: rs_ok_def)
  have vt: "valid ! r < rs_total_shards rs" if "r < k" for r
    using valid that by (simp add: set_lessThan_nth)
  have wf: "wf_mat k k ?sub"
    using wf_mat_row [OF wf_rs_matrix [OF params]] vt by (auto simp: wf_mat_def)
  have F: "length ?rec = len" "\<And>b. b < len \<Longrightarrow> gf (?rec ! b) = (\<Sum>r<k. ent dec i r * gf (full ! (valid ! r) ! b))"
    using fold_mul_add [of k "\<lambda>r. shards ! (valid ! r)" "replicate len 0" "\<lambda>r. dec ! i ! r"] good
    by (simp_all add: recover_shard_def ent_def)
  show "length ?rec = length (data ! i)" using F(1) len i by (simp add: uniform_nth)
  fix b assume "b < length ?rec"
  then have b: "b < len" using F(1) by simp
  have "gf (?rec ! b) = (\<Sum>r<k. ent dec i r * (\<Sum>d<k. ent ?sub r d * gf (data ! d ! b)))"
    using F(2) [OF b] word vt good b by (simp add: codeword_def k [symmetric] ent_def)
  also have "\<dots> = (\<Sum>d<k. (\<Sum>r<k. ent dec i r * ent ?sub r d) * gf (data ! d ! b))"
    by (simp only: sum_product_swap)
  also have "\<dots> = (\<Sum>d<k. gf (data ! d ! b) * unit_vec i d)"
    by (intro sum.cong) (simp_all add: invert_matrix_Inr(2) [OF wf dec i] mult.commute)
  also have "\<dots> = gf (data ! i ! b)" by (rule sum_unit_vec [OF i])
  finally show "?rec ! b = data ! i ! b" by simp
qed

lemma reconstruct_short:
  "length (filter (\<lambda>i. present ! i) [0..<rs_total_shards rs]) < rs_data_shards rs \<Longrightarrow>
     reconstruct_data rs shards present = Inr (False, shards)"
  by (simp add: reconstruct_data_def valid_indices_def Let_def)

text \<open>The loop over the missing data shards fills in exactly those.\<close>

lemma reconstruct_loop:
  fixes rec :: "bytes list \<Rightarrow> nat \<Rightarrow> bytes"
  assumes "k \<le> length shards"
    and rec: "\<And>s i. i < k \<Longrightarrow> \<not> present ! i \<Longrightarrow>
        (\<And>j. j < length shards \<Longrightarrow> present ! j \<Longrightarrow> s ! j = shards ! j) \<Longrightarrow> rec s i = full i"
    and "j \<le> k"
  shows "length (fold (\<lambda>i s. if present ! i then s else s[i := rec s i]) [0..<j] shards) = length shards
    \<and> (\<forall>i<length shards.
         fold (\<lambda>i s. if present ! i then s else s[i := rec s i]) [0..<j] shards ! i =
         (if i < j \<and> \<not> present ! i then full i else shards ! i))"
  using assms(3)
proof (induction j)
  case 0
  then show ?case by simp
next
  case (Suc j)
  let ?s = "fold (\<lambda>i s. if present ! i then s else s[i := rec s i]) [0..<j] shards"
  have IH: "length ?s = length shards"
    "\<And>i. i < length shards \<Longrightarrow> ?s ! i = (if i < j \<and> \<not> present ! i then full i else shards ! i)"
    using Suc by auto
  have "rec ?s j = full j" if "\<not> present ! j"
    using rec [of j ?s] IH(2) that Suc.prems by simp
  then show ?case using IH Suc.prems assms(1) by (auto simp: nth_list_update less_Suc_eq)
qed

lemma reconstruct_data_correct:
  assumes ok: "rs_ok rs" and k: "k = rs_data_shards rs"
    and data: "length data = k" "uniform len data"
    and full: "codeword rs data full" "length full = rs_total_shards rs" "uniform len full"
      "take k full = data"
    and sh: "length shards = rs_total_shards rs" "length present = rs_total_shards rs"
      "\<And>i. i < rs_total_shards rs \<Longrightarrow> present ! i \<Longrightarrow> shards ! i = full ! i"
    and enough: "k \<le> length (filter (\<lambda>i. present ! i) [0..<rs_total_shards rs])"
  shows "\<exists>s. reconstruct_data rs shards present = Inr (True, s) \<and> take k s = data"
proof -
  let ?v = "valid_indices rs present"
  have kt: "0 < k" "k \<le> rs_total_shards rs" using ok k by (auto simp: rs_ok_def rs_params_def)
  have params: "rs_params k (rs_total_shards rs)" "build_rs_matrix k (rs_total_shards rs) = Inr (rs_matrix rs)"
    using ok k by (auto simp: rs_ok_def)
  note V = valid_indices_facts [OF sh(2) enough [unfolded k]]
  have vset: "set ?v \<subseteq> {..<rs_total_shards rs}" using V(3) by auto
  have vlen: "length ?v = k" using V(1) k by simp
  have vnth: "present ! (?v ! r)" "?v ! r < rs_total_shards rs" if "r < k" for r
    using V(3) nth_mem [of r ?v] that vlen by auto
  let ?sub = "map (\<lambda>r. rs_matrix rs ! (?v ! r)) [0..<k]"
  have "wf_mat k k ?sub"
    using wf_mat_row [OF wf_rs_matrix [OF params]] vnth(2) by (auto simp: wf_mat_def)
  moreover have "trivial_kernel k ?sub" by (rule rs_rows_independent [OF params V(2) vlen vset])
  ultimately obtain dec where dec: "invert_matrix ?sub = Inr dec" by (rule invert_matrix_total)
  have hd: "length (shards ! hd ?v) = len"
  proof -
    have "?v \<noteq> []" using vlen kt by auto
    then have "hd ?v = ?v ! 0" by (rule hd_conv_nth)
    then show ?thesis using vnth [of 0] kt sh(3) full(2,3) by (simp add: uniform_nth)
  qed
  let ?rec = "\<lambda>s i. recover_shard k (dec ! i) s ?v len"
  let ?s = "fold (\<lambda>i s. if present ! i then s else s[i := ?rec s i]) [0..<k] shards"
  have "?rec s i = full ! i" if "i < k" "\<And>j. j < length shards \<Longrightarrow> present ! j \<Longrightarrow> s ! j = shards ! j" for s i
  proof -
    have "?rec s i = data ! i"
      by (rule recover_shard_correct [OF ok vlen V(2) vset k dec full(1) data(2,1)])
        (use that vnth sh full in \<open>simp_all add: uniform_nth\<close>)
    then show ?thesis using full(4) that(1) by (metis nth_take)
  qed
  then have L: "length ?s = length shards"
    "\<forall>i<length shards. ?s ! i = (if i < k \<and> \<not> present ! i then full ! i else shards ! i)"
    using reconstruct_loop [of k shards present ?rec "\<lambda>i. full ! i" k] kt sh(1) by auto
  have "take k ?s = take k full"
    by (rule nth_equalityI) (use L sh full(2) kt in auto)
  moreover have "reconstruct_data rs shards present = Inr (True, ?s)"
    unfolding reconstruct_data_def k [symmetric] Let_def hd using dec vlen by simp
  ultimately show ?thesis using full(4) by auto
qed

text \<open>
  The sub-matrix of the available rows is never singular, so reconstruction does not
  throw, whatever the shards contain.
\<close>

lemma reconstruct_data_total:
  assumes ok: "rs_ok rs" and present: "length present = rs_total_shards rs"
  shows "\<exists>r. reconstruct_data rs shards present = Inr r"
proof (cases "rs_data_shards rs \<le> length (filter (\<lambda>i. present ! i) [0..<rs_total_shards rs])")
  case True
  let ?k = "rs_data_shards rs" and ?v = "valid_indices rs present"
  have params: "rs_params ?k (rs_total_shards rs)"
    "build_rs_matrix ?k (rs_total_shards rs) = Inr (rs_matrix rs)"
    using ok by (auto simp: rs_ok_def)
  note V = valid_indices_facts [OF present True]
  have vset: "set ?v \<subseteq> {..<rs_total_shards rs}" using V(3) by auto
  let ?sub = "map (\<lambda>r. rs_matrix rs ! (?v ! r)) [0..<?k]"
  have "wf_mat ?k ?k ?sub"
    using wf_mat_row [OF wf_rs_matrix [OF params]] V(1) vset by (auto simp: wf_mat_def set_lessThan_nth)
  moreover have "trivial_kernel ?k ?sub" by (rule rs_rows_independent [OF params V(2,1) vset])
  ultimately obtain dec where "invert_matrix ?sub = Inr dec" by (rule invert_matrix_total)
  then show ?thesis using V(1) by (simp add: reconstruct_data_def Let_def del: split_paired_Ex)
next
  case False
  then show ?thesis by (simp add: reconstruct_short del: split_paired_Ex)
qed

section \<open>The contract of an erasure code\<close>

text \<open>
  What \<open>FecCodec\<close> relies on: for \<open>k\<close> data and \<open>m\<close> parity shards of one length, any \<open>k\<close>
  of the \<open>k + m\<close> give the data back.
\<close>

locale erasure_code =
  fixes build :: "nat \<Rightarrow> nat \<Rightarrow> 'c result"
    and encode :: "'c \<Rightarrow> bytes list \<Rightarrow> bytes list \<Rightarrow> bytes list"
    and reconstruct :: "'c \<Rightarrow> bytes list \<Rightarrow> bool list \<Rightarrow> (bool \<times> bytes list) result"
    and ok :: "nat \<Rightarrow> nat \<Rightarrow> bool"
  assumes build_total: "ok k m \<Longrightarrow> \<exists>c. build k m = Inr c"
    and encode_shape: "ok k m \<Longrightarrow> build k m = Inr c \<Longrightarrow> length data = k \<Longrightarrow> uniform len data \<Longrightarrow>
          length parity = m \<Longrightarrow> uniform len parity \<Longrightarrow>
          length (encode c data parity) = m \<and> uniform len (encode c data parity)"
    and recovers: "ok k m \<Longrightarrow> build k m = Inr c \<Longrightarrow> length data = k \<Longrightarrow> uniform len data \<Longrightarrow>
          length parity = m \<Longrightarrow> uniform len parity \<Longrightarrow>
          length shards = k + m \<Longrightarrow> length present = k + m \<Longrightarrow>
          (\<And>i. i < k + m \<Longrightarrow> present ! i \<Longrightarrow> shards ! i = (data @ encode c data parity) ! i) \<Longrightarrow>
          k \<le> length (filter (\<lambda>i. present ! i) [0..<k + m]) \<Longrightarrow>
          \<exists>s. reconstruct c shards present = Inr (True, s) \<and> take k s = data"
    and reconstruct_total: "ok k m \<Longrightarrow> build k m = Inr c \<Longrightarrow> length present = k + m \<Longrightarrow>
          \<exists>r. reconstruct c shards present = Inr r"
begin

text \<open>A client that maps its items into shards and back recovers every item.\<close>

lemma recovers_items:
  assumes "ok k m" "build k m = Inr c" "length items = k"
    and shard: "\<And>x. x \<in> set items \<Longrightarrow> length (wrap x) = len \<and> unwrap (wrap x) = Some x"
    and "length parity = m" "uniform len parity" "length shards = k + m" "length present = k + m"
    and "\<And>i. i < k + m \<Longrightarrow> present ! i \<Longrightarrow>
           shards ! i = (map wrap items @ encode c (map wrap items) parity) ! i"
    and "k \<le> length (filter (\<lambda>i. present ! i) [0..<k + m])"
  obtains s where "reconstruct c shards present = Inr (True, s)" "length (take k s) = k"
    "\<And>i. i < k \<Longrightarrow> s ! i = wrap (items ! i)" "\<And>i. i < k \<Longrightarrow> unwrap (s ! i) = Some (items ! i)"
proof -
  have "uniform len (map wrap items)" using shard by (auto simp: uniform_def)
  then obtain s where s: "reconstruct c shards present = Inr (True, s)" "take k s = map wrap items"
    using recovers [OF assms(1,2), of "map wrap items" len parity shards present] assms by auto
  have "s ! i = wrap (items ! i)" if "i < k" for i
    using s(2) that assms(3) by (metis nth_map nth_take)
  moreover have "unwrap (wrap (items ! i)) = Some (items ! i)" if "i < k" for i
    using shard that assms(3) by simp
  moreover have "length (take k s) = k" using s(2) assms(3) by simp
  ultimately show thesis using that s(1) by simp
qed

end

definition rs_shards_ok :: "nat \<Rightarrow> nat \<Rightarrow> bool" where
  "rs_shards_ok k m \<longleftrightarrow> 0 < k \<and> k + m \<le> 256"

interpretation rs: erasure_code make_reed_solomon rs_encode reconstruct_data rs_shards_ok
proof
  fix k m assume ok: "rs_shards_ok k m"
  then show "\<exists>c. make_reed_solomon k m = Inr c"
    by (auto simp: rs_shards_ok_def elim: make_reed_solomon_ok)
  fix c and data parity :: "bytes list" and len
  assume c: "make_reed_solomon k m = Inr c" and data: "length data = k" "uniform len data"
    and parity: "length parity = m" "uniform len parity"
  have f: "rs_ok c" "rs_data_shards c = k" "rs_parity_shards c = m" "rs_total_shards c = k + m"
    using make_reed_solomon_fields [OF c] ok by (auto simp: rs_shards_ok_def)
  show shape: "length (rs_encode c data parity) = m \<and> uniform len (rs_encode c data parity)"
    using rs_encode_shape [of parity c len data] data parity f by simp
  fix shards :: "bytes list" and present :: "bool list"
  assume sh: "length shards = k + m" "length present = k + m"
    "\<And>i. i < k + m \<Longrightarrow> present ! i \<Longrightarrow> shards ! i = (data @ rs_encode c data parity) ! i"
    "k \<le> length (filter (\<lambda>i. present ! i) [0..<k + m])"
  have "codeword c data (data @ rs_encode c data parity)"
    using rs_encode_codeword [OF f(1)] data parity f by simp
  then show "\<exists>s. reconstruct_data c shards present = Inr (True, s) \<and> take k s = data"
    using reconstruct_data_correct [OF f(1), of k data len "data @ rs_encode c data parity" shards present]
      f data shape sh by simp
next
  fix k m c present and shards :: "bytes list"
  assume "rs_shards_ok k m" "make_reed_solomon k m = Inr c" "length (present :: bool list) = k + m"
  then show "\<exists>r. reconstruct_data c shards present = Inr r"
    using make_reed_solomon_fields [of k m c] reconstruct_data_total [of c present]
    by (auto simp: rs_shards_ok_def)
qed

section \<open>Properties\<close>

text \<open>C12: The erasure code recovers from any loss it is built for: for every split of at
  most 256 shards into \<open>k\<close> data and \<open>m\<close> parity shards of one length, the code is
  constructed, and whichever \<open>k\<close> (or more) of the \<open>k + m\<close> shards are present,
  \<open>reconstruct_data\<close> succeeds and the first \<open>k\<close> shards are the original data.\<close>

theorem rs_recovers_any_k:
  assumes "0 < k" "k + m \<le> 256" "length data = k" "\<forall>d \<in> set data. length d = len"
    and "length shards = k + m" "length present = k + m" "k \<le> length (filter (\<lambda>i. present ! i) [0..<k + m])"
  shows "\<exists>rs. make_reed_solomon k m = Inr rs \<and>
     ((\<forall>i<k + m. present ! i \<longrightarrow>
          shards ! i = (data @ rs_encode rs data (replicate m (replicate len 0))) ! i) \<longrightarrow>
      (\<exists>s. reconstruct_data rs shards present = Inr (True, s) \<and> take k s = data))"
proof -
  have ok: "rs_shards_ok k m" using assms(1,2) by (simp add: rs_shards_ok_def)
  obtain c where c: "make_reed_solomon k m = Inr c" using rs.build_total [OF ok] by blast
  have u: "uniform len data" "uniform len (replicate m (replicate len 0))"
    using assms(4) by (auto simp: uniform_def)
  have "\<exists>s. reconstruct_data c shards present = Inr (True, s) \<and> take k s = data"
    if "\<forall>i<k + m. present ! i \<longrightarrow>
          shards ! i = (data @ rs_encode c data (replicate m (replicate len 0))) ! i"
    by (rule rs.recovers [OF ok c assms(3) u(1) _ u(2) assms(5,6) _ assms(7)]) (use that in auto)
  with c show ?thesis by blast
qed

lemma rs_recovers_any_k_witness:
  "\<exists>rs. make_reed_solomon 2 1 = Inr rs \<and>
     (\<exists>s. reconstruct_data rs
            [[], [4, 5, 6], hd (rs_encode rs [[1, 2, 3], [4, 5, 6]] [[0, 0, 0]])] [False, True, True] =
              Inr (True, s) \<and> take 2 s = [[1, 2, 3], [4, 5, 6]])"
proof -
  obtain c where c: "make_reed_solomon 2 1 = Inr c"
    using rs.build_total [of 2 1] by (auto simp: rs_shards_ok_def)
  let ?par = "rs_encode c [[1, 2, 3], [4, 5, 6]] [[0, 0, 0]]"
  have "length ?par = 1" using make_reed_solomon_fields [OF c] by (simp add: rs_encode_def)
  then have "?par \<noteq> []" by auto
  then have par: "hd ?par = ?par ! 0" by (rule hd_conv_nth)
  have prem: "\<forall>i<3. [False, True, True] ! i \<longrightarrow>
        [[], [4, 5, 6], hd ?par] ! i = ([[1, 2, 3], [4, 5, 6]] @ ?par) ! i"
  proof (intro allI impI)
    fix i :: nat assume "i < 3" "[False, True, True] ! i"
    then consider "i = 1" | "i = 2" by (cases i; cases "i - 1") auto
    then show "[[], [4, 5, 6], hd ?par] ! i = ([[1, 2, 3], [4, 5, 6]] @ ?par) ! i"
      by cases (simp_all add: par nth_append)
  qed
  from rs_recovers_any_k [of 2 1 "[[1, 2, 3], [4, 5, 6]]" 3
      "[[], [4, 5, 6], hd ?par]" "[False, True, True]"]
  obtain c' where c': "make_reed_solomon 2 1 = Inr c'"
    "(\<forall>i<3. [False, True, True] ! i \<longrightarrow>
        [[], [4, 5, 6], hd ?par] ! i = ([[1, 2, 3], [4, 5, 6]] @ rs_encode c' [[1, 2, 3], [4, 5, 6]] [[0, 0, 0]]) ! i) \<longrightarrow>
      (\<exists>s. reconstruct_data c' [[], [4, 5, 6], hd ?par] [False, True, True] = Inr (True, s) \<and>
           take 2 s = [[1, 2, 3], [4, 5, 6]])"
    by (auto simp: numeral_eq_Suc)
  have "c' = c" using c c'(1) by simp
  with c'(2) prem have "\<exists>s. reconstruct_data c [[], [4, 5, 6], hd ?par] [False, True, True] = Inr (True, s) \<and>
           take 2 s = [[1, 2, 3], [4, 5, 6]]" by blast
  with c show ?thesis by blast
qed

end
