(* ===== verification/Fec.thy ===== *)
theory Fec
  imports Wire Stats Base_Config Reed_Solomon "HOL-Library.AList" "HOL-Library.Multiset"
begin

text \<open>
  \<open>FecCodec\<close> of \<open>fec.cpp\<close>: the packet format, the encoder that numbers packets and adds
  parity after every \<open>data_shards\<close> of them, and the decoder that collects the shards of a
  group and reconstructs missing payloads. The hash map of shard sets is an association
  list with distinct keys, so its size is its length. \<open>now\<close> stands for
  \<open>current_millis()\<close>, and the counters are threaded through \<open>fec_decode\<close>.
\<close>

section \<open>The codec\<close>

definition fec_header_size :: nat where "fec_header_size = 6"
definition fec_header_size_plus_size :: nat where "fec_header_size_plus_size = 8"
definition fec_type_data :: u16 where "fec_type_data = 0xf1"
definition fec_type_parity :: u16 where "fec_type_parity = 0xf2"
definition fec_type_oob :: u16 where "fec_type_oob = 0xf3"
definition max_fec_encode_latency_ms :: int where "max_fec_encode_latency_ms = 500"
definition max_shard_sets :: u32 where "max_shard_sets = 3"

lemmas fec_constants = fec_header_size_def fec_header_size_plus_size_def fec_type_data_def
  fec_type_parity_def fec_type_oob_def max_fec_encode_latency_ms_def max_shard_sets_def

definition timediff :: "u32 \<Rightarrow> u32 \<Rightarrow> int" where
  "timediff later earlier = sint (later - earlier)"

definition fec_kcp_payload_offset :: "bytes \<Rightarrow> nat option" where
  "fec_kcp_payload_offset packet =
     (if length packet < fec_header_size_plus_size then Some 0
      else
        let flag = read_le16 packet 4 in
        if flag = fec_type_data \<or> flag = fec_type_oob then Some fec_header_size_plus_size
        else if flag = fec_type_parity then None
        else Some 0)"

record shard_set =
  ss_shards :: "bytes list"
  ss_present :: "bool list"
  ss_data_shard :: "bool list"

record fec_codec =
  fec_data_shards :: nat
  fec_parity_shards :: nat
  fec_shard_size :: nat
  fec_enabled :: bool
  fec_paws :: u32
  fec_next_seq :: u32
  fec_shard_count :: nat
  fec_max_shard_len :: nat
  fec_latest_packet_ms :: int
  fec_newest_shard_id :: u32
  fec_encode_shards :: "bytes list"
  fec_decode_sets :: "(u32 \<times> shard_set) list"
  fec_rs :: "reed_solomon option"

text \<open>
  The constructor. The counts of the configuration are \<open>int\<close>; a negative count disables
  the codec, and no operation of a disabled codec reads them, so the members are \<open>nat\<close>.
\<close>

definition make_fec_codec :: "'a base_config_scheme \<Rightarrow> fec_codec result" where
  "make_fec_codec config =
     (case int_add (cfg_datashard config) (cfg_parityshard config) of
        Inl e \<Rightarrow> Inl e
      | Inr shard_size \<Rightarrow>
          let enabled = cfg_datashard config > 0 \<and> cfg_parityshard config > 0 \<and> shard_size \<le> 256;
              codec = \<lparr> fec_data_shards = nat (cfg_datashard config),
                        fec_parity_shards = nat (cfg_parityshard config),
                        fec_shard_size = nat shard_size, fec_enabled = enabled,
                        fec_paws = 0, fec_next_seq = 0, fec_shard_count = 0,
                        fec_max_shard_len = 0, fec_latest_packet_ms = 0,
                        fec_newest_shard_id = 0, fec_encode_shards = [],
                        fec_decode_sets = [], fec_rs = None \<rparr>
          in if \<not> enabled then Inr codec
             else
               case make_reed_solomon (fec_data_shards codec) (fec_parity_shards codec) of
                 Inl e \<Rightarrow> Inl e
               | Inr rs \<Rightarrow> Inr (codec
                   \<lparr> fec_paws := 0xffffffff div of_int shard_size * of_int shard_size,
                     fec_encode_shards := replicate (fec_data_shards codec) [],
                     fec_rs := Some rs \<rparr>))"

definition fec_overhead :: "fec_codec \<Rightarrow> nat" where
  "fec_overhead c = (if fec_enabled c then fec_header_size_plus_size else 0)"

definition packet_flag :: "bytes \<Rightarrow> u16" where
  "packet_flag packet = read_le16 packet 4"

definition packet_seq :: "bytes \<Rightarrow> u32" where
  "packet_seq packet = read_le32 packet 0"

section \<open>Encoder\<close>

definition seal_packet :: "bytes \<Rightarrow> u16 \<Rightarrow> fec_codec \<Rightarrow> bytes \<times> fec_codec" where
  "seal_packet packet ty c =
     (let packet = write_le32 packet 0 (fec_next_seq c);
          packet = write_le16 packet 4 ty
      in (packet, c \<lparr> fec_next_seq := (fec_next_seq c + 1) mod fec_paws c \<rparr>))"

definition skip_parity :: "fec_codec \<Rightarrow> fec_codec" where
  "skip_parity c =
     c \<lparr> fec_next_seq := (fec_next_seq c + of_nat (fec_parity_shards c)) mod fec_paws c \<rparr>"

text \<open>The loop over the parity shards: each gets a header and the next sequence number.\<close>

fun seal_parity :: "bytes list \<Rightarrow> fec_codec \<Rightarrow> bytes list \<times> fec_codec" where
  "seal_parity [] c = ([], c)"
| "seal_parity (shard # shards) c =
     (let packet = replicate (fec_header_size + length shard) 0;
          packet = memcpy packet fec_header_size shard;
          (packet, c) = seal_packet packet fec_type_parity c;
          (packets, c) = seal_parity shards c
      in (packet # packets, c))"

definition fec_encode :: "int \<Rightarrow> bytes \<Rightarrow> fec_codec \<Rightarrow> bytes list \<times> fec_codec" where
  "fec_encode now kcp_packet c =
     (if \<not> fec_enabled c then ([kcp_packet], c)
      else
        let data_packet = replicate (fec_header_size_plus_size + length kcp_packet) 0;
            data_packet = write_le16 data_packet fec_header_size (of_nat (length kcp_packet + 2));
            data_packet = memcpy data_packet fec_header_size_plus_size kcp_packet;
            (data_packet, c) = seal_packet data_packet fec_type_data c;
            shard = drop fec_header_size data_packet;
            c = c \<lparr> fec_max_shard_len := max (fec_max_shard_len c) (length shard),
                    fec_encode_shards := (fec_encode_shards c)[fec_shard_count c := shard],
                    fec_shard_count := fec_shard_count c + 1 \<rparr>;
            (parity_packets, c) =
              (if fec_shard_count c = fec_data_shards c then
                 let (parity_packets, c) =
                       (if fec_latest_packet_ms c \<noteq> 0 \<and>
                           now - fec_latest_packet_ms c < max_fec_encode_latency_ms then
                          let len = fec_max_shard_len c;
                              c = c \<lparr> fec_encode_shards :=
                                        map (resize len 0) (fec_encode_shards c) \<rparr>;
                              parity = rs_encode (the (fec_rs c)) (fec_encode_shards c)
                                         (replicate (fec_parity_shards c) (replicate len 0))
                          in seal_parity parity c
                        else ([], skip_parity c))
                 in (parity_packets, c \<lparr> fec_shard_count := 0, fec_max_shard_len := 0 \<rparr>)
               else ([], c))
        in (data_packet # parity_packets, c \<lparr> fec_latest_packet_ms := now \<rparr>))"

text \<open>A sequence of calls, each at its time.\<close>

fun fec_encode_list :: "(int \<times> bytes) list \<Rightarrow> fec_codec \<Rightarrow> bytes list \<times> fec_codec" where
  "fec_encode_list [] c = ([], c)"
| "fec_encode_list ((now, p) # xs) c =
     (let (ps, c) = fec_encode now p c; (qs, c) = fec_encode_list xs c in (ps @ qs, c))"

section \<open>Decoder\<close>

definition empty_shard_set :: shard_set where
  "empty_shard_set = \<lparr> ss_shards = [], ss_present = [], ss_data_shard = [] \<rparr>"

definition sized_shard_set :: "nat \<Rightarrow> shard_set" where
  "sized_shard_set n =
     \<lparr> ss_shards = replicate n [], ss_present = replicate n False,
       ss_data_shard = replicate n False \<rparr>"

definition count_present :: "bool list \<Rightarrow> nat" where
  "count_present ps = length (filter (\<lambda>p. p) ps)"

definition discard_old_shards :: "u32 \<Rightarrow> fec_codec \<Rightarrow> fec_codec" where
  "discard_old_shards newest c =
     (let n = of_nat (fec_shard_size c)
      in c \<lparr> fec_decode_sets :=
               filter (\<lambda>(shard_id, _).
                   \<not> timediff (newest * n) (shard_id * n) > sint (max_shard_sets * n))
                 (fec_decode_sets c) \<rparr>)"

text \<open>\<open>decode_sets_[shard_id]\<close>, and the sizing of a set that has just been created.\<close>

definition open_shard_set :: "u32 \<Rightarrow> fec_codec \<Rightarrow> snmp \<Rightarrow> shard_set \<times> fec_codec \<times> snmp" where
  "open_shard_set shard_id c s =
     (let sets = (case map_of (fec_decode_sets c) shard_id of
                    None \<Rightarrow> AList.update shard_id empty_shard_set (fec_decode_sets c)
                  | Some _ \<Rightarrow> fec_decode_sets c);
          sset = the (map_of sets shard_id)
      in if ss_shards sset = [] then
           let sset = sized_shard_set (fec_shard_size c)
           in (sset, c \<lparr> fec_decode_sets := AList.update shard_id sset sets \<rparr>,
               snmp_store Fec_shard_set (of_nat (length sets)) s)
         else (sset, c \<lparr> fec_decode_sets := sets \<rparr>, s))"

text \<open>The packet is stored in the set.\<close>

definition add_shard :: "nat \<Rightarrow> u16 \<Rightarrow> bytes \<Rightarrow> shard_set \<Rightarrow> shard_set" where
  "add_shard shard_index flag packet sset = sset \<lparr>
     ss_shards := (ss_shards sset)[shard_index := drop fec_header_size packet],
     ss_present := (ss_present sset)[shard_index := True],
     ss_data_shard := (ss_data_shard sset)[shard_index := flag = fec_type_data] \<rparr>"

text \<open>The loop that collects the payloads of the recovered data shards.\<close>

definition recovered_payload :: "bytes \<Rightarrow> bytes option" where
  "recovered_payload recovered =
     (if length recovered < 2 then None
      else
        let sz = unat (read_le16 recovered 0) in
        if sz \<ge> 2 \<and> sz \<le> length recovered then Some (take (sz - 2) (drop 2 recovered)) else None)"

definition collect_recovered :: "nat \<Rightarrow> bool list \<Rightarrow> bytes list \<Rightarrow> bytes list" where
  "collect_recovered data_shards present shards =
     List.map_filter (\<lambda>i. if present ! i then None else recovered_payload (shards ! i))
       [0..<data_shards]"

text \<open>A set with enough shards: the recovered payloads and the counters.\<close>

definition complete_set :: "fec_codec \<Rightarrow> shard_set \<Rightarrow> snmp \<Rightarrow> (bytes list \<times> snmp) result" where
  "complete_set c sset s =
     (let data_present = length (filter (\<lambda>i. ss_present sset ! i) [0..<fec_data_shards c]);
          max_len = fold (\<lambda>i m. if ss_present sset ! i then max m (length (ss_shards sset ! i)) else m)
                      [0..<fec_shard_size c] 0
      in if data_present \<noteq> fec_data_shards c then
           let shards = map (\<lambda>i. if ss_present sset ! i then resize max_len 0 (ss_shards sset ! i)
                                 else ss_shards sset ! i) [0..<fec_shard_size c]
           in case reconstruct_data (the (fec_rs c)) shards (ss_present sset) of
                Inl e \<Rightarrow> Inl e
              | Inr (ok, shards) \<Rightarrow>
                  if ok then
                    let recovered = collect_recovered (fec_data_shards c) (ss_present sset) shards
                    in Inr (recovered, snmp_add Fec_recovered (of_nat (length recovered)) s)
                  else Inr ([], snmp_add Fec_errs 1 s)
         else Inr ([], snmp_add Fec_full_shard_set 1 s))"

definition advance_newest :: "u32 \<Rightarrow> fec_codec \<Rightarrow> snmp \<Rightarrow> fec_codec \<times> snmp" where
  "advance_newest shard_id c s =
     (let n = of_nat (fec_shard_size c)
      in if timediff (shard_id * n) (fec_newest_shard_id c * n) > 0 then
           let c = c \<lparr> fec_newest_shard_id := shard_id \<rparr>;
               s = snmp_store Fec_shard_min (ucast shard_id) s
           in (discard_old_shards shard_id c, s)
         else (c, s))"

definition fec_decode ::
  "bytes \<Rightarrow> fec_codec \<Rightarrow> snmp \<Rightarrow> (bytes list \<times> fec_codec \<times> snmp) result" where
  "fec_decode packet c s =
     (if \<not> fec_enabled c then Inr ([packet], c, s)
      else if length packet < fec_header_size_plus_size then Inr ([packet], c, s)
      else
        let flag = packet_flag packet in
        if flag \<noteq> fec_type_data \<and> flag \<noteq> fec_type_parity \<and> flag \<noteq> fec_type_oob then
          Inr ([packet], c, s)
        else if flag = fec_type_oob then Inr ([], c, snmp_add Oob_packets 1 s)
        else
          let (output, s) =
                (if flag = fec_type_data then ([drop fec_header_size_plus_size packet], s)
                 else ([], snmp_add Fec_parity_shards 1 s));
              seq = packet_seq packet
          in if seq \<ge> fec_paws c then Inr (output, c, s)
             else
               let shard_index = unat (seq mod of_nat (fec_shard_size c));
                   shard_id = seq div of_nat (fec_shard_size c);
                   (sset, c, s) = open_shard_set shard_id c s
               in if ss_present sset ! shard_index then Inr (output, c, snmp_add Repeat_segs 1 s)
                  else
                    let sset = add_shard shard_index flag packet sset;
                        c = c \<lparr> fec_decode_sets := AList.update shard_id sset (fec_decode_sets c) \<rparr>;
                        completed =
                          (if count_present (ss_present sset) \<ge> fec_data_shards c then
                             case complete_set c sset s of
                               Inl e \<Rightarrow> Inl e
                             | Inr (recovered, s) \<Rightarrow>
                                 let c = c \<lparr> fec_decode_sets :=
                                               AList.delete shard_id (fec_decode_sets c) \<rparr>
                                 in Inr (recovered, c,
                                      snmp_store Fec_shard_set
                                        (of_nat (length (fec_decode_sets c))) s)
                           else Inr ([], c, s))
                    in case completed of
                         Inl e \<Rightarrow> Inl e
                       | Inr (recovered, c, s) \<Rightarrow>
                           let (c, s) = advance_newest shard_id c s
                           in Inr (output @ recovered, c, s))"

fun fec_decode_list ::
  "bytes list \<Rightarrow> fec_codec \<Rightarrow> snmp \<Rightarrow> (bytes list \<times> fec_codec \<times> snmp) result" where
  "fec_decode_list [] c s = Inr ([], c, s)"
| "fec_decode_list (p # ps) c s =
     (case fec_decode p c s of
        Inl e \<Rightarrow> Inl e
      | Inr (out, c, s) \<Rightarrow>
          (case fec_decode_list ps c s of
             Inl e \<Rightarrow> Inl e
           | Inr (outs, c, s) \<Rightarrow> Inr (out @ outs, c, s)))"

section \<open>Packets\<close>

text \<open>What the encoder emits, field by field.\<close>

definition fec_shard :: "bytes \<Rightarrow> bytes" where
  "fec_shard payload = le16_bytes (of_nat (length payload + 2)) @ payload"

definition fec_packet :: "u32 \<Rightarrow> u16 \<Rightarrow> bytes \<Rightarrow> bytes" where
  "fec_packet seq ty shard = le32_bytes seq @ le16_bytes ty @ shard"

lemma length_fec_shard [simp]: "length (fec_shard p) = length p + 2"
  by (simp add: fec_shard_def)

lemma length_fec_packet [simp]: "length (fec_packet seq ty shard) = length shard + 6"
  by (simp add: fec_packet_def)

lemma drop_fec_packet [simp]: "drop 6 (fec_packet seq ty shard) = shard"
  "drop 8 (fec_packet seq ty shard) = drop 2 shard"
  by (simp_all add: fec_packet_def)

lemma packet_seq_fec_packet [simp]: "packet_seq (fec_packet seq ty shard) = seq"
  by (simp add: packet_seq_def fec_packet_def le32.dec_front)

lemma packet_flag_fec_packet [simp]: "packet_flag (fec_packet seq ty shard) = ty"
  by (simp add: packet_flag_def fec_packet_def le16.dec_after)

lemma read_le16_fec_packet [simp]: "read_le16 (fec_packet seq ty shard) 4 = ty"
  using packet_flag_fec_packet by (simp add: packet_flag_def)

lemma fec_types_distinct [simp]:
  "fec_type_data \<noteq> fec_type_parity" "fec_type_data \<noteq> fec_type_oob" "fec_type_parity \<noteq> fec_type_oob"
  "fec_type_parity \<noteq> fec_type_data" "fec_type_oob \<noteq> fec_type_data" "fec_type_oob \<noteq> fec_type_parity"
  by (simp_all add: fec_constants)

lemma recovered_payload_fec_shard:
  assumes "length p \<le> 65533"
  shows "recovered_payload (fec_shard p @ replicate j 0) = Some p"
proof -
  have "read_le16 (fec_shard p @ replicate j 0) 0 = of_nat (length p + 2)"
    by (simp add: fec_shard_def le16.dec_front)
  moreover have "unat (of_nat (length p + 2) :: u16) = length p + 2"
    using assms by (intro unat_of_nat_lt) simp
  moreover have "drop 2 (fec_shard p @ replicate j 0) = p @ replicate j 0"
    by (simp add: fec_shard_def)
  ultimately show ?thesis by (simp add: recovered_payload_def Let_def)
qed

lemma write_headers:
  "write_le16 (write_le32 (replicate 6 0 @ rest) 0 seq) 4 ty = fec_packet seq ty rest"
proof -
  have "write_le32 (replicate 6 0 @ rest) 0 seq = le32_bytes seq @ [0, 0] @ rest"
    by (simp add: write_le32_def memcpy_def numeral_eq_Suc)
  moreover have "write_le16 (le32_bytes seq @ [0, 0] @ rest) 4 ty = le32_bytes seq @ le16_bytes ty @ rest"
    using memcpy_append [of "[0, 0]" "le16_bytes ty" "le32_bytes seq" rest] by (simp add: write_le16_def)
  ultimately show ?thesis by (simp add: fec_packet_def)
qed

lemma seal_packet_eq:
  "seal_packet (replicate 6 0 @ rest) ty c =
     (fec_packet (fec_next_seq c) ty rest, c \<lparr> fec_next_seq := (fec_next_seq c + 1) mod fec_paws c \<rparr>)"
  by (simp add: seal_packet_def write_headers)

lemma data_packet_body:
  "memcpy (write_le16 (replicate (8 + length p) 0) 6 (of_nat (length p + 2))) 8 p =
     replicate 6 0 @ fec_shard p"
proof -
  have "replicate (8 + length p) 0 = replicate 6 0 @ [0, 0] @ replicate (length p) (0 :: byte)"
    by (simp add: replicate_add numeral_eq_Suc)
  then have "write_le16 (replicate (8 + length p) 0) 6 (of_nat (length p + 2)) =
      replicate 6 0 @ le16_bytes (of_nat (length p + 2)) @ replicate (length p) 0"
    using memcpy_append [of "[0, 0]" "le16_bytes (of_nat (length p + 2))" "replicate 6 0"]
    by (simp add: write_le16_def)
  moreover have "memcpy ((replicate 6 0 @ le16_bytes v) @ replicate (length p) 0 @ []) 8 p =
      (replicate 6 0 @ le16_bytes v) @ p @ []" for v
    using memcpy_append [of "replicate (length p) 0" p "replicate 6 0 @ le16_bytes v" "[]"] by simp
  ultimately show ?thesis by (simp add: fec_shard_def)
qed

text \<open>Sequence numbers: \<open>i\<close> steps of the counter below \<open>paws\<close>.\<close>

definition seq_after :: "u32 \<Rightarrow> nat \<Rightarrow> u32 \<Rightarrow> u32" where
  "seq_after paws i s = of_nat ((unat s + i) mod unat paws)"

lemma unat_seq_after:
  assumes "0 < paws"
  shows "unat (seq_after paws i s) = (unat s + i) mod unat paws"
proof -
  have "(unat s + i) mod unat paws < unat paws" using assms by (simp add: word_gt_0 unat_gt_0)
  then have "(unat s + i) mod unat paws < 4294967296" using unat_u32_less less_trans by blast
  then show ?thesis unfolding seq_after_def by (intro unat_of_nat_lt) simp
qed

lemma seq_after_less: "0 < paws \<Longrightarrow> unat (seq_after paws i s) < unat paws"
  by (simp add: unat_seq_after word_gt_0 unat_gt_0)

lemma seq_after_0 [simp]: "unat s < unat paws \<Longrightarrow> seq_after paws 0 s = s"
  by (simp add: seq_after_def)

lemma seq_after_after: "0 < paws \<Longrightarrow> seq_after paws i (seq_after paws j s) = seq_after paws (j + i) s"
  by (simp add: seq_after_def [of paws i] unat_seq_after mod_add_left_eq add.assoc)
    (simp add: seq_after_def add.assoc)

lemma seq_plus_mod:
  assumes "unat s + i < 2 ^ 32"
  shows "(s + of_nat i) mod paws = seq_after paws i s"
proof -
  have "s + of_nat i = of_nat (unat s + i)" by simp
  moreover have "unat (of_nat (unat s + i) :: u32) = unat s + i" using assms by (intro unat_of_nat_lt) simp
  ultimately have "unat ((s + of_nat i) mod paws) = (unat s + i) mod unat paws" by (simp add: unat_mod)
  then show ?thesis unfolding seq_after_def by (metis word_nat_cases of_nat_unat ucast_id)
qed

lemma seq_step: "unat s < unat paws \<Longrightarrow> (s + 1) mod paws = seq_after paws 1 s"
  using seq_plus_mod [of s 1 paws] unat_u32_less [of paws] by simp

lemma seal_parity_eq:
  "unat (fec_next_seq c) < unat (fec_paws c) \<Longrightarrow>
   seal_parity shards c =
     (map (\<lambda>i. fec_packet (seq_after (fec_paws c) i (fec_next_seq c)) fec_type_parity (shards ! i))
        [0..<length shards],
      c \<lparr> fec_next_seq := seq_after (fec_paws c) (length shards) (fec_next_seq c) \<rparr>)"
proof (induction shards arbitrary: c)
  case (Cons shard shards)
  let ?p = "fec_paws c" and ?c = "c \<lparr> fec_next_seq := seq_after (fec_paws c) (Suc 0) (fec_next_seq c) \<rparr>"
  have pos: "0 < ?p" using Cons.prems by (metis gr_zeroI less_nat_zero_code unat_0 word_gt_0)
  have body: "memcpy (replicate (fec_header_size + length shard) 0) fec_header_size shard = replicate 6 0 @ shard"
    using memcpy_append [of "replicate (length shard) 0" shard "replicate 6 0" "[]"]
    by (simp add: fec_header_size_def replicate_add)
  have IH: "seal_parity shards ?c =
     (map (\<lambda>i. fec_packet (seq_after ?p (Suc i) (fec_next_seq c)) fec_type_parity (shards ! i)) [0..<length shards],
      c \<lparr> fec_next_seq := seq_after ?p (Suc (length shards)) (fec_next_seq c) \<rparr>)"
    using Cons.IH [of ?c] pos by (simp add: seq_after_less seq_after_after)
  show ?case
    using Cons.prems by (simp add: body seal_packet_eq seq_step IH map_upt_Suc del: upt_Suc)
qed simp

section \<open>Invariants\<close>

definition fec_static :: "fec_codec \<Rightarrow> bool" where
  "fec_static c \<longleftrightarrow>
     fec_enabled c \<and> 0 < fec_data_shards c \<and> 0 < fec_parity_shards c \<and>
     fec_shard_size c = fec_data_shards c + fec_parity_shards c \<and> fec_shard_size c \<le> 256 \<and>
     unat (fec_paws c) = 4294967295 div fec_shard_size c * fec_shard_size c \<and>
     (\<exists>rs. fec_rs c = Some rs \<and> make_reed_solomon (fec_data_shards c) (fec_parity_shards c) = Inr rs)"

definition fec_encoder_ok :: "fec_codec \<Rightarrow> bool" where
  "fec_encoder_ok c \<longleftrightarrow>
     fec_shard_count c < fec_data_shards c \<and> length (fec_encode_shards c) = fec_data_shards c \<and>
     unat (fec_next_seq c) < unat (fec_paws c) \<and>
     unat (fec_next_seq c) mod fec_shard_size c = fec_shard_count c \<and>
     (\<forall>i<fec_shard_count c. length (fec_encode_shards c ! i) \<le> fec_max_shard_len c)"

definition shard_set_ok :: "nat \<Rightarrow> shard_set \<Rightarrow> bool" where
  "shard_set_ok n ss \<longleftrightarrow> length (ss_shards ss) = n \<and> length (ss_present ss) = n \<and> length (ss_data_shard ss) = n"

definition fec_decoder_ok :: "fec_codec \<Rightarrow> bool" where
  "fec_decoder_ok c \<longleftrightarrow>
     distinct (map fst (fec_decode_sets c)) \<and>
     (\<forall>sid ss. map_of (fec_decode_sets c) sid = Some ss \<longrightarrow>
        shard_set_ok (fec_shard_size c) ss \<and> count_present (ss_present ss) < fec_data_shards c)"

lemma fec_static_facts:
  assumes "fec_static c"
  shows "fec_enabled c" "0 < fec_data_shards c" "0 < fec_parity_shards c"
    "fec_shard_size c = fec_data_shards c + fec_parity_shards c" "fec_shard_size c \<le> 256"
    "unat (fec_paws c) = 4294967295 div fec_shard_size c * fec_shard_size c"
    "fec_shard_size c dvd unat (fec_paws c)" "fec_shard_size c \<le> unat (fec_paws c)" "0 < fec_paws c"
proof -
  show "fec_enabled c" "0 < fec_data_shards c" "0 < fec_parity_shards c"
    and n: "fec_shard_size c = fec_data_shards c + fec_parity_shards c" "fec_shard_size c \<le> 256"
    and p: "unat (fec_paws c) = 4294967295 div fec_shard_size c * fec_shard_size c"
    using assms by (auto simp: fec_static_def)
  then have "0 < fec_shard_size c" by simp
  then have "1 \<le> 4294967295 div fec_shard_size c" using n(2) by (simp add: div_greater_zero_iff Suc_le_eq)
  then show "fec_shard_size c \<le> unat (fec_paws c)" using p by simp
  with \<open>0 < fec_shard_size c\<close> show "0 < fec_paws c" by (simp add: word_gt_0 unat_gt_0 flip: unat_gt_0)
  show "fec_shard_size c dvd unat (fec_paws c)" using p by simp
qed

lemma fec_static_rs:
  assumes "fec_static c"
  shows "rs_shards_ok (fec_data_shards c) (fec_parity_shards c)"
    "make_reed_solomon (fec_data_shards c) (fec_parity_shards c) = Inr (the (fec_rs c))"
  using assms by (auto simp: fec_static_def rs_shards_ok_def)

lemma make_fec_codec_ok:
  assumes "make_fec_codec config = Inr c" and "fec_enabled c"
  shows "fec_static c \<and> fec_encoder_ok c \<and> fec_decoder_ok c"
proof -
  let ?k = "nat (cfg_datashard config)" and ?m = "nat (cfg_parityshard config)"
  let ?n = "cfg_datashard config + cfg_parityshard config"
  have int: "0 < cfg_datashard config" "0 < cfg_parityshard config" "?n \<le> 256"
    using assms by (auto simp: make_fec_codec_def int_add_def Let_def split: sum.splits if_splits)
  then have pos: "0 < ?k" "0 < ?m" "?k + ?m \<le> 256" and n: "nat ?n = ?k + ?m"
    by (auto simp: nat_add_distrib)
  have "(of_int ?n :: u32) = of_nat (?k + ?m)" using int by (simp flip: n)
  then have un: "unat (of_int ?n :: u32) = ?k + ?m"
    using pos(3) unat_of_nat_lt [of "?k + ?m", where 'a = 32] by (simp del: of_nat_add of_int_add)
  obtain rs where rs: "make_reed_solomon ?k ?m = Inr rs" using make_reed_solomon_ok [of ?k ?m] pos by blast
  have c: "c = \<lparr> fec_data_shards = ?k, fec_parity_shards = ?m, fec_shard_size = ?k + ?m,
      fec_enabled = True, fec_paws = 0xffffffff div of_int ?n * of_int ?n, fec_next_seq = 0,
      fec_shard_count = 0, fec_max_shard_len = 0, fec_latest_packet_ms = 0, fec_newest_shard_id = 0,
      fec_encode_shards = replicate ?k [], fec_decode_sets = [], fec_rs = Some rs \<rparr>"
    using assms rs int n
    by (simp add: make_fec_codec_def int_add_def Let_def split: if_splits)
  have "4294967295 div (?k + ?m) * (?k + ?m) < 2 ^ 32"
    by (rule le_less_trans [OF div_times_less_eq_dividend]) simp
  then have paws: "unat (0xffffffff div of_int ?n * of_int ?n :: u32) = 4294967295 div (?k + ?m) * (?k + ?m)"
    using un by (simp add: unat_mult_lem [THEN iffD1] unat_div del: of_int_add)
  moreover have "0 < 4294967295 div (?k + ?m) * (?k + ?m)" using pos by (simp add: div_greater_zero_iff)
  ultimately show ?thesis
    using pos rs by (simp add: c fec_static_def fec_encoder_ok_def fec_decoder_ok_def)
qed

section \<open>The encoder\<close>

lemma fec_encode_data:
  assumes "fec_static c" "fec_encoder_ok c"
  shows "fec_encode now p c =
     (let c1 = c \<lparr> fec_next_seq := seq_after (fec_paws c) 1 (fec_next_seq c),
          fec_max_shard_len := max (fec_max_shard_len c) (length p + 2),
          fec_encode_shards := (fec_encode_shards c)[fec_shard_count c := fec_shard p],
          fec_shard_count := Suc (fec_shard_count c) \<rparr>;
        (parity_packets, c2) =
          (if fec_shard_count c1 = fec_data_shards c then
             let (parity_packets, c) =
               (if fec_latest_packet_ms c1 \<noteq> 0 \<and> now - fec_latest_packet_ms c1 < max_fec_encode_latency_ms then
                  let len = fec_max_shard_len c1;
                      c = c1 \<lparr> fec_encode_shards := map (resize len 0) (fec_encode_shards c1) \<rparr>;
                      parity = rs_encode (the (fec_rs c)) (fec_encode_shards c)
                                 (replicate (fec_parity_shards c) (replicate len 0))
                  in seal_parity parity c
                else ([], skip_parity c1))
             in (parity_packets, c \<lparr> fec_shard_count := 0, fec_max_shard_len := 0 \<rparr>)
           else ([], c1))
      in (fec_packet (fec_next_seq c) fec_type_data (fec_shard p) # parity_packets,
          c2 \<lparr> fec_latest_packet_ms := now \<rparr>))"
proof -
  have d: "fec_enabled c" and s: "(fec_next_seq c + 1) mod fec_paws c = seq_after (fec_paws c) 1 (fec_next_seq c)"
    using assms by (auto simp: fec_static_def fec_encoder_ok_def seq_step)
  show ?thesis
    unfolding fec_encode_def fec_header_size_def fec_header_size_plus_size_def Let_def
      data_packet_body seal_packet_eq prod.case s
    using d by (simp add: Let_def)
qed

lemma fec_encode_partial:
  assumes "fec_static c" "fec_encoder_ok c" "Suc (fec_shard_count c) \<noteq> fec_data_shards c"
  shows "fec_encode now p c =
     ([fec_packet (fec_next_seq c) fec_type_data (fec_shard p)],
      c \<lparr> fec_next_seq := seq_after (fec_paws c) 1 (fec_next_seq c),
          fec_max_shard_len := max (fec_max_shard_len c) (length p + 2),
          fec_encode_shards := (fec_encode_shards c)[fec_shard_count c := fec_shard p],
          fec_shard_count := Suc (fec_shard_count c),
          fec_latest_packet_ms := now \<rparr>)"
  using assms(3) by (simp add: fec_encode_data [OF assms(1,2)] Let_def)

lemma seq_after_mod:
  "n dvd unat paws \<Longrightarrow> 0 < paws \<Longrightarrow> unat (seq_after paws i s) mod n = (unat s + i) mod n"
  by (simp add: unat_seq_after mod_mod_cancel)

text \<open>The counter never overflows inside a group, so skipping the parity is exact.\<close>

lemma skip_parity_eq:
  assumes "fec_static c" "unat (fec_next_seq c) < unat (fec_paws c)"
    "unat (fec_next_seq c) mod fec_shard_size c = fec_data_shards c"
  shows "skip_parity c = c \<lparr> fec_next_seq := seq_after (fec_paws c) (fec_parity_shards c) (fec_next_seq c) \<rparr>"
proof -
  note f = fec_static_facts [OF assms(1)]
  let ?s = "unat (fec_next_seq c)" and ?n = "fec_shard_size c" and ?q = "4294967295 div fec_shard_size c"
  have "?s div ?n < ?q" using assms(2) f(6) by (metis less_mult_imp_div_less)
  then have "(?s div ?n + 1) * ?n \<le> ?q * ?n" by (intro mult_le_mono1) simp
  moreover have "?s + fec_parity_shards c = (?s div ?n + 1) * ?n"
    using div_mult_mod_eq [of ?s ?n] assms(3) f(4) by simp
  ultimately have "?s + fec_parity_shards c \<le> unat (fec_paws c)" using f(6) by simp
  then have "?s + fec_parity_shards c < 4294967296" using unat_u32_less le_less_trans by blast
  then have "?s + fec_parity_shards c < 2 ^ 32" by simp
  then show ?thesis by (simp add: skip_parity_def seq_plus_mod)
qed

lemma rs_encode_length: "length (rs_encode rs d p) = rs_parity_shards rs"
  by (simp add: rs_encode_def)

lemma fec_rs_fields:
  assumes "fec_static c"
  shows "rs_ok (the (fec_rs c))" "rs_data_shards (the (fec_rs c)) = fec_data_shards c"
    "rs_parity_shards (the (fec_rs c)) = fec_parity_shards c"
    "rs_total_shards (the (fec_rs c)) = fec_shard_size c"
  using make_reed_solomon_fields [OF fec_static_rs(2) [OF assms]] fec_static_facts [OF assms] by auto

lemma fec_encode_last:
  fixes p :: bytes
  assumes "fec_static c" "fec_encoder_ok c" "Suc (fec_shard_count c) = fec_data_shards c"
    and timely: "fec_latest_packet_ms c \<noteq> 0" "now - fec_latest_packet_ms c < max_fec_encode_latency_ms"
  defines "len \<equiv> max (fec_max_shard_len c) (length p + 2)"
  defines "shards \<equiv> map (resize len 0) ((fec_encode_shards c)[fec_shard_count c := fec_shard p])"
  defines "parity \<equiv> rs_encode (the (fec_rs c)) shards (replicate (fec_parity_shards c) (replicate len 0))"
  shows "fec_encode now p c =
     (fec_packet (fec_next_seq c) fec_type_data (fec_shard p) #
        map (\<lambda>i. fec_packet (seq_after (fec_paws c) (Suc i) (fec_next_seq c)) fec_type_parity (parity ! i))
          [0..<fec_parity_shards c],
      c \<lparr> fec_next_seq := seq_after (fec_paws c) (Suc (fec_parity_shards c)) (fec_next_seq c),
          fec_max_shard_len := 0, fec_encode_shards := shards, fec_shard_count := 0,
          fec_latest_packet_ms := now \<rparr>)"
proof -
  note pos = fec_static_facts(9) [OF assms(1)]
  show ?thesis
    using assms(3) timely
    by (simp add: fec_encode_data [OF assms(1,2)] Let_def seal_parity_eq seq_after_less seq_after_after
        pos rs_encode_length fec_rs_fields(3) [OF assms(1)] len_def shards_def parity_def)
qed

lemma fec_encode_skipped:
  assumes "fec_static c" "fec_encoder_ok c" "Suc (fec_shard_count c) = fec_data_shards c"
    and late: "fec_latest_packet_ms c = 0 \<or> \<not> now - fec_latest_packet_ms c < max_fec_encode_latency_ms"
  shows "fec_encode now p c =
     ([fec_packet (fec_next_seq c) fec_type_data (fec_shard p)],
      c \<lparr> fec_next_seq := seq_after (fec_paws c) (Suc (fec_parity_shards c)) (fec_next_seq c),
          fec_max_shard_len := 0,
          fec_encode_shards := (fec_encode_shards c)[fec_shard_count c := fec_shard p],
          fec_shard_count := 0, fec_latest_packet_ms := now \<rparr>)"
proof -
  note f = fec_static_facts [OF assms(1)]
  let ?c1 = "c \<lparr> fec_next_seq := seq_after (fec_paws c) 1 (fec_next_seq c),
      fec_max_shard_len := max (fec_max_shard_len c) (length p + 2),
      fec_encode_shards := (fec_encode_shards c)[fec_shard_count c := fec_shard p],
      fec_shard_count := Suc (fec_shard_count c) \<rparr>"
  have "fec_static ?c1" using assms(1) by (simp add: fec_static_def)
  moreover have "unat (fec_next_seq ?c1) mod fec_shard_size c = fec_data_shards c"
    using seq_after_mod [OF f(7,9), of 1 "fec_next_seq c"] assms(2,3) f(3,4)
    by (simp add: fec_encoder_ok_def mod_Suc)
  ultimately have "skip_parity ?c1 =
      ?c1 \<lparr> fec_next_seq := seq_after (fec_paws c) (Suc (fec_parity_shards c)) (fec_next_seq c) \<rparr>"
    using skip_parity_eq [of ?c1] f(9) by (simp add: seq_after_less seq_after_after)
  then show ?thesis using assms(3) late by (auto simp: fec_encode_data [OF assms(1,2)] Let_def)
qed

text \<open>An encoder step keeps the invariant and does not touch the decoder.\<close>

lemma fec_encode_keeps:
  assumes "fec_static c" "fec_encoder_ok c"
  shows "\<exists>packets a b l e t. fec_encode now p c =
       (packets, c \<lparr> fec_next_seq := a, fec_max_shard_len := l, fec_encode_shards := e,
                     fec_shard_count := b, fec_latest_packet_ms := t \<rparr>) \<and>
     fec_encoder_ok (snd (fec_encode now p c))"
proof -
  note f = fec_static_facts [OF assms(1)]
  have m: "unat (seq_after (fec_paws c) i (fec_next_seq c)) mod fec_shard_size c =
      (unat (fec_next_seq c) mod fec_shard_size c + i) mod fec_shard_size c" for i
    using seq_after_mod [OF f(7,9)] by (simp add: mod_add_left_eq)
  have z: "unat (seq_after (fec_paws c) (Suc (fec_parity_shards c)) (fec_next_seq c)) mod fec_shard_size c = 0"
    if "Suc (fec_shard_count c) = fec_data_shards c"
  proof -
    have "unat (fec_next_seq c) mod fec_shard_size c + Suc (fec_parity_shards c) = fec_shard_size c"
      using that assms(2) f(4) by (simp add: fec_encoder_ok_def)
    then show ?thesis using m [of "Suc (fec_parity_shards c)"] by simp
  qed
  consider (partial) "Suc (fec_shard_count c) \<noteq> fec_data_shards c"
    | (last) "Suc (fec_shard_count c) = fec_data_shards c" "fec_latest_packet_ms c \<noteq> 0"
        "now - fec_latest_packet_ms c < max_fec_encode_latency_ms"
    | (skipped) "Suc (fec_shard_count c) = fec_data_shards c"
        "fec_latest_packet_ms c = 0 \<or> \<not> now - fec_latest_packet_ms c < max_fec_encode_latency_ms"
    by blast
  then show ?thesis
  proof cases
    case partial
    have "fec_encoder_ok (snd (fec_encode now p c))"
      using assms(2) partial f(4) f(9) m [of 1]
      by (auto simp: fec_encode_partial [OF assms partial] fec_encoder_ok_def seq_after_less
          nth_list_update less_Suc_eq max.coboundedI1)
    then show ?thesis by (simp add: fec_encode_partial [OF assms partial]) blast
  next
    case last
    have "fec_encoder_ok (snd (fec_encode now p c))"
      using assms(2) last(1) f(2,9) z
      by (auto simp: fec_encode_last [OF assms last] fec_encoder_ok_def seq_after_less)
    then show ?thesis by (simp add: fec_encode_last [OF assms last]) blast
  next
    case skipped
    have "fec_encoder_ok (snd (fec_encode now p c))"
      using assms(2) skipped(1) f(2,9) z
      by (auto simp: fec_encode_skipped [OF assms skipped] fec_encoder_ok_def seq_after_less)
    then show ?thesis by (simp add: fec_encode_skipped [OF assms skipped]) blast
  qed
qed

lemma fec_encode_prefix:
  assumes "fec_static c" "fec_encoder_ok c" "fec_shard_count c + length xs < fec_data_shards c"
  shows "\<exists>l e t. fec_encode_list xs c =
      (map (\<lambda>i. fec_packet (seq_after (fec_paws c) i (fec_next_seq c)) fec_type_data (fec_shard (snd (xs ! i))))
         [0..<length xs],
       c \<lparr> fec_next_seq := seq_after (fec_paws c) (length xs) (fec_next_seq c),
           fec_max_shard_len := l, fec_encode_shards := e,
           fec_shard_count := fec_shard_count c + length xs, fec_latest_packet_ms := t \<rparr>) \<and>
     length e = fec_data_shards c \<and>
     (\<forall>i<fec_shard_count c. e ! i = fec_encode_shards c ! i) \<and>
     (\<forall>i<length xs. e ! (fec_shard_count c + i) = fec_shard (snd (xs ! i))) \<and>
     (\<forall>i<fec_shard_count c + length xs. length (e ! i) \<le> l) \<and>
     t = (if xs = [] then fec_latest_packet_ms c else fst (last xs))"
  using assms
proof (induction xs arbitrary: c)
  case Nil
  have "c = c \<lparr> fec_next_seq := fec_next_seq c, fec_max_shard_len := fec_max_shard_len c,
      fec_encode_shards := fec_encode_shards c, fec_shard_count := fec_shard_count c,
      fec_latest_packet_ms := fec_latest_packet_ms c \<rparr>" by simp
  then show ?case using Nil
    by (intro exI [of _ "fec_max_shard_len c"] exI [of _ "fec_encode_shards c"] exI [of _ "fec_latest_packet_ms c"])
      (simp add: fec_encoder_ok_def)
next
  case (Cons x xs)
  obtain now p where x: "x = (now, p)" by (cases x)
  let ?n = "fec_shard_count c"
  have ne: "Suc ?n \<noteq> fec_data_shards c" using Cons.prems(3) by simp
  note step = fec_encode_partial [OF Cons.prems(1,2) ne, of now p]
  let ?c = "snd (fec_encode now p c)"
  have st: "fec_static ?c" using Cons.prems(1) by (simp add: step fec_static_def)
  have ok: "fec_encoder_ok ?c" using fec_encode_keeps [OF Cons.prems(1,2)] by blast
  have "fec_shard_count ?c + length xs < fec_data_shards ?c" using Cons.prems(3) by (simp add: step)
  from Cons.IH [OF st ok this] obtain l e t where IH:
    "fec_encode_list xs ?c =
      (map (\<lambda>i. fec_packet (seq_after (fec_paws ?c) i (fec_next_seq ?c)) fec_type_data (fec_shard (snd (xs ! i))))
         [0..<length xs],
       ?c \<lparr> fec_next_seq := seq_after (fec_paws ?c) (length xs) (fec_next_seq ?c),
           fec_max_shard_len := l, fec_encode_shards := e,
           fec_shard_count := fec_shard_count ?c + length xs, fec_latest_packet_ms := t \<rparr>)"
    "length e = fec_data_shards ?c" "\<forall>i<fec_shard_count ?c. e ! i = fec_encode_shards ?c ! i"
    "\<forall>i<length xs. e ! (fec_shard_count ?c + i) = fec_shard (snd (xs ! i))"
    "\<forall>i<fec_shard_count ?c + length xs. length (e ! i) \<le> l"
    "t = (if xs = [] then fec_latest_packet_ms ?c else fst (last xs))" by blast
  have e: "e ! ?n = fec_shard p" "\<forall>i<?n. e ! i = fec_encode_shards c ! i"
    using IH(3) Cons.prems(2) by (auto simp: step fec_encoder_ok_def)
  have len: "?n < length (fec_encode_shards c)" "unat (fec_next_seq c) < unat (fec_paws c)" "0 < fec_paws c"
    using Cons.prems(2) fec_static_facts(9) [OF Cons.prems(1)] by (auto simp: fec_encoder_ok_def)
  have "fec_encode_list (x # xs) c =
      (map (\<lambda>i. fec_packet (seq_after (fec_paws c) i (fec_next_seq c)) fec_type_data
            (fec_shard (snd ((x # xs) ! i)))) [0..<length (x # xs)],
       c \<lparr> fec_next_seq := seq_after (fec_paws c) (length (x # xs)) (fec_next_seq c),
           fec_max_shard_len := l, fec_encode_shards := e,
           fec_shard_count := ?n + length (x # xs), fec_latest_packet_ms := t \<rparr>)"
    using IH(1) len by (simp add: x step seq_after_after map_upt_Suc del: upt_Suc)
  moreover have "\<forall>i<length (x # xs). e ! (?n + i) = fec_shard (snd ((x # xs) ! i))"
    using IH(4) e(1) by (auto simp: step x less_Suc_eq_0_disj)
  ultimately show ?case
    using IH(2,5,6) e(2) by (intro exI conjI; (assumption | simp add: step x))
qed

text \<open>The packets of one group: the data packets, then the parity packets.\<close>

definition group_parity :: "fec_codec \<Rightarrow> nat \<Rightarrow> bytes list \<Rightarrow> bytes list" where
  "group_parity c len payloads =
     rs_encode (the (fec_rs c)) (map (\<lambda>p. resize len 0 (fec_shard p)) payloads)
       (replicate (fec_parity_shards c) (replicate len 0))"

definition group_packet :: "fec_codec \<Rightarrow> nat \<Rightarrow> bytes list \<Rightarrow> nat \<Rightarrow> bytes" where
  "group_packet c len payloads i =
     fec_packet (seq_after (fec_paws c) i (fec_next_seq c))
       (if i < fec_data_shards c then fec_type_data else fec_type_parity)
       (if i < fec_data_shards c then fec_shard (payloads ! i)
        else group_parity c len payloads ! (i - fec_data_shards c))"

definition group_packets :: "fec_codec \<Rightarrow> nat \<Rightarrow> bytes list \<Rightarrow> bytes list" where
  "group_packets c len payloads = map (group_packet c len payloads) [0..<fec_shard_size c]"

lemma fec_encode_list_append:
  "fec_encode_list (xs @ ys) c =
     (let (ps, c) = fec_encode_list xs c; (qs, c) = fec_encode_list ys c in (ps @ qs, c))"
  by (induction xs arbitrary: c) (auto simp: split: prod.splits)

definition group_timely :: "fec_codec \<Rightarrow> (int \<times> bytes) list \<Rightarrow> bool" where
  "group_timely c items \<longleftrightarrow>
     (let prev = (if length items = 1 then fec_latest_packet_ms c else fst (items ! (length items - 2)))
      in prev \<noteq> 0 \<and> fst (last items) - prev < max_fec_encode_latency_ms)"

lemma fec_encode_group:
  assumes c: "fec_static c" "fec_encoder_ok c" "fec_shard_count c = 0"
    and items: "length items = fec_data_shards c" and timely: "group_timely c items"
  shows "\<exists>len c'. fec_encode_list items c = (group_packets c len (map snd items), c') \<and>
           (\<forall>p \<in> set (map snd items). length p + 2 \<le> len)"
proof -
  note f = fec_static_facts [OF c(1)]
  from items f(2) obtain xs now p where xs: "items = xs @ [(now, p)]"
    by (metis length_0_conv less_numeral_extra(3) rev_exhaust surj_pair)
  then have k: "Suc (length xs) = fec_data_shards c" using items by simp
  then have "fec_shard_count c + length xs < fec_data_shards c" using c(3) by simp
  from fec_encode_prefix [OF c(1,2) this] obtain l e t where pre:
    "fec_encode_list xs c =
      (map (\<lambda>i. fec_packet (seq_after (fec_paws c) i (fec_next_seq c)) fec_type_data (fec_shard (snd (xs ! i))))
         [0..<length xs],
       c \<lparr> fec_next_seq := seq_after (fec_paws c) (length xs) (fec_next_seq c),
           fec_max_shard_len := l, fec_encode_shards := e,
           fec_shard_count := length xs, fec_latest_packet_ms := t \<rparr>)"
    (is "_ = (_, ?c)")
    and e: "length e = fec_data_shards c" "\<forall>i<length xs. e ! i = fec_shard (snd (xs ! i))"
      "\<forall>i<length xs. length (e ! i) \<le> l"
    and t: "t = (if xs = [] then fec_latest_packet_ms c else fst (last xs))"
    using c(3) by auto
  have st: "fec_static ?c" using c(1) by (simp add: fec_static_def)
  have "length xs mod fec_shard_size c = length xs" using k f(4) by simp
  moreover have "(unat (fec_next_seq c) + length xs) mod fec_shard_size c = length xs mod fec_shard_size c"
    using c(2,3) by (simp add: fec_encoder_ok_def mod_add_left_eq [symmetric])
  ultimately have ok: "fec_encoder_ok ?c"
    using e k f(9) seq_after_mod [OF f(7,9), of "length xs" "fec_next_seq c"]
    by (simp add: fec_encoder_ok_def seq_after_less)
  have "t = (if length items = 1 then fec_latest_packet_ms c else fst (items ! (length items - 2)))"
    using t by (cases xs rule: rev_cases) (auto simp: xs nth_append)
  then have timely': "fec_latest_packet_ms ?c \<noteq> 0" "now - fec_latest_packet_ms ?c < max_fec_encode_latency_ms"
    using timely by (auto simp: group_timely_def xs Let_def)
  define len where "len = max l (length p + 2)"
  have sh: "map (resize len 0) (e[length xs := fec_shard p]) = map (\<lambda>p. resize len 0 (fec_shard p)) (map snd items)"
    using e k by (intro nth_equalityI) (auto simp: xs nth_list_update nth_append less_Suc_eq)
  have gp: "rs_encode (the (fec_rs c))
      (map (resize (max l (Suc (Suc (length p)))) 0) (e[length xs := fec_shard p]))
      (replicate (fec_parity_shards c) (replicate (max l (Suc (Suc (length p)))) 0)) =
    group_parity c len (map snd items)"
    unfolding group_parity_def sh [symmetric] by (simp add: len_def)
  have last: "fec_encode now p ?c =
      (fec_packet (seq_after (fec_paws c) (length xs) (fec_next_seq c)) fec_type_data (fec_shard p) #
        map (\<lambda>i. fec_packet (seq_after (fec_paws c) (fec_data_shards c + i) (fec_next_seq c)) fec_type_parity
                   (group_parity c len (map snd items) ! i)) [0..<fec_parity_shards c],
       snd (fec_encode now p ?c))"
    using fec_encode_last [OF st ok _ timely', of p] f(9) by (simp add: seq_after_after gp flip: k)
  have range: "[0..<fec_shard_size c] =
      [0..<length xs] @ length xs # map (\<lambda>i. fec_data_shards c + i) [0..<fec_parity_shards c]"
    using upt_add_eq_append [of 0 "length xs" "Suc (fec_parity_shards c)"]
      map_add_upt [of "fec_data_shards c" "fec_parity_shards c"]
    by (simp add: f(4) upt_conv_Cons add.commute flip: k del: upt_Suc)
  have "fst (fec_encode_list items c) = group_packets c len (map snd items)"
    unfolding xs fec_encode_list_append pre Let_def prod.case fec_encode_list.simps
    by (subst last) (use k in \<open>simp add: group_packets_def group_packet_def range xs nth_append split_def\<close>)
  moreover have "\<forall>x \<in> set xs. length (snd x) + 2 \<le> l"
    using e(2,3) by (fastforce simp: in_set_conv_nth)
  then have "\<forall>q \<in> set (map snd items). length q + 2 \<le> len" by (auto simp: xs len_def intro: max.coboundedI1)
  ultimately show ?thesis by (metis prod.collapse)
qed

section \<open>The decoder\<close>

lemma count_present_update:
  "i < length ps \<Longrightarrow> \<not> ps ! i \<Longrightarrow> count_present (ps[i := True]) = Suc (count_present ps)"
proof -
  assume i: "i < length ps" "\<not> ps ! i"
  then have "count_present ps = count_present (take i ps @ False # drop (Suc i) ps)"
    by (metis (full_types) id_take_nth_drop)
  with i show ?thesis by (simp add: upd_conv_take_nth_drop count_present_def)
qed

lemma count_present_index: "count_present ps = length (filter (\<lambda>i. ps ! i) [0..<length ps])"
proof -
  have "filter (\<lambda>p. p) (map (\<lambda>i. ps ! i) [0..<length ps]) =
      map (\<lambda>i. ps ! i) (filter (\<lambda>i. ps ! i) [0..<length ps])"
    by (simp add: filter_map comp_def)
  then have "filter (\<lambda>p. p) ps = map (\<lambda>i. ps ! i) (filter (\<lambda>i. ps ! i) [0..<length ps])"
    by (simp add: map_nth)
  then show ?thesis by (simp add: count_present_def)
qed

lemma count_present_replicate [simp]: "count_present (replicate n False) = 0"
  by (simp add: count_present_def)

definition current_set :: "fec_codec \<Rightarrow> u32 \<Rightarrow> shard_set" where
  "current_set c sid =
     (case map_of (fec_decode_sets c) sid of None \<Rightarrow> sized_shard_set (fec_shard_size c) | Some ss \<Rightarrow> ss)"

lemma sized_set_ok: "shard_set_ok n (sized_shard_set n)" "count_present (ss_present (sized_shard_set n)) = 0"
  by (simp_all add: shard_set_ok_def sized_shard_set_def)

lemma current_set_ok:
  assumes "fec_static c" "fec_decoder_ok c"
  shows "shard_set_ok (fec_shard_size c) (current_set c sid)"
    "count_present (ss_present (current_set c sid)) < fec_data_shards c"
  using assms fec_static_facts(2) [OF assms(1)] sized_set_ok
  by (auto simp: current_set_def fec_decoder_ok_def split: option.split)

lemma map_of_filter_key: "map_of (filter (\<lambda>(k, _). P k) xs) k = (if P k then map_of xs k else None)"
  by (induction xs) auto

lemma decoder_ok_update:
  assumes "fec_decoder_ok c" "shard_set_ok (fec_shard_size c) ss" "count_present (ss_present ss) < fec_data_shards c"
  shows "fec_decoder_ok (c \<lparr> fec_decode_sets := AList.update sid ss (fec_decode_sets c) \<rparr>)"
  using assms by (auto simp: fec_decoder_ok_def distinct_update update_conv' split: if_splits)

lemma decoder_ok_restrict:
  assumes "fec_decoder_ok c" "map_of sets \<subseteq>\<^sub>m map_of (fec_decode_sets c)" "distinct (map fst sets)"
  shows "fec_decoder_ok (c \<lparr> fec_decode_sets := sets, fec_newest_shard_id := a \<rparr>)"
proof -
  have "map_of (fec_decode_sets c) sid = Some ss" if "map_of sets sid = Some ss" for sid ss
    using assms(2) that by (auto simp: map_le_def dom_def)
  with assms(1,3) show ?thesis unfolding fec_decoder_ok_def by (simp del: map_of_eq_Some_iff) blast
qed

lemma open_shard_set_eq:
  assumes "fec_static c" "fec_decoder_ok c"
  shows "\<exists>sets s'. open_shard_set sid c s = (current_set c sid, c \<lparr> fec_decode_sets := sets \<rparr>, s') \<and>
     map_of sets = (map_of (fec_decode_sets c))(sid \<mapsto> current_set c sid) \<and>
     fec_decoder_ok (c \<lparr> fec_decode_sets := sets \<rparr>)"
proof -
  have n: "fec_shard_size c \<noteq> 0" using fec_static_facts [OF assms(1)] by simp
  note cur = current_set_ok [OF assms, of sid]
  show ?thesis
  proof (cases "map_of (fec_decode_sets c) sid")
    case None
    then have "current_set c sid = sized_shard_set (fec_shard_size c)" by (simp add: current_set_def)
    with None show ?thesis
      using decoder_ok_update [OF assms(2) cur, of sid]
      by (auto simp: open_shard_set_def Let_def empty_shard_set_def update_conv')
  next
    case (Some ss)
    then have "current_set c sid = ss" by (simp add: current_set_def)
    with Some cur n assms(2) show ?thesis
      by (auto simp: open_shard_set_def Let_def shard_set_ok_def intro!: exI [of _ "fec_decode_sets c"])
  qed
qed

lemma advance_newest_eq:
  assumes "fec_static c" "fec_decoder_ok c"
  shows "\<exists>a sets s'. advance_newest sid c s = (c \<lparr> fec_decode_sets := sets, fec_newest_shard_id := a \<rparr>, s') \<and>
     map_of sets sid = map_of (fec_decode_sets c) sid \<and>
     fec_decoder_ok (c \<lparr> fec_decode_sets := sets, fec_newest_shard_id := a \<rparr>)"
proof -
  let ?n = "of_nat (fec_shard_size c) :: u32"
  have keep: "\<not> timediff (sid * ?n) (sid * ?n) > sint (max_shard_sets * ?n)"
  proof -
    have e: "max_shard_sets * ?n = of_nat (3 * fec_shard_size c)" by (simp add: max_shard_sets_def)
    have "signed_take_bit 31 (int (3 * fec_shard_size c)) = int (3 * fec_shard_size c)"
      using fec_static_facts(5) [OF assms(1)] by (intro signed_take_bit_int_eq_self) auto
    then have "sint (of_nat (3 * fec_shard_size c) :: u32) = int (3 * fec_shard_size c)"
      by (simp add: sint_sbintrunc' signed_of_nat del: of_nat_mult)
    with e show ?thesis by (simp add: timediff_def del: of_nat_mult)
  qed
  show ?thesis
  proof (cases "timediff (sid * ?n) (fec_newest_shard_id c * ?n) > 0")
    case True
    let ?P = "\<lambda>k. \<not> timediff (sid * ?n) (k * ?n) > sint (max_shard_sets * ?n)"
    let ?sets = "filter (\<lambda>(k, _). ?P k) (fec_decode_sets c)"
    have "map_of ?sets sid = map_of (fec_decode_sets c) sid" using keep by (simp add: map_of_filter_key)
    moreover have "map_of ?sets \<subseteq>\<^sub>m map_of (fec_decode_sets c)"
      by (auto simp: map_le_def map_of_filter_key split: if_splits)
    moreover have "distinct (map fst ?sets)"
      using assms(2) by (auto simp: fec_decoder_ok_def distinct_map_filter)
    ultimately show ?thesis
      using True decoder_ok_restrict [OF assms(2)]
      by (intro exI [of _ sid] exI [of _ ?sets]) (auto simp: advance_newest_def Let_def discard_old_shards_def)
  next
    case False
    then show ?thesis using assms(2)
      by (intro exI [of _ "fec_newest_shard_id c"] exI [of _ "fec_decode_sets c"])
        (auto simp: advance_newest_def Let_def)
  qed
qed

lemma complete_set_total:
  assumes "fec_static c" "shard_set_ok (fec_shard_size c) ss"
  shows "\<exists>recovered s'. complete_set c ss s = Inr (recovered, s')"
proof -
  have "length (ss_present ss) = fec_data_shards c + fec_parity_shards c"
    using assms(2) fec_static_facts(4) [OF assms(1)] by (simp add: shard_set_ok_def)
  from rs.reconstruct_total [OF fec_static_rs [OF assms(1)] this]
  have "\<forall>shards. \<exists>ok out. reconstruct_data (the (fec_rs c)) shards (ss_present ss) = Inr (ok, out)"
    by fastforce
  then obtain ok out where
    "reconstruct_data (the (fec_rs c)) shards (ss_present ss) = Inr (ok shards, out shards)" for shards
    by metis
  then show ?thesis by (simp add: complete_set_def Let_def)
qed

lemma complete_set_snmp:
  "complete_set c ss s = Inr (recovered, s1) \<Longrightarrow> \<exists>s2. complete_set c ss s' = Inr (recovered, s2)"
  by (auto simp: complete_set_def Let_def split: if_splits sum.splits)

lemma complete_set_cong [simp]:
  "complete_set (c \<lparr> fec_decode_sets := sets \<rparr>) ss s = complete_set c ss s"
  by (simp add: complete_set_def Let_def cong: sum.case_cong prod.case_cong if_cong)

lemma add_shard_ok:
  assumes "shard_set_ok n ss" "idx < n" "\<not> ss_present ss ! idx"
  shows "shard_set_ok n (add_shard idx flag packet ss)"
    "count_present (ss_present (add_shard idx flag packet ss)) = Suc (count_present (ss_present ss))"
  using assms by (simp_all add: shard_set_ok_def add_shard_def count_present_update)

text \<open>The payload a packet carries itself.\<close>

definition direct_output :: "bytes \<Rightarrow> bytes list" where
  "direct_output packet = (if packet_flag packet = fec_type_data then [drop 8 packet] else [])"

text \<open>
  The effect of a data or parity packet with a valid number: a repeat, a shard stored in
  its set, or the completion of the set.
\<close>

text \<open>What follows the collection of a shard: the newest set advances, and the output is complete.\<close>

definition finish_fec_decode ::
  "bytes \<Rightarrow> u32 \<Rightarrow> (bytes list \<times> fec_codec \<times> snmp) result \<Rightarrow> (bytes list \<times> fec_codec \<times> snmp) result" where
  "finish_fec_decode packet sid completed =
     (case completed of Inl e \<Rightarrow> Inl e
      | Inr (recovered, c, s) \<Rightarrow>
          let (c, s) = advance_newest sid c s in Inr (direct_output packet @ recovered, c, s))"

lemma fec_decode_accepted:
  assumes "fec_enabled c" "8 \<le> length packet" "packet_flag packet \<in> {fec_type_data, fec_type_parity}" "packet_seq packet < fec_paws c"
  defines "sid \<equiv> packet_seq packet div of_nat (fec_shard_size c)"
  defines "idx \<equiv> unat (packet_seq packet mod of_nat (fec_shard_size c))"
  assumes opened: "open_shard_set sid c (if packet_flag packet = fec_type_data then s else snmp_add Fec_parity_shards 1 s) =
      (old, c \<lparr> fec_decode_sets := sets \<rparr>, s2)"
  defines "ss \<equiv> add_shard idx (packet_flag packet) packet old"
  shows "fec_decode packet c s =
     (if ss_present old ! idx then
        Inr (direct_output packet, c \<lparr> fec_decode_sets := sets \<rparr>, snmp_add Repeat_segs 1 s2)
      else
        let c = c \<lparr> fec_decode_sets := AList.update sid ss sets \<rparr>
        in finish_fec_decode packet sid (if count_present (ss_present ss) \<ge> fec_data_shards c then
                   case complete_set c ss s2 of Inl e \<Rightarrow> Inl e
                   | Inr (recovered, s) \<Rightarrow>
                       let c = c \<lparr> fec_decode_sets := AList.delete sid (fec_decode_sets c) \<rparr>
                       in Inr (recovered, c, snmp_store Fec_shard_set (of_nat (length (fec_decode_sets c))) s)
                 else Inr ([], c, s2)))"
proof -
  have out: "(if packet_flag packet = fec_type_data then ([drop fec_header_size_plus_size packet], s)
        else ([], snmp_add Fec_parity_shards 1 s)) =
      (direct_output packet, if packet_flag packet = fec_type_data then s else snmp_add Fec_parity_shards 1 s)"
    by (simp add: direct_output_def fec_header_size_plus_size_def)
  have guards: "(\<not> fec_enabled c) = False" "(length packet < fec_header_size_plus_size) = False"
    "(packet_flag packet \<noteq> fec_type_data \<and> packet_flag packet \<noteq> fec_type_parity \<and>
       \<not> False) = False"
    "(packet_seq packet \<ge> fec_paws c) = False" "(packet_flag packet = fec_type_oob) = False"
    using assms(1-4) by (auto simp: fec_header_size_plus_size_def)
  show ?thesis
    unfolding fec_decode_def guards if_False Let_def out prod.case sid_def [symmetric]
      idx_def [symmetric] opened ss_def [symmetric] finish_fec_decode_def
    by (simp cong: sum.case_cong prod.case_cong if_cong)
qed

lemma fec_decode_shard:
  assumes c: "fec_static c" "fec_decoder_ok c"
    and pkt: "8 \<le> length packet" "packet_flag packet \<in> {fec_type_data, fec_type_parity}"
      "packet_seq packet < fec_paws c"
  defines "sid \<equiv> packet_seq packet div of_nat (fec_shard_size c)"
  defines "idx \<equiv> unat (packet_seq packet mod of_nat (fec_shard_size c))"
  defines "ss \<equiv> add_shard idx (packet_flag packet) packet (current_set c sid)"
  shows "\<exists>recovered a sets s'.
     fec_decode packet c s =
       Inr (direct_output packet @ recovered, c \<lparr> fec_decode_sets := sets, fec_newest_shard_id := a \<rparr>, s') \<and>
     fec_decoder_ok (c \<lparr> fec_decode_sets := sets, fec_newest_shard_id := a \<rparr>) \<and>
     (if ss_present (current_set c sid) ! idx then recovered = []
      else if Suc (count_present (ss_present (current_set c sid))) < fec_data_shards c
      then recovered = [] \<and> map_of sets sid = Some ss
      else map_of sets sid = None \<and> (\<exists>s1 s2. complete_set c ss s1 = Inr (recovered, s2)))"
proof -
  note f = fec_static_facts [OF c(1)]
  let ?n = "fec_shard_size c"
  have n: "unat (of_nat ?n :: u32) = ?n" using f(5) by (intro unat_of_nat_lt) simp
  then have idx: "idx < ?n" using f(2,4) by (simp add: idx_def unat_mod)
  define s1 where "s1 = (if packet_flag packet = fec_type_data then s else snmp_add Fec_parity_shards 1 s)"
  obtain sets s2 where op: "open_shard_set sid c s1 = (current_set c sid, c \<lparr> fec_decode_sets := sets \<rparr>, s2)"
    "map_of sets = (map_of (fec_decode_sets c))(sid \<mapsto> current_set c sid)"
    "fec_decoder_ok (c \<lparr> fec_decode_sets := sets \<rparr>)"
    using open_shard_set_eq [OF c] by blast
  note cur = current_set_ok [OF c, of sid]
  note dec = fec_decode_accepted [OF f(1) pkt op(1) [unfolded s1_def sid_def], folded sid_def idx_def, folded ss_def]
  show ?thesis
  proof (cases "ss_present (current_set c sid) ! idx")
    case True
    with op(3) show ?thesis
      by (intro exI [of _ "[]"] exI [of _ "fec_newest_shard_id c"] exI [of _ sets]) (simp add: dec)
  next
    case False
    let ?c = "c \<lparr> fec_decode_sets := AList.update sid ss sets \<rparr>"
    have ss: "shard_set_ok ?n ss" "count_present (ss_present ss) = Suc (count_present (ss_present (current_set c sid)))"
      using add_shard_ok [OF cur(1) idx False] by (simp_all add: ss_def)
    show ?thesis
    proof (cases "Suc (count_present (ss_present (current_set c sid))) < fec_data_shards c")
      case True
      have st: "fec_static ?c" using c(1) by (simp add: fec_static_def)
      have ok: "fec_decoder_ok ?c"
        using decoder_ok_update [OF op(3), of ss sid] ss True by simp
      from advance_newest_eq [OF st ok, of sid s2] obtain a sets' s' where
        "advance_newest sid ?c s2 = (?c \<lparr> fec_decode_sets := sets', fec_newest_shard_id := a \<rparr>, s')"
        "map_of sets' sid = Some ss"
        "fec_decoder_ok (?c \<lparr> fec_decode_sets := sets', fec_newest_shard_id := a \<rparr>)"
        by (auto simp: update_conv')
      with True False ss show ?thesis
        by (intro exI [of _ "[]"] exI [of _ a] exI [of _ sets']) (simp add: dec finish_fec_decode_def Let_def)
    next
      case last: False
      let ?c' = "c \<lparr> fec_decode_sets := AList.delete sid (AList.update sid ss sets) \<rparr>"
      obtain recovered s3 where rec: "complete_set c ss s2 = Inr (recovered, s3)"
        using complete_set_total [OF c(1) ss(1)] by blast
      have st: "fec_static ?c'" using c(1) by (simp add: fec_static_def)
      have ok: "fec_decoder_ok ?c'"
        using op(3) by (auto simp: fec_decoder_ok_def delete_conv' update_conv' distinct_delete distinct_update
            split: if_splits)
      define s4 where "s4 = snmp_store Fec_shard_set (of_nat (length (fec_decode_sets ?c'))) s3"
      from advance_newest_eq [OF st ok, of sid s4] obtain a sets' s' where
        "advance_newest sid ?c' s4 = (?c' \<lparr> fec_decode_sets := sets', fec_newest_shard_id := a \<rparr>, s')"
        "map_of sets' sid = None"
        "fec_decoder_ok (?c' \<lparr> fec_decode_sets := sets', fec_newest_shard_id := a \<rparr>)"
        by (auto simp: delete_conv')
      with last False ss(2) rec show ?thesis
        by (intro exI [of _ recovered] exI [of _ a] exI [of _ sets'])
          (auto simp: dec finish_fec_decode_def Let_def s4_def)
    qed
  qed
qed

section \<open>Recovering a group\<close>

text \<open>
  The setting of the recovery lemmas: an encoder at the start of a group, its payloads, a
  length that all shards fit, and a decoder with the same parameters.
\<close>

definition group_ok :: "fec_codec \<Rightarrow> nat \<Rightarrow> bytes list \<Rightarrow> bool" where
  "group_ok c len payloads \<longleftrightarrow>
     fec_static c \<and> fec_encoder_ok c \<and> fec_shard_count c = 0 \<and>
     length payloads = fec_data_shards c \<and> (\<forall>p \<in> set payloads. length p + 2 \<le> len \<and> length p \<le> 65533)"

definition same_code :: "fec_codec \<Rightarrow> fec_codec \<Rightarrow> bool" where
  "same_code c d \<longleftrightarrow>
     fec_data_shards d = fec_data_shards c \<and> fec_parity_shards d = fec_parity_shards c"

lemma same_code_static:
  assumes "fec_static c" "fec_static d" "same_code c d"
  shows "fec_shard_size d = fec_shard_size c" "fec_paws d = fec_paws c" "fec_rs d = fec_rs c"
  using assms by (auto simp: fec_static_def same_code_def word_unat_eq_iff)

lemma group_parity_shape:
  assumes "group_ok c len payloads"
  shows "length (group_parity c len payloads) = fec_parity_shards c"
    "i < fec_parity_shards c \<Longrightarrow> length (group_parity c len payloads ! i) = len"
proof -
  note rsok = fec_static_rs [of c]
  have "uniform len (map (\<lambda>p. resize len 0 (fec_shard p)) payloads)" "uniform len (replicate m (replicate len 0))" for m
    by (auto simp: uniform_def)
  then have "length (group_parity c len payloads) = fec_parity_shards c \<and> uniform len (group_parity c len payloads)"
    unfolding group_parity_def using rsok assms by (intro rs.encode_shape) (auto simp: group_ok_def)
  then show "length (group_parity c len payloads) = fec_parity_shards c"
    "i < fec_parity_shards c \<Longrightarrow> length (group_parity c len payloads ! i) = len"
    by (auto simp: uniform_nth)
qed

lemma group_seq:
  assumes "group_ok c len payloads" "i < fec_shard_size c"
  defines "seq \<equiv> seq_after (fec_paws c) i (fec_next_seq c)"
  shows "seq < fec_paws c" "unat (seq mod of_nat (fec_shard_size c)) = i"
    "seq div of_nat (fec_shard_size c) = fec_next_seq c div of_nat (fec_shard_size c)"
proof -
  have c: "fec_static c" "fec_encoder_ok c" "fec_shard_count c = 0" using assms(1) by (auto simp: group_ok_def)
  note f = fec_static_facts [OF c(1)]
  let ?n = "fec_shard_size c" and ?b = "unat (fec_next_seq c)"
  have n: "unat (of_nat ?n :: u32) = ?n" using f(5) by (intro unat_of_nat_lt) simp
  have b: "?b < unat (fec_paws c)" "?b mod ?n = 0" using c(2,3) by (auto simp: fec_encoder_ok_def)
  then obtain q where q: "?b = ?n * q" by (metis mod_0_imp_dvd dvdE)
  obtain r where r: "unat (fec_paws c) = ?n * r" using f(7) by (metis dvdE)
  have "q < r" using b(1) q r by simp
  then have "?n * Suc q \<le> ?n * r" by (intro mult_le_mono2) simp
  then have lt: "?b + i < unat (fec_paws c)" using assms(2) q r by simp
  then have seq: "unat seq = ?b + i" using f(9) by (simp add: seq_def unat_seq_after)
  show "seq < fec_paws c" using seq lt by (simp add: word_less_nat_alt)
  show "unat (seq mod of_nat ?n) = i" using seq n q assms(2) by (simp add: unat_mod)
  have "unat (seq div of_nat ?n) = unat (fec_next_seq c div of_nat ?n)"
    using seq n q assms(2) by (simp add: unat_div)
  then show "seq div of_nat ?n = fec_next_seq c div of_nat ?n" by (rule unsigned_word_eqI)
qed

lemma group_packet_shape:
  assumes g: "group_ok c len payloads" and i: "i < fec_shard_size c"
  defines "pkt \<equiv> group_packet c len payloads i"
  shows "8 \<le> length pkt" "packet_flag pkt \<in> {fec_type_data, fec_type_parity}"
    "packet_seq pkt = seq_after (fec_paws c) i (fec_next_seq c)"
    "direct_output pkt = (if i < fec_data_shards c then [payloads ! i] else [])"
    "resize len 0 (drop 6 pkt) =
       (map (\<lambda>p. resize len 0 (fec_shard p)) payloads @ group_parity c len payloads) ! i"
    "length (drop 6 pkt) \<le> len" "\<not> i < fec_data_shards c \<Longrightarrow> length (drop 6 pkt) = len"
proof -
  have k: "length payloads = fec_data_shards c" "fec_shard_size c = fec_data_shards c + fec_parity_shards c"
    and pos: "0 < fec_data_shards c"
    using g fec_static_facts [of c] by (auto simp: group_ok_def)
  then have "payloads \<noteq> []" by auto
  then have l2: "2 \<le> len" using g by (cases payloads) (auto simp: group_ok_def)
  have par: "length (group_parity c len payloads ! (i - fec_data_shards c)) = len" if "\<not> i < fec_data_shards c"
    using group_parity_shape(2) [OF g, of "i - fec_data_shards c"] that i k by simp
  have dat: "length (payloads ! i) + 2 \<le> len" if "i < fec_data_shards c"
    using g that by (simp add: group_ok_def)
  show "8 \<le> length pkt" using par l2 by (simp add: pkt_def group_packet_def)
  show "packet_flag pkt \<in> {fec_type_data, fec_type_parity}"
    "packet_seq pkt = seq_after (fec_paws c) i (fec_next_seq c)"
    by (simp_all add: pkt_def group_packet_def)
  show "direct_output pkt = (if i < fec_data_shards c then [payloads ! i] else [])"
    by (simp add: pkt_def group_packet_def direct_output_def fec_shard_def)
  show "resize len 0 (drop 6 pkt) =
       (map (\<lambda>p. resize len 0 (fec_shard p)) payloads @ group_parity c len payloads) ! i"
    using k par by (simp add: pkt_def group_packet_def nth_append)
  show "length (drop 6 pkt) \<le> len" using par dat by (simp add: pkt_def group_packet_def)
  show "length (drop 6 pkt) = len" if "\<not> i < fec_data_shards c"
    using that par by (simp add: pkt_def group_packet_def)
qed

lemma fold_max_filter:
  "fold (\<lambda>i m. if P i then max m (f i) else m) xs m0 = fold max (map f (filter P xs)) (m0 :: nat)"
  by (induction xs arbitrary: m0) (auto simp: max.commute)

text \<open>A completed set gives exactly the payloads whose packets are missing.\<close>

lemma complete_set_recovers:
  assumes g: "group_ok c len payloads" and d: "fec_static d" "same_code c d"
    and ss: "shard_set_ok (fec_shard_size c) ss" "count_present (ss_present ss) = fec_data_shards c"
      "\<And>j. j < fec_shard_size c \<Longrightarrow> ss_present ss ! j \<Longrightarrow> ss_shards ss ! j = drop 6 (group_packet c len payloads j)"
  shows "\<exists>s'. complete_set d ss s =
    Inr (map (\<lambda>j. payloads ! j) (filter (\<lambda>j. \<not> ss_present ss ! j) [0..<fec_data_shards c]), s')"
proof -
  let ?k = "fec_data_shards c" and ?n = "fec_shard_size c" and ?P = "\<lambda>j. ss_present ss ! j"
  have c: "fec_static c" "length payloads = ?k" using g by (auto simp: group_ok_def)
  note f = fec_static_facts [OF c(1)] and same = same_code_static [OF c(1) d]
  have dk: "fec_data_shards d = ?k" using d(2) by (simp add: same_code_def)
  have count: "length (filter ?P [0..<?n]) = ?k"
    using ss(1,2) by (simp add: count_present_index shard_set_ok_def)
  have split: "[0..<?n] = [0..<?k] @ [?k..<?n]" using f(4) upt_add_eq_append [of 0 ?k] by simp
  show ?thesis
  proof (cases "length (filter ?P [0..<?k]) = ?k")
    case True
    then have "filter (\<lambda>j. \<not> ?P j) [0..<?k] = []"
      using sum_length_filter_compl [of ?P "[0..<?k]"] by simp
    with True show ?thesis by (simp add: complete_set_def dk)
  next
    case False
    with count obtain j where j: "?k \<le> j" "j < ?n" "?P j"
      unfolding split by (metis (no_types, lifting) append_Nil2 atLeastLessThan_iff filter_append filter_False set_upt)
    define max_len where
      "max_len = fold (\<lambda>i m. if ?P i then max m (length (ss_shards ss ! i)) else m) [0..<?n] 0"
    have "max_len = len"
    proof (rule antisym)
      have fm: "max_len = Max (set (0 # map (\<lambda>i. length (ss_shards ss ! i)) (filter ?P [0..<?n])))"
        by (simp only: max_len_def fold_max_filter Max.set_eq_fold)
      show "max_len \<le> len" unfolding fm using ss(3) group_packet_shape(6) [OF g]
        by (subst Max_le_iff) auto
      have "len \<in> set (0 # map (\<lambda>i. length (ss_shards ss ! i)) (filter ?P [0..<?n]))"
        using j ss(3) group_packet_shape(7) [OF g, of j] by force
      then show "len \<le> max_len" unfolding fm by (intro Max_ge) auto
    qed
    let ?wrap = "\<lambda>p. resize len 0 (fec_shard p)"
    let ?shards = "map (\<lambda>i. if ?P i then resize len 0 (ss_shards ss ! i) else ss_shards ss ! i) [0..<?n]"
    have good: "?shards ! i = (map ?wrap payloads @ rs_encode (the (fec_rs c)) (map ?wrap payloads)
        (replicate (fec_parity_shards c) (replicate len 0))) ! i"
      if "i < ?k + fec_parity_shards c" "?P i" for i
      using that ss(3) [of i] group_packet_shape(5) [OF g, of i] f(4) by (simp add: group_parity_def)
    have wrap: "length (?wrap p) = len \<and> recovered_payload (?wrap p) = Some p" if "p \<in> set payloads" for p
      using that g recovered_payload_fec_shard [of p "len - length (fec_shard p)"]
      by (auto simp: group_ok_def resize_ge)
    obtain s where s: "reconstruct_data (the (fec_rs c)) ?shards (ss_present ss) = Inr (True, s)"
        "\<And>i. i < ?k \<Longrightarrow> recovered_payload (s ! i) = Some (payloads ! i)"
    proof (rule rs.recovers_items [where items = payloads and wrap = ?wrap and unwrap = recovered_payload
          and len = len and shards = ?shards and present = "ss_present ss",
          OF fec_static_rs [OF c(1)] c(2) wrap _ _ _ _ good])
      show "?k \<le> length (filter ?P [0..<?k + fec_parity_shards c])" using count f(4) by simp
    qed (use ss(1) f(4) in \<open>auto simp: uniform_def shard_set_ok_def\<close>)
    have "collect_recovered ?k (ss_present ss) s = map (\<lambda>j. payloads ! j) (filter (\<lambda>j. \<not> ?P j) [0..<?k])"
      using s(2) by (auto simp: collect_recovered_def List.map_filter_def intro!: map_cong filter_cong split: if_splits)
    with s(1) False show ?thesis
      unfolding complete_set_def dk same max_len_def [symmetric] \<open>max_len = len\<close> by (simp add: Let_def)
  qed
qed

text \<open>What the decoder knows about the group after the packets with the indices \<open>is\<close>.\<close>

definition collected :: "fec_codec \<Rightarrow> nat \<Rightarrow> bytes list \<Rightarrow> fec_codec \<Rightarrow> nat list \<Rightarrow> bool" where
  "collected c len payloads d is \<longleftrightarrow>
     (let ss = current_set d (fec_next_seq c div of_nat (fec_shard_size c))
      in (\<forall>j<fec_shard_size c. ss_present ss ! j \<longleftrightarrow> j \<in> set is) \<and>
         (\<forall>j\<in>set is. ss_shards ss ! j = drop 6 (group_packet c len payloads j)) \<and>
         count_present (ss_present ss) = length is)"

lemma fec_decode_list_append:
  "fec_decode_list (xs @ ys) c s =
     (case fec_decode_list xs c s of
        Inl e \<Rightarrow> Inl e
      | Inr (out, c, s) \<Rightarrow>
          (case fec_decode_list ys c s of
             Inl e \<Rightarrow> Inl e
           | Inr (outs, c, s) \<Rightarrow> Inr (out @ outs, c, s)))"
proof (induction xs arbitrary: c s)
  case Nil
  show ?case by (auto split: sum.split)
next
  case (Cons x xs)
  show ?case
    by (cases "fec_decode x c s") (auto simp: Cons.IH split: sum.split)
qed

lemma collected_step:
  assumes g: "group_ok c len payloads" and d: "fec_static d" "fec_decoder_ok d" "same_code c d"
    and co: "collected c len payloads d is"
    and i: "i < fec_shard_size c" "i \<notin> set is"
  shows "\<exists>recovered a sets s'.
     fec_decode (group_packet c len payloads i) d s =
       Inr ((if i < fec_data_shards c then [payloads ! i] else []) @ recovered,
            d \<lparr> fec_decode_sets := sets, fec_newest_shard_id := a \<rparr>, s') \<and>
     fec_decoder_ok (d \<lparr> fec_decode_sets := sets, fec_newest_shard_id := a \<rparr>) \<and>
     (if Suc (length is) < fec_data_shards c
      then recovered = [] \<and>
           collected c len payloads (d \<lparr> fec_decode_sets := sets, fec_newest_shard_id := a \<rparr>) (is @ [i])
      else Suc (length is) = fec_data_shards c \<longrightarrow>
           map_of sets (fec_next_seq c div of_nat (fec_shard_size c)) = None \<and>
           recovered = map (\<lambda>j. payloads ! j) (filter (\<lambda>j. j \<notin> set (is @ [i])) [0..<fec_data_shards c]))"
proof -
  let ?pkt = "group_packet c len payloads i" and ?sid = "fec_next_seq c div of_nat (fec_shard_size c)"
  have c: "fec_static c" using g by (simp add: group_ok_def)
  note same = same_code_static [OF c d(1,3)] and sh = group_packet_shape [OF g i(1)] and sq = group_seq [OF g i(1)]
  have dk: "fec_data_shards d = fec_data_shards c" using d(3) by (simp add: same_code_def)
  let ?ss = "current_set d ?sid"
  define ss' where "ss' = add_shard i (packet_flag ?pkt) ?pkt ?ss"
  have co': "\<not> ss_present ?ss ! i" "count_present (ss_present ?ss) = length is"
    "\<And>j. j < fec_shard_size c \<Longrightarrow> ss_present ?ss ! j \<longleftrightarrow> j \<in> set is"
    "\<And>j. j \<in> set is \<Longrightarrow> ss_shards ?ss ! j = drop 6 (group_packet c len payloads j)"
    using co i by (auto simp: collected_def Let_def)
  have cur: "shard_set_ok (fec_shard_size c) ?ss" using current_set_ok [OF d(1,2)] same(1) by simp
  note ss' = add_shard_ok [OF cur i(1) co'(1), of "packet_flag ?pkt" ?pkt, folded ss'_def]
  have pres: "ss_present ss' ! j \<longleftrightarrow> j \<in> set (is @ [i])" if "j < fec_shard_size c" for j
    using that co'(3) cur i(1) by (auto simp: ss'_def add_shard_def nth_list_update shard_set_ok_def)
  have shd: "ss_shards ss' ! j = drop 6 (group_packet c len payloads j)" if "j \<in> set (is @ [i])" for j
    using that co'(4) cur i by (auto simp: ss'_def add_shard_def nth_list_update shard_set_ok_def fec_header_size_def)
  have "packet_seq ?pkt < fec_paws d" using sq(1) by (simp add: sh(3) same)
  note step = fec_decode_shard [OF d(1,2) sh(1,2) this, of s, unfolded sh(3) same sq(2,3) dk co'(2),
      folded ss'_def]
  from co'(1) have absent: "ss_present ?ss ! i = False" by simp
  from step [unfolded absent if_False] obtain recovered a sets s' where dec:
    "fec_decode ?pkt d s = Inr (direct_output ?pkt @ recovered,
        d \<lparr> fec_decode_sets := sets, fec_newest_shard_id := a \<rparr>, s')"
    "fec_decoder_ok (d \<lparr> fec_decode_sets := sets, fec_newest_shard_id := a \<rparr>)"
    "if Suc (length is) < fec_data_shards c then recovered = [] \<and> map_of sets ?sid = Some ss'
     else map_of sets ?sid = None \<and> (\<exists>s1 s2. complete_set d ss' s1 = Inr (recovered, s2))"
    by blast
  let ?d = "d \<lparr> fec_decode_sets := sets, fec_newest_shard_id := a \<rparr>"
  have more: "recovered = [] \<and> collected c len payloads ?d (is @ [i])" if "Suc (length is) < fec_data_shards c"
    using dec(3) that ss'(2) co'(2) pres shd by (simp add: collected_def Let_def current_set_def)
  have full: "recovered = map (\<lambda>j. payloads ! j) (filter (\<lambda>j. j \<notin> set (is @ [i])) [0..<fec_data_shards c])"
    if k: "Suc (length is) = fec_data_shards c"
  proof -
    have comp: "\<exists>s'. complete_set d ss' s1 =
        Inr (map (\<lambda>j. payloads ! j) (filter (\<lambda>j. \<not> ss_present ss' ! j) [0..<fec_data_shards c]), s')" for s1
      by (rule complete_set_recovers [OF g d(1,3) ss'(1)]) (use ss'(2) co'(2) k shd pres in auto)
    have idx: "filter (\<lambda>j. \<not> ss_present ss' ! j) [0..<fec_data_shards c] =
        filter (\<lambda>j. j \<notin> set (is @ [i])) [0..<fec_data_shards c]"
      using pres fec_static_facts(4) [OF c] by (intro filter_cong) auto
    from dec(3) k obtain s1 s2 where "complete_set d ss' s1 = Inr (recovered, s2)" by auto
    with comp [of s1] show ?thesis unfolding idx by auto
  qed
  show ?thesis
  proof (intro exI conjI)
    show "fec_decode ?pkt d s =
        Inr ((if i < fec_data_shards c then [payloads ! i] else []) @ recovered, ?d, s')"
      using dec(1) by (simp only: sh(4))
    show "fec_decoder_ok ?d" by (rule dec(2))
    show "if Suc (length is) < fec_data_shards c
      then recovered = [] \<and> collected c len payloads ?d (is @ [i])
      else Suc (length is) = fec_data_shards c \<longrightarrow> map_of sets ?sid = None \<and>
        recovered = map (\<lambda>j. payloads ! j) (filter (\<lambda>j. j \<notin> set (is @ [i])) [0..<fec_data_shards c])"
    proof (cases "Suc (length is) < fec_data_shards c")
      case True
      with more show ?thesis by (simp only: if_True)
    next
      case False
      with full dec(3) show ?thesis by (simp only: if_False simp_thms) blast
    qed
  qed
qed

lemma collected_list:
  assumes g: "group_ok c len payloads" and d: "fec_static d" "fec_decoder_ok d" "same_code c d"
    and new: "map_of (fec_decode_sets d) (fec_next_seq c div of_nat (fec_shard_size c)) = None"
    and "distinct is" "set is \<subseteq> {..<fec_shard_size c}" "length is < fec_data_shards c"
  shows "\<exists>a sets s'.
     fec_decode_list (map (group_packet c len payloads) is) d s =
       Inr (map (\<lambda>j. payloads ! j) (filter (\<lambda>j. j < fec_data_shards c) is),
            d \<lparr> fec_decode_sets := sets, fec_newest_shard_id := a \<rparr>, s') \<and>
     fec_decoder_ok (d \<lparr> fec_decode_sets := sets, fec_newest_shard_id := a \<rparr>) \<and>
     collected c len payloads (d \<lparr> fec_decode_sets := sets, fec_newest_shard_id := a \<rparr>) is"
  using assms(6-8)
proof (induction "is" rule: rev_induct)
  case Nil
  have "collected c len payloads d []"
    using same_code_static(1) [of c d] g d(1,3) new
    by (simp add: collected_def Let_def current_set_def sized_shard_set_def group_ok_def)
  moreover have "d = d \<lparr> fec_decode_sets := fec_decode_sets d, fec_newest_shard_id := fec_newest_shard_id d \<rparr>"
    by simp
  ultimately show ?case using d(2)
    by (intro exI [of _ "fec_newest_shard_id d"] exI [of _ "fec_decode_sets d"]) simp
next
  case (snoc i "is")
  then obtain a sets s' where IH:
    "fec_decode_list (map (group_packet c len payloads) is) d s =
       Inr (map (\<lambda>j. payloads ! j) (filter (\<lambda>j. j < fec_data_shards c) is),
            d \<lparr> fec_decode_sets := sets, fec_newest_shard_id := a \<rparr>, s')" (is "_ = Inr (_, ?d, _)")
    "fec_decoder_ok (d \<lparr> fec_decode_sets := sets, fec_newest_shard_id := a \<rparr>)"
    "collected c len payloads (d \<lparr> fec_decode_sets := sets, fec_newest_shard_id := a \<rparr>) is" by auto
  have "fec_static ?d" "same_code c ?d" using d(1,3) by (simp_all add: fec_static_def same_code_def)
  from collected_step [OF g this(1) IH(2) this(2) IH(3), of i s'] snoc.prems obtain a' sets' s'' where
    "fec_decode (group_packet c len payloads i) ?d s' =
       Inr (if i < fec_data_shards c then [payloads ! i] else [],
            ?d \<lparr> fec_decode_sets := sets', fec_newest_shard_id := a' \<rparr>, s'')"
    "fec_decoder_ok (?d \<lparr> fec_decode_sets := sets', fec_newest_shard_id := a' \<rparr>)"
    "collected c len payloads (?d \<lparr> fec_decode_sets := sets', fec_newest_shard_id := a' \<rparr>) (is @ [i])"
    by auto
  then show ?case
    by (intro exI [of _ a'] exI [of _ sets'] exI [of _ s''])
      (simp add: fec_decode_list_append IH(1))
qed

text \<open>Any \<open>data_shards\<close> packets of the group give every payload exactly once.\<close>

lemma group_recovered:
  assumes g: "group_ok c len payloads" and d: "fec_static d" "fec_decoder_ok d" "same_code c d"
    and new: "map_of (fec_decode_sets d) (fec_next_seq c div of_nat (fec_shard_size c)) = None"
    and "distinct is" "set is \<subseteq> {..<fec_shard_size c}" "length is = fec_data_shards c"
  shows "\<exists>outs d' s'. fec_decode_list (map (group_packet c len payloads) is) d s = Inr (outs, d', s') \<and>
     mset outs = mset payloads \<and>
     map_of (fec_decode_sets d') (fec_next_seq c div of_nat (fec_shard_size c)) = None"
proof -
  let ?k = "fec_data_shards c"
  have "is \<noteq> []" using assms(8) fec_static_facts(2) [of c] g by (auto simp: group_ok_def)
  then obtain js i where is_: "is = js @ [i]" by (metis rev_exhaust)
  then have k: "Suc (length js) = ?k" and js: "distinct js" "set js \<subseteq> {..<fec_shard_size c}" "length js < ?k"
    and i: "i < fec_shard_size c" "i \<notin> set js" using assms(6-8) by auto
  from collected_list [OF g d new js, of s] obtain a sets s' where IH:
    "fec_decode_list (map (group_packet c len payloads) js) d s =
       Inr (map (\<lambda>j. payloads ! j) (filter (\<lambda>j. j < ?k) js),
            d \<lparr> fec_decode_sets := sets, fec_newest_shard_id := a \<rparr>, s')" (is "_ = Inr (_, ?d, _)")
    "fec_decoder_ok (d \<lparr> fec_decode_sets := sets, fec_newest_shard_id := a \<rparr>)"
    "collected c len payloads (d \<lparr> fec_decode_sets := sets, fec_newest_shard_id := a \<rparr>) js" by auto
  have "fec_static ?d" "same_code c ?d" using d(1,3) by (simp_all add: fec_static_def same_code_def)
  from collected_step [OF g this(1) IH(2) this(2) IH(3) i, of s'] k obtain a' sets' s'' where last:
    "fec_decode (group_packet c len payloads i) ?d s' =
       Inr ((if i < ?k then [payloads ! i] else []) @
              map (\<lambda>j. payloads ! j) (filter (\<lambda>j. j \<notin> set (js @ [i])) [0..<?k]),
            ?d \<lparr> fec_decode_sets := sets', fec_newest_shard_id := a' \<rparr>, s'')"
    "map_of sets' (fec_next_seq c div of_nat (fec_shard_size c)) = None"
    by auto
  let ?idx = "filter (\<lambda>j. j < ?k) is @ filter (\<lambda>j. j \<notin> set is) [0..<?k]"
  have "mset ?idx = mset [0..<?k]"
    using assms(6) by (subst set_eq_iff_mset_eq_distinct [symmetric]) auto
  then have "mset (map (\<lambda>j. payloads ! j) ?idx) = mset (map (\<lambda>j. payloads ! j) [0..<?k])"
    by (simp only: mset_map)
  also have "map (\<lambda>j. payloads ! j) [0..<?k] = payloads"
    using g map_nth [of payloads] by (simp add: group_ok_def)
  finally have "mset (map (\<lambda>j. payloads ! j) ?idx) = mset payloads" .
  moreover have "fec_decode_list (map (group_packet c len payloads) is) d s =
      Inr (map (\<lambda>j. payloads ! j) ?idx, ?d \<lparr> fec_decode_sets := sets', fec_newest_shard_id := a' \<rparr>, s'')"
    by (simp add: is_ fec_decode_list_append IH(1) last(1))
  ultimately show ?thesis using last(2) by auto
qed

section \<open>Reachable codecs\<close>

inductive fec_reachable :: "'a base_config_scheme \<Rightarrow> fec_codec \<Rightarrow> bool" for config where
  constructed: "make_fec_codec config = Inr c \<Longrightarrow> fec_reachable config c"
| encoded: "fec_reachable config c \<Longrightarrow> fec_encode now p c = (packets, c') \<Longrightarrow> fec_reachable config c'"
| decoded: "fec_reachable config c \<Longrightarrow> fec_decode p c s = Inr (out, c', s') \<Longrightarrow> fec_reachable config c'"

definition fec_inv :: "fec_codec \<Rightarrow> bool" where
  "fec_inv c \<longleftrightarrow> fec_static c \<and> fec_encoder_ok c \<and> fec_decoder_ok c"

lemma fec_inv_encode:
  assumes "fec_inv c" "fec_encode now p c = (packets, c')"
  shows "fec_inv c'"
  using fec_encode_keeps [of c now p] assms
  by (auto simp: fec_inv_def fec_static_def fec_decoder_ok_def)

lemma fec_static_update [simp]:
  "fec_static (c \<lparr> fec_decode_sets := sets, fec_newest_shard_id := a \<rparr>) = fec_static c"
  "fec_encoder_ok (c \<lparr> fec_decode_sets := sets, fec_newest_shard_id := a \<rparr>) = fec_encoder_ok c"
  by (simp_all add: fec_static_def fec_encoder_ok_def)

text \<open>No packet makes the decoder throw, and every packet keeps the invariant.\<close>

lemma fec_decode_ok:
  assumes "fec_inv c"
  shows "\<exists>out c' s'. fec_decode p c s = Inr (out, c', s') \<and> fec_inv c'"
proof -
  have c: "fec_static c" "fec_decoder_ok c" using assms by (auto simp: fec_inv_def)
  consider "8 \<le> length p" "packet_flag p \<in> {fec_type_data, fec_type_parity}" "packet_seq p < fec_paws c"
    | "length p < 8"
    | "8 \<le> length p" "packet_flag p \<notin> {fec_type_data, fec_type_parity}"
    | "8 \<le> length p" "packet_flag p \<in> {fec_type_data, fec_type_parity}" "\<not> packet_seq p < fec_paws c"
    by linarith
  then show ?thesis
  proof cases
    case 1
    from fec_decode_shard [OF c 1, of s] obtain recovered a sets s' where
      "fec_decode p c s = Inr (direct_output p @ recovered, c \<lparr> fec_decode_sets := sets, fec_newest_shard_id := a \<rparr>, s')"
      "fec_decoder_ok (c \<lparr> fec_decode_sets := sets, fec_newest_shard_id := a \<rparr>)" by blast
    then show ?thesis using assms by (auto simp: fec_inv_def)
  qed (use assms c in \<open>auto simp: fec_decode_def Let_def fec_header_size_plus_size_def split: prod.split\<close>)
qed

lemma fec_reachable_inv:
  assumes "fec_reachable config c" "fec_enabled c"
  shows "fec_inv c"
  using assms
proof (induction rule: fec_reachable.induct)
  case (constructed c)
  then show ?case using make_fec_codec_ok by (simp add: fec_inv_def)
next
  case (encoded c now p packets c')
  have "fec_enabled c"
  proof (rule ccontr)
    assume "\<not> fec_enabled c"
    with encoded(2,4) show False by (simp add: fec_encode_def)
  qed
  with encoded fec_inv_encode show ?case by blast
next
  case (decoded c p s out c' s')
  have "fec_enabled c"
  proof (rule ccontr)
    assume "\<not> fec_enabled c"
    with decoded(2,4) show False by (simp add: fec_decode_def)
  qed
  with decoded fec_decode_ok [of c p s] show ?case by auto
qed

lemma make_fec_codec_total:
  assumes "0 < cfg_datashard config" "0 < cfg_parityshard config"
    "cfg_datashard config + cfg_parityshard config \<le> 256"
  shows "\<exists>c. make_fec_codec config = Inr c \<and> fec_enabled c \<and> fec_shard_count c = 0 \<and>
           fec_latest_packet_ms c = 0 \<and> fec_decode_sets c = [] \<and>
           fec_data_shards c = nat (cfg_datashard config) \<and> fec_parity_shards c = nat (cfg_parityshard config)"
proof -
  have "nat (cfg_datashard config) + nat (cfg_parityshard config) \<le> 256" "0 < nat (cfg_datashard config)"
    using assms by auto
  then obtain rs where "make_reed_solomon (nat (cfg_datashard config)) (nat (cfg_parityshard config)) = Inr rs"
    using make_reed_solomon_ok by blast
  with assms show ?thesis by (simp add: make_fec_codec_def int_add_def int_range_def Let_def)
qed

section \<open>Properties\<close>

lemma fec_codec_example:
  "\<exists>c. make_fec_codec (base_defaults () \<lparr> cfg_datashard := 2, cfg_parityshard := 1 \<rparr>) = Inr c \<and>
     fec_enabled c \<and> fec_shard_count c = 0 \<and> fec_latest_packet_ms c = 0 \<and> fec_decode_sets c = [] \<and>
     fec_data_shards c = 2 \<and> fec_parity_shards c = 1 \<and> fec_inv c \<and> fec_shard_size c = 3"
proof -
  let ?cfg = "base_defaults () \<lparr> cfg_datashard := 2, cfg_parityshard := 1 \<rparr>"
  obtain c where c: "make_fec_codec ?cfg = Inr c" "fec_enabled c" "fec_shard_count c = 0"
    "fec_latest_packet_ms c = 0" "fec_decode_sets c = []" "fec_data_shards c = 2" "fec_parity_shards c = 1"
    using make_fec_codec_total [of ?cfg] by auto
  then have "fec_inv c" using make_fec_codec_ok by (simp add: fec_inv_def)
  then have "fec_shard_size c = 3" using c(6,7) fec_static_facts(4) [of c] by (simp add: fec_inv_def)
  with c \<open>fec_inv c\<close> show ?thesis by blast
qed

text \<open>C7: Forward error correction works end to end. When an encoder at the start of a
  group sends \<open>data_shards\<close> payloads without a pause before the last one, it emits
  \<open>data_shards + parity_shards\<close> packets, and a decoder with the same parameters that has no
  open set for the group hands out every payload exactly once after any \<open>data_shards\<close> of
  these packets, in any order, whatever else it decoded before.\<close>

theorem fec_group_recovery:
  assumes "fec_reachable config c" "fec_enabled c" "fec_shard_count c = 0"
    and "length items = fec_data_shards c" "group_timely c items" "\<forall>(t, p) \<in> set items. length p \<le> 65533"
    and "fec_reachable config' d" "fec_enabled d" "same_code c d"
    and "map_of (fec_decode_sets d) (fec_next_seq c div of_nat (fec_shard_size c)) = None"
    and "distinct is" "set is \<subseteq> {..<fec_shard_size c}" "length is = fec_data_shards c"
  shows "\<exists>packets c' outs d' s'.
     fec_encode_list items c = (packets, c') \<and> length packets = fec_data_shards c + fec_parity_shards c \<and>
     fec_decode_list (map (\<lambda>i. packets ! i) is) d s = Inr (outs, d', s') \<and>
     mset outs = mset (map snd items)"
proof -
  have inv: "fec_static c" "fec_encoder_ok c" "fec_static d" "fec_decoder_ok d"
    using fec_reachable_inv assms(1,2,7,8) by (auto simp: fec_inv_def)
  from fec_encode_group [OF inv(1,2) assms(3-5)] obtain len c' where enc:
    "fec_encode_list items c = (group_packets c len (map snd items), c')"
    "\<forall>p \<in> set (map snd items). length p + 2 \<le> len" by blast
  then have "group_ok c len (map snd items)"
    using inv assms(3,4,6) by (auto simp: group_ok_def)
  from group_recovered [OF this inv(3,4) assms(9-13)]
  obtain outs d' s' where dec:
    "fec_decode_list (map (group_packet c len (map snd items)) is) d s = Inr (outs, d', s')"
    "mset outs = mset (map snd items)" by blast
  have "map (\<lambda>i. group_packets c len (map snd items) ! i) is = map (group_packet c len (map snd items)) is"
    using assms(12) by (auto simp: group_packets_def)
  moreover have "length (group_packets c len (map snd items)) = fec_data_shards c + fec_parity_shards c"
    using fec_static_facts(4) [OF inv(1)] by (simp add: group_packets_def)
  ultimately show ?thesis using enc(1) dec by metis
qed

lemma fec_group_recovery_witness:
  "\<exists>c packets c' outs d' s'.
     make_fec_codec (base_defaults () \<lparr> cfg_datashard := 2, cfg_parityshard := 1 \<rparr>) = Inr c \<and>
     fec_encode_list [(1000, [1, 2, 3]), (1010, [4])] c = (packets, c') \<and> length packets = 3 \<and>
     fec_decode_list [packets ! 2, packets ! 1] c empty_snmp = Inr (outs, d', s') \<and>
     mset outs = {#[1, 2, 3], [4]#}"
proof -
  obtain c where c: "make_fec_codec (base_defaults () \<lparr> cfg_datashard := 2, cfg_parityshard := 1 \<rparr>) = Inr c"
    "fec_enabled c" "fec_shard_count c = 0" "fec_latest_packet_ms c = 0" "fec_decode_sets c = []"
    "fec_data_shards c = 2" "fec_parity_shards c = 1" "fec_shard_size c = 3"
    using fec_codec_example by blast
  from fec_reachable.constructed [OF c(1)] show ?thesis
    using fec_group_recovery [OF _ c(2,3), of _ "[(1000, [1, 2, 3]), (1010, [4])]" _ c "[2, 1]" empty_snmp] c
    by (auto simp: group_timely_def Let_def same_code_def max_fec_encode_latency_ms_def)
qed

text \<open>C26: No received packet, whatever its bytes, makes the decoder throw: from every
  state the codec can reach, decoding returns, and the reached state again satisfies the
  codec's invariant (sets sized to the code, fewer than \<open>data_shards\<close> shards in each, the
  encoder's numbering aligned with its group).\<close>

theorem fec_decode_never_throws:
  assumes "fec_reachable config c" "fec_enabled c"
  shows "fec_inv c \<and> (\<exists>out c' s'. fec_decode packet c s = Inr (out, c', s') \<and> fec_inv c')"
  using fec_reachable_inv [OF assms] fec_decode_ok by blast

lemma fec_decode_never_throws_witness:
  "\<exists>c out c' s'. make_fec_codec (base_defaults () \<lparr> cfg_datashard := 2, cfg_parityshard := 1 \<rparr>) = Inr c \<and>
     fec_decode [1, 0, 0, 0, 0xf1, 0, 9, 9, 9] c empty_snmp = Inr (out, c', s') \<and> fec_inv c'"
proof -
  obtain c where c: "make_fec_codec (base_defaults () \<lparr> cfg_datashard := 2, cfg_parityshard := 1 \<rparr>) = Inr c"
    "fec_enabled c" using fec_codec_example by blast
  with fec_decode_never_throws [OF fec_reachable.constructed [OF c(1)] c(2)] show ?thesis by blast
qed

lemma fec_data_packet_passes:
  assumes "fec_static c" "fec_decoder_ok c"
  shows "\<exists>more c' s'. fec_decode (fec_packet seq fec_type_data (fec_shard p)) c s = Inr (p # more, c', s')"
proof (cases "seq < fec_paws c")
  case True
  let ?pkt = "fec_packet seq fec_type_data (fec_shard p)"
  have "direct_output ?pkt = [p]" by (simp add: direct_output_def fec_shard_def)
  with fec_decode_shard [OF assms, of ?pkt s] True show ?thesis by fastforce
next
  case False
  then show ?thesis
    using fec_static_facts(1) [OF assms(1)]
    by (auto simp: fec_decode_def Let_def fec_header_size_plus_size_def fec_shard_def)
qed

lemma fec_encode_head:
  assumes "fec_static c" "fec_encoder_ok c"
  shows "\<exists>rest. fst (fec_encode now p c) = fec_packet (fec_next_seq c) fec_type_data (fec_shard p) # rest"
  using fec_encode_data [OF assms, of now p] by (simp add: Let_def split_def)

text \<open>C32: Every packet sent is numbered by its place in the group: the data packet of a
  call comes first, has the 8-byte header the codec announces as its overhead, carries the
  packet unchanged at the offset \<open>fec_kcp_payload_offset\<close> reports, and its number modulo
  \<open>shard_size\<close> is the number of data shards already in the group, which is below
  \<open>data_shards\<close>; so a decoder files it as a data shard. Numbers stay below \<open>paws\<close>.\<close>

theorem fec_encode_numbering:
  assumes "fec_reachable config c" "fec_enabled c"
  shows "\<exists>d rest c'. fec_encode now p c = (d # rest, c') \<and>
     length d = length p + fec_overhead c \<and> fec_kcp_payload_offset d = Some (fec_overhead c) \<and>
     drop (fec_overhead c) d = p \<and> packet_seq d < fec_paws c \<and>
     unat (packet_seq d) mod fec_shard_size c = fec_shard_count c \<and> fec_shard_count c < fec_data_shards c"
proof -
  have inv: "fec_static c" "fec_encoder_ok c" using fec_reachable_inv [OF assms] by (auto simp: fec_inv_def)
  let ?d = "fec_packet (fec_next_seq c) fec_type_data (fec_shard p)"
  obtain rest where "fst (fec_encode now p c) = ?d # rest" using fec_encode_head [OF inv] by blast
  then have enc: "fec_encode now p c = (?d # rest, snd (fec_encode now p c))" by (metis prod.collapse)
  have ov: "fec_overhead c = 8" using assms(2) by (simp add: fec_overhead_def fec_header_size_plus_size_def)
  have off: "fec_kcp_payload_offset ?d = Some 8"
    by (simp add: fec_kcp_payload_offset_def Let_def fec_header_size_plus_size_def)
  have "drop 8 ?d = p" by (simp add: fec_shard_def)
  then show ?thesis
    using enc off inv(2) unfolding ov fec_encoder_ok_def word_less_nat_alt
    by (intro exI [of _ ?d] exI [of _ rest] exI [of _ "snd (fec_encode now p c)"]) simp
qed

lemma fec_encode_numbering_witness:
  "\<exists>c d rest c'. make_fec_codec (base_defaults () \<lparr> cfg_datashard := 2, cfg_parityshard := 1 \<rparr>) = Inr c \<and>
     fec_encode 1000 [7, 7] c = (d # rest, c') \<and> length d = 10 \<and> drop 8 d = [7, 7]"
proof -
  obtain c where c: "make_fec_codec (base_defaults () \<lparr> cfg_datashard := 2, cfg_parityshard := 1 \<rparr>) = Inr c"
    "fec_enabled c" using fec_codec_example by blast
  with fec_encode_numbering [OF fec_reachable.constructed [OF c(1)] c(2), of 1000 "[7, 7]"]
  show ?thesis by (auto simp: fec_overhead_def fec_header_size_plus_size_def)
qed

text \<open>A payload does not wait for its group: whatever sets are open, a decoder hands
  out the payload of a data packet at once, as the first output of the call.\<close>

theorem fec_data_immediate:
  assumes "fec_reachable config c" "fec_enabled c" "fec_reachable config' d" "fec_enabled d"
  shows "\<exists>more d' s'. fec_decode (hd (fst (fec_encode now p c))) d s = Inr (p # more, d', s')"
proof -
  have inv: "fec_static c" "fec_encoder_ok c" "fec_static d" "fec_decoder_ok d"
    using fec_reachable_inv assms by (auto simp: fec_inv_def)
  obtain rest where "fst (fec_encode now p c) = fec_packet (fec_next_seq c) fec_type_data (fec_shard p) # rest"
    using fec_encode_head [OF inv(1,2)] by blast
  then show ?thesis using fec_data_packet_passes [OF inv(3,4)] by simp
qed

lemma fec_data_immediate_witness:
  "\<exists>c more d' s'. make_fec_codec (base_defaults () \<lparr> cfg_datashard := 2, cfg_parityshard := 1 \<rparr>) = Inr c \<and>
     fec_decode (hd (fst (fec_encode 1000 [7, 7] c))) c empty_snmp = Inr ([7, 7] # more, d', s')"
proof -
  obtain c where c: "make_fec_codec (base_defaults () \<lparr> cfg_datashard := 2, cfg_parityshard := 1 \<rparr>) = Inr c"
    "fec_enabled c" using fec_codec_example by blast
  note r = fec_reachable.constructed [OF c(1)]
  from fec_data_immediate [OF r c(2) r c(2)] c(1) show ?thesis by blast
qed

end
