(* ===== verification/Checksum.thy ===== *)
theory Checksum
  imports Wire
begin

text \<open>
  The table-driven CRC-32 of \<open>crypto.cpp\<close> (\<open>crc32_ieee\<close>) and of \<open>snappy_stream.cpp\<close>
  (\<open>crc32c\<close>, \<open>mask_crc\<close>). The two functions differ in their polynomial only. The table
  loop is proved equal to the bit-serial register, and the register is linear and
  invertible, which gives the error-detection guarantees the packet and chunk formats
  rely on.
\<close>

unbundle bit_operations_syntax

section \<open>The code\<close>

text \<open>One round of the inner loop \<open>for (int bit = 0; bit < 8; ++bit)\<close>.\<close>

definition crc_step :: "u32 \<Rightarrow> u32 \<Rightarrow> u32" where
  "crc_step poly crc = (if crc AND 1 \<noteq> 0 then poly XOR drop_bit 1 crc else drop_bit 1 crc)"

definition crc_table :: "u32 \<Rightarrow> u32 list" where
  "crc_table poly = map (\<lambda>i. (crc_step poly ^^ 8) (of_nat i)) [0..<256]"

definition crc_update :: "u32 list \<Rightarrow> u32 \<Rightarrow> byte \<Rightarrow> u32" where
  "crc_update table crc b = table ! unat ((crc XOR ucast b) AND 0xff) XOR drop_bit 8 crc"

definition crc_run :: "u32 \<Rightarrow> u32 \<Rightarrow> bytes \<Rightarrow> u32" where
  "crc_run poly crc data = foldl (crc_update (crc_table poly)) crc data"

definition crc32_ieee :: "bytes \<Rightarrow> u32" where
  "crc32_ieee data = crc_run 0xedb88320 0xffffffff data XOR 0xffffffff"

definition crc32c :: "bytes \<Rightarrow> u32" where
  "crc32c data = crc_run 0x82f63b78 0xffffffff data XOR 0xffffffff"

definition mask_crc :: "u32 \<Rightarrow> u32" where
  "mask_crc crc = (drop_bit 15 crc OR push_bit 17 crc) + 0xa282ead8"

section \<open>The register\<close>

lemma crc_step_alt: "crc_step poly crc = drop_bit 1 crc XOR (if bit crc 0 then poly else 0)"
  by (simp add: crc_step_def and_one_eq bit_0 odd_iff_mod_2_eq_one xor.commute)

lemma bit_crc_step: "bit (crc_step poly x) i \<longleftrightarrow> bit x (Suc i) \<noteq> (bit x 0 \<and> bit poly i)"
  by (auto simp: crc_step_alt bit_simps)

lemma bit_push: "bit (push_bit m (x :: u32)) i \<longleftrightarrow> i < 32 \<and> m \<le> i \<and> bit x (i - m)"
  by (auto simp: bit_push_bit_iff)

lemma bit_u32: "bit (x :: u32) i \<Longrightarrow> i < 32"
  by (drule bit_imp_le_length) simp

lemma crc_step_xor: "crc_step poly (a XOR b) = crc_step poly a XOR crc_step poly b"
  by (intro bit_eqI) (auto simp: bit_crc_step bit_xor_iff)

lemma crc_steps_xor: "(crc_step poly ^^ n) (a XOR b) = (crc_step poly ^^ n) a XOR (crc_step poly ^^ n) b"
  by (induction n) (simp_all add: crc_step_xor)

text \<open>Below the feedback the register just shifts.\<close>

lemma crc_steps_push:
  "n + k \<le> 32 \<Longrightarrow> (\<And>i. k \<le> i \<Longrightarrow> \<not> bit x i) \<Longrightarrow> (crc_step poly ^^ n) (push_bit n x) = x"
proof (induction n)
  case (Suc n)
  have "crc_step poly (push_bit (Suc n) x) = push_bit n x"
  proof (rule bit_eqI)
    fix i
    have "\<not> bit x (31 - n)" using Suc.prems by simp
    then show "bit (crc_step poly (push_bit (Suc n) x)) i \<longleftrightarrow> bit (push_bit n x) i"
      unfolding bit_crc_step bit_push using bit_u32 [of x "i - n"] by (cases "i = 31") auto
  qed
  moreover have "(crc_step poly ^^ n) (push_bit n x) = x" using Suc by simp
  ultimately show ?case by (simp only: funpow_Suc_right comp_apply)
qed simp

lemma crc_step_inj:
  assumes "bit poly 31" "crc_step poly a = crc_step poly b"
  shows "a = b"
proof (rule bit_eqI)
  have "\<not> bit x 32" for x :: u32 using bit_u32 by blast
  then have top: "bit (crc_step poly x) 31 = bit x 0" for x
    using assms(1) by (simp add: bit_crc_step)
  then have z: "bit a 0 = bit b 0" using assms(2) by metis
  then have s: "bit a (Suc i) = bit b (Suc i)" for i using assms(2) bit_crc_step by metis
  show "bit a n = bit b n" for n using z s by (cases n) auto
qed

lemma crc_steps_inj: "bit poly 31 \<Longrightarrow> (crc_step poly ^^ n) a = (crc_step poly ^^ n) b \<longleftrightarrow> a = b"
  by (induction n) (auto dest: crc_step_inj)

text \<open>One table lookup is eight rounds of the register.\<close>

lemma crc_update_steps: "crc_update (crc_table poly) crc b = (crc_step poly ^^ 8) (crc XOR ucast b)"
proof -
  let ?x = "crc XOR ucast b"
  have i: "unat (?x AND 0xff) < 256"
  proof -
    have "unat (?x AND 0xff) = take_bit 8 (unat ?x)"
      by (simp only: word_255_mask unsigned_take_bit_eq flip: take_bit_eq_mask)
    also have "\<dots> < 2 ^ 8" by (rule take_bit_nat_less_exp)
    finally show ?thesis by simp
  qed
  then have t: "crc_table poly ! unat (?x AND 0xff) = (crc_step poly ^^ 8) (?x AND 0xff)"
    by (simp add: crc_table_def)
  have "drop_bit 8 ?x = drop_bit 8 crc"
    by (intro bit_eqI) (auto simp: bit_drop_bit_eq bit_xor_iff bit_ucast_byte)
  moreover have "(crc_step poly ^^ 8) (push_bit 8 (drop_bit 8 ?x)) = drop_bit 8 ?x"
    by (rule crc_steps_push [of 8 24]) (auto simp: bit_simps dest: bit_imp_le_length)
  moreover have "?x = (?x AND 0xff) XOR push_bit 8 (drop_bit 8 ?x)"
    unfolding word_255_mask by (intro bit_eqI) (auto simp: bit_simps)
  ultimately show ?thesis unfolding crc_update_def t by (metis crc_steps_xor)
qed

lemma crc_run_Nil [simp]: "crc_run poly crc [] = crc"
  and crc_run_Cons: "crc_run poly crc (b # bs) = crc_run poly ((crc_step poly ^^ 8) (crc XOR ucast b)) bs"
  by (simp_all add: crc_run_def crc_update_steps)

lemma crc_run_append: "crc_run poly crc (xs @ ys) = crc_run poly (crc_run poly crc xs) ys"
  by (simp add: crc_run_def)

text \<open>The little-endian word of up to four bytes.\<close>

fun pack_le :: "bytes \<Rightarrow> u32" where
  "pack_le [] = 0"
| "pack_le (b # bs) = ucast b XOR push_bit 8 (pack_le bs)"

lemma bit_pack_le: "length bs \<le> n \<Longrightarrow> bit (pack_le bs) i \<Longrightarrow> i < 8 * n"
proof (induction bs arbitrary: n i)
  case (Cons b bs)
  obtain m where n: "n = Suc m" "length bs \<le> m" using Cons.prems(1) by (cases n) auto
  from Cons.prems(2) consider "bit (ucast b :: u32) i" | "8 \<le> i" "bit (pack_le bs) (i - 8)"
    by (auto simp: bit_simps)
  then show ?case
  proof cases
    case 1
    then show ?thesis using n by (auto simp: bit_ucast_byte)
  next
    case 2
    then show ?thesis using Cons.IH [OF n(2)] n(1) by fastforce
  qed
qed simp

text \<open>A run over at most four bytes is one run of the register over their word.\<close>

lemma crc_run_pack:
  "length bs \<le> 4 \<Longrightarrow> crc_run poly crc bs = (crc_step poly ^^ (8 * length bs)) (crc XOR pack_le bs)"
proof (induction bs arbitrary: crc)
  case (Cons b bs)
  let ?n = "8 * length bs"
  have "(crc_step poly ^^ 8) (push_bit 8 (pack_le bs)) = pack_le bs"
    by (rule crc_steps_push [of 8 ?n]) (use Cons.prems bit_pack_le [of bs "length bs"] in \<open>auto simp: not_less [symmetric]\<close>)
  then have "crc_run poly crc (b # bs) = (crc_step poly ^^ ?n) ((crc_step poly ^^ 8) (crc XOR ucast b XOR push_bit 8 (pack_le bs)))"
    using Cons by (simp add: crc_run_Cons crc_steps_xor xor.assoc)
  also have "\<dots> = (crc_step poly ^^ (?n + 8)) (crc XOR pack_le (b # bs))"
    by (simp only: funpow_add comp_apply pack_le.simps xor.assoc)
  finally show ?case by (simp add: add.commute)
qed simp

lemma pack_le_inj: "length as = length bs \<Longrightarrow> length as \<le> 4 \<Longrightarrow> pack_le as = pack_le bs \<Longrightarrow> as = bs"
proof (induction as bs rule: list_induct2)
  case (Cons a as b bs)
  have bit: "bit (pack_le (x # xs)) i = (if i < 8 then bit x i else bit (pack_le xs) (i - 8))"
    if "i < 32" for x xs i
    using that bit_imp_le_length [of x i] by (auto simp: bit_xor_iff bit_push bit_ucast_byte)
  have "bit a i = bit b i" for i
  proof (cases "i < 8")
    case True
    then show ?thesis using bit [of i a as] bit [of i b bs] Cons.prems(2) by simp
  next
    case False
    then show ?thesis using bit_imp_le_length [of a i] bit_imp_le_length [of b i] by auto
  qed
  then have "a = b" by (intro bit_eqI)
  moreover have "bit (pack_le as) i = bit (pack_le bs) i" for i
  proof (cases "i < 24")
    case True
    then show ?thesis using bit [of "i + 8" a as] bit [of "i + 8" b bs] Cons.prems(2) by simp
  next
    case False
    then show ?thesis using bit_pack_le [of as 3 i] bit_pack_le [of bs 3 i] Cons.prems(1) Cons.hyps by auto
  qed
  then have "pack_le as = pack_le bs" by (intro bit_eqI)
  ultimately show ?case using Cons by simp
qed simp

lemma xor_right_inj: "x XOR z = y XOR z \<longleftrightarrow> x = (y :: u32)"
  using xor_cancel_left [of z x y] by (simp add: xor.commute)

lemma crc_run_inj_crc: "bit poly 31 \<Longrightarrow> crc_run poly a bs = crc_run poly b bs \<longleftrightarrow> a = b"
  by (induction bs arbitrary: a b) (simp_all add: crc_run_Cons crc_steps_inj xor_right_inj)

lemma crc_run_burst:
  assumes "bit poly 31" "length as = length bs" "length as \<le> 4"
    and "crc_run poly crc (pre @ as @ post) = crc_run poly crc (pre @ bs @ post)"
  shows "as = bs"
proof -
  have "crc_run poly (crc_run poly crc pre) as = crc_run poly (crc_run poly crc pre) bs"
    using assms(4) by (simp add: crc_run_append crc_run_inj_crc [OF assms(1)])
  then have "pack_le as = pack_le bs"
    using assms(2,3) by (simp add: crc_run_pack crc_steps_inj [OF assms(1)] xor_cancel_left)
  then show ?thesis using pack_le_inj assms(2,3) by blast
qed

lemma mask_crc_inj: "mask_crc a = mask_crc b \<longleftrightarrow> a = b"
proof
  assume "mask_crc a = mask_crc b"
  then have r: "drop_bit 15 a OR push_bit 17 a = drop_bit 15 b OR push_bit 17 b"
    by (simp add: mask_crc_def)
  have "bit x i = bit (drop_bit 15 x OR push_bit 17 x) (if i < 15 then i + 17 else i - 15)" if "i < 32" for x :: u32 and i
    using that bit_u32 [of x "i + 32"] by (auto simp: bit_or_iff bit_push bit_drop_bit_eq dest: bit_u32)
  then have "bit a i = bit b i" for i using r bit_u32 by metis
  then show "a = b" by (intro bit_eqI)
qed simp

section \<open>Properties\<close>

text \<open>C30: Both checksums detect every corruption confined to four consecutive bytes: two
  messages of the same length that differ only inside such a window have different CRC-32
  (the packet checksum) and different masked CRC-32C (the Snappy chunk checksum).\<close>

theorem crc_detects_burst:
  assumes "length as = length bs" "length as \<le> 4" "as \<noteq> bs"
  shows "crc32_ieee (pre @ as @ post) \<noteq> crc32_ieee (pre @ bs @ post) \<and>
         mask_crc (crc32c (pre @ as @ post)) \<noteq> mask_crc (crc32c (pre @ bs @ post))"
proof -
  have "bit (0xedb88320 :: u32) 31" "bit (0x82f63b78 :: u32) 31" by simp_all
  with assms show ?thesis
    unfolding crc32_ieee_def crc32c_def mask_crc_inj xor_right_inj using crc_run_burst by metis
qed

lemma crc_detects_burst_witness:
  "crc32_ieee [1, 2, 3, 4] \<noteq> crc32_ieee [1, 7, 8, 4] \<and>
   mask_crc (crc32c [1, 2, 3, 4]) \<noteq> mask_crc (crc32c [1, 7, 8, 4])"
  using crc_detects_burst [of "[2, 3]" "[7, 8]" "[1]" "[4]"] by simp

text \<open>The table-driven loop computes the bit-serial CRC: every byte is eight rounds of
  the reflected shift register.\<close>

theorem crc_table_is_serial:
  "crc32_ieee data = foldl (\<lambda>crc b. (crc_step 0xedb88320 ^^ 8) (crc XOR ucast b)) 0xffffffff data XOR 0xffffffff \<and>
   crc32c data = foldl (\<lambda>crc b. (crc_step 0x82f63b78 ^^ 8) (crc XOR ucast b)) 0xffffffff data XOR 0xffffffff"
proof -
  have "crc_update (crc_table poly) = (\<lambda>crc b. (crc_step poly ^^ 8) (crc XOR ucast b))" for poly
    by (intro ext) (rule crc_update_steps)
  then show ?thesis by (simp only: crc32_ieee_def crc32c_def crc_run_def simp_thms)
qed

end
