(* ===== verification/Stream_Parser.thy ===== *)
theory Stream_Parser
  imports Prelude
begin

text \<open>
  The contract of the incremental parsers of the source (the Snappy decoder, the smux
  frame reader): received bytes are appended to a buffer and a loop takes complete units
  off its front. The client of such a parser does not control how the transport cuts the
  byte stream into reads, so what it relies on is that the cut does not matter.
\<close>

text \<open>
  A \<open>step\<close> looks at the state and the buffer: \<open>None\<close> waits for more bytes, \<open>Inl\<close> throws,
  and \<open>Inr (s', outs, n)\<close> takes \<open>n\<close> bytes.
\<close>

type_synonym ('s, 'o) parser_step = "'s \<Rightarrow> bytes \<Rightarrow> ('s \<times> 'o list \<times> nat) result option"

type_synonym ('s, 'o) parser_result = "('s \<times> 'o list \<times> bytes) result"

definition then_parse :: "('s, 'o) parser_result \<Rightarrow> ('s \<Rightarrow> bytes \<Rightarrow> ('s, 'o) parser_result) \<Rightarrow> ('s, 'o) parser_result" where
  "then_parse r k =
     (case r of
        Inl e \<Rightarrow> Inl e
      | Inr (s, outs, rest) \<Rightarrow>
          (case k s rest of Inl e \<Rightarrow> Inl e | Inr (s', outs', rest') \<Rightarrow> Inr (s', outs @ outs', rest')))"

lemma then_parse_simps [simp]:
  "then_parse (Inl e) k = Inl e"
  "then_parse (Inr (s, outs, rest)) k =
     (case k s rest of Inl e \<Rightarrow> Inl e | Inr (s', outs', rest') \<Rightarrow> Inr (s', outs @ outs', rest'))"
  by (simp_all add: then_parse_def)

lemma then_parse_assoc:
  "then_parse (then_parse r j) k = then_parse r (\<lambda>s rest. then_parse (j s rest) k)"
  by (auto simp: then_parse_def split: sum.split)

locale stream_parser =
  fixes step :: "('s, 'o) parser_step"
    and loop :: "'s \<Rightarrow> bytes \<Rightarrow> ('s, 'o) parser_result"
  assumes loop_unfold: "loop s xs =
      (case step s xs of
         None \<Rightarrow> Inr (s, [], xs)
       | Some (Inl e) \<Rightarrow> Inl e
       | Some (Inr (s', outs, n)) \<Rightarrow> then_parse (Inr (s', outs, drop n xs)) loop)"
    and progress: "step s xs = Some (Inr (s', outs, n)) \<Longrightarrow> 0 < n \<and> n \<le> length xs"
    and stable: "step s xs = Some r \<Longrightarrow> step s (xs @ ys) = Some r"
begin

text \<open>Parsing a prefix first and the rest later is parsing everything at once.\<close>

lemma loop_append: "loop s (xs @ ys) = then_parse (loop s xs) (\<lambda>s rest. loop s (rest @ ys))"
proof (induction xs arbitrary: s rule: length_induct)
  case (1 xs)
  show ?case
  proof (cases "step s xs")
    case None
    then show ?thesis
      by (simp add: loop_unfold [of s xs] split: sum.split)
  next
    case (Some r)
    note st = stable [OF Some, of ys]
    show ?thesis
    proof (cases r)
      case (Inl e)
      then show ?thesis using Some st by (simp add: loop_unfold [of s])
    next
      case (Inr t)
      obtain s' outs n where t: "t = (s', outs, n)" by (cases t)
      have n: "0 < n" "n \<le> length xs" using progress Some Inr t by blast+
      then have len: "length (drop n xs) < length xs" by simp
      have IH: "loop t (drop n xs @ ys) = then_parse (loop t (drop n xs)) (\<lambda>s rest. loop s (rest @ ys))" for t
        using 1 len by blast
      have "loop s (xs @ ys) = then_parse (Inr (s', outs, [])) (\<lambda>s _. loop s (drop n xs @ ys))"
        using st n by (simp add: loop_unfold [of s "xs @ ys"] Inr t)
      also have "\<dots> = then_parse (Inr (s', outs, [])) (\<lambda>s _. then_parse (loop s (drop n xs)) (\<lambda>s rest. loop s (rest @ ys)))"
        by (simp only: IH)
      also have "\<dots> = then_parse (loop s xs) (\<lambda>s rest. loop s (rest @ ys))"
        using Some by (simp add: loop_unfold [of s xs] Inr t then_parse_def split: sum.split)
      finally show ?thesis .
    qed
  qed
qed

text \<open>What is left in the buffer never holds a complete unit.\<close>

lemma loop_rest: "loop s xs = Inr (s', outs, rest) \<Longrightarrow> step s' rest = None"
proof (induction xs arbitrary: s outs rule: length_induct)
  case (1 xs)
  show ?case
  proof (cases "step s xs")
    case None
    then show ?thesis using 1(2) by (simp add: loop_unfold [of s xs])
  next
    case (Some r)
    then obtain t outs' n where r: "r = Inr (t, outs', n)"
      using 1(2) by (auto simp: loop_unfold [of s xs] split: sum.splits)
    then have "length (drop n xs) < length xs" using progress Some by fastforce
    moreover obtain outs'' where "loop t (drop n xs) = Inr (s', outs'', rest)"
      using 1(2) Some r by (auto simp: loop_unfold [of s xs] split: sum.splits)
    ultimately show ?thesis using 1(1) by blast
  qed
qed

lemma loop_step:
  "step s (unit @ ys) = Some (Inr (s', outs, length unit)) \<Longrightarrow>
     loop s (unit @ ys) = then_parse (Inr (s', outs, ys)) loop"
  by (simp add: loop_unfold [of s "unit @ ys"])

text \<open>
  A client feeds reads one by one, keeping state and buffer. However a stream is cut, the
  final result is that of one read.
\<close>

lemma feeds_concat:
  "foldl (\<lambda>r chunk. then_parse r (\<lambda>s rest. loop s (rest @ chunk))) (loop s xs) chunks =
     loop s (xs @ concat chunks)"
proof (induction chunks arbitrary: xs)
  case (Cons c chunks)
  then show ?case by (simp add: Cons [of "xs @ c", simplified] flip: loop_append append_assoc)
qed simp

lemma feeds_cut:
  assumes "concat chunks = concat chunks'"
  shows "foldl (\<lambda>r chunk. then_parse r (\<lambda>s rest. loop s (rest @ chunk))) (loop s xs) chunks =
    foldl (\<lambda>r chunk. then_parse r (\<lambda>s rest. loop s (rest @ chunk))) (loop s xs) chunks'"
  by (simp add: feeds_concat assms)

end

end
