(* ===== verification/Snappy_Stream.thy ===== *)
theory Snappy_Stream
  imports "HOL-Library.Sublist" Wire Checksum Stream_Parser
begin

text \<open>
  The framed Snappy stream of \<open>snappy_stream.cpp\<close>. The block compressor is a library:
  \<open>compress\<close> and \<open>uncompress\<close> (\<open>None\<close> when \<open>snappy::Uncompress\<close> fails) are parameters,
  and what the source relies on is that uncompressing a compressed block gives it back.
\<close>

section \<open>Encoder\<close>

definition max_uncompressed_chunk :: nat where
  "max_uncompressed_chunk = 65536"

definition stream_magic :: bytes where
  "stream_magic = [0x73, 0x4e, 0x61, 0x50, 0x70, 0x59]"

definition stream_identifier :: bytes where
  "stream_identifier = [0xff, 0x06, 0x00, 0x00] @ stream_magic"

definition make_data_chunk :: "(bytes \<Rightarrow> bytes) \<Rightarrow> bytes \<Rightarrow> bytes" where
  "make_data_chunk compress plain =
     (let compressed = compress plain;
          use_compressed = length compressed < length plain;
          payload_size = (if use_compressed then length compressed else length plain);
          chunk = replicate (4 + 4 + payload_size) 0;
          chunk = chunk[0 := if use_compressed then 0x00 else 0x01];
          chunk = write_len24 chunk (4 + payload_size);
          chunk = write_le32 chunk 4 (mask_crc (crc32c plain))
      in if use_compressed then memcpy chunk 8 compressed else memcpy chunk 8 plain)"

text \<open>The loop over the input in pieces of at most 64 KiB.\<close>

function data_chunks :: "(bytes \<Rightarrow> bytes) \<Rightarrow> bytes \<Rightarrow> bytes list" where
  "data_chunks compress xs =
     (if xs = [] then []
      else make_data_chunk compress (take max_uncompressed_chunk xs) #
             data_chunks compress (drop max_uncompressed_chunk xs))"
  by pat_completeness auto
termination
  by (relation "measure (\<lambda>(_, xs). length xs)") (auto simp: max_uncompressed_chunk_def)

declare data_chunks.simps [simp del]

text \<open>The encoder's only state is \<open>wrote_identifier_\<close>.\<close>

definition snappy_encode :: "(bytes \<Rightarrow> bytes) \<Rightarrow> bytes \<Rightarrow> bool \<Rightarrow> bytes list \<times> bool" where
  "snappy_encode compress xs wrote_identifier =
     ((if \<not> wrote_identifier then [stream_identifier] else []) @ data_chunks compress xs, True)"

section \<open>Decoder\<close>

text \<open>The branches on the chunk type: the new \<open>saw_identifier_\<close> and the output.\<close>

definition snappy_chunk ::
  "(bytes \<Rightarrow> bytes option) \<Rightarrow> bool \<Rightarrow> byte \<Rightarrow> bytes \<Rightarrow> (bool \<times> bytes list) result" where
  "snappy_chunk uncompress saw_identifier chunk_type payload =
     (if chunk_type = 0xff then
        (if length payload \<noteq> 6 \<or> payload \<noteq> stream_magic then
           Inl (Runtime_error ''invalid snappy stream identifier'')
         else Inr (True, []))
      else if chunk_type AND 0x80 \<noteq> 0 then Inr (saw_identifier, [])
      else if chunk_type = 0x00 \<or> chunk_type = 0x01 then
        (if \<not> saw_identifier then
           Inl (Runtime_error ''snappy data chunk before stream identifier'')
         else if length payload < 4 then
           Inl (Runtime_error ''invalid snappy data chunk length'')
         else
           let expected_crc = read_le32 payload 0;
               data = drop 4 payload
           in case (if chunk_type = 0x00 then uncompress data else Some data) of
                None \<Rightarrow> Inl (Runtime_error ''snappy uncompress failed'')
              | Some plain \<Rightarrow>
                  if mask_crc (crc32c plain) \<noteq> expected_crc then
                    Inl (Runtime_error ''snappy crc mismatch'')
                  else Inr (saw_identifier, [plain]))
      else Inl (Runtime_error ''unsupported unskippable snappy chunk''))"

definition snappy_step :: "(bytes \<Rightarrow> bytes option) \<Rightarrow> (bool, bytes) parser_step" where
  "snappy_step uncompress saw_identifier buffer =
     (if length buffer < 4 then None
      else
        let chunk_type = buffer ! 0;
            len = read_len24 buffer 1
        in if length buffer < 4 + len then None
           else case snappy_chunk uncompress saw_identifier chunk_type (take len (drop 4 buffer)) of
                  Inl e \<Rightarrow> Some (Inl e)
                | Inr (saw, outs) \<Rightarrow> Some (Inr (saw, outs, 4 + len)))"

lemma snappy_step_consumes:
  "snappy_step unc saw buffer = Some (Inr (saw', outs, n)) \<Longrightarrow>
     n = 4 + read_len24 buffer 1 \<and> n \<le> length buffer"
  unfolding snappy_step_def Let_def by (auto split: if_splits sum.splits)

text \<open>The loop \<open>while (buffer_.size() >= 4)\<close>: each round erases a chunk from the front.\<close>

function snappy_loop :: "(bytes \<Rightarrow> bytes option) \<Rightarrow> bool \<Rightarrow> bytes \<Rightarrow> (bool, bytes) parser_result" where
  "snappy_loop unc saw buffer =
     (case snappy_step unc saw buffer of
        None \<Rightarrow> Inr (saw, [], buffer)
      | Some (Inl e) \<Rightarrow> Inl e
      | Some (Inr (saw', outs, n)) \<Rightarrow>
          (case snappy_loop unc saw' (drop n buffer) of
             Inl e \<Rightarrow> Inl e
           | Inr (saw'', outs', rest) \<Rightarrow> Inr (saw'', outs @ outs', rest)))"
  by pat_completeness auto
termination
  by (relation "measure (\<lambda>(_, _, buffer). length buffer)") (auto dest!: snappy_step_consumes)

declare snappy_loop.simps [simp del]

record snappy_decoder =
  sd_buffer :: bytes
  sd_saw_identifier :: bool

text \<open>
  \<open>decode\<close>. When it throws, the chunks it had already taken are gone with the local
  \<open>out\<close>, and its callers close the stream, so the model keeps the error only.
\<close>

definition snappy_decode ::
  "(bytes \<Rightarrow> bytes option) \<Rightarrow> bytes \<Rightarrow> snappy_decoder \<Rightarrow> (bytes list \<times> snappy_decoder) result" where
  "snappy_decode unc xs d =
     (case snappy_loop unc (sd_saw_identifier d) (sd_buffer d @ xs) of
        Inl e \<Rightarrow> Inl e
      | Inr (saw, out, rest) \<Rightarrow> Inr (out, \<lparr> sd_buffer = rest, sd_saw_identifier = saw \<rparr>))"

definition new_snappy_decoder :: snappy_decoder where
  "new_snappy_decoder = \<lparr> sd_buffer = [], sd_saw_identifier = False \<rparr>"

text \<open>A sequence of writes through the encoder, and of reads through the decoder.\<close>

fun snappy_encode_list :: "(bytes \<Rightarrow> bytes) \<Rightarrow> bytes list \<Rightarrow> bool \<Rightarrow> bytes list \<times> bool" where
  "snappy_encode_list compress [] w = ([], w)"
| "snappy_encode_list compress (xs # xss) w =
     (let (cs, w) = snappy_encode compress xs w; (ds, w) = snappy_encode_list compress xss w
      in (cs @ ds, w))"

fun snappy_decode_list ::
  "(bytes \<Rightarrow> bytes option) \<Rightarrow> bytes list \<Rightarrow> snappy_decoder \<Rightarrow> (bytes list \<times> snappy_decoder) result" where
  "snappy_decode_list unc [] d = Inr ([], d)"
| "snappy_decode_list unc (xs # xss) d =
     (case snappy_decode unc xs d of
        Inl e \<Rightarrow> Inl e
      | Inr (out, d) \<Rightarrow>
          (case snappy_decode_list unc xss d of
             Inl e \<Rightarrow> Inl e
           | Inr (outs, d) \<Rightarrow> Inr (out @ outs, d)))"

section \<open>Chunks\<close>

lemma read_len24_prefix: "4 \<le> length xs \<Longrightarrow> read_len24 (xs @ ys) 1 = read_len24 xs 1"
  by (rule len24.dec_prefix) simp

interpretation snappy: stream_parser "snappy_step unc" "snappy_loop unc"
proof
  fix s xs
  show "snappy_loop unc s xs =
      (case snappy_step unc s xs of
         None \<Rightarrow> Inr (s, [], xs)
       | Some (Inl e) \<Rightarrow> Inl e
       | Some (Inr (s', outs, n)) \<Rightarrow> then_parse (Inr (s', outs, drop n xs)) (snappy_loop unc))"
    by (subst snappy_loop.simps) (auto split: option.split sum.split)
next
  fix s xs s' outs n
  assume "snappy_step unc s xs = Some (Inr (s', outs, n))"
  then show "0 < n \<and> n \<le> length xs" using snappy_step_consumes by fastforce
next
  fix s xs r ys
  assume st: "snappy_step unc s xs = Some r"
  then have len: "4 \<le> length xs" "4 + read_len24 xs 1 \<le> length xs"
    unfolding snappy_step_def Let_def by (auto simp: not_less split: if_splits)
  have "take (read_len24 xs 1) (drop 4 (xs @ ys)) = take (read_len24 xs 1) (drop 4 xs)"
    using len by simp
  moreover have "(xs @ ys) ! 0 = xs ! 0" using len by (cases xs) auto
  ultimately show "snappy_step unc s (xs @ ys) = Some r"
    using st len unfolding snappy_step_def Let_def read_len24_prefix [OF len(1)]
    by (simp split: if_splits)
qed

text \<open>The layout of a chunk.\<close>

definition chunk_bytes :: "byte \<Rightarrow> bytes \<Rightarrow> bytes" where
  "chunk_bytes ty payload = ty # len24_bytes (length payload) @ payload"

lemma length_chunk_bytes [simp]: "length (chunk_bytes ty payload) = 4 + length payload"
  by (simp add: chunk_bytes_def len24_bytes_def)

lemma make_data_chunk_eq:
  "make_data_chunk compress plain =
     (if length (compress plain) < length plain
      then chunk_bytes 0 (le32_bytes (mask_crc (crc32c plain)) @ compress plain)
      else chunk_bytes 1 (le32_bytes (mask_crc (crc32c plain)) @ plain))"
proof -
  have fill: "memcpy (write_le32 (write_len24 ((replicate (4 + 4 + length body) 0)[0 := ty]) (4 + length body)) 4 crc) 8 body =
      chunk_bytes ty (le32_bytes crc @ body)" for ty crc and body :: bytes
  proof -
    have "replicate (4 + 4 + length body) (0 :: byte) = 0 # replicate 3 0 @ replicate 4 0 @ replicate (length body) 0"
      by (simp flip: replicate_add replicate_Suc)
    then have "(replicate (4 + 4 + length body) 0)[0 := ty] =
        [ty] @ replicate 3 0 @ replicate 4 0 @ replicate (length body) 0"
      by (simp only: list_update.simps nat.case append.simps)
    moreover have "memcpy ([ty] @ replicate 3 0 @ zs) 1 (len24_bytes n) = [ty] @ len24_bytes n @ zs" for n zs
      using memcpy_append [of "replicate 3 0" "len24_bytes n" "[ty]" zs] by simp
    moreover have "memcpy (([ty] @ len24_bytes n) @ replicate 4 0 @ zs) 4 (le32_bytes crc) =
        ([ty] @ len24_bytes n) @ le32_bytes crc @ zs" for n zs
      using memcpy_append [of "replicate 4 0" "le32_bytes crc" "[ty] @ len24_bytes n" zs] by simp
    moreover have "memcpy (([ty] @ len24_bytes n @ le32_bytes crc) @ replicate (length body) 0 @ []) 8 body =
        ([ty] @ len24_bytes n @ le32_bytes crc) @ body @ []" for n
      using memcpy_append [of "replicate (length body) 0" body "[ty] @ len24_bytes n @ le32_bytes crc" "[]"] by simp
    ultimately show ?thesis by (simp add: write_len24_def write_le32_def chunk_bytes_def)
  qed
  show ?thesis by (simp only: make_data_chunk_def Let_def fill if_True if_False split: if_split) simp
qed

lemma snappy_step_chunk:
  assumes "length payload < 2 ^ 24"
  shows "snappy_step unc saw (chunk_bytes ty payload @ ys) =
     (case snappy_chunk unc saw ty payload of
        Inl e \<Rightarrow> Some (Inl e)
      | Inr (saw', outs) \<Rightarrow> Some (Inr (saw', outs, length (chunk_bytes ty payload))))"
proof -
  have "read_len24 (chunk_bytes ty payload @ ys) 1 = length payload"
    using len24.dec_after [of "length payload" "[ty]" 1 "payload @ ys"] assms by (simp add: chunk_bytes_def)
  moreover have "(chunk_bytes ty payload @ ys) ! 0 = ty" by (simp add: chunk_bytes_def)
  moreover have "take (length payload) (drop 4 (chunk_bytes ty payload @ ys)) = payload"
    by (simp add: chunk_bytes_def)
  ultimately show ?thesis by (simp add: snappy_step_def Let_def split: sum.split)
qed

lemma snappy_identifier_step:
  "snappy_step unc saw (stream_identifier @ ys) = Some (Inr (True, [], length stream_identifier))"
  by (simp add: snappy_step_def snappy_chunk_def stream_identifier_def stream_magic_def read_len24_def Let_def)

lemma snappy_data_step:
  assumes unc: "\<And>x. unc (compress x) = Some x" and "length plain \<le> max_uncompressed_chunk"
  shows "snappy_step unc True (make_data_chunk compress plain @ ys) =
     Some (Inr (True, [plain], length (make_data_chunk compress plain)))"
proof -
  let ?crc = "le32_bytes (mask_crc (crc32c plain))"
  have step: "snappy_step unc True (chunk_bytes ty (?crc @ body) @ ys) =
     Some (Inr (True, [plain], length (chunk_bytes ty (?crc @ body))))"
    if "ty = 0 \<and> unc body = Some plain \<or> ty = 1 \<and> body = plain" "length body \<le> max_uncompressed_chunk" for ty body
  proof -
    have "length (?crc @ body) < 2 ^ 24" using that(2) by (simp add: max_uncompressed_chunk_def)
    note step = snappy_step_chunk [OF this, of unc True ty ys]
    have "snappy_chunk unc True ty (?crc @ body) = Inr (True, [plain])"
      using that(1) by (auto simp: snappy_chunk_def Let_def le32.dec_front)
    then show ?thesis by (simp add: step)
  qed
  show ?thesis
    using step [of 0 "compress plain"] step [of 1 plain] unc assms(2)
    by (simp add: make_data_chunk_eq)
qed

section \<open>Streams\<close>

text \<open>A decoder between two reads holds no complete chunk.\<close>

definition snappy_idle :: "(bytes \<Rightarrow> bytes option) \<Rightarrow> snappy_decoder \<Rightarrow> bool" where
  "snappy_idle unc d \<longleftrightarrow> snappy_step unc (sd_saw_identifier d) (sd_buffer d) = None"

definition finish_decode :: "(bool, bytes) parser_result \<Rightarrow> (bytes list \<times> snappy_decoder) result" where
  "finish_decode r =
     (case r of Inl e \<Rightarrow> Inl e
      | Inr (saw, out, rest) \<Rightarrow> Inr (out, \<lparr> sd_buffer = rest, sd_saw_identifier = saw \<rparr>))"

lemma snappy_idle_new: "snappy_idle unc new_snappy_decoder"
  by (simp add: snappy_idle_def new_snappy_decoder_def snappy_step_def)

lemma snappy_decode_list_loop:
  "snappy_idle unc d \<Longrightarrow>
   snappy_decode_list unc xss d = finish_decode (snappy_loop unc (sd_saw_identifier d) (sd_buffer d @ concat xss))"
proof (induction xss arbitrary: d)
  case Nil
  then have "snappy_loop unc (sd_saw_identifier d) (sd_buffer d) = Inr (sd_saw_identifier d, [], sd_buffer d)"
    by (subst snappy_loop.simps) (simp add: snappy_idle_def)
  then show ?case by (simp add: finish_decode_def)
next
  case (Cons xs xss)
  show ?case
  proof (cases "snappy_loop unc (sd_saw_identifier d) (sd_buffer d @ xs)")
    case (Inl e)
    then show ?thesis
      by (simp add: snappy_decode_def finish_decode_def snappy.loop_append [of _ _ "sd_buffer d @ xs", simplified])
  next
    case (Inr r)
    obtain saw out rest where r: "r = (saw, out, rest)" by (cases r)
    then have "snappy_idle unc \<lparr> sd_buffer = rest, sd_saw_identifier = saw \<rparr>"
      using snappy.loop_rest Inr by (simp add: snappy_idle_def)
    from Cons.IH [OF this] show ?thesis
      using Inr r snappy.loop_append [of unc "sd_saw_identifier d" "sd_buffer d @ xs" "concat xss"]
      by (auto simp: snappy_decode_def finish_decode_def split: sum.split)
  qed
qed

lemma data_chunks_loop:
  assumes unc: "\<And>x. unc (compress x) = Some x"
  shows "\<exists>pieces. concat pieces = xs \<and> (\<forall>p \<in> set pieces. length p \<le> max_uncompressed_chunk) \<and>
     snappy_loop unc True (concat (data_chunks compress xs) @ ys) = then_parse (Inr (True, pieces, ys)) (snappy_loop unc)"
proof (induction xs rule: length_induct)
  case (1 xs)
  show ?case
  proof (cases "xs = []")
    case True
    then show ?thesis
      by (intro exI [of _ "[]"]) (simp add: data_chunks.simps [of _ "[]"] split: sum.split)
  next
    case False
    let ?m = max_uncompressed_chunk
    have "length (drop ?m xs) < length xs" using False by (simp add: max_uncompressed_chunk_def)
    then obtain pieces where p: "concat pieces = drop ?m xs" "\<forall>p \<in> set pieces. length p \<le> ?m"
      "snappy_loop unc True (concat (data_chunks compress (drop ?m xs)) @ ys) =
         then_parse (Inr (True, pieces, ys)) (snappy_loop unc)"
      using 1 by blast
    let ?c = "make_data_chunk compress (take ?m xs)"
    have "snappy_loop unc True (?c @ concat (data_chunks compress (drop ?m xs)) @ ys) =
        then_parse (Inr (True, [take ?m xs], concat (data_chunks compress (drop ?m xs)) @ ys)) (snappy_loop unc)"
      by (rule snappy.loop_step, rule snappy_data_step [of unc compress, OF unc]) simp
    with p show ?thesis using False
      by (intro exI [of _ "take ?m xs # pieces"]) (simp add: data_chunks.simps [of _ xs] split: sum.split)
  qed
qed

lemma encode_list_loop:
  assumes unc: "\<And>x. unc (compress x) = Some x"
  shows "\<exists>pieces. concat pieces = concat ws \<and> (\<forall>p \<in> set pieces. length p \<le> max_uncompressed_chunk) \<and>
     snappy_loop unc True (concat (fst (snappy_encode_list compress ws True)) @ ys) =
       then_parse (Inr (True, pieces, ys)) (snappy_loop unc)"
proof (induction ws)
  case Nil
  show ?case by (intro exI [of _ "[]"]) (simp split: sum.split)
next
  case (Cons w ws)
  let ?rest = "concat (fst (snappy_encode_list compress ws True)) @ ys"
  obtain ps where ps: "concat ps = concat ws" "\<forall>p \<in> set ps. length p \<le> max_uncompressed_chunk"
    "snappy_loop unc True ?rest = then_parse (Inr (True, ps, ys)) (snappy_loop unc)" using Cons by blast
  obtain qs where qs: "concat qs = w" "\<forall>p \<in> set qs. length p \<le> max_uncompressed_chunk"
    "snappy_loop unc True (concat (data_chunks compress w) @ ?rest) = then_parse (Inr (True, qs, ?rest)) (snappy_loop unc)"
    using data_chunks_loop [of unc compress, OF unc] by blast
  show ?case
    by (intro exI [of _ "qs @ ps"])
      (use ps qs in \<open>auto simp: snappy_encode_def split_def Let_def split: sum.split\<close>)
qed

lemma encoded_stream_loop:
  assumes unc: "\<And>x. unc (compress x) = Some x" and "ws \<noteq> []"
  shows "\<exists>pieces. concat pieces = concat ws \<and> (\<forall>p \<in> set pieces. length p \<le> max_uncompressed_chunk) \<and>
     snappy_loop unc False (concat (fst (snappy_encode_list compress ws False))) = Inr (True, pieces, [])"
proof -
  obtain w ws' where ws: "ws = w # ws'" using assms(2) by (cases ws) auto
  have e: "concat (fst (snappy_encode_list compress ws False)) =
      stream_identifier @ concat (fst (snappy_encode_list compress ws True)) @ []"
    by (simp add: ws snappy_encode_def split_def Let_def)
  have nil: "snappy_loop unc True [] = Inr (True, [], [])"
    by (subst snappy_loop.simps) (simp add: snappy_step_def)
  obtain ps where "concat ps = concat ws" "\<forall>p \<in> set ps. length p \<le> max_uncompressed_chunk"
    "snappy_loop unc True (concat (fst (snappy_encode_list compress ws True)) @ []) =
       then_parse (Inr (True, ps, [])) (snappy_loop unc)"
    using encode_list_loop [of unc compress, OF unc] by blast
  then show ?thesis
    unfolding e snappy.loop_step [OF snappy_identifier_step] by (intro exI [of _ ps]) (simp add: nil)
qed

section \<open>Properties\<close>

text \<open>C20: The framed stream carries every byte: for a compressor whose blocks uncompress to
  themselves, whatever is written to a new encoder in any number of writes, and however the
  transport cuts the resulting bytes into reads, a new decoder accepts the stream, its
  outputs concatenate to the written bytes, and nothing stays in its buffer.\<close>

theorem snappy_stream_roundtrip:
  assumes "\<forall>x. unc (compress x) = Some x" and "writes \<noteq> []"
    and "concat reads = concat (fst (snappy_encode_list compress writes False))"
  shows "\<exists>outs d. snappy_decode_list unc reads new_snappy_decoder = Inr (outs, d) \<and>
     concat outs = concat writes \<and> sd_buffer d = []"
proof -
  obtain ps where "concat ps = concat writes"
    "snappy_loop unc False (concat (fst (snappy_encode_list compress writes False))) = Inr (True, ps, [])"
    using encoded_stream_loop [of unc compress writes] assms by blast
  then show ?thesis
    using assms(3) snappy_decode_list_loop [OF snappy_idle_new]
    by (simp add: new_snappy_decoder_def finish_decode_def)
qed

text \<open>A run-length stand-in for the library: the marker byte says whether the rest is a
  repeated byte.\<close>

definition toy_compress :: "bytes \<Rightarrow> bytes" where
  "toy_compress x = (if x \<noteq> [] \<and> length x < 256 \<and> x = replicate (length x) (hd x)
                     then [1, of_nat (length x), hd x] else 0 # x)"

definition toy_uncompress :: "bytes \<Rightarrow> bytes option" where
  "toy_uncompress y =
     (case y of [] \<Rightarrow> None
      | m # rest \<Rightarrow> if m = 0 then Some rest
                   else case rest of [n, b] \<Rightarrow> Some (replicate (unat n) b) | _ \<Rightarrow> None)"

lemma toy_roundtrip: "toy_uncompress (toy_compress x) = Some x"
proof (cases "x \<noteq> [] \<and> length x < 256 \<and> x = replicate (length x) (hd x)")
  case True
  then have "unat (of_nat (length x) :: byte) = length x" by (intro unat_of_nat_lt) simp
  with True show ?thesis by (simp add: toy_uncompress_def toy_compress_def)
qed (auto simp: toy_uncompress_def toy_compress_def)

lemma snappy_stream_roundtrip_witness:
  "\<exists>outs d. snappy_decode_list toy_uncompress
       (map (\<lambda>b. [b]) (concat (fst (snappy_encode_list toy_compress [[5, 5, 5, 5, 5], [1, 2]] False))))
       new_snappy_decoder = Inr (outs, d) \<and> concat outs = [5, 5, 5, 5, 5, 1, 2] \<and> sd_buffer d = []"
  using snappy_stream_roundtrip [of toy_uncompress toy_compress "[[5, 5, 5, 5, 5], [1, 2]]"
      "map (\<lambda>b. [b]) (concat (fst (snappy_encode_list toy_compress [[5, 5, 5, 5, 5], [1, 2]] False)))"]
    toy_roundtrip by (simp add: map_concat [symmetric] del: snappy_encode_list.simps)

text \<open>
  What a session gets from its decoder, read by read: the chunks of the reads before the first
  one that throws, and the error or the state of the decoder. The chunks that \<open>decode\<close> has
  collected when it throws are lost.
\<close>

fun snappy_feed ::
  "(bytes \<Rightarrow> bytes option) \<Rightarrow> bytes list \<Rightarrow> snappy_decoder \<Rightarrow> bytes list \<times> snappy_decoder result" where
  "snappy_feed unc [] d = ([], Inr d)"
| "snappy_feed unc (xs # xss) d =
     (case snappy_decode unc xs d of
        Inl e \<Rightarrow> ([], Inl e)
      | Inr (out, d) \<Rightarrow> (let (outs, r) = snappy_feed unc xss d in (out @ outs, r)))"

text \<open>The chunks are those of a prefix of the bytes; the outcome is that of all of them.\<close>

lemma snappy_feed_loop:
  assumes "snappy_idle unc d"
  shows "\<exists>xs ys saw rest. concat xss = xs @ ys \<and>
    snappy_loop unc (sd_saw_identifier d) (sd_buffer d @ xs) = Inr (saw, fst (snappy_feed unc xss d), rest) \<and>
    (snd (snappy_feed unc xss d) = Inr \<lparr> sd_buffer = rest, sd_saw_identifier = saw \<rparr> \<and> ys = [] \<or>
     (\<exists>e. snd (snappy_feed unc xss d) = Inl e \<and> snappy_loop unc (sd_saw_identifier d) (sd_buffer d @ concat xss) = Inl e))"
  using assms
proof (induction xss arbitrary: d)
  case Nil
  then have "snappy_loop unc (sd_saw_identifier d) (sd_buffer d) = Inr (sd_saw_identifier d, [], sd_buffer d)"
    by (subst snappy_loop.simps) (simp add: snappy_idle_def)
  then show ?case by simp
next
  case (Cons xs xss)
  let ?saw = "sd_saw_identifier d" and ?b = "sd_buffer d"
  note split = snappy.loop_append [of unc ?saw "?b @ xs", simplified]
  show ?case
  proof (cases "snappy_loop unc ?saw (?b @ xs)")
    case (Inl e)
    have "snappy_loop unc ?saw ?b = Inr (?saw, [], ?b)"
      using Cons(2) by (subst snappy_loop.simps) (simp add: snappy_idle_def)
    then show ?thesis
      using Inl split [of "concat xss"] by (intro exI [of _ "[]"] exI [of _ "concat (xs # xss)"]) (simp add: snappy_decode_def)
  next
    case (Inr r)
    obtain saw out rest where r: "r = (saw, out, rest)" by (cases r)
    let ?d = "\<lparr> sd_buffer = rest, sd_saw_identifier = saw \<rparr>"
    have idle: "snappy_idle unc ?d" using snappy.loop_rest Inr r by (simp add: snappy_idle_def)
    obtain us vs saw' rest' where IH: "concat xss = us @ vs"
      "snappy_loop unc saw (rest @ us) = Inr (saw', fst (snappy_feed unc xss ?d), rest')"
      "snd (snappy_feed unc xss ?d) = Inr \<lparr> sd_buffer = rest', sd_saw_identifier = saw' \<rparr> \<and> vs = [] \<or>
       (\<exists>e. snd (snappy_feed unc xss ?d) = Inl e \<and> snappy_loop unc saw (rest @ concat xss) = Inl e)"
      using Cons.IH [OF idle] by auto
    have feed: "snappy_feed unc (xs # xss) d = (out @ fst (snappy_feed unc xss ?d), snd (snappy_feed unc xss ?d))"
      using Inr r by (simp add: snappy_decode_def Let_def split_def)
    show ?thesis
      unfolding feed fst_conv snd_conv
      using Inr r IH split [of us] split [of "concat xss"]
      by (intro exI [of _ "xs @ us"] exI [of _ vs] exI [of _ saw'] exI [of _ rest']) auto
  qed
qed

text \<open>C31: How the transport cuts the bytes into reads changes little: for any input, well-formed
  or not, two cuts end with the same state of the decoder and have handed out the same chunks,
  or both throw the same error. In that case the chunks handed out before it may differ, because
  a call of \<open>decode\<close> that throws hands out nothing: those of one cut are a prefix of those of
  the other.\<close>

theorem snappy_decode_cut_independent:
  assumes "concat reads = concat reads'"
  shows "snd (snappy_feed unc reads new_snappy_decoder) = snd (snappy_feed unc reads' new_snappy_decoder) \<and>
    (let outs = fst (snappy_feed unc reads new_snappy_decoder); outs' = fst (snappy_feed unc reads' new_snappy_decoder)
     in case snd (snappy_feed unc reads new_snappy_decoder) of
          Inr d \<Rightarrow> outs = outs'
        | Inl e \<Rightarrow> prefix outs outs' \<or> prefix outs' outs)"
proof -
  let ?loop = "snappy_loop unc False"
  have run: "\<exists>xs ys saw rest. concat reads = xs @ ys \<and> ?loop xs = Inr (saw, fst (snappy_feed unc rs new_snappy_decoder), rest) \<and>
    (snd (snappy_feed unc rs new_snappy_decoder) = Inr \<lparr> sd_buffer = rest, sd_saw_identifier = saw \<rparr> \<and> ys = [] \<or>
     (\<exists>e. snd (snappy_feed unc rs new_snappy_decoder) = Inl e \<and> ?loop (concat reads) = Inl e))"
    if "concat rs = concat reads" for rs
    using snappy_feed_loop [OF snappy_idle_new, where unc = unc and xss = rs] that by (simp add: new_snappy_decoder_def)
  obtain xs ys saw rest where a: "concat reads = xs @ ys" "?loop xs = Inr (saw, fst (snappy_feed unc reads new_snappy_decoder), rest)"
    "snd (snappy_feed unc reads new_snappy_decoder) = Inr \<lparr> sd_buffer = rest, sd_saw_identifier = saw \<rparr> \<and> ys = [] \<or>
     (\<exists>e. snd (snappy_feed unc reads new_snappy_decoder) = Inl e \<and> ?loop (concat reads) = Inl e)"
    using run [OF refl] by blast
  obtain xs' ys' saw' rest' where b: "concat reads = xs' @ ys'" "?loop xs' = Inr (saw', fst (snappy_feed unc reads' new_snappy_decoder), rest')"
    "snd (snappy_feed unc reads' new_snappy_decoder) = Inr \<lparr> sd_buffer = rest', sd_saw_identifier = saw' \<rparr> \<and> ys' = [] \<or>
     (\<exists>e. snd (snappy_feed unc reads' new_snappy_decoder) = Inl e \<and> ?loop (concat reads) = Inl e)"
    using run [OF assms [symmetric]] by blast
  have grows: "prefix outs outs'" if "?loop us = Inr (s, outs, r)" "?loop us' = Inr (s', outs', r')" "prefix us us'" for us us' s s' outs outs' r r'
    using that snappy.loop_append [of unc False us] by (auto simp: prefix_def then_parse_def split: sum.splits)
  have "prefix xs xs' \<or> prefix xs' xs" using a(1) b(1) by (metis prefixI prefix_same_cases)
  then have "prefix (fst (snappy_feed unc reads new_snappy_decoder)) (fst (snappy_feed unc reads' new_snappy_decoder)) \<or>
      prefix (fst (snappy_feed unc reads' new_snappy_decoder)) (fst (snappy_feed unc reads new_snappy_decoder))"
    using grows [OF a(2) b(2)] grows [OF b(2) a(2)] by blast
  then show ?thesis using a b by (auto simp: Let_def)
qed

lemma snappy_decode_cut_independent_witness:
  "snappy_feed toy_uncompress [[0xff, 6], [0, 0, 0x73, 0x4e], [0x61, 0x50, 0x70, 0x59]] new_snappy_decoder =
   snappy_feed toy_uncompress [[0xff, 6, 0, 0, 0x73, 0x4e, 0x61, 0x50, 0x70, 0x59]] new_snappy_decoder"
proof -
  have "snappy_loop toy_uncompress True [] = Inr (True, [], [])"
    by (subst snappy_loop.simps) (simp add: snappy_step_def)
  then have "snappy_loop toy_uncompress False stream_identifier = Inr (True, [], [])"
    using snappy.loop_step [of toy_uncompress False stream_identifier "[]" True "[]"]
      snappy_identifier_step [of toy_uncompress False "[]"] by simp
  then have one: "snappy_feed toy_uncompress [[0xff, 6, 0, 0, 0x73, 0x4e, 0x61, 0x50, 0x70, 0x59]] new_snappy_decoder =
      ([], Inr \<lparr> sd_buffer = [], sd_saw_identifier = True \<rparr>)"
    by (simp add: snappy_decode_def new_snappy_decoder_def stream_identifier_def stream_magic_def)
  have "concat [[0xff, 6, 0, 0, 0x73, 0x4e, 0x61, 0x50, 0x70, 0x59]] = concat [[0xff, 6], [0, 0, 0x73, 0x4e], [0x61, 0x50, 0x70, 0x59 :: byte]]" by simp
  from snappy_decode_cut_independent [OF this, of toy_uncompress] show ?thesis
    unfolding one by (simp add: Let_def prod_eq_iff)
qed

text \<open>C33: A damaged chunk is refused: when up to four consecutive payload bytes of a stored
  (incompressible) chunk change on the way, the decoder throws the checksum error and hands
  out nothing of it.\<close>

theorem snappy_detects_damage:
  assumes "plain = pre @ as @ post" "length as = length bs" "length as \<le> 4" "as \<noteq> bs"
    and "length plain \<le> length (compress plain)" "length plain \<le> max_uncompressed_chunk"
  shows "snappy_decode unc (take 8 (make_data_chunk compress plain) @ pre @ bs @ post @ later)
           \<lparr> sd_buffer = [], sd_saw_identifier = True \<rparr> = Inl (Runtime_error ''snappy crc mismatch'')"
proof -
  let ?crc = "le32_bytes (mask_crc (crc32c plain))"
  have bytes: "take 8 (make_data_chunk compress plain) @ pre @ bs @ post @ later =
      chunk_bytes 1 (?crc @ pre @ bs @ post) @ later"
    using assms(5) arg_cong [OF assms(1), of length] assms(2)
    by (simp add: make_data_chunk_eq chunk_bytes_def)
  have len: "length (?crc @ pre @ bs @ post) < 2 ^ 24"
    using assms(1,2,6) by (simp add: max_uncompressed_chunk_def)
  have "crc32c (pre @ bs @ post) \<noteq> crc32c plain"
    using crc_run_burst [of "0x82f63b78" bs as] assms(1-4)
    by (simp add: crc32c_def xor_right_inj) metis
  then have "snappy_chunk unc True 1 (?crc @ pre @ bs @ post) = Inl (Runtime_error ''snappy crc mismatch'')"
    by (simp add: snappy_chunk_def Let_def le32.dec_front mask_crc_inj)
  then have "snappy_step unc True (chunk_bytes 1 (?crc @ pre @ bs @ post) @ later) =
      Some (Inl (Runtime_error ''snappy crc mismatch''))"
    by (simp only: snappy_step_chunk [OF len] sum.case)
  then show ?thesis
    by (simp only: snappy_decode_def snappy_decoder.select_convs bytes append_Nil
        snappy_loop.simps [of _ _ "chunk_bytes _ _ @ _"] option.case sum.case)
qed

lemma snappy_detects_damage_witness:
  "snappy_decode toy_uncompress (take 8 (make_data_chunk toy_compress [1, 2, 3]) @ [1, 7, 3])
     \<lparr> sd_buffer = [], sd_saw_identifier = True \<rparr> = Inl (Runtime_error ''snappy crc mismatch'')"
  using snappy_detects_damage [of "[1, 2, 3]" "[1]" "[2]" "[3]" "[7]" toy_compress toy_uncompress "[]"]
  by (simp add: toy_compress_def max_uncompressed_chunk_def)

end
