(* ===== verification/Crypto.thy ===== *)
theory Crypto
  imports Wire Checksum Cpp_String Base_Config
begin

text \<open>
  \<open>PacketCrypt\<close> of \<open>crypto.cpp\<close>: the choice of the method from the configuration with its
  fallback, the packet format (nonce, checksum, payload), the CFB loop over a block cipher,
  the stream methods and AES-GCM. Crypto++ is the record of parameters \<open>crypto_lib\<close>; the
  random generator is the argument \<open>rnd\<close>, which gives the bytes of one
  \<open>GenerateBlock\<close> call of a given length.
\<close>

section \<open>The library\<close>

datatype cipher_alg = AES | Blowfish | Twofish | CAST128 | DES_EDE3 | TEA_16_rounds | XTEA | SM4

text \<open>
  \<open>lib_block alg key\<close> is \<open>None\<close> when \<open>SetKey\<close> throws and otherwise the block size and the
  block encryption; \<open>lib_gcm_open\<close> is \<open>None\<close> when the tag does not verify or the library
  throws.
\<close>

record crypto_lib =
  lib_block :: "cipher_alg \<Rightarrow> bytes \<Rightarrow> (nat \<times> (bytes \<Rightarrow> bytes)) option"
  lib_salsa20 :: "bytes \<Rightarrow> bytes \<Rightarrow> nat \<Rightarrow> bytes"
  lib_gcm_seal :: "bytes \<Rightarrow> bytes \<Rightarrow> bytes \<Rightarrow> bytes \<times> bytes"
  lib_gcm_open :: "bytes \<Rightarrow> bytes \<Rightarrow> bytes \<Rightarrow> bytes \<Rightarrow> bytes option"
  lib_pbkdf2_sha1 :: "bytes \<Rightarrow> bytes \<Rightarrow> nat \<Rightarrow> nat \<Rightarrow> bytes"

section \<open>Construction\<close>

definition nonce_size :: nat where "nonce_size = 16"
definition crc_size :: nat where "crc_size = 4"
definition crypt_header_size :: nat where "crypt_header_size = nonce_size + crc_size"
definition mtu_limit :: nat where "mtu_limit = 1500"
definition aes_gcm_nonce_size :: nat where "aes_gcm_nonce_size = 12"
definition aes_gcm_tag_size :: nat where "aes_gcm_tag_size = 16"

definition initial_vector :: bytes where
  "initial_vector = [167, 115, 79, 156, 18, 172, 27, 1, 164, 21, 242, 193, 252, 120, 230, 107]"

lemmas crypto_sizes = nonce_size_def crc_size_def crypt_header_size_def mtu_limit_def
  aes_gcm_nonce_size_def aes_gcm_tag_size_def

definition normalize_method :: "string \<Rightarrow> string" where
  "normalize_method m = map tolower m"

datatype crypt_method = Crypt_null | Crypt_none | Crypt_block | Crypt_salsa20 | Crypt_xor_stream | Crypt_aes_gcm

record packet_crypt =
  pc_method :: crypt_method
  pc_effective_method :: string
  pc_derived_key :: bytes
  pc_cipher_key :: bytes
  pc_xor_table :: bytes
  pc_block :: "(bytes \<Rightarrow> bytes) option"
  pc_block_size :: nat
  pc_cipher_key_size :: nat

definition derive_key :: "crypto_lib \<Rightarrow> string \<Rightarrow> bytes" where
  "derive_key lib key = lib_pbkdf2_sha1 lib (string_bytes key) (string_bytes ''kcp-go'') 4096 32"

definition derive_xor_table :: "crypto_lib \<Rightarrow> bytes \<Rightarrow> bytes" where
  "derive_xor_table lib key =
     lib_pbkdf2_sha1 lib key (string_bytes ''sH3CIVoF#rWLtJo6'') 32 mtu_limit"

definition key_span :: "bytes \<Rightarrow> nat \<Rightarrow> bytes" where
  "key_span key sz = take (if sz = 0 then length key else sz) key"

text \<open>
  The lambda \<open>select_block\<close>. A \<open>CryptoPP::Exception\<close> of \<open>SetKey\<close> is
  \<open>Library_exception\<close>; the members it assigned before are all assigned again by the
  handler, so the model drops them.
\<close>

definition select_block ::
  "crypto_lib \<Rightarrow> string \<Rightarrow> nat \<Rightarrow> cipher_alg \<Rightarrow> packet_crypt \<Rightarrow> packet_crypt result" where
  "select_block lib effective key_size alg pc =
     (let ksz = (if key_size = 0 then length (pc_derived_key pc) else key_size);
          pc = pc \<lparr> pc_effective_method := effective, pc_method := Crypt_block,
                    pc_cipher_key_size := ksz,
                    pc_cipher_key := memcpy (pc_cipher_key pc) 0 (take ksz (pc_derived_key pc)) \<rparr>
      in case lib_block lib alg (key_span (pc_cipher_key pc) ksz) of
           None \<Rightarrow> Inl Library_exception
         | Some (block_size, E) \<Rightarrow>
             if block_size \<noteq> 8 \<and> block_size \<noteq> 16 then
               Inl (Runtime_error ''unsupported Shimakaze block cipher size'')
             else Inr (pc \<lparr> pc_block := Some E, pc_block_size := block_size \<rparr>))"

definition copy_cipher_key :: "nat \<Rightarrow> packet_crypt \<Rightarrow> packet_crypt" where
  "copy_cipher_key n pc =
     pc \<lparr> pc_cipher_key_size := n,
          pc_cipher_key := memcpy (pc_cipher_key pc) 0 (take n (pc_derived_key pc)) \<rparr>"

text \<open>The chain of \<open>else if\<close> inside the \<open>try\<close> block.\<close>

definition select_method :: "crypto_lib \<Rightarrow> string \<Rightarrow> packet_crypt \<Rightarrow> packet_crypt result" where
  "select_method lib m pc =
     (if m = ''null'' then Inr (pc \<lparr> pc_method := Crypt_null, pc_effective_method := ''null'' \<rparr>)
      else if m = ''none'' then Inr (pc \<lparr> pc_method := Crypt_none, pc_effective_method := ''none'' \<rparr>)
      else if m = ''aes-128'' then select_block lib ''aes-128'' 16 AES pc
      else if m = ''aes-192'' then select_block lib ''aes-192'' 24 AES pc
      else if m = ''aes'' \<or> m = ''aes-256'' then select_block lib ''aes'' 32 AES pc
      else if m = ''blowfish'' then select_block lib ''blowfish'' 0 Blowfish pc
      else if m = ''twofish'' then select_block lib ''twofish'' 0 Twofish pc
      else if m = ''cast5'' then select_block lib ''cast5'' 16 CAST128 pc
      else if m = ''3des'' then select_block lib ''3des'' 24 DES_EDE3 pc
      else if m = ''tea'' then select_block lib ''tea'' 16 TEA_16_rounds pc
      else if m = ''xtea'' then select_block lib ''xtea'' 16 XTEA pc
      else if m = ''sm4'' then select_block lib ''sm4'' 16 SM4 pc
      else if m = ''salsa20'' then
        Inr (copy_cipher_key (length (pc_derived_key pc))
          (pc \<lparr> pc_method := Crypt_salsa20, pc_effective_method := ''salsa20'' \<rparr>))
      else if m = ''xor'' then
        Inr (pc \<lparr> pc_method := Crypt_xor_stream, pc_effective_method := ''xor'',
                  pc_xor_table := derive_xor_table lib (pc_derived_key pc) \<rparr>)
      else if m = ''aes-128-gcm'' then
        Inr (copy_cipher_key 16
          (pc \<lparr> pc_method := Crypt_aes_gcm, pc_effective_method := ''aes-128-gcm'' \<rparr>))
      else select_block lib ''aes'' 32 AES pc)"

definition make_packet_crypt :: "crypto_lib \<Rightarrow> 'a base_config_scheme \<Rightarrow> packet_crypt result" where
  "make_packet_crypt lib config =
     (let pc = \<lparr> pc_method = Crypt_null, pc_effective_method = ''null'',
                 pc_derived_key = derive_key lib (cfg_key config),
                 pc_cipher_key = replicate 32 0, pc_xor_table = [], pc_block = None,
                 pc_block_size = 0, pc_cipher_key_size = 0 \<rparr>
      in case select_method lib (normalize_method (cfg_crypt config)) pc of
           Inl Library_exception \<Rightarrow> select_block lib ''aes'' 32 AES pc
         | r \<Rightarrow> r)"

section \<open>Packet transformations\<close>

text \<open>
  The loop of \<open>block_cfb_crypt\<close> from one offset on. The constructor admits block sizes 8
  and 16 only; the test on \<open>bs\<close> makes the recursion end for the others.
\<close>

function cfb_loop :: "(bytes \<Rightarrow> bytes) \<Rightarrow> nat \<Rightarrow> bool \<Rightarrow> bytes \<Rightarrow> bytes \<Rightarrow> bytes" where
  "cfb_loop E bs encrypting current data =
     (if data = [] \<or> bs = 0 then data
      else
        let block = take bs data;
            out = xor_bytes block current
        in if length block \<noteq> bs then out
           else out @ cfb_loop E bs encrypting (if encrypting then E out else E block) (drop bs data))"
  by pat_completeness auto
termination
  by (relation "measure (\<lambda>(_, _, _, _, data). length data)") auto

declare cfb_loop.simps [simp del]

definition block_cfb_crypt :: "packet_crypt \<Rightarrow> bool \<Rightarrow> bytes \<Rightarrow> bytes" where
  "block_cfb_crypt pc encrypting data =
     (case pc_block pc of
        None \<Rightarrow> data
      | Some E \<Rightarrow>
          cfb_loop E (pc_block_size pc) encrypting (E (take (pc_block_size pc) initial_vector)) data)"

definition salsa20_crypt :: "crypto_lib \<Rightarrow> packet_crypt \<Rightarrow> bytes \<Rightarrow> bytes" where
  "salsa20_crypt lib pc data =
     (if length data \<le> 8 then data
      else take 8 data @
        xor_bytes (drop 8 data) (lib_salsa20 lib (take 32 (pc_cipher_key pc)) (take 8 data) (length data - 8)))"

definition xor_crypt :: "packet_crypt \<Rightarrow> bytes \<Rightarrow> bytes" where
  "xor_crypt pc data = xor_bytes data (pc_xor_table pc)"

text \<open>The \<open>switch\<close> of \<open>encrypt\<close> and \<open>decrypt\<close>.\<close>

definition crypt_transform :: "crypto_lib \<Rightarrow> packet_crypt \<Rightarrow> bool \<Rightarrow> bytes \<Rightarrow> bytes" where
  "crypt_transform lib pc encrypting data =
     (case pc_method pc of
        Crypt_none \<Rightarrow> data
      | Crypt_block \<Rightarrow> block_cfb_crypt pc encrypting data
      | Crypt_salsa20 \<Rightarrow> salsa20_crypt lib pc data
      | Crypt_xor_stream \<Rightarrow> xor_crypt pc data
      | Crypt_null \<Rightarrow> data
      | Crypt_aes_gcm \<Rightarrow> data)"

section \<open>Packets\<close>

definition aes_gcm_encrypt :: "crypto_lib \<Rightarrow> (nat \<Rightarrow> bytes) \<Rightarrow> packet_crypt \<Rightarrow> bytes \<Rightarrow> bytes result" where
  "aes_gcm_encrypt lib rnd pc packet =
     (if length packet > 2147483647 then
        Inl (Runtime_error ''packet too large for AES-GCM encryption'')
      else
        let output = replicate (aes_gcm_nonce_size + length packet + aes_gcm_tag_size) 0;
            nonce = rnd aes_gcm_nonce_size;
            output = memcpy output 0 nonce;
            (cipher, tag) = lib_gcm_seal lib (take (pc_cipher_key_size pc) (pc_cipher_key pc)) nonce packet;
            output = memcpy output aes_gcm_nonce_size cipher;
            output = memcpy output (aes_gcm_nonce_size + length packet) tag
        in Inr output)"

definition aes_gcm_decrypt :: "crypto_lib \<Rightarrow> packet_crypt \<Rightarrow> bytes \<Rightarrow> bytes option" where
  "aes_gcm_decrypt lib pc packet =
     (if length packet < aes_gcm_nonce_size + aes_gcm_tag_size then None
      else
        let payload_size = length packet - aes_gcm_nonce_size - aes_gcm_tag_size
        in lib_gcm_open lib (take (pc_cipher_key_size pc) (pc_cipher_key pc)) (take aes_gcm_nonce_size packet)
             (take payload_size (drop aes_gcm_nonce_size packet))
             (take aes_gcm_tag_size (drop (aes_gcm_nonce_size + payload_size) packet)))"

definition pc_encrypt :: "crypto_lib \<Rightarrow> (nat \<Rightarrow> bytes) \<Rightarrow> packet_crypt \<Rightarrow> bytes \<Rightarrow> bytes result" where
  "pc_encrypt lib rnd pc packet =
     (if pc_method pc = Crypt_null then Inr packet
      else if pc_method pc = Crypt_aes_gcm then aes_gcm_encrypt lib rnd pc packet
      else
        let output = replicate (crypt_header_size + length packet) 0;
            output = memcpy output 0 (rnd nonce_size);
            output = write_le32 output nonce_size (crc32_ieee packet);
            output = memcpy output crypt_header_size packet
        in Inr (crypt_transform lib pc True output))"

definition pc_decrypt :: "crypto_lib \<Rightarrow> packet_crypt \<Rightarrow> bytes \<Rightarrow> bytes option" where
  "pc_decrypt lib pc packet =
     (if pc_method pc = Crypt_null then Some packet
      else if pc_method pc = Crypt_aes_gcm then aes_gcm_decrypt lib pc packet
      else if length packet < crypt_header_size then None
      else
        let decoded = crypt_transform lib pc False packet;
            payload = drop crypt_header_size decoded
        in if crc32_ieee payload \<noteq> read_le32 decoded nonce_size then None else Some payload)"

definition pc_overhead :: "packet_crypt \<Rightarrow> nat" where
  "pc_overhead pc =
     (if pc_method pc = Crypt_null then 0
      else if pc_method pc = Crypt_aes_gcm then aes_gcm_nonce_size + aes_gcm_tag_size
      else crypt_header_size)"

definition pc_uses_header :: "packet_crypt \<Rightarrow> bool" where
  "pc_uses_header pc \<longleftrightarrow> pc_method pc \<noteq> Crypt_null"

definition pc_encrypts_payload :: "packet_crypt \<Rightarrow> bool" where
  "pc_encrypts_payload pc \<longleftrightarrow> pc_method pc \<noteq> Crypt_null \<and> pc_method pc \<noteq> Crypt_none"

section \<open>The contract of a packet transformation\<close>

text \<open>
  What the packet format needs from a method: it keeps the length and is undone by its
  inverse. From that alone follow the round trip and the size of a sealed packet.
\<close>

locale packet_transform =
  fixes enc dec :: "bytes \<Rightarrow> bytes"
  assumes dec_enc: "dec (enc x) = x"
    and length_enc: "length (enc x) = length x"
    and length_dec: "length (dec x) = length x"
begin

lemma open_seal:
  assumes "length header = n"
  shows "drop n (dec (enc (header @ payload))) = payload" "length (enc (header @ payload)) = n + length payload"
  using assms by (simp_all add: dec_enc length_enc)

end

text \<open>An additive stream: position by position, with a key that does not depend on the data.\<close>

locale stream_transform =
  fixes crypt :: "bytes \<Rightarrow> bytes"
    and n :: nat
  assumes involution: "crypt (crypt x) = x"
    and same_length: "length (crypt x) = length x"
    and local: "n \<le> length xs \<Longrightarrow> length as = length bs \<Longrightarrow>
      \<exists>xs' as' bs' ys'. crypt (xs @ as @ ys) = xs' @ as' @ ys' \<and> crypt (xs @ bs @ ys) = xs' @ bs' @ ys' \<and>
        length xs' = length xs \<and> length as' = length as \<and> length bs' = length bs \<and>
        (as' = bs' \<longleftrightarrow> as = bs)"

sublocale stream_transform \<subseteq> packet_transform crypt crypt
  by unfold_locales (simp_all add: involution same_length)

subsection \<open>CFB\<close>

lemma cfb_inverse: "cfb_loop E bs False current (cfb_loop E bs True current data) = data"
proof (induction E bs "True" current data rule: cfb_loop.induct)
  case (1 E bs current data)
  show ?case
  proof (cases "data = [] \<or> bs = 0")
    case True
    then show ?thesis by (auto simp: cfb_loop.simps [of E _ _ _ data])
  next
    case False
    let ?b = "take bs data" and ?o = "xor_bytes (take bs data) current"
    show ?thesis
    proof (cases "length ?b = bs")
      case True
      let ?rest = "cfb_loop E bs True (E ?o) (drop bs data)"
      have "cfb_loop E bs True current data = ?o @ ?rest"
        using False True by (simp add: cfb_loop.simps [of E bs True current data] Let_def)
      moreover have lo: "length ?o = bs" using True by simp
      then have "take bs (?o @ ?rest) = ?o" "drop bs (?o @ ?rest) = ?rest" by simp_all
      moreover have "?o \<noteq> []" using lo False by fastforce
      moreover have "cfb_loop E bs False (E ?o) ?rest = drop bs data"
        using 1 False True by (simp add: Let_def)
      ultimately show ?thesis
        using False True by (subst cfb_loop.simps) (simp add: Let_def)
    next
      case short: False
      then have l: "length data < bs" by (simp add: min_def split: if_splits)
      then have "?b = data" by simp
      then have "cfb_loop E bs True current data = xor_bytes data current"
        using False short by (simp add: cfb_loop.simps [of E bs True current data] Let_def)
      moreover have "xor_bytes data current \<noteq> []" using False length_xor_bytes [of data current] by fastforce
      ultimately show ?thesis
        using False l by (subst cfb_loop.simps) (simp add: Let_def)
    qed
  qed
qed

lemma length_cfb_loop [simp]: "length (cfb_loop E bs e current data) = length data"
proof (induction E bs e current data rule: cfb_loop.induct)
  case (1 E bs e current data)
  then show ?case by (subst cfb_loop.simps) (auto simp: Let_def)
qed

interpretation cfb: packet_transform "block_cfb_crypt pc True" "block_cfb_crypt pc False"
  by unfold_locales (simp_all add: block_cfb_crypt_def cfb_inverse split: option.split)

subsection \<open>Streams\<close>

lemma xor_bytes_append:
  "xor_bytes (xs @ ys) ks = xor_bytes xs ks @ xor_bytes ys (drop (length xs) ks)"
proof (induction xs ks rule: xor_bytes.induct)
  case (1 d ds k ks)
  then show ?case by simp
qed simp_all

lemma xor_bytes_inj: "length as = length bs \<Longrightarrow> xor_bytes as ks = xor_bytes bs ks \<longleftrightarrow> as = bs"
  by (metis xor_bytes_involution)

lemma xor_bytes_window:
  assumes "length as = length bs"
  shows "\<exists>xs' as' bs' ys'. xor_bytes (xs @ as @ ys) ks = xs' @ as' @ ys' \<and>
     xor_bytes (xs @ bs @ ys) ks = xs' @ bs' @ ys' \<and>
     length xs' = length xs \<and> length as' = length as \<and> length bs' = length bs \<and> (as' = bs' \<longleftrightarrow> as = bs)"
  using assms xor_bytes_inj [OF assms, of "drop (length xs) ks"]
  by (intro exI [of _ "xor_bytes xs ks"] exI [of _ "xor_bytes as (drop (length xs) ks)"]
      exI [of _ "xor_bytes bs (drop (length xs) ks)"]
      exI [of _ "xor_bytes ys (drop (length xs + length as) ks)"])
    (simp add: xor_bytes_append add.commute)

interpretation xor_stream: stream_transform "xor_crypt pc" 0
  by unfold_locales (simp add: xor_crypt_def, simp add: xor_crypt_def, unfold xor_crypt_def, rule xor_bytes_window)

interpretation plain: stream_transform "\<lambda>x. x" 0
  by unfold_locales auto

lemma salsa_prefix:
  "8 \<le> length xs \<Longrightarrow> salsa20_crypt lib pc (xs @ zs) =
     take 8 xs @ xor_bytes (drop 8 xs @ zs)
       (lib_salsa20 lib (take 32 (pc_cipher_key pc)) (take 8 xs) (length xs + length zs - 8))"
  by (cases "length xs = 8"; cases zs) (auto simp: salsa20_crypt_def)

interpretation salsa20: stream_transform "salsa20_crypt lib pc" 8
proof
  fix x show "salsa20_crypt lib pc (salsa20_crypt lib pc x) = x"
    by (simp add: salsa20_crypt_def)
  show "length (salsa20_crypt lib pc x) = length x" by (simp add: salsa20_crypt_def)
next
  fix xs as bs ys :: bytes
  assume a: "8 \<le> length xs" "length as = length bs"
  let ?k = "lib_salsa20 lib (take 32 (pc_cipher_key pc)) (take 8 xs) (length xs + length (as @ ys) - 8)"
  obtain xs' as' bs' ys' where w: "xor_bytes (drop 8 xs @ as @ ys) ?k = xs' @ as' @ ys'"
    "xor_bytes (drop 8 xs @ bs @ ys) ?k = xs' @ bs' @ ys'"
    "length xs' = length (drop 8 xs)" "length as' = length as" "length bs' = length bs" "as' = bs' \<longleftrightarrow> as = bs"
    using xor_bytes_window [OF a(2)] by metis
  then show "\<exists>xs' as' bs' ys'. salsa20_crypt lib pc (xs @ as @ ys) = xs' @ as' @ ys' \<and>
      salsa20_crypt lib pc (xs @ bs @ ys) = xs' @ bs' @ ys' \<and>
      length xs' = length xs \<and> length as' = length as \<and> length bs' = length bs \<and> (as' = bs' \<longleftrightarrow> as = bs)"
    using a by (intro exI [of _ "take 8 xs @ xs'"] exI [of _ as'] exI [of _ bs'] exI [of _ ys'])
      (simp add: salsa_prefix)
qed

interpretation any_method: packet_transform "crypt_transform lib pc True" "crypt_transform lib pc False"
  by unfold_locales
    (auto simp: crypt_transform_def cfb.dec_enc cfb.length_enc cfb.length_dec
      xor_stream.involution xor_stream.same_length salsa20.involution salsa20.same_length
      split: crypt_method.split)

section \<open>Sealed packets\<close>

text \<open>Documented behaviour of the library calls.\<close>

definition random_block :: "(nat \<Rightarrow> bytes) \<Rightarrow> bool" where
  "random_block rnd \<longleftrightarrow> (\<forall>n. length (rnd n) = n)"

definition gcm_documented :: "crypto_lib \<Rightarrow> bool" where
  "gcm_documented lib \<longleftrightarrow>
     (\<forall>key nonce p. length (fst (lib_gcm_seal lib key nonce p)) = length p \<and>
        length (snd (lib_gcm_seal lib key nonce p)) = aes_gcm_tag_size \<and>
        lib_gcm_open lib key nonce (fst (lib_gcm_seal lib key nonce p)) (snd (lib_gcm_seal lib key nonce p)) = Some p)"

lemma pc_encrypt_header:
  assumes "random_block rnd" "pc_method pc \<noteq> Crypt_null" "pc_method pc \<noteq> Crypt_aes_gcm"
  shows "pc_encrypt lib rnd pc p =
     Inr (crypt_transform lib pc True ((rnd 16 @ le32_bytes (crc32_ieee p)) @ p))"
proof -
  have r: "length (rnd 16) = 16" using assms(1) by (simp add: random_block_def)
  have "replicate (crypt_header_size + length p) (0 :: byte) = replicate 16 0 @ replicate 4 0 @ replicate (length p) 0"
    by (simp add: crypto_sizes flip: replicate_add)
  moreover have "memcpy (replicate 16 0 @ zs) 0 (rnd 16) = rnd 16 @ zs" for zs
    using memcpy_append [of "replicate 16 0" "rnd 16" "[]" zs] r by simp
  moreover have "memcpy (rnd 16 @ replicate 4 0 @ zs) 16 (le32_bytes c) = rnd 16 @ le32_bytes c @ zs" for c zs
    using memcpy_append [of "replicate 4 0" "le32_bytes c" "rnd 16" zs] r by simp
  moreover have "memcpy ((rnd 16 @ le32_bytes c) @ replicate (length p) 0 @ []) 20 p = (rnd 16 @ le32_bytes c) @ p @ []" for c
    using memcpy_append [of "replicate (length p) 0" p "rnd 16 @ le32_bytes c" "[]"] r by simp
  ultimately show ?thesis
    using assms(2,3) by (simp add: pc_encrypt_def crypto_sizes write_le32_def)
qed

lemma gcm_roundtrip:
  assumes "random_block rnd" "gcm_documented lib" "length p \<le> 2147483647"
  shows "\<exists>c. aes_gcm_encrypt lib rnd pc p = Inr c \<and> length c = 28 + length p \<and> aes_gcm_decrypt lib pc c = Some p"
proof -
  let ?key = "take (pc_cipher_key_size pc) (pc_cipher_key pc)" and ?n = "rnd 12"
  obtain ct tag where seal: "lib_gcm_seal lib ?key ?n p = (ct, tag)" by fastforce
  have l: "length ct = length p" "length tag = 16" "length ?n = 12" "lib_gcm_open lib ?key ?n ct tag = Some p"
    using assms(1,2) seal [symmetric] unfolding gcm_documented_def random_block_def aes_gcm_tag_size_def
    by (metis fst_conv snd_conv)+
  have "replicate (12 + length p + 16) (0 :: byte) = replicate 12 0 @ replicate (length p) 0 @ replicate 16 0"
    by (simp flip: replicate_add)
  moreover have "memcpy (replicate 12 0 @ zs) 0 ?n = ?n @ zs" for zs
    using memcpy_append [of "replicate 12 0" ?n "[]" zs] l by simp
  moreover have "memcpy (?n @ replicate (length p) 0 @ zs) 12 ct = ?n @ ct @ zs" for zs
    using memcpy_append [of "replicate (length p) 0" ct ?n zs] l by simp
  moreover have "memcpy ((?n @ ct) @ replicate 16 0 @ []) (12 + length p) tag = (?n @ ct) @ tag @ []"
    using memcpy_append [of "replicate 16 0" tag "?n @ ct" "[]"] l by simp
  ultimately have enc: "aes_gcm_encrypt lib rnd pc p = Inr (?n @ ct @ tag)"
    using assms(3) seal by (simp add: aes_gcm_encrypt_def crypto_sizes)
  have "aes_gcm_decrypt lib pc (?n @ ct @ tag) = Some p"
    using l by (simp add: aes_gcm_decrypt_def crypto_sizes)
  with enc l show ?thesis by simp
qed

text \<open>All methods.\<close>

lemma pc_roundtrip:
  assumes "random_block rnd" "gcm_documented lib" "length p \<le> 2147483647"
  shows "\<exists>c. pc_encrypt lib rnd pc p = Inr c \<and> length c = length p + pc_overhead pc \<and> pc_decrypt lib pc c = Some p"
proof -
  consider "pc_method pc = Crypt_null" | "pc_method pc = Crypt_aes_gcm"
    | "pc_method pc \<noteq> Crypt_null" "pc_method pc \<noteq> Crypt_aes_gcm" by blast
  then show ?thesis
  proof cases
    case 1
    then show ?thesis by (simp add: pc_encrypt_def pc_decrypt_def pc_overhead_def)
  next
    case 2
    then show ?thesis using gcm_roundtrip [OF assms, of pc]
      by (auto simp: pc_encrypt_def pc_decrypt_def pc_overhead_def crypto_sizes)
  next
    case 3
    let ?h = "rnd 16 @ le32_bytes (crc32_ieee p)" and ?c = "crypt_transform lib pc True"
    have h: "length ?h = 20" using assms(1) by (simp add: random_block_def)
    have "read_le32 (rnd 16 @ le32_bytes (crc32_ieee p) @ p) 16 = crc32_ieee p"
      using le32.dec_after [where pre = "rnd 16" and n = 16] assms(1) by (simp add: random_block_def)
    then have "pc_decrypt lib pc (?c (?h @ p)) = Some p"
      using 3 any_method.open_seal [OF h] any_method.dec_enc
      by (simp add: pc_decrypt_def crypto_sizes Let_def)
    then show ?thesis
      using 3 pc_encrypt_header [OF assms(1) 3] any_method.open_seal(2) [OF h, of lib pc p]
      by (simp add: pc_overhead_def crypto_sizes)
  qed
qed

section \<open>Properties\<close>

text \<open>C8: Every method is reversible: whatever method and key material a \<open>PacketCrypt\<close>
  holds, a packet (below the 2 GiB limit of GCM) is encrypted without error to exactly
  \<open>overhead()\<close> more bytes, and decrypting the result gives the packet back.\<close>

theorem packet_crypt_roundtrip:
  assumes "random_block rnd" "gcm_documented lib" "length p \<le> 2147483647"
  shows "\<exists>c. pc_encrypt lib rnd pc p = Inr c \<and> length c = length p + pc_overhead pc \<and> pc_decrypt lib pc c = Some p"
  by (rule pc_roundtrip [OF assms])

text \<open>A stand-in for the library, to instantiate the parameters.\<close>

definition toy_lib :: crypto_lib where
  "toy_lib = \<lparr> lib_block = (\<lambda>alg key. if length key < 16 then None else Some (8, map (\<lambda>b. 3 * b + 1))),
     lib_salsa20 = (\<lambda>key iv n. replicate n (hd iv)),
     lib_gcm_seal = (\<lambda>key nonce p. (map (\<lambda>b. b + 1) p, replicate 16 9)),
     lib_gcm_open = (\<lambda>key nonce c t. if t = replicate 16 9 then Some (map (\<lambda>b. b - 1) c) else None),
     lib_pbkdf2_sha1 = (\<lambda>pw salt iter n. replicate n (of_nat (length pw))) \<rparr>"

lemma toy_lib_documented: "gcm_documented toy_lib" "random_block (\<lambda>n. replicate n 7)"
  by (simp_all add: gcm_documented_def random_block_def toy_lib_def aes_gcm_tag_size_def comp_def)

lemma packet_crypt_roundtrip_witness:
  "\<exists>pc c. make_packet_crypt toy_lib (base_defaults () \<lparr> cfg_crypt := ''TEA'' \<rparr>) = Inr pc \<and>
     pc_method pc = Crypt_block \<and>
     pc_encrypt toy_lib (\<lambda>n. replicate n 7) pc [1, 2, 3] = Inr c \<and> length c = 23 \<and>
     pc_decrypt toy_lib pc c = Some [1, 2, 3]"
proof -
  have tea: "normalize_method ''TEA'' = ''tea''" by code_simp
  obtain pc where pc: "make_packet_crypt toy_lib (base_defaults () \<lparr> cfg_crypt := ''TEA'' \<rparr>) = Inr pc"
    "pc_method pc = Crypt_block"
    by (simp add: make_packet_crypt_def tea select_method_def
        select_block_def Let_def toy_lib_def key_span_def derive_key_def memcpy_def string_bytes_def base_defaults_def)
  then show ?thesis
    using packet_crypt_roundtrip [OF toy_lib_documented(2,1), of "[1, 2, 3]" pc]
    by (auto simp: pc_overhead_def crypto_sizes)
qed

text \<open>
  A run of damage behind the header stays one under the stream methods. Under a block cipher,
  whose CFB mode garbles the block after the damaged one, it does in the last block.
\<close>

lemma cfb_tail:
  assumes "0 < n"
  shows "length pre = k * n \<Longrightarrow> \<exists>pre' key. length pre' = length pre \<and>
    (\<forall>rest. length rest \<le> n \<longrightarrow> cfb_loop E n False current (pre @ rest) = pre' @ xor_bytes rest key)"
proof (induction k arbitrary: pre current)
  case 0
  have "cfb_loop E n False current rest = xor_bytes rest current" if "length rest \<le> n" for rest
    using that assms by (subst cfb_loop.simps) (auto simp: Let_def cfb_loop.simps [of E n False _ "[]"])
  then show ?case using 0 by (intro exI [of _ "[]"] exI [of _ current]) simp
next
  case (Suc k)
  let ?b = "take n pre" and ?p = "drop n pre"
  have len: "length ?b = n" "length ?p = k * n" "pre \<noteq> []" using Suc(2) assms by auto
  obtain pre' key where IH: "length pre' = length ?p"
    "\<forall>rest. length rest \<le> n \<longrightarrow> cfb_loop E n False (E ?b) (?p @ rest) = pre' @ xor_bytes rest key"
    using Suc.IH [OF len(2)] by blast
  have "cfb_loop E n False current (pre @ rest) = (xor_bytes ?b current @ pre') @ xor_bytes rest key"
    if "length rest \<le> n" for rest
    using that len assms IH(2) Suc(2) by (subst cfb_loop.simps) (simp add: Let_def)
  then show ?case using IH(1) Suc(2) by (intro exI [of _ "xor_bytes ?b current @ pre'"] exI [of _ key]) simp
qed

lemma block_local:
  assumes "length as = length bs" "length (xs @ as @ ys) \<le> pc_block_size pc * Suc (length xs div pc_block_size pc)"
  shows "\<exists>xs' as' bs' ys'. block_cfb_crypt pc False (xs @ as @ ys) = xs' @ as' @ ys' \<and>
    block_cfb_crypt pc False (xs @ bs @ ys) = xs' @ bs' @ ys' \<and>
    length xs' = length xs \<and> length as' = length as \<and> length bs' = length bs \<and> (as' = bs' \<longleftrightarrow> as = bs)"
proof (cases "pc_block pc")
  case None
  have "block_cfb_crypt pc False = (\<lambda>x. x)" by (simp add: fun_eq_iff block_cfb_crypt_def None)
  then show ?thesis using plain.local [OF le0 assms(1), of xs ys] by simp
next
  case (Some E)
  let ?n = "pc_block_size pc" and ?k = "length xs div pc_block_size pc"
  obtain pre mid where xs: "xs = pre @ mid" and pre: "length pre = ?k * ?n"
    by (rule that [of "take (?k * ?n) xs" "drop (?k * ?n) xs"]) simp_all
  show ?thesis
  proof (cases "?n = 0")
    case True
    then have "as = []" "bs = []" using assms by auto
    then show ?thesis using True by (intro exI [of _ xs] exI [of _ "[]"] exI [of _ "[]"] exI [of _ ys])
        (simp add: block_cfb_crypt_def Some cfb_loop.simps [of _ 0])
  next
    case False
    have "length xs + length as + length ys \<le> ?k * ?n + ?n" using assms(2) by (simp add: algebra_simps)
    moreover have "length xs = ?k * ?n + length mid" using arg_cong [OF xs, of length] pre by simp
    ultimately have "length (mid @ as @ ys) \<le> ?n" "length (mid @ bs @ ys) \<le> ?n"
      using assms(1) unfolding length_append by linarith+
    then obtain pre' key where t: "length pre' = length pre"
      "block_cfb_crypt pc False (pre @ mid @ as @ ys) = pre' @ xor_bytes (mid @ as @ ys) key"
      "block_cfb_crypt pc False (pre @ mid @ bs @ ys) = pre' @ xor_bytes (mid @ bs @ ys) key"
      using cfb_tail [OF _ pre, of E "E (take ?n initial_vector)"] False by (auto simp: block_cfb_crypt_def Some)
    obtain xs' as' bs' ys' where w: "xor_bytes (mid @ as @ ys) key = xs' @ as' @ ys'" "xor_bytes (mid @ bs @ ys) key = xs' @ bs' @ ys'"
      "length xs' = length mid" "length as' = length as" "length bs' = length bs" "as' = bs' \<longleftrightarrow> as = bs"
      using xor_bytes_window [OF assms(1), of mid ys key] by blast
    show ?thesis
      by (intro exI [of _ "pre' @ xs'"] exI [of _ as'] exI [of _ bs'] exI [of _ ys']) (simp add: xs t w)
  qed
qed

definition damage_contained :: "packet_crypt \<Rightarrow> nat \<Rightarrow> nat \<Rightarrow> bool" where
  "damage_contained pc start n \<longleftrightarrow> pc_method pc \<in> {Crypt_none, Crypt_salsa20, Crypt_xor_stream} \<or>
     pc_method pc = Crypt_block \<and> n \<le> pc_block_size pc * Suc (start div pc_block_size pc)"

lemma damage_local:
  assumes "damage_contained pc (length xs) (length (xs @ as @ ys))" "20 \<le> length xs" "length as = length bs"
  shows "\<exists>xs' as' bs' ys'. crypt_transform lib pc False (xs @ as @ ys) = xs' @ as' @ ys' \<and>
    crypt_transform lib pc False (xs @ bs @ ys) = xs' @ bs' @ ys' \<and>
    length xs' = length xs \<and> length as' = length as \<and> length bs' = length bs \<and> (as' = bs' \<longleftrightarrow> as = bs)"
proof -
  let ?T = "crypt_transform lib pc"
  from assms(1) consider "?T False = (\<lambda>x. x)" | "?T False = salsa20_crypt lib pc" | "?T False = xor_crypt pc"
    | "?T False = block_cfb_crypt pc False" "length (xs @ as @ ys) \<le> pc_block_size pc * Suc (length xs div pc_block_size pc)"
    by (auto simp: damage_contained_def crypt_transform_def fun_eq_iff)
  then show ?thesis
  proof cases
    case 1
    show ?thesis unfolding 1 by (rule plain.local [OF le0 assms(3)])
  next
    case 2
    show ?thesis unfolding 2 by (rule salsa20.local [OF _ assms(3)]) (use assms(2) in simp)
  next
    case 3
    show ?thesis unfolding 3 by (rule xor_stream.local [OF le0 assms(3)])
  next
    case 4
    show ?thesis unfolding 4(1) by (rule block_local [OF assms(3) 4(2)])
  qed
qed

text \<open>The checksum of the header no longer fits a plain text damaged behind it.\<close>

lemma damage_detected:
  assumes split: "(r @ le32_bytes (crc32_ieee p)) @ p = xs @ as @ ys" and "length r = 16" "20 \<le> length xs"
    and "length as = length bs" "length as \<le> 4" "as \<noteq> bs"
  shows "crc32_ieee (drop 20 (xs @ bs @ ys)) \<noteq> read_le32 (xs @ bs @ ys) 16"
proof -
  have h: "length (r @ le32_bytes (crc32_ieee p)) = 20" using assms(2) by simp
  have p: "p = drop 20 xs @ as @ ys"
    using arg_cong [OF split, of "drop 20"] h assms(3) by simp
  have hd: "take 20 xs = r @ le32_bytes (crc32_ieee p)"
    using arg_cong [OF split, of "take 20"] h assms(3) by simp
  have eq: "xs @ bs @ ys = r @ le32_bytes (crc32_ieee p) @ (drop 20 xs @ bs @ ys)"
    by (metis append.assoc append_take_drop_id hd)
  have crc: "read_le32 (xs @ bs @ ys) 16 = crc32_ieee p"
    by (subst eq, rule le32.dec_after) (use assms(2) in simp_all)
  have "crc32_ieee (drop 20 xs @ bs @ ys) \<noteq> crc32_ieee (drop 20 xs @ as @ ys)"
    using crc_run_burst [of "0xedb88320" as bs] assms(4-6)
    by (simp add: crc32_ieee_def xor_right_inj) metis
  then show ?thesis using assms(3) p by (simp add: crc)
qed

text \<open>C29: Where a method keeps damage local, a damaged packet is dropped: when up to four
  consecutive bytes behind the 20-byte header change on the way, \<open>decrypt\<close> returns nothing.
  For the methods \<open>none\<close>, \<open>salsa20\<close> and \<open>xor\<close> the damage may be anywhere behind the header; for
  the block ciphers (\<open>aes\<close>, the default, and the others) it is shown for damage in the last block
  of the packet. The method \<open>null\<close> has no checksum; AES-GCM is left to the library.\<close>

theorem damaged_packet_dropped:
  assumes "random_block rnd"
    and "pc_method pc \<in> {Crypt_none, Crypt_salsa20, Crypt_xor_stream} \<or>
      pc_method pc = Crypt_block \<and> length (xs @ as @ ys) \<le> pc_block_size pc * Suc (length xs div pc_block_size pc)"
    and "pc_encrypt lib rnd pc p = Inr (xs @ as @ ys)" "20 \<le> length xs"
    and "length as = length bs" "length as \<le> 4" "as \<noteq> bs"
  shows "pc_decrypt lib pc (xs @ bs @ ys) = None"
proof -
  let ?T = "crypt_transform lib pc"
  have m: "pc_method pc \<noteq> Crypt_null" "pc_method pc \<noteq> Crypt_aes_gcm" using assms(2) by auto
  have damage: "damage_contained pc (length xs) (length (xs @ as @ ys))" using assms(2) by (simp add: damage_contained_def)
  have enc: "xs @ as @ ys = ?T True ((rnd 16 @ le32_bytes (crc32_ieee p)) @ p)"
    using pc_encrypt_header [OF assms(1) m, of lib p] assms(3) by simp
  have dec: "?T False (xs @ as @ ys) = (rnd 16 @ le32_bytes (crc32_ieee p)) @ p"
    unfolding enc by (rule any_method.dec_enc)
  obtain xs' as' bs' ys' where w: "?T False (xs @ as @ ys) = xs' @ as' @ ys'"
    "?T False (xs @ bs @ ys) = xs' @ bs' @ ys'" "length xs' = length xs" "length as' = length as"
    "length bs' = length bs" "as' \<noteq> bs'" using damage_local [OF damage assms(4,5), of lib] assms(7) by metis
  have "crc32_ieee (drop 20 (?T False (xs @ bs @ ys))) \<noteq> read_le32 (?T False (xs @ bs @ ys)) 16"
    unfolding w(2)
    by (rule damage_detected [OF dec [unfolded w(1), symmetric]]) (use w assms(1,4-6) in \<open>simp_all add: random_block_def\<close>)
  then show ?thesis using m assms(4) by (simp add: pc_decrypt_def crypto_sizes Let_def)
qed

lemma damaged_packet_dropped_witness:
  "\<exists>pc c. make_packet_crypt toy_lib (base_defaults () \<lparr> cfg_crypt := ''TEA'' \<rparr>) = Inr pc \<and> pc_method pc = Crypt_block \<and>
     pc_encrypt toy_lib (\<lambda>n. replicate n 7) pc [1, 2, 3] = Inr c \<and> length c = 23 \<and>
     pc_decrypt toy_lib pc (c [21 := c ! 21 + 1]) = None"
proof -
  have tea: "normalize_method ''TEA'' = ''tea''" by code_simp
  obtain pc where pc: "make_packet_crypt toy_lib (base_defaults () \<lparr> cfg_crypt := ''TEA'' \<rparr>) = Inr pc"
    "pc_method pc = Crypt_block" "pc_block_size pc = 8"
    by (simp add: make_packet_crypt_def tea select_method_def
        select_block_def Let_def toy_lib_def key_span_def derive_key_def memcpy_def string_bytes_def base_defaults_def)
  define c where "c = crypt_transform toy_lib pc True ((replicate 16 7 @ le32_bytes (crc32_ieee [1, 2, 3])) @ [1, 2, 3])"
  have enc: "pc_encrypt toy_lib (\<lambda>n. replicate n 7) pc [1, 2, 3] = Inr c"
    using pc_encrypt_header [OF toy_lib_documented(2), of pc toy_lib "[1, 2, 3]"] pc(2) by (simp add: c_def)
  have len: "length c = 23" using pc(2) by (simp add: c_def crypt_transform_def cfb.length_enc)
  have c: "c = take 21 c @ [c ! 21] @ drop 22 c" using len id_take_nth_drop [of 21 c] by simp
  have "pc_decrypt toy_lib pc (take 21 c @ [c ! 21 + 1] @ drop 22 c) = None"
    by (rule damaged_packet_dropped [OF toy_lib_documented(2), of pc "take 21 c" "[c ! 21]" "drop 22 c" toy_lib "[1, 2, 3]"])
      (use pc(2,3) enc c len in simp_all)
  moreover have "c [21 := c ! 21 + 1] = take 21 c @ [c ! 21 + 1] @ drop 22 c" using len by (simp add: upd_conv_take_nth_drop)
  ultimately show ?thesis using pc(1,2) enc len by auto
qed

lemma select_block_props:
  "select_block lib eff ks alg pc = Inr pc' \<Longrightarrow>
     pc_method pc' = Crypt_block \<and> pc_block pc' \<noteq> None \<and> (pc_block_size pc' = 8 \<or> pc_block_size pc' = 16)"
  by (auto simp: select_block_def Let_def split: option.splits prod.splits if_splits)

lemma select_block_error:
  "select_block lib eff ks alg pc = Inl e \<Longrightarrow>
     (\<forall>alg key bs E. lib_block lib alg key = Some (bs, E) \<longrightarrow> bs = 8 \<or> bs = 16) \<Longrightarrow> e = Library_exception"
  by (auto simp: select_block_def Let_def split: option.splits prod.splits if_splits)

text \<open>The methods that encrypt, as results of the selection.\<close>

definition encrypting_result :: "crypto_lib \<Rightarrow> packet_crypt \<Rightarrow> packet_crypt result \<Rightarrow> bool" where
  "encrypting_result lib pc r \<longleftrightarrow>
     (\<exists>eff ks alg. r = select_block lib eff ks alg pc) \<or>
     (\<exists>pc'. r = Inr pc' \<and> pc_method pc' \<in> {Crypt_salsa20, Crypt_xor_stream, Crypt_aes_gcm})"

lemma encrypting_resultI:
  "encrypting_result lib pc (select_block lib eff ks alg pc)"
  "pc_method pc' \<in> {Crypt_salsa20, Crypt_xor_stream, Crypt_aes_gcm} \<Longrightarrow> encrypting_result lib pc (Inr pc')"
  by (auto simp: encrypting_result_def)

lemma encrypting_result_if:
  "(b \<Longrightarrow> encrypting_result lib pc x) \<Longrightarrow> (\<not> b \<Longrightarrow> encrypting_result lib pc y) \<Longrightarrow>
     encrypting_result lib pc (if b then x else y)"
  by simp

lemma select_method_encrypting:
  assumes "m \<noteq> ''null''" "m \<noteq> ''none''"
  shows "encrypting_result lib pc (select_method lib m pc)"
  unfolding select_method_def if_not_P [OF assms(1)] if_not_P [OF assms(2)] copy_cipher_key_def
  by (intro encrypting_result_if encrypting_resultI) simp_all

lemma encrypting_result_props:
  assumes "encrypting_result lib pc r" "r = Inr pc'"
  shows "pc_encrypts_payload pc' \<and>
     (pc_method pc' = Crypt_block \<longrightarrow> pc_block pc' \<noteq> None \<and> (pc_block_size pc' = 8 \<or> pc_block_size pc' = 16))"
proof -
  have "pc_method pc' = Crypt_block \<and> pc_block pc' \<noteq> None \<and> (pc_block_size pc' = 8 \<or> pc_block_size pc' = 16) \<or>
      pc_method pc' \<in> {Crypt_salsa20, Crypt_xor_stream, Crypt_aes_gcm}"
    using assms select_block_props unfolding encrypting_result_def by blast
  then show ?thesis by (auto simp: pc_encrypts_payload_def)
qed

text \<open>A connection is never unencrypted by accident: for a library whose block sizes are 8
  and 16 and whose AES takes a 32-byte key, the constructor succeeds for every configured
  method name; only the names \<open>null\<close> and \<open>none\<close> (in any case) give a \<open>PacketCrypt\<close> that
  does not encrypt, and every unknown name, or a cipher that refuses its key, ends with a
  block cipher in place.\<close>

theorem crypt_selection:
  assumes "\<forall>alg key bs E. lib_block lib alg key = Some (bs, E) \<longrightarrow> bs = 8 \<or> bs = 16"
    and "\<forall>key. length key = 32 \<longrightarrow> lib_block lib AES key \<noteq> None"
    and "length (derive_key lib (cfg_key config)) = 32"
  defines "m \<equiv> normalize_method (cfg_crypt config)"
  shows "\<exists>pc. make_packet_crypt lib config = Inr pc \<and>
     (pc_encrypts_payload pc \<longleftrightarrow> m \<noteq> ''null'' \<and> m \<noteq> ''none'') \<and> (pc_uses_header pc \<longleftrightarrow> m \<noteq> ''null'') \<and>
     (pc_method pc = Crypt_block \<longrightarrow> pc_block pc \<noteq> None \<and> (pc_block_size pc = 8 \<or> pc_block_size pc = 16))"
proof -
  define pc where "pc = \<lparr> pc_method = Crypt_null, pc_effective_method = ''null'',
      pc_derived_key = derive_key lib (cfg_key config), pc_cipher_key = replicate 32 0, pc_xor_table = [],
      pc_block = None, pc_block_size = 0, pc_cipher_key_size = 0 \<rparr>"
  have make: "make_packet_crypt lib config = (case select_method lib m pc of
      Inl Library_exception \<Rightarrow> select_block lib ''aes'' 32 AES pc | r \<Rightarrow> r)"
    by (simp only: make_packet_crypt_def Let_def pc_def m_def)
  consider "m = ''null''" | "m = ''none''" | "m \<noteq> ''null''" "m \<noteq> ''none''" by blast
  then show ?thesis
  proof cases
    case 1
    then show ?thesis unfolding make by (simp add: select_method_def pc_encrypts_payload_def pc_uses_header_def)
  next
    case 2
    then show ?thesis unfolding make by (simp add: select_method_def pc_encrypts_payload_def pc_uses_header_def)
  next
    case 3
    note enc = select_method_encrypting [OF 3, of lib pc]
    have aes: "\<exists>pc'. select_block lib ''aes'' 32 AES pc = Inr pc'"
    proof -
      have "length (key_span (memcpy (pc_cipher_key pc) 0 (take 32 (pc_derived_key pc))) 32) = 32"
        using assms(3) by (simp add: pc_def key_span_def memcpy_def)
      then obtain bs E where "lib_block lib AES (key_span (memcpy (pc_cipher_key pc) 0 (take 32 (pc_derived_key pc))) 32) = Some (bs, E)"
        using assms(2) by fastforce
      moreover from this have "bs = 8 \<or> bs = 16" using assms(1) by blast
      ultimately show ?thesis by (auto simp: select_block_def Let_def)
    qed
    have "\<exists>pc'. make_packet_crypt lib config = Inr pc' \<and> (\<exists>r. encrypting_result lib pc r \<and> r = Inr pc')"
    proof (cases "select_method lib m pc")
      case (Inr pc')
      with enc show ?thesis unfolding make by auto
    next
      case (Inl e)
      then have "e = Library_exception"
        using enc select_block_error assms(1) unfolding encrypting_result_def by (metis Inl_Inr_False)
      with Inl aes show ?thesis unfolding make using encrypting_resultI(1) by fastforce
    qed
    then obtain pc' where pc': "make_packet_crypt lib config = Inr pc'" "encrypting_result lib pc (Inr pc')" by blast
    from encrypting_result_props [OF pc'(2) refl] pc'(1) 3 show ?thesis
      by (auto simp: pc_encrypts_payload_def pc_uses_header_def)
  qed
qed

lemma crypt_selection_witness:
  "\<exists>pc. make_packet_crypt toy_lib (base_defaults () \<lparr> cfg_crypt := ''rot13'' \<rparr>) = Inr pc \<and> pc_encrypts_payload pc"
proof -
  have rot: "normalize_method ''rot13'' = ''rot13''" by code_simp
  let ?cfg = "base_defaults () \<lparr> cfg_crypt := ''rot13'' \<rparr>"
  have "\<forall>alg key bs E. lib_block toy_lib alg key = Some (bs, E) \<longrightarrow> bs = 8 \<or> bs = 16"
    by (simp add: toy_lib_def)
  moreover have "\<forall>key. length key = 32 \<longrightarrow> lib_block toy_lib AES key \<noteq> None" by (simp add: toy_lib_def)
  moreover have "length (derive_key toy_lib (cfg_key ?cfg)) = 32" by (simp add: derive_key_def toy_lib_def)
  ultimately have "\<exists>pc. make_packet_crypt toy_lib ?cfg = Inr pc \<and>
     (pc_encrypts_payload pc \<longleftrightarrow> normalize_method (cfg_crypt ?cfg) \<noteq> ''null'' \<and> normalize_method (cfg_crypt ?cfg) \<noteq> ''none'')"
    using crypt_selection [of toy_lib ?cfg] by blast
  then show ?thesis by (simp add: rot)
qed

end
