(* ===== verification/Utils.thy ===== *)
theory Utils
  imports Wire Cpp_String
begin

text \<open>
  \<open>utils.cpp\<close>: addresses with port ranges, the random choices, the keys of the server's
  session table and the socket options. The resolver, the random distributions and the
  clock are arguments; an endpoint is the printed address with its port.
\<close>

section \<open>Ports\<close>

text \<open>\<open>std::from_chars\<close> into an \<open>unsigned\<close>: the value and the characters used.\<close>

definition from_chars_unsigned :: "string \<Rightarrow> (nat \<times> nat) option" where
  "from_chars_unsigned s =
     (let digits = takeWhile is_digit s
      in if digits = [] \<or> 2 ^ 32 \<le> decimal_value digits then None
         else Some (decimal_value digits, length digits))"

definition parse_port :: "string \<Rightarrow> u16 result" where
  "parse_port s =
     (case from_chars_unsigned s of
        None \<Rightarrow> Inl (Runtime_error (''invalid port: '' @ s))
      | Some (v, used) \<Rightarrow>
          if used \<noteq> length s \<or> v = 0 \<or> v > 65535 then Inl (Runtime_error (''invalid port: '' @ s))
          else Inr (of_nat v))"

section \<open>Addresses\<close>

definition split_host_service :: "string \<Rightarrow> (string \<times> string) result" where
  "split_host_service address =
     (if address = [] then Inl (Runtime_error ''empty address'')
      else if hd address = CHR ''['' then
        (case find_char address CHR '']'' of
           None \<Rightarrow> Inl (Runtime_error (''malformed bracketed IPv6 address: '' @ address))
         | Some close \<Rightarrow>
             if close + 1 \<ge> length address \<or> address ! (close + 1) \<noteq> CHR '':'' then
               Inl (Runtime_error (''malformed bracketed IPv6 address: '' @ address))
             else Inr (take (close - 1) (drop 1 address), drop (close + 2) address))
      else
        (case rfind_char address CHR '':'' of
           None \<Rightarrow> Inl (Runtime_error (''address must be host:port: '' @ address))
         | Some colon \<Rightarrow> Inr (take colon address, drop (colon + 1) address)))"

record multi_port =
  mp_host :: string
  mp_min_port :: u16
  mp_max_port :: u16

definition parse_multiport :: "string \<Rightarrow> multi_port result" where
  "parse_multiport address =
     (case split_host_service address of
        Inl e \<Rightarrow> Inl e
      | Inr (host, service) \<Rightarrow>
          (case find_char service CHR ''-'' of
             None \<Rightarrow>
               (case parse_port service of
                  Inl e \<Rightarrow> Inl e
                | Inr p \<Rightarrow> Inr \<lparr> mp_host = host, mp_min_port = p, mp_max_port = p \<rparr>)
           | Some dash \<Rightarrow>
               (case parse_port (take dash service) of
                  Inl e \<Rightarrow> Inl e
                | Inr lo \<Rightarrow>
                    (case parse_port (drop (dash + 1) service) of
                       Inl e \<Rightarrow> Inl e
                     | Inr hi \<Rightarrow>
                         if lo > hi then Inl (Runtime_error (''invalid port range: '' @ service))
                         else Inr \<lparr> mp_host = host, mp_min_port = lo, mp_max_port = hi \<rparr>))))"

definition ends_with :: "string \<Rightarrow> char \<Rightarrow> bool" where
  "ends_with s c \<longleftrightarrow> s \<noteq> [] \<and> last s = c"

definition join_host_port :: "string \<Rightarrow> u16 \<Rightarrow> string" where
  "join_host_port host port =
     (if find_char host CHR '':'' \<noteq> None \<and> \<not> (starts_with host ''['' \<and> ends_with host CHR '']'')
      then ''['' @ host @ '']:'' @ to_string (unat port)
      else host @ '':'' @ to_string (unat port))"

section \<open>Random choices, keys and options\<close>

text \<open>\<open>draw lo hi\<close> is a value of \<open>std::uniform_int_distribution\<close>, in that closed range.\<close>

definition choose_port :: "(int \<Rightarrow> int \<Rightarrow> int) \<Rightarrow> multi_port \<Rightarrow> u16" where
  "choose_port draw ports =
     (if mp_min_port ports = mp_max_port ports then mp_min_port ports
      else word_of_int (draw (uint (mp_min_port ports)) (uint (mp_max_port ports))))"

definition random_conv :: "(int \<Rightarrow> int \<Rightarrow> int) \<Rightarrow> u32" where
  "random_conv draw = word_of_int (draw 1 4294967295)"

text \<open>From nanoseconds of the steady clock; the counter wraps every 2^32 ms.\<close>

definition current_millis :: "nat \<Rightarrow> u32" where
  "current_millis now = of_nat (now div 1000000)"

type_synonym endpoint = "string \<times> u16"

definition endpoint_key :: "endpoint \<Rightarrow> u32 \<Rightarrow> string" where
  "endpoint_key e conv = fst e @ '':'' @ to_string (unat (snd e)) @ ''#'' @ to_string (unat conv)"

text \<open>\<open>resolve host service\<close> is the answer of the resolver, an exception or a list.\<close>

type_synonym resolver = "string \<Rightarrow> string \<Rightarrow> endpoint list result"

definition make_udp_bind_endpoint :: "resolver \<Rightarrow> multi_port \<Rightarrow> u16 \<Rightarrow> endpoint result" where
  "make_udp_bind_endpoint resolve address port =
     (if mp_host address = [] then Inr (''0.0.0.0'', port)
      else case resolve (mp_host address) (to_string (unat port)) of
             Inl e \<Rightarrow> Inl e
           | Inr [] \<Rightarrow> Inl (Runtime_error (''failed to resolve bind address: '' @ join_host_port (mp_host address) port))
           | Inr (e # _) \<Rightarrow> Inr e)"

definition make_tcp_bind_endpoint :: "resolver \<Rightarrow> multi_port \<Rightarrow> endpoint result" where
  "make_tcp_bind_endpoint resolve address =
     (if mp_host address = [] then Inr (''0.0.0.0'', mp_min_port address)
      else case resolve (mp_host address) (to_string (unat (mp_min_port address))) of
             Inl e \<Rightarrow> Inl e
           | Inr [] \<Rightarrow> Inl (Runtime_error (''failed to resolve bind address: '' @
                 join_host_port (mp_host address) (mp_min_port address)))
           | Inr (e # _) \<Rightarrow> Inr e)"

definition resolve_udp_endpoint :: "resolver \<Rightarrow> string \<Rightarrow> u16 \<Rightarrow> endpoint result" where
  "resolve_udp_endpoint resolve host port =
     (case resolve host (to_string (unat port)) of
        Inl e \<Rightarrow> Inl e
      | Inr [] \<Rightarrow> Inl (Runtime_error (''failed to resolve remote address: '' @ join_host_port host port))
      | Inr (e # _) \<Rightarrow> Inr e)"

text \<open>The options set on a socket, in order; errors of \<open>setsockopt\<close> are ignored.\<close>

datatype socket_option = Receive_buffer_size int | Send_buffer_size int | Ip_tos int | Ipv6_tclass int

definition set_socket_buffers :: "int \<Rightarrow> socket_option list" where
  "set_socket_buffers bytes = (if bytes \<le> 0 then [] else [Receive_buffer_size bytes, Send_buffer_size bytes])"

definition set_dscp :: "int \<Rightarrow> socket_option list" where
  "set_dscp dscp =
     (if dscp \<le> 0 then []
      else let clamped = max 0 (min 63 dscp) in [Ip_tos (push_bit 2 clamped), Ipv6_tclass clamped])"

section \<open>Parsing what was printed\<close>

lemma takeWhile_digits: "\<forall>c \<in> set s. is_digit c \<Longrightarrow> takeWhile is_digit s = s"
  by (simp add: takeWhile_eq_all_conv)

lemma parse_port_digits:
  assumes "s \<noteq> []" "\<forall>c \<in> set s. is_digit c" "decimal_value s = unat p" "p \<noteq> 0"
  shows "parse_port s = Inr p"
proof -
  have "unat p < 65536" by (rule order.strict_trans2 [OF unsigned_less]) simp
  then have "unat p \<le> 65535" by linarith
  moreover have "unat p \<noteq> 0" using assms(4) by (simp add: unat_eq_0)
  ultimately show ?thesis
    using assms unfolding parse_port_def from_chars_unsigned_def Let_def takeWhile_digits [OF assms(2)] by simp
qed

lemma parse_port_to_string: "p \<noteq> 0 \<Longrightarrow> parse_port (to_string (unat p)) = Inr p"
  using to_string_digits by (intro parse_port_digits) auto

text \<open>Exactly the decimal numerals (leading zeros allowed) of 1 to 65535 are ports.\<close>

lemma parse_port_iff:
  "parse_port s = Inr p \<longleftrightarrow>
     s \<noteq> [] \<and> (\<forall>c \<in> set s. is_digit c) \<and> decimal_value s = unat p \<and> p \<noteq> 0"
proof
  assume r: "parse_port s = Inr p"
  let ?d = "takeWhile is_digit s"
  have d: "?d \<noteq> []" "length ?d = length s" "0 < decimal_value ?d" "decimal_value ?d \<le> 65535"
    "p = of_nat (decimal_value ?d)"
    using r by (auto simp: parse_port_def from_chars_unsigned_def Let_def split: if_splits)
  then have all: "?d = s" using takeWhile_dropWhile_id [of is_digit s] by (metis append_eq_conv_conj take_all order_refl)
  then have "\<forall>c \<in> set s. is_digit c" by (metis set_takeWhileD)
  moreover have "unat p = decimal_value s" using d all unat_of_nat_lt [of "decimal_value s", where ?'a = 16] by simp
  ultimately show "s \<noteq> [] \<and> (\<forall>c \<in> set s. is_digit c) \<and> decimal_value s = unat p \<and> p \<noteq> 0"
    using d(1,3) all by auto
qed (use parse_port_digits in blast)

lemma parse_port_error: "parse_port s = Inl e \<Longrightarrow> e = Runtime_error (''invalid port: '' @ s)"
  by (auto simp: parse_port_def split: option.splits if_splits)

lemma no_dash_in_digits: "find_char (to_string n) CHR ''-'' = None"
  using to_string_digits by (auto simp: find_char_None is_digit_def dest!: to_string_digits)

lemma split_bracketed:
  assumes "CHR '']'' \<notin> set host"
  shows "split_host_service (''['' @ host @ '']:'' @ service) = Inr (host, service)"
proof -
  have "find_char ((CHR ''['' # host) @ CHR '']'' # CHR '':'' # service) CHR '']'' = Some (length (CHR ''['' # host))"
    using assms by (intro find_char_append) simp
  then show ?thesis by (simp add: split_host_service_def nth_append)
qed

lemma split_plain:
  assumes "CHR '':'' \<notin> set service" "host = [] \<or> hd host \<noteq> CHR ''[''"
  shows "split_host_service (host @ '':'' @ service) = Inr (host, service)"
  using assms rfind_char_append [of "CHR '':''" service host]
  by (cases host) (auto simp: split_host_service_def)

text \<open>The services an address may end in: one port or a range.\<close>

definition service_of :: "u16 \<Rightarrow> u16 \<Rightarrow> string" where
  "service_of lo hi = (if lo = hi then to_string (unat lo) else to_string (unat lo) @ ''-'' @ to_string (unat hi))"

lemma parse_service:
  assumes "split_host_service address = Inr (host, service_of lo hi)" "0 < lo" "lo \<le> hi"
  shows "parse_multiport address = Inr \<lparr> mp_host = host, mp_min_port = lo, mp_max_port = hi \<rparr>"
proof (cases "lo = hi")
  case True
  then show ?thesis
    using assms no_dash_in_digits parse_port_to_string by (simp add: parse_multiport_def service_of_def)
next
  case False
  have "CHR ''-'' \<notin> set (to_string (unat lo))" using no_dash_in_digits find_char_None by blast
  then have "find_char (service_of lo hi) CHR ''-'' = Some (length (to_string (unat lo)))"
    using False by (simp add: service_of_def find_char_append)
  moreover have "hi \<noteq> 0" using assms(2,3) by auto
  ultimately show ?thesis
    using assms False by (simp add: parse_multiport_def service_of_def parse_port_to_string)
qed

lemma service_plain: "CHR '':'' \<notin> set (service_of lo hi)"
  by (auto simp: service_of_def is_digit_def dest!: to_string_digits)

lemma split_host_service_cases:
  assumes "split_host_service address = Inr (host, service)"
  shows "address = host @ '':'' @ service \<or> address = ''['' @ host @ '']:'' @ service"
proof (cases "address \<noteq> [] \<and> hd address = CHR ''[''")
  case True
  then obtain close where c: "find_char address CHR '']'' = Some close" "close + 1 < length address"
      "address ! (close + 1) = CHR '':''" "host = take (close - 1) (drop 1 address)" "service = drop (close + 2) address"
    using assms by (auto simp: split_host_service_def split: option.splits if_splits)
  have close: "address ! close = CHR '']''" using c(1) by (auto simp: find_char_def find_Some_iff)
  then have "0 < close" using True by (cases close) (auto simp: hd_conv_nth)
  then have "address = take 1 address @ take (close - 1) (drop 1 address) @ drop close address"
    by (metis One_nat_def Suc_pred append.assoc append_take_drop_id plus_1_eq_Suc take_add)
  also have "take 1 address = ''[''" using True by (cases address) auto
  also have "drop close address = address ! close # address ! (close + 1) # drop (close + 2) address"
    using c(2) by (simp add: Cons_nth_drop_Suc)
  finally show ?thesis using c close by simp
next
  case False
  then obtain colon where c: "rfind_char address CHR '':'' = Some colon" "host = take colon address" "service = drop (colon + 1) address"
    using assms by (auto simp: split_host_service_def split: option.splits if_splits)
  then have "colon < length address" "address ! colon = CHR '':''"
    by (auto simp: rfind_char_def find_Some_iff rev_nth)
  then have "address = host @ [CHR '':''] @ service" using c(2,3) by (metis append_Cons append_Nil id_take_nth_drop Suc_eq_plus1)
  then show ?thesis by simp
qed

text \<open>C34: Addresses round-trip. For a host without brackets, \<open>parse_multiport\<close> reads back the
  host and the port that \<open>join_host_port\<close> prints, also when the host is given in brackets
  already, and the host (in brackets when it has colons) followed by a range \<open>lo-hi\<close>. Port 0,
  which \<open>join_host_port\<close> prints as any other, is refused.\<close>

theorem multiport_roundtrip:
  assumes "CHR ''['' \<notin> set host" "CHR '']'' \<notin> set host" "0 < lo" "lo \<le> hi"
  shows "parse_multiport (join_host_port host lo) = Inr \<lparr> mp_host = host, mp_min_port = lo, mp_max_port = lo \<rparr> \<and>
    parse_multiport (join_host_port (''['' @ host @ '']'') lo) = Inr \<lparr> mp_host = host, mp_min_port = lo, mp_max_port = lo \<rparr> \<and>
    parse_multiport ((if CHR '':'' \<in> set host then ''['' @ host @ '']'' else host) @ '':'' @ service_of lo hi) =
      Inr \<lparr> mp_host = host, mp_min_port = lo, mp_max_port = hi \<rparr> \<and>
    (\<exists>message. parse_multiport (join_host_port host 0) = Inl (Runtime_error message))"
proof -
  have head: "host = [] \<or> hd host \<noteq> CHR ''[''" using assms(1) by (cases host) auto
  have bracketed: "split_host_service (''['' @ host @ '']'' @ '':'' @ service) = Inr (host, service)" for service
    using split_bracketed [OF assms(2)] by simp
  have split: "split_host_service ((if CHR '':'' \<in> set host then ''['' @ host @ '']'' else host) @ '':'' @ service_of lo x) =
      Inr (host, service_of lo x)" for lo x
    using split_bracketed [OF assms(2)] split_plain [OF service_plain head] by simp
  have join: "join_host_port host p = (if CHR '':'' \<in> set host then ''['' @ host @ '']'' else host) @ '':'' @ service_of p p" for p
    using head by (cases host) (auto simp: join_host_port_def service_of_def find_char_None starts_with_def)
  have joined: "join_host_port (''['' @ host @ '']'') lo = ''['' @ host @ '']'' @ '':'' @ service_of lo lo"
    by (simp add: join_host_port_def service_of_def starts_with_def ends_with_def)
  have "parse_port (service_of 0 0) = Inl (Runtime_error (''invalid port: '' @ service_of 0 0))"
  proof (cases "parse_port (service_of 0 0)")
    case (Inl e)
    then show ?thesis using parse_port_error by simp
  next
    case (Inr p)
    then have "decimal_value (service_of 0 0) = unat p" "p \<noteq> 0" by (simp_all add: parse_port_iff)
    then show ?thesis by (auto simp: service_of_def unat_eq_0)
  qed
  then have "\<exists>message. parse_multiport (join_host_port host 0) = Inl (Runtime_error message)"
    using split [of 0 0] no_dash_in_digits by (simp add: join parse_multiport_def service_of_def)
  then show ?thesis
    unfolding join [of lo] joined
    using parse_service [OF split assms(3) order_refl] parse_service [OF bracketed assms(3) order_refl]
      parse_service [OF split assms(3,4)] by (intro conjI)
qed

lemma multiport_roundtrip_witness:
  "parse_multiport (join_host_port ''fe80::1'' 443) = Inr \<lparr> mp_host = ''fe80::1'', mp_min_port = 443, mp_max_port = 443 \<rparr> \<and>
   parse_multiport (join_host_port ''[fe80::1]'' 443) = Inr \<lparr> mp_host = ''fe80::1'', mp_min_port = 443, mp_max_port = 443 \<rparr>"
  using multiport_roundtrip [of "''fe80::1''" 443 443] by simp

lemma split_host_service_error: "split_host_service address = Inl e \<Longrightarrow> \<exists>m. e = Runtime_error m"
  by (auto simp: split_host_service_def split: option.splits if_splits)

lemma parse_multiport_error: "parse_multiport address = Inl e \<Longrightarrow> \<exists>m. e = Runtime_error m"
  by (auto simp: parse_multiport_def dest: split_host_service_error parse_port_error
      split: sum.splits option.splits prod.splits if_splits)

lemma parse_multiport_cases:
  assumes "parse_multiport address = Inr mp"
  obtains service where "split_host_service address = Inr (mp_host mp, service)"
      "parse_port service = Inr (mp_min_port mp)" "mp_max_port mp = mp_min_port mp"
    | lo hi where "split_host_service address = Inr (mp_host mp, lo @ ''-'' @ hi)"
      "parse_port lo = Inr (mp_min_port mp)" "parse_port hi = Inr (mp_max_port mp)" "mp_min_port mp \<le> mp_max_port mp"
proof -
  obtain host service where split: "split_host_service address = Inr (host, service)"
    using assms by (auto simp: parse_multiport_def split: sum.splits)
  show ?thesis
  proof (cases "find_char service CHR ''-''")
    case None
    then show ?thesis using assms split by (intro that(1)) (auto simp: parse_multiport_def split: sum.splits)
  next
    case (Some dash)
    then have "dash < length service" "service ! dash = CHR ''-''" by (auto simp: find_char_def find_Some_iff)
    then have service: "service = take dash service @ ''-'' @ drop (dash + 1) service"
      by (metis append_Cons append_Nil id_take_nth_drop Suc_eq_plus1)
    have "split_host_service address = Inr (host, take dash service @ ''-'' @ drop (dash + 1) service)"
      using split service by simp
    then show ?thesis using assms split Some
      by (intro that(2) [of "take dash service" "drop (dash + 1) service"])
        (auto simp: parse_multiport_def split: sum.splits if_splits)
  qed
qed

text \<open>C35: \<open>parse_multiport\<close> accepts only addresses of the forms \<open>host:service\<close> and
  \<open>[host]:service\<close> with a service of decimal digits or two such numbers with a dash, in
  the range 1 to 65535 and in order; everything else is a \<open>runtime_error\<close>.\<close>

theorem multiport_refuses_rest:
  "case parse_multiport address of
     Inl e \<Rightarrow> (\<exists>message. e = Runtime_error message)
   | Inr mp \<Rightarrow> 0 < mp_min_port mp \<and> mp_min_port mp \<le> mp_max_port mp \<and>
       (\<exists>service lo hi. (address = mp_host mp @ '':'' @ service \<or> address = ''['' @ mp_host mp @ '']:'' @ service) \<and>
          (service = lo \<and> hi = lo \<or> service = lo @ ''-'' @ hi) \<and>
          (\<forall>c \<in> set (lo @ hi). is_digit c) \<and>
          decimal_value lo = unat (mp_min_port mp) \<and> decimal_value hi = unat (mp_max_port mp))"
proof (cases "parse_multiport address")
  case (Inl e)
  then show ?thesis using parse_multiport_error by auto
next
  case (Inr mp)
  then show ?thesis
  proof (cases rule: parse_multiport_cases)
    case (1 service)
    have "\<forall>c \<in> set service. is_digit c" "decimal_value service = unat (mp_min_port mp)" "0 < mp_min_port mp"
      using 1(2) by (auto simp: parse_port_iff word_gt_0)
    then show ?thesis using split_host_service_cases [OF 1(1)] 1(3) Inr
      by (auto intro!: exI [of _ service])
  next
    case (2 lo hi)
    have "\<forall>c \<in> set (lo @ hi). is_digit c" "decimal_value lo = unat (mp_min_port mp)" "0 < mp_min_port mp"
      "decimal_value hi = unat (mp_max_port mp)"
      using 2(2,3) by (auto simp: parse_port_iff word_gt_0)
    then show ?thesis using split_host_service_cases [OF 2(1)] 2(4) Inr by auto
  qed
qed


lemma multiport_refuses_rest_witness:
  "case parse_multiport ''vps:29900-29990'' of Inl e \<Rightarrow> \<exists>message. e = Runtime_error message
   | Inr mp \<Rightarrow> 0 < mp_min_port mp \<and> mp_min_port mp \<le> mp_max_port mp"
  using multiport_refuses_rest [of "''vps:29900-29990''"] by (auto split: sum.splits)

end
