(* ===== verification/Kcp_Transport.thy ===== *)
theory Kcp_Transport
  imports Utils Stats Fec Crypto
begin

text \<open>
  \<open>kcp_transport.cpp\<close>: a \<open>KcpTransport\<close> joins the KCP state machine, the packet encryption
  and the forward error correction, and paces the datagrams it sends.

  \<open>ikcp\<close> is a C library outside the repository: its control block is the type \<open>'k\<close> and its
  functions are the fields of \<open>transport_lib\<close>. \<open>ikcp_flush\<close> and \<open>ikcp_update\<close> return the
  buffers they pass to the output callback, in order; the callback (\<open>send_udp\<close>) does not
  call back into \<open>ikcp\<close>. The read handler gets the user state \<open>'w\<close> and answers with the
  calls it makes on the transport. Calls of sockets and timers are appended to
  \<open>kt_effects\<close>; an operation reads the clock once (\<open>now\<close>, nanoseconds).
\<close>

section \<open>State\<close>

datatype transport_effect =
    Send_to bytes
  | Update_timer_start int
  | Update_timer_cancel
  | Rate_timer_start int
  | Rate_timer_cancel
  | Run_close_handler
  | Transport_warn string

datatype transport_call = Call_send bytes | Call_close

record 'k transport_lib =
  tl_create :: "u32 \<Rightarrow> 'k option"
  tl_nodelay :: "int \<Rightarrow> int \<Rightarrow> int \<Rightarrow> int \<Rightarrow> 'k \<Rightarrow> 'k"
  tl_wndsize :: "int \<Rightarrow> int \<Rightarrow> 'k \<Rightarrow> 'k"
  tl_setmtu :: "int \<Rightarrow> 'k \<Rightarrow> int \<times> 'k"
  tl_set_stream :: "'k \<Rightarrow> 'k"
  tl_input :: "bytes \<Rightarrow> 'k \<Rightarrow> int \<times> 'k"
  tl_send :: "bytes \<Rightarrow> 'k \<Rightarrow> int \<times> 'k"
  tl_peeksize :: "'k \<Rightarrow> int"
  tl_recv :: "int \<Rightarrow> 'k \<Rightarrow> int \<times> bytes \<times> 'k"
  tl_flush :: "'k \<Rightarrow> bytes list \<times> 'k"
  tl_update :: "u32 \<Rightarrow> 'k \<Rightarrow> bytes list \<times> 'k"
  tl_crypto :: crypto_lib
  tl_random :: "nat \<Rightarrow> nat \<Rightarrow> bytes"

type_synonym 'w reader = "int \<Rightarrow> bytes \<Rightarrow> 'w \<Rightarrow> transport_call list \<times> 'w"

record ('k, 'w) kcp_transport =
  kt_remote :: endpoint
  kt_conv :: u32
  kt_config :: base_config
  kt_crypt :: packet_crypt
  kt_fec :: fec_codec
  kt_has_close_handler :: bool
  kt_read_handler :: "'w reader option"
  kt_kcp :: 'k
  kt_pending_udp :: "bytes list"
  kt_next_tx_time :: int
  kt_rate_send_active :: bool
  kt_closing :: bool
  kt_snmp :: snmp
  kt_draws :: nat
  kt_effects :: "transport_effect list"
  kt_user :: 'w

definition note_effect :: "transport_effect \<Rightarrow> ('k, 'w) kcp_transport \<Rightarrow> ('k, 'w) kcp_transport" where
  "note_effect e t = t \<lparr> kt_effects := kt_effects t @ [e] \<rparr>"

definition count :: "snmp_field \<Rightarrow> nat \<Rightarrow> ('k, 'w) kcp_transport \<Rightarrow> ('k, 'w) kcp_transport" where
  "count f n t = t \<lparr> kt_snmp := snmp_add f (of_nat n) (kt_snmp t) \<rparr>"

section \<open>Segments\<close>

text \<open>The loop of \<open>count_kcp_segments\<close> from \<open>offset\<close>; each round moves past one header.\<close>

function count_segments :: "bytes \<Rightarrow> nat \<Rightarrow> nat \<Rightarrow> nat" where
  "count_segments packet offset n =
     (if length packet < offset + 24 then n
      else
        let offset = offset + 24 + unat (read_le32 packet (offset + 20))
        in if offset > length packet then n + 1 else count_segments packet offset (n + 1))"
  by pat_completeness auto
termination by (relation "measure (\<lambda>(packet, offset, _). length packet + 1 - offset)") auto

declare count_segments.simps [simp del]

definition count_kcp_segments :: "bytes \<Rightarrow> nat" where
  "count_kcp_segments packet = count_segments packet 0 0"

section \<open>Construction\<close>

definition configure_kcp :: "'k transport_lib \<Rightarrow> ('k, 'w) kcp_transport \<Rightarrow> ('k, 'w) kcp_transport result" where
  "configure_kcp lib t =
     (let config = kt_config t;
          too_small = Runtime_error ''mtu is too small after Shimakaze packet overhead is reserved'';
          k = tl_nodelay lib (cfg_nodelay config) (cfg_interval config) (cfg_resend config) (cfg_nc config) (kt_kcp t);
          k = tl_wndsize lib (cfg_sndwnd config) (cfg_rcvwnd config) k
      in case int_add (cfg_mtu config) (- int (pc_overhead (kt_crypt t) + fec_overhead (kt_fec t))) of
           Inl e \<Rightarrow> Inl e
         | Inr kcp_mtu \<Rightarrow>
             if kcp_mtu < 50 then Inl too_small
             else
               let (failed, k) = tl_setmtu lib kcp_mtu k
               in if failed \<noteq> 0 then Inl too_small else Inr (t \<lparr> kt_kcp := tl_set_stream lib k \<rparr>))"

definition make_kcp_transport ::
  "'k transport_lib \<Rightarrow> endpoint \<Rightarrow> u32 \<Rightarrow> base_config \<Rightarrow> bool \<Rightarrow> snmp \<Rightarrow> nat \<Rightarrow> 'w \<Rightarrow> ('k, 'w) kcp_transport result" where
  "make_kcp_transport lib remote conv config close_handler counters draws user =
     (case make_packet_crypt (tl_crypto lib) config of
        Inl e \<Rightarrow> Inl e
      | Inr crypt \<Rightarrow>
          (case make_fec_codec config of
             Inl e \<Rightarrow> Inl e
           | Inr fec \<Rightarrow>
               (case tl_create lib conv of
                  None \<Rightarrow> Inl (Runtime_error ''ikcp_create failed'')
                | Some kcp \<Rightarrow>
                    configure_kcp lib
                      \<lparr> kt_remote = remote, kt_conv = conv, kt_config = config, kt_crypt = crypt, kt_fec = fec,
                        kt_has_close_handler = close_handler, kt_read_handler = None, kt_kcp = kcp,
                        kt_pending_udp = [], kt_next_tx_time = 0, kt_rate_send_active = False, kt_closing = False,
                        kt_snmp = counters, kt_draws = draws, kt_effects = [], kt_user = user \<rparr>)))"

definition set_read_handler :: "'w reader \<Rightarrow> ('k, 'w) kcp_transport \<Rightarrow> ('k, 'w) kcp_transport" where
  "set_read_handler handler t = t \<lparr> kt_read_handler := Some handler \<rparr>"

definition start_update_timer :: "('k, 'w) kcp_transport \<Rightarrow> ('k, 'w) kcp_transport" where
  "start_update_timer t =
     (if kt_closing t then t else note_effect (Update_timer_start (max 1 (cfg_interval (kt_config t)))) t)"

definition start_transport :: "('k, 'w) kcp_transport \<Rightarrow> ('k, 'w) kcp_transport" where
  "start_transport t = start_update_timer t"

definition close_transport :: "('k, 'w) kcp_transport \<Rightarrow> ('k, 'w) kcp_transport" where
  "close_transport t =
     (if kt_closing t then t
      else
        let t = note_effect Rate_timer_cancel (note_effect Update_timer_cancel (t \<lparr> kt_closing := True \<rparr>))
        in if kt_has_close_handler t then note_effect Run_close_handler t else t)"

section \<open>Datagrams\<close>

definition schedule_rate_limited_send :: "int \<Rightarrow> ('k, 'w) kcp_transport \<Rightarrow> ('k, 'w) kcp_transport" where
  "schedule_rate_limited_send now t =
     (if kt_closing t \<or> kt_rate_send_active t \<or> kt_pending_udp t = [] then t
      else
        let t = t \<lparr> kt_rate_send_active := True,
                    kt_next_tx_time := (if kt_next_tx_time t < now then now else kt_next_tx_time t) \<rparr>
        in note_effect (Rate_timer_start (kt_next_tx_time t)) t)"

text \<open>
  The handler of the rate timer. The quotient of two integers below \<open>2^36\<close> and \<open>2^31\<close> is
  truncated from a \<open>long double\<close> or \<open>double\<close>, whose rounding cannot reach the next integer.
\<close>

definition rate_delay_us :: "int \<Rightarrow> nat \<Rightarrow> int" where
  "rate_delay_us ratelimit n = max 1 (int n * 1000000 div max 1 ratelimit)"

definition rate_timer_handler :: "bool \<Rightarrow> int \<Rightarrow> ('k, 'w) kcp_transport \<Rightarrow> ('k, 'w) kcp_transport" where
  "rate_timer_handler failed now t =
     (let t = t \<lparr> kt_rate_send_active := False \<rparr>
      in if failed \<or> kt_closing t \<or> kt_pending_udp t = [] then t
         else
           let payload = hd (kt_pending_udp t);
               t = t \<lparr> kt_pending_udp := tl (kt_pending_udp t),
                       kt_next_tx_time := max (kt_next_tx_time t) now +
                         1000 * rate_delay_us (cfg_ratelimit (kt_config t)) (length payload) \<rparr>
           in schedule_rate_limited_send now (note_effect (Send_to payload) t))"

definition enqueue_udp_packet :: "int \<Rightarrow> bytes \<Rightarrow> ('k, 'w) kcp_transport \<Rightarrow> ('k, 'w) kcp_transport" where
  "enqueue_udp_packet now payload t =
     (if cfg_ratelimit (kt_config t) \<le> 0 then note_effect (Send_to payload) t
      else schedule_rate_limited_send now (t \<lparr> kt_pending_udp := kt_pending_udp t @ [payload] \<rparr>))"

text \<open>The completion of \<open>async_send_to\<close>.\<close>

definition sent_handler :: "bool \<Rightarrow> nat \<Rightarrow> ('k, 'w) kcp_transport \<Rightarrow> ('k, 'w) kcp_transport" where
  "sent_handler failed n t = (if failed then t else count Out_bytes n (count Out_pkts 1 t))"

text \<open>The loop over the packets of the FEC encoder.\<close>

fun send_packets :: "'k transport_lib \<Rightarrow> int \<Rightarrow> bytes list \<Rightarrow> ('k, 'w) kcp_transport \<Rightarrow> ('k, 'w) kcp_transport" where
  "send_packets lib now [] t = t"
| "send_packets lib now (packet # packets) t =
     (case pc_encrypt (tl_crypto lib) (tl_random lib (kt_draws t)) (kt_crypt t) packet of
        Inl e \<Rightarrow> close_transport (note_effect (Transport_warn ''packet encryption failed'') t)
      | Inr payload \<Rightarrow>
          send_packets lib now packets (enqueue_udp_packet now payload (t \<lparr> kt_draws := kt_draws t + 1 \<rparr>)))"

definition send_udp :: "'k transport_lib \<Rightarrow> int \<Rightarrow> ('k, 'w) kcp_transport \<Rightarrow> bytes \<Rightarrow> ('k, 'w) kcp_transport" where
  "send_udp lib now t buffer =
     (if kt_closing t \<or> buffer = [] then t
      else
        let t = count Out_segs (count_kcp_segments buffer) t;
            (packets, fec) = fec_encode (int (unat (current_millis (nat now)))) buffer (kt_fec t)
        in send_packets lib now packets (t \<lparr> kt_fec := fec \<rparr>))"

text \<open>The output callback runs once for every buffer.\<close>

definition run_output ::
  "'k transport_lib \<Rightarrow> int \<Rightarrow> bytes list \<times> 'k \<Rightarrow> ('k, 'w) kcp_transport \<Rightarrow> ('k, 'w) kcp_transport" where
  "run_output lib now r t = foldl (send_udp lib now) (t \<lparr> kt_kcp := snd r \<rparr>) (fst r)"

section \<open>Sending\<close>

text \<open>The loop of \<open>send\<close>; the flag tells whether all bytes were taken.\<close>

function send_loop :: "'k transport_lib \<Rightarrow> bytes \<Rightarrow> 'k \<Rightarrow> bool \<times> int \<times> 'k" where
  "send_loop lib bytes k =
     (if bytes = [] then (True, 0, k)
      else
        let (r, k) = tl_send lib bytes k
        in if r \<le> 0 then (False, r, k) else send_loop lib (drop (nat r) bytes) k)"
  by pat_completeness auto
termination by (relation "measure (\<lambda>(_, bytes, _). length bytes)") (auto simp: length_greater_0_conv [symmetric] simp del: length_greater_0_conv)

declare send_loop.simps [simp del]

definition transport_send :: "'k transport_lib \<Rightarrow> int \<Rightarrow> bytes \<Rightarrow> ('k, 'w) kcp_transport \<Rightarrow> ('k, 'w) kcp_transport" where
  "transport_send lib now bytes t =
     (if kt_closing t \<or> bytes = [] then t
      else
        let t = count Bytes_sent (length bytes) t;
            (complete, r, k) = send_loop lib bytes (kt_kcp t);
            t = t \<lparr> kt_kcp := k \<rparr>
        in if \<not> complete then note_effect (Transport_warn ''ikcp_send failed'') t
           else run_output lib now (tl_flush lib (kt_kcp t)) t)"

fun run_call :: "'k transport_lib \<Rightarrow> int \<Rightarrow> ('k, 'w) kcp_transport \<Rightarrow> transport_call \<Rightarrow> ('k, 'w) kcp_transport" where
  "run_call lib now t (Call_send bytes) = transport_send lib now bytes t"
| "run_call lib now t Call_close = close_transport t"

section \<open>Receiving\<close>

definition run_read_handler ::
  "'k transport_lib \<Rightarrow> int \<Rightarrow> bytes \<Rightarrow> ('k, 'w) kcp_transport \<Rightarrow> ('k, 'w) kcp_transport" where
  "run_read_handler lib now data t =
     (case kt_read_handler t of
        None \<Rightarrow> t
      | Some handler \<Rightarrow>
          let (calls, user) = handler now data (kt_user t)
          in foldl (run_call lib now) (t \<lparr> kt_user := user \<rparr>) calls)"

text \<open>A round of the loop of \<open>drain_kcp\<close>: \<open>None\<close> leaves the loop with the control block.\<close>

definition drain_round ::
  "'k transport_lib \<Rightarrow> int \<Rightarrow> ('k, 'w) kcp_transport \<Rightarrow> ('k, 'w) kcp_transport + ('k, 'w) kcp_transport" where
  "drain_round lib now t =
     (if kt_closing t \<or> tl_peeksize lib (kt_kcp t) \<le> 0 then Inl t
      else
        let (received, buffer, k) = tl_recv lib (tl_peeksize lib (kt_kcp t)) (kt_kcp t);
            t = t \<lparr> kt_kcp := k \<rparr>
        in if received \<le> 0 then Inl t
           else
             let data = take (nat received) buffer
             in Inr (run_read_handler lib now data (count Bytes_received (length data) t)))"

partial_function (option) drain_kcp ::
  "'k transport_lib \<Rightarrow> int \<Rightarrow> ('k, 'w) kcp_transport \<Rightarrow> ('k, 'w) kcp_transport option" where
  "drain_kcp lib now t =
     (case drain_round lib now t of Inl t \<Rightarrow> Some t | Inr t \<Rightarrow> drain_kcp lib now t)"

fun feed_packets ::
  "'k transport_lib \<Rightarrow> int \<Rightarrow> bytes list \<Rightarrow> ('k, 'w) kcp_transport \<Rightarrow> ('k, 'w) kcp_transport option" where
  "feed_packets lib now [] t = Some t"
| "feed_packets lib now (packet # packets) t =
     (let t = count In_segs (count_kcp_segments packet) t;
          (r, k) = tl_input lib packet (kt_kcp t);
          t = t \<lparr> kt_kcp := k \<rparr>
      in if r < 0 then
           feed_packets lib now packets (note_effect (Transport_warn ''ikcp_input failed'') (count Kcp_in_errors 1 t))
         else
           case drain_kcp lib now t of None \<Rightarrow> None | Some t \<Rightarrow> feed_packets lib now packets t)"

text \<open>\<open>None\<close> is a call that does not return, \<open>Inl\<close> one that throws.\<close>

definition transport_input ::
  "'k transport_lib \<Rightarrow> int \<Rightarrow> bytes \<Rightarrow> ('k, 'w) kcp_transport \<Rightarrow> ('k, 'w) kcp_transport result option" where
  "transport_input lib now packet t =
     (if kt_closing t \<or> packet = [] then Some (Inr t)
      else
        case fec_decode packet (kt_fec t) (kt_snmp t) of
          Inl e \<Rightarrow> Some (Inl e)
        | Inr (packets, fec, counters) \<Rightarrow>
            (case feed_packets lib now packets (t \<lparr> kt_fec := fec, kt_snmp := counters \<rparr>) of
               None \<Rightarrow> None
             | Some t \<Rightarrow>
                 Some (Inr (if cfg_acknodelay (kt_config t) then run_output lib now (tl_flush lib (kt_kcp t)) t else t))))"

definition update_kcp ::
  "'k transport_lib \<Rightarrow> int \<Rightarrow> ('k, 'w) kcp_transport \<Rightarrow> ('k, 'w) kcp_transport option" where
  "update_kcp lib now t =
     (if kt_closing t then Some t
      else
        case drain_kcp lib now (run_output lib now (tl_update lib (current_millis (nat now)) (kt_kcp t)) t) of
          None \<Rightarrow> None
        | Some t \<Rightarrow> Some (start_update_timer t))"

end
