(* ===== verification/Kcp_Delivery.thy ===== *)
theory Kcp_Delivery
  imports Kcp_Transport
begin

text \<open>
  What a \<open>KcpTransport\<close> guarantees: its datagrams fit the configured MTU and carry every KCP
  packet to the peer, its receive loop ends, and the rate limiter keeps order and rate.
\<close>

section \<open>Documented behaviour of ikcp\<close>

text \<open>
  \<open>mtu\<close> is the size set by \<open>ikcp_setmtu\<close>, which bounds every buffer given to the output
  callback, and \<open>backlog\<close> the data received and not yet read: only \<open>ikcp_recv\<close> takes from it,
  only \<open>ikcp_input\<close> adds to it.
\<close>

definition keeps :: "('k \<Rightarrow> 'a) \<Rightarrow> ('k \<Rightarrow> 'k) \<Rightarrow> bool" where
  "keeps obs f \<longleftrightarrow> (\<forall>k. obs (f k) = obs k)"

definition kcp_documented :: "'k transport_lib \<Rightarrow> ('k \<Rightarrow> int) \<Rightarrow> ('k \<Rightarrow> nat) \<Rightarrow> bool" where
  "kcp_documented lib mtu backlog \<longleftrightarrow>
     (\<forall>m k k'. tl_setmtu lib m k = (0, k') \<longrightarrow> mtu k' = m) \<and>
     keeps mtu (tl_set_stream lib) \<and>
     (\<forall>p. keeps mtu (\<lambda>k. snd (tl_input lib p k))) \<and> (\<forall>b. keeps mtu (\<lambda>k. snd (tl_send lib b k))) \<and>
     (\<forall>n. keeps mtu (\<lambda>k. snd (snd (tl_recv lib n k)))) \<and>
     keeps mtu (\<lambda>k. snd (tl_flush lib k)) \<and> (\<forall>now. keeps mtu (\<lambda>k. snd (tl_update lib now k))) \<and>
     (\<forall>k. \<forall>p \<in> set (fst (tl_flush lib k)). int (length p) \<le> mtu k) \<and>
     (\<forall>now k. \<forall>p \<in> set (fst (tl_update lib now k)). int (length p) \<le> mtu k) \<and>
     (\<forall>b. keeps backlog (\<lambda>k. snd (tl_send lib b k))) \<and> keeps backlog (\<lambda>k. snd (tl_flush lib k)) \<and>
     (\<forall>n k r buf k'. tl_recv lib n k = (r, buf, k') \<and> 0 < r \<longrightarrow> backlog k' < backlog k)"

definition crypto_documented :: "'k transport_lib \<Rightarrow> bool" where
  "crypto_documented lib \<longleftrightarrow> gcm_documented (tl_crypto lib) \<and> (\<forall>i. random_block (tl_random lib i))"

section \<open>Lengths of FEC packets\<close>

lemma fec_encode_bounds:
  assumes "fec_inv c" "fec_encode now p c = (packets, c')"
    and "length p \<le> m" "fec_max_shard_len c \<le> m + 2"
  shows "(\<forall>q \<in> set packets. length q \<le> m + 8) \<and> fec_max_shard_len c' \<le> m + 2"
proof -
  have inv: "fec_static c" "fec_encoder_ok c" using assms(1) by (auto simp: fec_inv_def)
  consider "Suc (fec_shard_count c) \<noteq> fec_data_shards c"
    | "Suc (fec_shard_count c) = fec_data_shards c" "fec_latest_packet_ms c = 0 \<or> \<not> now - fec_latest_packet_ms c < max_fec_encode_latency_ms"
    | "Suc (fec_shard_count c) = fec_data_shards c" "fec_latest_packet_ms c \<noteq> 0" "now - fec_latest_packet_ms c < max_fec_encode_latency_ms"
    by blast
  then show ?thesis
  proof cases
    case 1
    then show ?thesis using fec_encode_partial [OF inv] assms(2-4) by auto
  next
    case 2
    then show ?thesis using fec_encode_skipped [OF inv] assms(2-4) by auto
  next
    case 3
    let ?len = "max (fec_max_shard_len c) (length p + 2)"
    let ?shards = "map (resize ?len 0) ((fec_encode_shards c)[fec_shard_count c := fec_shard p])"
    let ?parity = "rs_encode (the (fec_rs c)) ?shards (replicate (fec_parity_shards c) (replicate ?len 0))"
    have "uniform ?len ?shards" "uniform ?len (replicate (fec_parity_shards c) (replicate ?len 0))"
      by (auto simp: uniform_def)
    then have "uniform ?len ?parity" "length ?parity = fec_parity_shards c"
      using rs_encode_shape [of "replicate (fec_parity_shards c) (replicate ?len 0)" "the (fec_rs c)" ?len ?shards]
        fec_rs_fields [OF inv(1)] inv(2) by (simp_all add: fec_encoder_ok_def)
    then have "\<forall>i < fec_parity_shards c. length (?parity ! i) = ?len" by (simp add: uniform_nth)
    then show ?thesis using fec_encode_last [OF inv 3] assms(2-4) by auto
  qed
qed

lemma fec_decode_keeps:
  assumes "fec_inv c" "fec_decode p c s = Inr (out, c', s')"
  shows "fec_max_shard_len c' = fec_max_shard_len c \<and> fec_enabled c' = fec_enabled c"
proof -
  have c: "fec_static c" "fec_decoder_ok c" using assms(1) by (auto simp: fec_inv_def)
  show ?thesis
  proof (cases "8 \<le> length p \<and> packet_flag p \<in> {fec_type_data, fec_type_parity} \<and> packet_seq p < fec_paws c")
    case True
    then have "8 \<le> length p" "packet_flag p \<in> {fec_type_data, fec_type_parity}" "packet_seq p < fec_paws c" by auto
    from fec_decode_shard [OF c this, of s] show ?thesis using assms(2) by auto
  next
    case False
    then show ?thesis using assms(2)
      by (auto simp: fec_decode_def Let_def fec_header_size_plus_size_def split: if_splits)
  qed
qed

lemma fec_disabled:
  "\<not> fec_enabled c \<Longrightarrow> fec_encode now p c = ([p], c)" "\<not> fec_enabled c \<Longrightarrow> fec_decode p c s = Inr ([p], c, s)"
  by (simp_all add: fec_encode_def fec_decode_def)

text \<open>With or without FEC.\<close>

lemma fec_encode_reachable:
  assumes "fec_reachable config c" "fec_encode now p c = (packets, c')"
    and "length p \<le> m" "fec_max_shard_len c \<le> m + 2"
  shows "fec_reachable config c' \<and> fec_overhead c' = fec_overhead c \<and> fec_max_shard_len c' \<le> m + 2 \<and>
    (\<forall>q \<in> set packets. length q \<le> m + fec_overhead c)"
proof (cases "fec_enabled c")
  case True
  have inv: "fec_inv c" by (rule fec_reachable_inv [OF assms(1) True])
  have "fec_enabled c'" using fec_inv_encode [OF inv assms(2)] by (simp add: fec_inv_def fec_static_def)
  then show ?thesis
    using fec_encode_bounds [OF inv assms(2-4)] True fec_reachable.encoded [OF assms(1,2)]
    by (simp add: fec_overhead_def fec_header_size_plus_size_def)
next
  case False
  then show ?thesis using assms by (auto simp: fec_disabled fec_overhead_def)
qed

lemma fec_decode_reachable:
  assumes "fec_reachable config c"
  obtains out c' s' where "fec_decode p c s = Inr (out, c', s')" "fec_reachable config c'"
    "fec_overhead c' = fec_overhead c" "fec_max_shard_len c' = fec_max_shard_len c"
proof (cases "fec_enabled c")
  case True
  have inv: "fec_inv c" by (rule fec_reachable_inv [OF assms(1) True])
  obtain out c' s' where d: "fec_decode p c s = Inr (out, c', s')" using fec_decode_ok [OF inv] by blast
  then show ?thesis using that fec_decode_keeps [OF inv d] fec_reachable.decoded [OF assms d] by (simp add: fec_overhead_def)
next
  case False
  then show ?thesis using that assms by (simp add: fec_disabled)
qed

section \<open>The transport's invariant\<close>

definition udp_packets :: "('k, 'w) kcp_transport \<Rightarrow> bytes set" where
  "udp_packets t = set (kt_pending_udp t) \<union> {d. Send_to d \<in> set (kt_effects t)}"

definition kt_inv :: "'k transport_lib \<Rightarrow> ('k \<Rightarrow> int) \<Rightarrow> base_config \<Rightarrow> ('k, 'w) kcp_transport \<Rightarrow> bool" where
  "kt_inv lib mtu config t \<longleftrightarrow>
     kt_config t = config \<and> make_packet_crypt (tl_crypto lib) config = Inr (kt_crypt t) \<and>
     fec_reachable config (kt_fec t) \<and>
     mtu (kt_kcp t) + int (pc_overhead (kt_crypt t) + fec_overhead (kt_fec t)) = cfg_mtu config \<and>
     50 \<le> mtu (kt_kcp t) \<and> int (fec_max_shard_len (kt_fec t)) \<le> mtu (kt_kcp t) + 2 \<and>
     (\<forall>d \<in> udp_packets t. int (length d) \<le> cfg_mtu config) \<and>
     (cfg_ratelimit config \<le> 0 \<longrightarrow> kt_pending_udp t = [])"

text \<open>A change of the transport that touches neither codec nor MTU.\<close>

definition minor :: "('k \<Rightarrow> int) \<Rightarrow> ('k, 'w) kcp_transport \<Rightarrow> ('k, 'w) kcp_transport \<Rightarrow> bool" where
  "minor mtu t t' \<longleftrightarrow> kt_config t' = kt_config t \<and> kt_crypt t' = kt_crypt t \<and> kt_fec t' = kt_fec t \<and>
     mtu (kt_kcp t') = mtu (kt_kcp t) \<and> udp_packets t' \<subseteq> udp_packets t \<and>
     (kt_pending_udp t = [] \<longrightarrow> kt_pending_udp t' = [])"

lemma kt_inv_minor: "kt_inv lib mtu config t \<Longrightarrow> minor mtu t t' \<Longrightarrow> kt_inv lib mtu config t'"
  by (auto simp: kt_inv_def minor_def)

lemma minor_trans: "minor mtu t u \<Longrightarrow> minor mtu u v \<Longrightarrow> minor mtu t v"
  by (auto simp: minor_def)

lemma minor_basic:
  "(\<forall>d. e \<noteq> Send_to d) \<Longrightarrow> minor mtu t (note_effect e t)" "minor mtu t (count f n t)"
  "mtu k = mtu (kt_kcp t) \<Longrightarrow> minor mtu t (t \<lparr> kt_kcp := k \<rparr>)" "minor mtu t (t \<lparr> kt_draws := n \<rparr>)"
  "minor mtu t (t \<lparr> kt_user := u \<rparr>)"
  by (auto simp: minor_def note_effect_def count_def udp_packets_def)

lemma minor_close: "minor mtu t (close_transport t)"
  by (auto simp: minor_def close_transport_def note_effect_def udp_packets_def Let_def)

lemma minor_schedule: "minor mtu t (schedule_rate_limited_send now t)"
  by (auto simp: minor_def schedule_rate_limited_send_def note_effect_def udp_packets_def Let_def)

lemma minor_rate_timer: "minor mtu t (rate_timer_handler failed now t)"
proof (cases "failed \<or> kt_closing t \<or> kt_pending_udp t = []")
  case True
  then show ?thesis by (auto simp: rate_timer_handler_def minor_def udp_packets_def)
next
  case False
  define u where "u = note_effect (Send_to (hd (kt_pending_udp t))) (t \<lparr> kt_rate_send_active := False,
      kt_pending_udp := tl (kt_pending_udp t), kt_next_tx_time := max (kt_next_tx_time t) now +
        1000 * rate_delay_us (cfg_ratelimit (kt_config t)) (length (hd (kt_pending_udp t))) \<rparr>)"
  have "minor mtu t u"
    using False list.set_sel [of "kt_pending_udp t"] by (auto simp: u_def minor_def note_effect_def udp_packets_def)
  moreover have "rate_timer_handler failed now t = schedule_rate_limited_send now u"
    using False by (simp add: rate_timer_handler_def u_def Let_def)
  ultimately show ?thesis using minor_trans minor_schedule by metis
qed

lemma minor_update_timer: "minor mtu t (start_update_timer t)"
  by (auto simp: start_update_timer_def minor_basic) (simp add: minor_def)

lemma minor_sent: "minor mtu t (sent_handler failed n t)"
  by (auto simp: minor_def sent_handler_def count_def udp_packets_def)

lemma kt_inv_enqueue:
  assumes "kt_inv lib mtu config t" "int (length d) \<le> cfg_mtu config"
  shows "kt_inv lib mtu config (enqueue_udp_packet now d t)"
proof -
  have config: "kt_config t = config" using assms(1) by (simp add: kt_inv_def)
  have "kt_inv lib mtu config (note_effect (Send_to d) t)"
    "\<not> cfg_ratelimit config \<le> 0 \<Longrightarrow> kt_inv lib mtu config (t \<lparr> kt_pending_udp := kt_pending_udp t @ [d] \<rparr>)"
    using assms by (auto simp: kt_inv_def udp_packets_def note_effect_def)
  then show ?thesis
    using kt_inv_minor [where t' = "schedule_rate_limited_send now (t \<lparr> kt_pending_udp := kt_pending_udp t @ [d] \<rparr>)", OF _ minor_schedule]
    by (simp add: enqueue_udp_packet_def config)
qed

lemma kt_inv_send_packets:
  assumes "crypto_documented lib" "int_range (cfg_mtu config)" "kt_inv lib mtu config t"
    and "\<forall>p \<in> set packets. int (length p + pc_overhead (kt_crypt t)) \<le> cfg_mtu config"
  shows "kt_inv lib mtu config (send_packets lib now packets t)"
  using assms(3,4)
proof (induction packets arbitrary: t)
  case Nil
  then show ?case by simp
next
  case (Cons p packets)
  have lib: "random_block (tl_random lib (kt_draws t))" "gcm_documented (tl_crypto lib)"
    using assms(1) by (auto simp: crypto_documented_def)
  have "length p \<le> 2147483647" using Cons(3) assms(2) by (auto simp: int_range_def)
  then obtain c where c: "pc_encrypt (tl_crypto lib) (tl_random lib (kt_draws t)) (kt_crypt t) p = Inr c"
    "length c = length p + pc_overhead (kt_crypt t)"
    using pc_roundtrip [OF lib] by blast
  let ?t = "enqueue_udp_packet now c (t \<lparr> kt_draws := kt_draws t + 1 \<rparr>)"
  have "kt_inv lib mtu config ?t"
    using Cons(2,3) c(2) kt_inv_minor [OF Cons(2) minor_basic(4)] by (intro kt_inv_enqueue) auto
  moreover have "kt_crypt ?t = kt_crypt t"
    by (simp add: enqueue_udp_packet_def note_effect_def schedule_rate_limited_send_def Let_def)
  ultimately show ?case using Cons c by simp
qed

lemma kcp_untouched [simp]:
  "kt_kcp (note_effect e t) = kt_kcp t" "kt_kcp (count f n t) = kt_kcp t" "kt_kcp (close_transport t) = kt_kcp t"
  "kt_kcp (schedule_rate_limited_send now t) = kt_kcp t" "kt_kcp (enqueue_udp_packet now d t) = kt_kcp t"
  by (simp_all add: note_effect_def count_def close_transport_def schedule_rate_limited_send_def
      enqueue_udp_packet_def Let_def)

lemma kcp_send_packets [simp]: "kt_kcp (send_packets lib now packets t) = kt_kcp t"
  by (induction lib now packets t rule: send_packets.induct) (auto split: sum.split)

lemma kcp_send_udp [simp]: "kt_kcp (send_udp lib now t p) = kt_kcp t"
  by (simp add: send_udp_def Let_def split: prod.split)

lemma kt_inv_send_udp:
  assumes lib: "crypto_documented lib" "int_range (cfg_mtu config)" and inv: "kt_inv lib mtu config t"
    and p: "int (length p) \<le> mtu (kt_kcp t)"
  shows "kt_inv lib mtu config (send_udp lib now t p)"
proof (cases "kt_closing t \<or> p = []")
  case True
  then show ?thesis using inv by (simp add: send_udp_def)
next
  case False
  let ?t = "count Out_segs (count_kcp_segments p) t"
  obtain packets fec where enc: "fec_encode (int (unat (current_millis (nat now)))) p (kt_fec t) = (packets, fec)" by fastforce
  have fields: "kt_fec ?t = kt_fec t" "kt_crypt ?t = kt_crypt t" by (simp_all add: count_def)
  have inv': "kt_inv lib mtu config ?t" by (rule kt_inv_minor [OF inv minor_basic(2)])
  let ?m = "nat (mtu (kt_kcp t))"
  have "fec_reachable config fec \<and> fec_overhead fec = fec_overhead (kt_fec t) \<and> fec_max_shard_len fec \<le> ?m + 2 \<and>
      (\<forall>q \<in> set packets. length q \<le> ?m + fec_overhead (kt_fec t))"
    using inv p by (intro fec_encode_reachable [OF _ enc]) (auto simp: kt_inv_def)
  then have "kt_inv lib mtu config (?t \<lparr> kt_fec := fec \<rparr>)"
    and sizes: "\<forall>q \<in> set packets. int (length q + pc_overhead (kt_crypt t)) \<le> cfg_mtu config"
    using inv' inv by (auto simp: kt_inv_def udp_packets_def fields)
  then have "kt_inv lib mtu config (send_packets lib now packets (?t \<lparr> kt_fec := fec \<rparr>))"
    by (intro kt_inv_send_packets [OF lib]) (simp_all add: fields)
  then show ?thesis using False enc by (simp add: send_udp_def fields Let_def)
qed

lemma kt_inv_run_output:
  assumes lib: "crypto_documented lib" "int_range (cfg_mtu config)" and inv: "kt_inv lib mtu config t"
    and r: "mtu (snd r) = mtu (kt_kcp t)" "\<forall>p \<in> set (fst r). int (length p) \<le> mtu (kt_kcp t)"
  shows "kt_inv lib mtu config (run_output lib now r t) \<and> kt_kcp (run_output lib now r t) = snd r"
proof -
  have "kt_inv lib mtu config (foldl (send_udp lib now) u ps) \<and> kt_kcp (foldl (send_udp lib now) u ps) = kt_kcp u"
    if "kt_inv lib mtu config u" "\<forall>p \<in> set ps. int (length p) \<le> mtu (kt_kcp u)" for u ps
    using that by (induction ps arbitrary: u) (auto simp: kt_inv_send_udp [OF lib])
  moreover have "kt_inv lib mtu config (t \<lparr> kt_kcp := snd r \<rparr>)" by (rule kt_inv_minor [OF inv minor_basic(3) [OF r(1)]])
  ultimately show ?thesis using r unfolding run_output_def by fastforce
qed

section \<open>Calls on the transport\<close>

lemma keepsD: "keeps obs f \<Longrightarrow> obs (f k) = obs k"
  by (simp add: keeps_def)

lemma send_loop_keeps:
  assumes "\<forall>b. keeps obs (\<lambda>k. snd (tl_send lib b k))"
  shows "obs (snd (snd (send_loop lib bytes k))) = obs k"
  using assms
proof (induction lib bytes k rule: send_loop.induct)
  case (1 lib bytes k)
  obtain r k' where send: "tl_send lib bytes k = (r, k')" by fastforce
  then have "obs k' = obs k" using 1(2) by (metis keepsD snd_conv)
  then show ?case using 1 send by (simp add: send_loop.simps [of lib bytes k])
qed

lemma kcp_documentedD:
  assumes "kcp_documented lib mtu backlog"
  shows "\<forall>b. keeps mtu (\<lambda>k. snd (tl_send lib b k))" "\<forall>b. keeps backlog (\<lambda>k. snd (tl_send lib b k))"
    "mtu (snd (tl_input lib p k)) = mtu k" "mtu (snd (snd (tl_recv lib n k))) = mtu k"
    "mtu (snd (tl_flush lib k)) = mtu k" "mtu (snd (tl_update lib ms k)) = mtu k"
    "backlog (snd (tl_flush lib k)) = backlog k"
    "\<forall>p \<in> set (fst (tl_flush lib k)). int (length p) \<le> mtu k"
    "\<forall>p \<in> set (fst (tl_update lib ms k)). int (length p) \<le> mtu k"
    "tl_recv lib n k = (r, buf, k') \<Longrightarrow> 0 < r \<Longrightarrow> backlog k' < backlog k"
    "tl_setmtu lib m k = (0, k') \<Longrightarrow> mtu k' = m" "mtu (tl_set_stream lib k) = mtu k"
proof -
  note laws = assms [unfolded kcp_documented_def]
  show "\<forall>b. keeps mtu (\<lambda>k. snd (tl_send lib b k))" "\<forall>b. keeps backlog (\<lambda>k. snd (tl_send lib b k))"
    "mtu (snd (tl_input lib p k)) = mtu k" "mtu (snd (snd (tl_recv lib n k))) = mtu k"
    "mtu (snd (tl_flush lib k)) = mtu k" "mtu (snd (tl_update lib ms k)) = mtu k"
    "backlog (snd (tl_flush lib k)) = backlog k" "mtu (tl_set_stream lib k) = mtu k"
    "\<forall>p \<in> set (fst (tl_flush lib k)). int (length p) \<le> mtu k"
    "\<forall>p \<in> set (fst (tl_update lib ms k)). int (length p) \<le> mtu k"
    using laws by (simp_all add: keeps_def)
  show "tl_recv lib n k = (r, buf, k') \<Longrightarrow> 0 < r \<Longrightarrow> backlog k' < backlog k" using laws by simp
  have "\<forall>m k k'. tl_setmtu lib m k = (0, k') \<longrightarrow> mtu k' = m" using laws by simp
  then show "tl_setmtu lib m k = (0, k') \<Longrightarrow> mtu k' = m" by simp
qed

definition good :: "'k transport_lib \<Rightarrow> ('k \<Rightarrow> int) \<Rightarrow> ('k \<Rightarrow> nat) \<Rightarrow> base_config \<Rightarrow>
    ('k, 'w) kcp_transport \<Rightarrow> ('k, 'w) kcp_transport \<Rightarrow> bool" where
  "good lib mtu backlog config t t' \<longleftrightarrow>
     (kt_inv lib mtu config t \<longrightarrow> kt_inv lib mtu config t' \<and> backlog (kt_kcp t') \<le> backlog (kt_kcp t))"

lemma good_trans: "good lib mtu backlog config t u \<Longrightarrow> good lib mtu backlog config u v \<Longrightarrow> good lib mtu backlog config t v"
  by (auto simp: good_def)

lemma good_refl [simp]: "good lib mtu backlog config t t"
  by (simp add: good_def)

lemma good_minor: "minor mtu t t' \<Longrightarrow> kt_kcp t' = kt_kcp t \<Longrightarrow> good lib mtu backlog config t t'"
  by (auto simp: good_def kt_inv_minor)

lemma good_flush:
  assumes "kcp_documented lib mtu backlog" "crypto_documented lib" "int_range (cfg_mtu config)"
  shows "good lib mtu backlog config t (run_output lib now (tl_flush lib (kt_kcp t)) t)"
  unfolding good_def
proof
  assume inv: "kt_inv lib mtu config t"
  show "kt_inv lib mtu config (run_output lib now (tl_flush lib (kt_kcp t)) t) \<and>
      backlog (kt_kcp (run_output lib now (tl_flush lib (kt_kcp t)) t)) \<le> backlog (kt_kcp t)"
    using kt_inv_run_output [OF assms(2,3) inv kcp_documentedD(5,8) [OF assms(1)], of now]
    by (simp add: kcp_documentedD(7) [OF assms(1)])
qed

lemma good_send:
  assumes lib: "kcp_documented lib mtu backlog" "crypto_documented lib" "int_range (cfg_mtu config)"
  shows "good lib mtu backlog config t (transport_send lib now bytes t)"
proof (cases "kt_closing t \<or> bytes = []")
  case True
  then show ?thesis by (simp add: transport_send_def)
next
  case False
  obtain complete r k where loop: "send_loop lib bytes (kt_kcp t) = (complete, r, k)" by (metis prod.collapse)
  note law = kcp_documentedD [OF lib(1)]
  have k: "mtu k = mtu (kt_kcp t)" "backlog k = backlog (kt_kcp t)"
    using send_loop_keeps [OF law(1), of bytes "kt_kcp t"] send_loop_keeps [OF law(2), of bytes "kt_kcp t"] loop by simp_all
  let ?t = "(count Bytes_sent (length bytes) t) \<lparr> kt_kcp := k \<rparr>"
  have "good lib mtu backlog config t ?t"
    using kt_inv_minor [OF kt_inv_minor [OF _ minor_basic(2)] minor_basic(3)] k by (auto simp: good_def)
  moreover have "good lib mtu backlog config ?t (note_effect (Transport_warn m) ?t)" for m
    by (rule good_minor) (simp_all add: minor_basic)
  moreover note good_flush [OF lib, of ?t now]
  ultimately have "good lib mtu backlog config t (note_effect (Transport_warn ''ikcp_send failed'') ?t)"
    "good lib mtu backlog config t (run_output lib now (tl_flush lib (kt_kcp ?t)) ?t)"
    using good_trans by blast+
  then show ?thesis
    using loop unfolding transport_send_def Let_def if_not_P [OF False] by simp
qed

lemma good_close: "good lib mtu backlog config t (close_transport t)"
  by (simp add: good_minor minor_close)

lemma good_call:
  assumes "kcp_documented lib mtu backlog" "crypto_documented lib" "int_range (cfg_mtu config)"
  shows "good lib mtu backlog config t (run_call lib now t call)"
  using good_send [OF assms] good_close by (cases call) simp_all

lemma good_read_handler:
  assumes lib: "kcp_documented lib mtu backlog" "crypto_documented lib" "int_range (cfg_mtu config)"
  shows "good lib mtu backlog config t (run_read_handler lib now data t)"
proof (cases "kt_read_handler t")
  case None
  then show ?thesis by (simp add: run_read_handler_def)
next
  case (Some handler)
  obtain calls user where h: "handler now data (kt_user t) = (calls, user)" by fastforce
  have "good lib mtu backlog config u (foldl (run_call lib now) u cs)" for u cs
    by (induction cs arbitrary: u) (auto intro: good_trans [OF good_call [OF lib]])
  moreover have "good lib mtu backlog config t (t \<lparr> kt_user := user \<rparr>)" by (intro good_minor) (simp_all add: minor_basic)
  ultimately show ?thesis using Some h good_trans by (fastforce simp: run_read_handler_def)
qed

section \<open>The receive loop\<close>

lemma drain_round_progress:
  assumes lib: "kcp_documented lib mtu backlog" "crypto_documented lib" "int_range (cfg_mtu config)"
    and inv: "kt_inv lib mtu config t"
  shows "case drain_round lib now t of
      Inl t' \<Rightarrow> kt_inv lib mtu config t'
    | Inr t' \<Rightarrow> kt_inv lib mtu config t' \<and> backlog (kt_kcp t') < backlog (kt_kcp t)"
proof (cases "kt_closing t \<or> tl_peeksize lib (kt_kcp t) \<le> 0")
  case True
  then show ?thesis using inv by (simp add: drain_round_def)
next
  case False
  obtain r buf k where recv: "tl_recv lib (tl_peeksize lib (kt_kcp t)) (kt_kcp t) = (r, buf, k)" by (metis prod.collapse)
  note law = kcp_documentedD [OF lib(1)]
  have "mtu k = mtu (kt_kcp t)" using law(4) recv by (metis snd_conv)
  then have t: "kt_inv lib mtu config (t \<lparr> kt_kcp := k \<rparr>)" by (rule kt_inv_minor [OF inv minor_basic(3)])
  show ?thesis
  proof (cases "r \<le> 0")
    case True
    then show ?thesis using False recv t by (simp add: drain_round_def)
  next
    case pos: False
    let ?u = "count Bytes_received (length (take (nat r) buf)) (t \<lparr> kt_kcp := k \<rparr>)"
    have "kt_inv lib mtu config ?u" by (rule kt_inv_minor [OF t minor_basic(2)])
    then show ?thesis
      using False pos recv good_read_handler [OF lib, of ?u now "take (nat r) buf"] law(10) [OF recv]
      by (simp add: drain_round_def Let_def good_def)
  qed
qed

lemma drain_kcp_ends:
  assumes lib: "kcp_documented lib mtu backlog" "crypto_documented lib" "int_range (cfg_mtu config)"
    and inv: "kt_inv lib mtu config t"
  shows "\<exists>t'. drain_kcp lib now t = Some t' \<and> kt_inv lib mtu config t'"
  using inv
proof (induction "backlog (kt_kcp t)" arbitrary: t rule: less_induct)
  case less
  show ?case
    using drain_round_progress [OF lib less(2), of now] less(1)
    by (subst drain_kcp.simps) (auto split: sum.splits)
qed

lemma feed_packets_ends:
  assumes lib: "kcp_documented lib mtu backlog" "crypto_documented lib" "int_range (cfg_mtu config)"
    and inv: "kt_inv lib mtu config t"
  shows "\<exists>t'. feed_packets lib now packets t = Some t' \<and> kt_inv lib mtu config t'"
  using inv
proof (induction packets arbitrary: t)
  case Nil
  then show ?case by simp
next
  case (Cons p packets)
  let ?c = "count In_segs (count_kcp_segments p) t"
  obtain r k where input: "tl_input lib p (kt_kcp t) = (r, k)" by fastforce
  let ?t = "?c \<lparr> kt_kcp := k \<rparr>"
  have "mtu k = mtu (kt_kcp ?c)" using kcp_documentedD(3) [OF lib(1), of p "kt_kcp t"] input by simp
  then have t: "kt_inv lib mtu config ?t" by (intro kt_inv_minor [OF kt_inv_minor [OF Cons(2) minor_basic(2)] minor_basic(3)])
  show ?case
  proof (cases "r < 0")
    case True
    have "kt_inv lib mtu config (note_effect (Transport_warn ''ikcp_input failed'') (count Kcp_in_errors 1 ?t))"
      by (intro kt_inv_minor [OF kt_inv_minor [OF t minor_basic(2)] minor_basic(1)]) simp
    then show ?thesis using Cons(1) True input by (simp add: Let_def)
  next
    case False
    obtain u where "drain_kcp lib now ?t = Some u" "kt_inv lib mtu config u" using drain_kcp_ends [OF lib t] by blast
    then show ?thesis using Cons(1) False input by (simp add: Let_def)
  qed
qed

lemma transport_input_ends:
  assumes lib: "kcp_documented lib mtu backlog" "crypto_documented lib" "int_range (cfg_mtu config)"
    and inv: "kt_inv lib mtu config t"
  shows "\<exists>t'. transport_input lib now packet t = Some (Inr t') \<and> kt_inv lib mtu config t'"
proof (cases "kt_closing t \<or> packet = []")
  case True
  then show ?thesis using inv by (simp add: transport_input_def)
next
  case False
  obtain out fec counters where dec: "fec_decode packet (kt_fec t) (kt_snmp t) = Inr (out, fec, counters)" "fec_reachable config fec"
    "fec_overhead fec = fec_overhead (kt_fec t)" "fec_max_shard_len fec = fec_max_shard_len (kt_fec t)"
    using fec_decode_reachable inv unfolding kt_inv_def by metis
  have "kt_inv lib mtu config (t \<lparr> kt_fec := fec, kt_snmp := counters \<rparr>)"
    using inv dec by (simp add: kt_inv_def udp_packets_def)
  then obtain u where "feed_packets lib now out (t \<lparr> kt_fec := fec, kt_snmp := counters \<rparr>) = Some u" "kt_inv lib mtu config u"
    using feed_packets_ends [OF lib] by blast
  moreover have "kt_inv lib mtu config (run_output lib now (tl_flush lib (kt_kcp u)) u)"
    using good_flush [OF lib, of u now] \<open>kt_inv lib mtu config u\<close> by (simp add: good_def)
  ultimately show ?thesis using False dec(1) by (simp add: transport_input_def)
qed

lemma update_kcp_ends:
  assumes lib: "kcp_documented lib mtu backlog" "crypto_documented lib" "int_range (cfg_mtu config)"
    and inv: "kt_inv lib mtu config t"
  shows "\<exists>t'. update_kcp lib now t = Some t' \<and> kt_inv lib mtu config t'"
proof (cases "kt_closing t")
  case True
  then show ?thesis using inv by (simp add: update_kcp_def)
next
  case False
  let ?u = "run_output lib now (tl_update lib (current_millis (nat now)) (kt_kcp t)) t"
  have "kt_inv lib mtu config ?u"
    using kt_inv_run_output [OF lib(2,3) inv kcp_documentedD(6,9) [OF lib(1)]] by blast
  then obtain v where v: "drain_kcp lib now ?u = Some v" "kt_inv lib mtu config v" using drain_kcp_ends [OF lib] by blast
  then show ?thesis using False kt_inv_minor [OF v(2) minor_update_timer] by (simp add: update_kcp_def)
qed

lemma kt_inv_made:
  assumes "kcp_documented lib mtu backlog"
    and "make_kcp_transport lib remote conv config h counters draws user = Inr t"
  shows "kt_inv lib mtu config t \<and> kt_effects t = []"
proof -
  obtain crypt fec kcp where parts: "make_packet_crypt (tl_crypto lib) config = Inr crypt" "make_fec_codec config = Inr fec"
    "tl_create lib conv = Some kcp"
    using assms(2) by (auto simp: make_kcp_transport_def split: sum.splits option.splits)
  let ?t = "\<lparr> kt_remote = remote, kt_conv = conv, kt_config = config, kt_crypt = crypt, kt_fec = fec,
      kt_has_close_handler = h, kt_read_handler = None, kt_kcp = kcp,
      kt_pending_udp = [], kt_next_tx_time = 0, kt_rate_send_active = False, kt_closing = False,
      kt_snmp = counters, kt_draws = draws, kt_effects = [], kt_user = user \<rparr>"
  have conf: "configure_kcp lib ?t = Inr t" using assms(2) parts by (simp add: make_kcp_transport_def)
  then obtain m k k' where m: "int_add (cfg_mtu config) (- int (pc_overhead crypt + fec_overhead fec)) = Inr m" "50 \<le> m"
    "tl_setmtu lib m k = (0, k')" "t = ?t \<lparr> kt_kcp := tl_set_stream lib k' \<rparr>"
    by (auto simp: configure_kcp_def Let_def split: sum.splits if_splits prod.splits)
  have "mtu (tl_set_stream lib k') = m" using kcp_documentedD(11,12) [OF assms(1)] m(3) by metis
  moreover have "fec_max_shard_len fec = 0"
    using parts(2) by (auto simp: make_fec_codec_def Let_def split: sum.splits if_splits)
  ultimately show ?thesis
    using m parts fec_reachable.constructed [OF parts(2)]
    by (auto simp: kt_inv_def udp_packets_def int_add_def split: if_splits)
qed

section \<open>Reachable transports\<close>

text \<open>The global counters, the random pool and the user state also change outside the transport.\<close>

inductive kt_reachable :: "'k transport_lib \<Rightarrow> base_config \<Rightarrow> ('k, 'w) kcp_transport \<Rightarrow> bool" for lib config where
  made: "make_kcp_transport lib remote conv config h counters draws user = Inr t \<Longrightarrow> kt_reachable lib config t"
| read_handler_set: "kt_reachable lib config t \<Longrightarrow> kt_reachable lib config (set_read_handler h t)"
| started: "kt_reachable lib config t \<Longrightarrow> kt_reachable lib config (start_transport t)"
| sent: "kt_reachable lib config t \<Longrightarrow> kt_reachable lib config (transport_send lib now bytes t)"
| received: "kt_reachable lib config t \<Longrightarrow> transport_input lib now packet t = Some (Inr t') \<Longrightarrow> kt_reachable lib config t'"
| closed: "kt_reachable lib config t \<Longrightarrow> kt_reachable lib config (close_transport t)"
| updated: "kt_reachable lib config t \<Longrightarrow> update_kcp lib now t = Some t' \<Longrightarrow> kt_reachable lib config t'"
| rate_timer: "kt_reachable lib config t \<Longrightarrow> kt_reachable lib config (rate_timer_handler failed now t)"
| completed: "kt_reachable lib config t \<Longrightarrow> kt_reachable lib config (sent_handler failed n t)"
| outside: "kt_reachable lib config t \<Longrightarrow>
    kt_reachable lib config (t \<lparr> kt_snmp := counters, kt_draws := draws, kt_user := user \<rparr>)"

lemma kt_reachable_inv:
  assumes lib: "kcp_documented lib mtu backlog" "crypto_documented lib" "int_range (cfg_mtu config)"
    and "kt_reachable lib config t"
  shows "kt_inv lib mtu config t"
  using assms(4)
proof (induction rule: kt_reachable.induct)
  case (made remote conv h counters draws user t)
  then show ?case by (rule conjunct1 [OF kt_inv_made [OF lib(1)]])
next
  case (read_handler_set t h)
  then show ?case by (intro kt_inv_minor [OF read_handler_set(2)]) (simp add: minor_def set_read_handler_def udp_packets_def)
next
  case (started t)
  then show ?case unfolding start_transport_def by (intro kt_inv_minor [OF started(2) minor_update_timer])
next
  case (sent t now bytes)
  then show ?case using good_send [OF lib, of t now bytes] by (simp add: good_def)
next
  case (received t now packet t')
  then show ?case using transport_input_ends [OF lib, of t now packet] by auto
next
  case (updated t now t')
  then show ?case using update_kcp_ends [OF lib, of t now] by auto
next
  case (outside t counters draws user)
  then show ?case by (simp add: kt_inv_def udp_packets_def)
qed (auto intro: kt_inv_minor [OF _ minor_close] kt_inv_minor [OF _ minor_rate_timer] kt_inv_minor [OF _ minor_sent])

section \<open>From one transport to another\<close>

text \<open>Everything given to the socket or waiting for it, in order.\<close>

definition udp_out :: "('k, 'w) kcp_transport \<Rightarrow> bytes list" where
  "udp_out t = [d. Send_to d \<leftarrow> kt_effects t] @ kt_pending_udp t"

lemma udp_out_enqueue:
  assumes "cfg_ratelimit (kt_config t) \<le> 0 \<longrightarrow> kt_pending_udp t = []"
  shows "udp_out (enqueue_udp_packet now d t) = udp_out t @ [d]"
    "cfg_ratelimit (kt_config (enqueue_udp_packet now d t)) \<le> 0 \<longrightarrow> kt_pending_udp (enqueue_udp_packet now d t) = []"
    "kt_crypt (enqueue_udp_packet now d t) = kt_crypt t"
  using assms by (auto simp: udp_out_def enqueue_udp_packet_def schedule_rate_limited_send_def note_effect_def Let_def)

lemma udp_out_send_packets:
  assumes "crypto_documented lib" "\<forall>p \<in> set packets. length p \<le> 2147483647"
    and "cfg_ratelimit (kt_config t) \<le> 0 \<longrightarrow> kt_pending_udp t = []"
  shows "\<exists>ds. udp_out (send_packets lib now packets t) = udp_out t @ ds \<and>
     list_all2 (\<lambda>p d. pc_decrypt (tl_crypto lib) (kt_crypt t) d = Some p) packets ds"
  using assms(2,3)
proof (induction packets arbitrary: t)
  case Nil
  then show ?case by simp
next
  case (Cons p packets)
  have lib: "random_block (tl_random lib (kt_draws t))" "gcm_documented (tl_crypto lib)"
    using assms(1) by (auto simp: crypto_documented_def)
  obtain d where d: "pc_encrypt (tl_crypto lib) (tl_random lib (kt_draws t)) (kt_crypt t) p = Inr d"
    "pc_decrypt (tl_crypto lib) (kt_crypt t) d = Some p"
    using pc_roundtrip [OF lib] Cons(2) by fastforce
  let ?u = "t \<lparr> kt_draws := kt_draws t + 1 \<rparr>"
  let ?t = "enqueue_udp_packet now d ?u"
  have out: "udp_out ?t = udp_out t @ [d]" "cfg_ratelimit (kt_config ?t) \<le> 0 \<longrightarrow> kt_pending_udp ?t = []" "kt_crypt ?t = kt_crypt t"
    using udp_out_enqueue [of ?u now d] Cons(3) by (auto simp: udp_out_def)
  obtain ds where "udp_out (send_packets lib now packets ?t) = udp_out ?t @ ds"
    "list_all2 (\<lambda>p d. pc_decrypt (tl_crypto lib) (kt_crypt ?t) d = Some p) packets ds"
    using Cons(1) [of ?t] Cons(2) out(2) by auto
  then show ?case using d out by (intro exI [of _ "d # ds"]) simp
qed

lemma fec_overhead_enabled: "fec_overhead c' = fec_overhead c \<longleftrightarrow> fec_enabled c' = fec_enabled c"
  by (auto simp: fec_overhead_def fec_header_size_plus_size_def)

text \<open>Whether FEC is on depends on the configuration alone.\<close>

lemma fec_reachable_enabled:
  "fec_reachable config c \<Longrightarrow> fec_enabled c \<longleftrightarrow>
     0 < cfg_datashard config \<and> 0 < cfg_parityshard config \<and> cfg_datashard config + cfg_parityshard config \<le> 256"
proof (induction rule: fec_reachable.induct)
  case (constructed c)
  then show ?case by (auto simp: make_fec_codec_def int_add_def Let_def split: sum.splits if_splits)
next
  case (encoded c now p packets c')
  have "fec_overhead c' = fec_overhead c"
    using fec_encode_reachable [OF encoded(1,2), of "max (length p) (fec_max_shard_len c)"] by simp
  then show ?case using encoded.IH by (simp add: fec_overhead_enabled)
next
  case (decoded c p s out c' s')
  have "fec_overhead c' = fec_overhead c"
    using fec_decode_reachable [OF decoded(1), of p s] decoded(2) by (metis sum.inject(2) prod.inject)
  then show ?case using decoded.IH by (simp add: fec_overhead_enabled)
qed

text \<open>A packet of the encoder whose payload is the KCP packet \<open>p\<close>.\<close>

definition carries :: "fec_codec \<Rightarrow> bytes \<Rightarrow> bytes \<Rightarrow> bool" where
  "carries c p x \<longleftrightarrow>
     (if fec_enabled c then fec_kcp_payload_offset x = Some 8 \<and> drop 8 x = p \<and> length x = length p + 8 else x = p)"

lemma carries_data_packet: "fec_enabled c \<Longrightarrow> carries c p (fec_packet seq fec_type_data (fec_shard p))"
  by (simp add: carries_def fec_kcp_payload_offset_def Let_def fec_header_size_plus_size_def fec_shard_def)

lemma fec_first_packet:
  assumes "fec_reachable config c" "fec_reachable config d" "fec_encode now p c = (packets, c')"
  shows "\<exists>x rest out d' s'. packets = x # rest \<and> fec_decode x d s = Inr (p # out, d', s') \<and> carries c p x"
proof (cases "fec_enabled c")
  case True
  then have "fec_enabled d" using fec_reachable_enabled assms(1,2) by blast
  then have inv: "fec_static c" "fec_encoder_ok c" "fec_static d" "fec_decoder_ok d"
    using fec_reachable_inv [OF assms(1) True] fec_reachable_inv [OF assms(2)] by (auto simp: fec_inv_def)
  show ?thesis
    using fec_encode_head [OF inv(1,2), of now p] fec_data_packet_passes [OF inv(3,4)] assms(3) carries_data_packet [OF True]
    by fastforce
next
  case False
  then have "\<not> fec_enabled d" using fec_reachable_enabled assms(1,2) by blast
  then show ?thesis using False assms(3) by (auto simp: fec_disabled carries_def)
qed

lemma send_udp_out:
  assumes lib: "kcp_documented lib mtu backlog" "crypto_documented lib" "int_range (cfg_mtu config)"
    and inv: "kt_inv lib mtu config a" "kt_inv lib mtu config b"
    and p: "\<not> kt_closing a" "p \<noteq> []" "int (length p) \<le> mtu (kt_kcp a)"
  shows "\<exists>d more x out fec s'. udp_out (send_udp lib now a p) = udp_out a @ d # more \<and>
    pc_decrypt (tl_crypto lib) (kt_crypt b) d = Some x \<and> fec_decode x (kt_fec b) s = Inr (p # out, fec, s') \<and>
    carries (kt_fec a) p x"
proof -
  obtain packets fec where enc: "fec_encode (int (unat (current_millis (nat now)))) p (kt_fec a) = (packets, fec)" by fastforce
  have reach: "fec_reachable config (kt_fec a)" "fec_reachable config (kt_fec b)" and crypt: "kt_crypt b = kt_crypt a"
    and rate: "cfg_ratelimit (kt_config a) \<le> 0 \<longrightarrow> kt_pending_udp a = []"
    using inv by (auto simp: kt_inv_def)
  obtain x rest out fec' s' where x: "packets = x # rest" "fec_decode x (kt_fec b) s = Inr (p # out, fec', s')"
    "carries (kt_fec a) p x"
    using fec_first_packet [OF reach enc] by blast
  let ?m = "nat (mtu (kt_kcp a))"
  have "\<forall>q \<in> set packets. length q \<le> ?m + fec_overhead (kt_fec a)"
    using fec_encode_reachable [OF reach(1) enc, of ?m] inv(1) p(3) by (auto simp: kt_inv_def)
  then have small: "\<forall>q \<in> set packets. length q \<le> 2147483647"
    using inv(1) lib(3) by (fastforce simp: kt_inv_def int_range_def)
  let ?t = "(count Out_segs (count_kcp_segments p) a) \<lparr> kt_fec := fec \<rparr>"
  have t: "udp_out ?t = udp_out a" "kt_crypt ?t = kt_crypt a" "kt_config ?t = kt_config a" "kt_pending_udp ?t = kt_pending_udp a"
    by (simp_all add: udp_out_def count_def)
  obtain ds where "udp_out (send_packets lib now packets ?t) = udp_out a @ ds"
    "list_all2 (\<lambda>p d. pc_decrypt (tl_crypto lib) (kt_crypt a) d = Some p) packets ds"
    using udp_out_send_packets [OF lib(2) small, of ?t now] rate by (auto simp: t)
  moreover have "send_udp lib now a p = send_packets lib now packets ?t"
    using p(1,2) enc by (simp add: send_udp_def count_def)
  ultimately show ?thesis using x crypt by (auto simp: list_all2_Cons1)
qed

section \<open>A transport to apply the properties to\<close>

text \<open>An engine without a protocol: it queues what it is given and hands it on.\<close>

type_synonym queue_engine = "int \<times> bytes list \<times> bytes list"

definition queue_lib :: "queue_engine transport_lib" where
  "queue_lib =
     \<lparr> tl_create = (\<lambda>conv. Some (1400, [], [])), tl_nodelay = (\<lambda>_ _ _ _ k. k), tl_wndsize = (\<lambda>_ _ k. k),
       tl_setmtu = (\<lambda>m (_, out, inp). (0, (m, out, inp))), tl_set_stream = (\<lambda>k. k),
       tl_input = (\<lambda>p (m, out, inp). (0, (m, out, inp @ [p]))),
       tl_send = (\<lambda>b (m, out, inp). (int (length b), (m, out @ [b], inp))),
       tl_peeksize = (\<lambda>(m, out, inp). if inp = [] then - 1 else int (length (hd inp))),
       tl_recv = (\<lambda>n (m, out, inp). if inp = [] then (- 1, [], (m, out, inp))
                                    else (int (length (hd inp)), hd inp, (m, out, tl inp))),
       tl_flush = (\<lambda>(m, out, inp). (filter (\<lambda>b. int (length b) \<le> m) out, (m, [], inp))),
       tl_update = (\<lambda>ms k. ([], k)), tl_crypto = toy_lib, tl_random = (\<lambda>i n. replicate n 7) \<rparr>"

lemma queue_lib_documented: "kcp_documented queue_lib fst (\<lambda>(m, out, inp). length inp)" "crypto_documented queue_lib"
  using toy_lib_documented
  by (auto simp: kcp_documented_def keeps_def queue_lib_def crypto_documented_def random_block_def split: if_splits)

abbreviation queue_config :: base_config where "queue_config \<equiv> base_defaults () \<lparr> cfg_crypt := ''null'' \<rparr>"

lemma queue_transport:
  obtains t where "make_kcp_transport queue_lib (''10.0.0.1'', 4000) 7 queue_config False empty_snmp 0 () = Inr t"
    "\<not> kt_closing t" "kt_kcp t = (1342, [], [])" "kt_reachable queue_lib queue_config t"
proof -
  obtain fec where fec: "make_fec_codec queue_config = Inr fec" "fec_enabled fec"
    using make_fec_codec_total [of queue_config] by (auto simp: base_defaults_def)
  have null: "normalize_method ''null'' = ''null''" by code_simp
  obtain crypt where crypt: "make_packet_crypt toy_lib queue_config = Inr crypt" "pc_overhead crypt = 0"
    by (simp add: make_packet_crypt_def null select_method_def base_defaults_def pc_overhead_def Let_def)
  obtain t where t: "make_kcp_transport queue_lib (''10.0.0.1'', 4000) 7 queue_config False empty_snmp 0 () = Inr t"
    "\<not> kt_closing t" "kt_kcp t = (1342, [], [])"
    using fec crypt by (auto simp: make_kcp_transport_def queue_lib_def configure_kcp_def fec_overhead_def
        fec_header_size_plus_size_def int_add_def int_range_def base_defaults_def Let_def)
  show ?thesis by (rule that [OF t kt_reachable.made [OF t(1)]])
qed

lemma queue_config_mtu: "int_range (cfg_mtu queue_config)" "cfg_mtu queue_config = 1350"
  by (simp_all add: int_range_def base_defaults_def)

lemmas queue_hyps = queue_lib_documented queue_config_mtu(1)

section \<open>Properties\<close>

text \<open>C22: Datagrams fit: no datagram a transport has sent or queued for sending is longer
  than the configured MTU, parity packets and encryption overhead included.\<close>

theorem datagrams_within_mtu:
  assumes "kcp_documented lib mtu backlog" "crypto_documented lib" "int_range (cfg_mtu config)"
    and "kt_reachable lib config t"
  shows "\<forall>d. Send_to d \<in> set (kt_effects t) \<or> d \<in> set (kt_pending_udp t) \<longrightarrow> int (length d) \<le> cfg_mtu config"
  using kt_reachable_inv [OF assms] by (auto simp: kt_inv_def udp_packets_def)

lemma datagrams_within_mtu_witness:
  "\<exists>t :: (queue_engine, unit) kcp_transport. kt_reachable queue_lib queue_config t \<and>
     (\<forall>d. Send_to d \<in> set (kt_effects t) \<longrightarrow> length d \<le> 1350)"
proof -
  obtain t :: "(queue_engine, unit) kcp_transport" where t: "kt_reachable queue_lib queue_config t"
    using queue_transport by blast
  have "kt_reachable queue_lib queue_config (transport_send queue_lib 5 [1, 2, 3] t)" by (rule kt_reachable.sent [OF t])
  then show ?thesis using datagrams_within_mtu [OF queue_hyps] by (fastforce simp: queue_config_mtu(2))
qed

text \<open>C14: Receiving ends: for every datagram, from every reachable state, \<open>input\<close> returns
  without an exception, whatever the read handler sends or closes meanwhile, and so does
  the timer's update.\<close>

theorem transport_input_returns:
  assumes "kcp_documented lib mtu backlog" "crypto_documented lib" "int_range (cfg_mtu config)"
    and "kt_reachable lib config t"
  shows "(\<exists>t'. transport_input lib now packet t = Some (Inr t')) \<and> (\<exists>t'. update_kcp lib now t = Some t')"
  using transport_input_ends [OF assms(1-3)] update_kcp_ends [OF assms(1-3)] kt_reachable_inv [OF assms] by blast

lemma transport_input_returns_witness:
  "\<exists>t t' :: (queue_engine, unit) kcp_transport. kt_reachable queue_lib queue_config t \<and>
     transport_input queue_lib 5 [1, 2, 3] t = Some (Inr t')"
  using queue_transport transport_input_returns [OF queue_hyps] by metis

text \<open>C13: What \<open>ikcp\<close> outputs on one side reaches \<open>ikcp_input\<close> on the other: for two
  transports of one configuration, in any reachable states, \<open>send_udp\<close> of a KCP packet puts
  out a datagram first that the peer decrypts and decodes to this packet at once, as the
  first output of the FEC decoder.\<close>

theorem kcp_packet_delivered:
  assumes "kcp_documented lib mtu backlog" "crypto_documented lib" "int_range (cfg_mtu config)"
    and "kt_reachable lib config a" "kt_reachable lib config b"
    and "\<not> kt_closing a" "p \<noteq> []" "int (length p) \<le> mtu (kt_kcp a)"
  shows "\<exists>d more x out fec counters. udp_out (send_udp lib now a p) = udp_out a @ d # more \<and>
    pc_decrypt (tl_crypto lib) (kt_crypt b) d = Some x \<and>
    fec_decode x (kt_fec b) (kt_snmp b) = Inr (p # out, fec, counters)"
  using send_udp_out [OF assms(1-3) kt_reachable_inv [OF assms(1-4)] kt_reachable_inv [OF assms(1-3,5)] assms(6-8)] by blast

lemma kcp_packet_delivered_witness:
  "\<exists>(t :: (queue_engine, unit) kcp_transport) d more. kt_reachable queue_lib queue_config t \<and>
     udp_out (send_udp queue_lib 5 t [1, 2, 3]) = udp_out t @ d # more"
proof -
  obtain t :: "(queue_engine, unit) kcp_transport" where t: "kt_reachable queue_lib queue_config t" "\<not> kt_closing t"
    "kt_kcp t = (1342, [], [])"
    using queue_transport by blast
  show ?thesis using kcp_packet_delivered [OF queue_hyps t(1) t(1) t(2), of "[1, 2, 3]" 5] t(1,3) by auto
qed

end
