(* ===== verification/Kcp_Pacing.thy ===== *)
theory Kcp_Pacing
  imports Kcp_Delivery
begin

text \<open>
  The rate limiter of \<open>kcp_transport.cpp\<close> as a timed transition system: datagrams are
  queued at any time, the rate timer fires at or after the time it was set to, and every
  datagram that leaves is logged with its time (nanoseconds).
\<close>

section \<open>Runs of the limiter\<close>

definition sends :: "('k, 'w) kcp_transport \<Rightarrow> bytes list" where
  "sends t = [d. Send_to d \<leftarrow> kt_effects t]"

definition departures :: "int \<Rightarrow> ('k, 'w) kcp_transport \<Rightarrow> (int \<times> bytes) list" where
  "departures now t = (if kt_closing t \<or> kt_pending_udp t = [] then [] else [(now, hd (kt_pending_udp t))])"

inductive pacing_run :: "('k, 'w) kcp_transport \<Rightarrow> (int \<times> bytes) list \<Rightarrow> bytes list \<Rightarrow> bool" where
  idle: "kt_pending_udp t = [] \<Longrightarrow> \<not> kt_rate_send_active t \<Longrightarrow> 0 < cfg_ratelimit (kt_config t) \<Longrightarrow> sends t = [] \<Longrightarrow>
    pacing_run t [] []"
| enqueue: "pacing_run t log queued \<Longrightarrow> pacing_run (enqueue_udp_packet now d t) log (queued @ [d])"
| fire: "pacing_run t log queued \<Longrightarrow> kt_rate_send_active t \<Longrightarrow> kt_next_tx_time t \<le> now \<Longrightarrow>
    pacing_run (rate_timer_handler False now t) (log @ departures now t) queued"
| close: "pacing_run t log queued \<Longrightarrow> pacing_run (close_transport t) log queued"

definition gap :: "int \<Rightarrow> bytes \<Rightarrow> int" where
  "gap rate d = 1000 * rate_delay_us rate (length d)"

text \<open>Each departure is followed by its gap.\<close>

fun spaced :: "int \<Rightarrow> (int \<times> bytes) list \<Rightarrow> int \<Rightarrow> bool" where
  "spaced rate [] end_time \<longleftrightarrow> True"
| "spaced rate ((time, d) # log) end_time \<longleftrightarrow>
     time + gap rate d \<le> (case log of [] \<Rightarrow> end_time | (time', _) # _ \<Rightarrow> time') \<and> spaced rate log end_time"

lemma spaced_mono: "spaced rate log e \<Longrightarrow> e \<le> e' \<Longrightarrow> spaced rate log e'"
  by (induction rate log e rule: spaced.induct) (auto split: list.splits)

lemma spaced_snoc:
  "spaced rate log now \<Longrightarrow> now + gap rate d \<le> e \<Longrightarrow> spaced rate (log @ [(now, d)]) e"
  by (induction rate log now rule: spaced.induct) (auto split: list.splits simp: hd_append)

definition pacing_inv :: "('k, 'w) kcp_transport \<Rightarrow> (int \<times> bytes) list \<Rightarrow> bytes list \<Rightarrow> bool" where
  "pacing_inv t log queued \<longleftrightarrow> 0 < cfg_ratelimit (kt_config t) \<and> sends t = map snd log \<and>
     map snd log @ kt_pending_udp t = queued \<and> spaced (cfg_ratelimit (kt_config t)) log (kt_next_tx_time t)"

lemmas pacing_simps = pacing_inv_def sends_def note_effect_def

lemma pacing_inv_schedule:
  assumes "pacing_inv t log queued"
  shows "pacing_inv (schedule_rate_limited_send now t) log queued"
proof (cases "kt_closing t \<or> kt_rate_send_active t \<or> kt_pending_udp t = []")
  case True
  then show ?thesis using assms by (simp add: schedule_rate_limited_send_def)
next
  case False
  have "spaced (cfg_ratelimit (kt_config t)) log (if kt_next_tx_time t < now then now else kt_next_tx_time t)"
    using assms by (auto intro: spaced_mono [of _ log "kt_next_tx_time t"] simp: pacing_inv_def)
  then show ?thesis
    using False assms by (simp add: schedule_rate_limited_send_def Let_def pacing_simps)
qed

lemma pacing_inv_enqueue:
  assumes "pacing_inv t log queued"
  shows "pacing_inv (enqueue_udp_packet now d t) log (queued @ [d])"
proof -
  let ?t = "t \<lparr> kt_pending_udp := kt_pending_udp t @ [d] \<rparr>"
  have "pacing_inv ?t log (queued @ [d])"
    using assms by (auto simp: pacing_simps)
  then have "pacing_inv (schedule_rate_limited_send now ?t) log (queued @ [d])" by (rule pacing_inv_schedule)
  moreover have "\<not> cfg_ratelimit (kt_config t) \<le> 0" using assms by (simp add: pacing_inv_def)
  ultimately show ?thesis by (simp add: enqueue_udp_packet_def)
qed

lemma pacing_inv_fire:
  assumes "pacing_inv t log queued" "kt_next_tx_time t \<le> now"
  shows "pacing_inv (rate_timer_handler False now t) (log @ departures now t) queued"
proof (cases "kt_closing t \<or> kt_pending_udp t = []")
  case True
  then have "rate_timer_handler False now t = t \<lparr> kt_rate_send_active := False \<rparr>" "departures now t = []"
    by (auto simp: rate_timer_handler_def departures_def)
  then show ?thesis using assms(1) by (simp add: pacing_simps)
next
  case False
  then obtain d ds where q: "kt_pending_udp t = d # ds" by (cases "kt_pending_udp t") auto
  let ?rate = "cfg_ratelimit (kt_config t)"
  let ?t = "t \<lparr> kt_rate_send_active := False, kt_pending_udp := ds,
      kt_next_tx_time := max (kt_next_tx_time t) now + gap ?rate d \<rparr>"
  have "spaced ?rate log (kt_next_tx_time t)" using assms(1) by (simp add: pacing_inv_def)
  then have "spaced ?rate log now" by (rule spaced_mono [OF _ assms(2)])
  then have "spaced ?rate (log @ [(now, d)]) (max (kt_next_tx_time t) now + gap ?rate d)" by (rule spaced_snoc) simp
  then have "pacing_inv (note_effect (Send_to d) ?t) (log @ [(now, d)]) queued"
    using assms(1) q by (simp add: pacing_simps)
  then have "pacing_inv (schedule_rate_limited_send now (note_effect (Send_to d) ?t)) (log @ [(now, d)]) queued"
    by (rule pacing_inv_schedule)
  moreover have "rate_timer_handler False now t = schedule_rate_limited_send now (note_effect (Send_to d) ?t)"
    using False q by (simp add: rate_timer_handler_def gap_def Let_def)
  ultimately show ?thesis using False q by (simp add: departures_def)
qed

lemma pacing_run_inv: "pacing_run t log queued \<Longrightarrow> pacing_inv t log queued"
proof (induction rule: pacing_run.induct)
  case (idle t)
  then show ?case by (simp add: pacing_inv_def)
next
  case (close t log queued)
  then show ?case by (simp add: close_transport_def pacing_simps Let_def)
qed (auto intro: pacing_inv_enqueue pacing_inv_fire)

section \<open>Order and rate\<close>

lemma gap_covers: "0 < rate \<Longrightarrow> 1000000000 * int (length d) \<le> rate * (gap rate d + 1000)"
proof -
  assume "0 < rate"
  let ?n = "int (length d) * 1000000"
  have "?n = rate * (?n div rate) + ?n mod rate" by simp
  moreover have "?n mod rate < rate" using \<open>0 < rate\<close> by simp
  moreover have "rate * (?n div rate) \<le> rate * rate_delay_us rate (length d)"
    using \<open>0 < rate\<close> by (intro mult_left_mono) (auto simp: rate_delay_us_def max_def)
  ultimately have "?n \<le> rate * rate_delay_us rate (length d) + rate" by linarith
  then show ?thesis by (simp add: gap_def algebra_simps)
qed

lemma spaced_sum:
  assumes "0 < rate" "spaced rate log e" "i \<le> j" "j < length log"
  shows "1000000000 * (\<Sum>k\<in>{i..<j}. int (length (snd (log ! k)))) \<le>
    rate * (fst (log ! j) - fst (log ! i) + 1000 * int (j - i))"
  using assms(3,4)
proof (induction j)
  case 0
  then show ?case by simp
next
  case (Suc j)
  have next_time: "fst (log ! j) + gap rate (snd (log ! j)) \<le> fst (log ! Suc j)" if "Suc j < length log" for j
    using assms(2) that
  proof (induction rate log e arbitrary: j rule: spaced.induct)
    case (2 rate time d log e)
    then show ?case by (cases j) (auto simp: nth_Cons' split: list.splits)
  qed simp
  show ?case
  proof (cases "i = Suc j")
    case False
    then have i: "i \<le> j" using Suc by simp
    have "1000000000 * int (length (snd (log ! j))) \<le> rate * (fst (log ! Suc j) - fst (log ! j) + 1000)"
      using gap_covers [OF assms(1), of "snd (log ! j)"] next_time [OF Suc(3)] assms(1)
      by (smt (verit) mult_left_mono)
    then show ?thesis using Suc i by (simp add: algebra_simps Suc_diff_le)
  qed simp
qed

text \<open>C28: Pacing: whatever is queued when, and however late the timer fires, the datagrams
  leave in the order they were queued, and between two of them no more bytes leave than the
  configured rate (bytes per second) allows, give or take a microsecond per datagram.\<close>

theorem pacing_respects_rate:
  assumes "pacing_run t log queued" "i \<le> j" "j < length log"
  shows "sends t = map snd log \<and> map snd log @ kt_pending_udp t = queued \<and>
    1000000000 * (\<Sum>k\<in>{i..<j}. int (length (snd (log ! k)))) \<le>
      cfg_ratelimit (kt_config t) * (fst (log ! j) - fst (log ! i) + 1000 * int (j - i))"
  using pacing_run_inv [OF assms(1)] spaced_sum [OF _ _ assms(2,3)] by (auto simp: pacing_inv_def)

lemma pacing_respects_rate_witness:
  "\<exists>t :: (queue_engine, unit) kcp_transport. pacing_run t [(0, [1]), (2000000, [2])] [[1], [2]] \<and>
     sends t = [[1], [2]] \<and> (1000000000 :: int) * 1 \<le> 1000 * (2000000 - 0 + 1000 * 1)"
proof -
  obtain t0 :: "(queue_engine, unit) kcp_transport" where "kt_reachable queue_lib queue_config t0" using queue_transport by blast
  define t where "t = t0 \<lparr> kt_config := queue_config \<lparr> cfg_ratelimit := 1000 \<rparr>, kt_pending_udp := [], kt_next_tx_time := 0,
      kt_rate_send_active := False, kt_closing := False, kt_effects := [] \<rparr>"
  let ?a = "enqueue_udp_packet 0 [2] (enqueue_udp_packet 0 [1] t)"
  note defs = enqueue_udp_packet_def schedule_rate_limited_send_def rate_timer_handler_def note_effect_def
    departures_def rate_delay_us_def Let_def t_def
  have start: "pacing_run t [] []" by (rule pacing_run.idle) (simp_all add: t_def sends_def)
  have two: "pacing_run ?a [] [[1], [2]]" using pacing_run.enqueue [OF pacing_run.enqueue [OF start]] by simp
  have "departures 0 ?a = [(0, [1])]" "kt_rate_send_active ?a" "kt_next_tx_time ?a \<le> 0" by (simp_all add: defs)
  with pacing_run.fire [OF two this(2,3)]
  have b: "pacing_run (rate_timer_handler False 0 ?a) [(0, [1])] [[1], [2]]" by simp
  have "departures 2000000 (rate_timer_handler False 0 ?a) = [(2000000, [2])]"
    "kt_rate_send_active (rate_timer_handler False 0 ?a)" "kt_next_tx_time (rate_timer_handler False 0 ?a) \<le> 2000000"
    by (simp_all add: defs)
  with pacing_run.fire [OF b this(2,3)]
  have c: "pacing_run (rate_timer_handler False 2000000 (rate_timer_handler False 0 ?a)) [(0, [1]), (2000000, [2])] [[1], [2]]" by simp
  show ?thesis using pacing_respects_rate [OF c, of 0 1] c by auto
qed

end
