(* ===== verification/Kcp_Session.thy ===== *)
theory Kcp_Session
  imports Kcp_Delivery
begin

text \<open>
  \<open>kcp_session.cpp\<close>: a \<open>KcpSession\<close> carries one TCP connection over one KCP conversation, in
  frames of a type, a big-endian length and a payload. (The build leaves the file out.) As in
  \<open>Kcp_Transport\<close>, \<open>ikcp\<close> is the record \<open>transport_lib\<close>, calls of sockets, timers and the
  resolver are appended to \<open>ks_effects\<close>, and every completion handler is a definition. An
  exception of the encryption leaves the operation that sends; \<open>None\<close> is a call that does not
  return. Log lines are recorded without the numbers they print.
\<close>

section \<open>State\<close>

datatype ks_effect =
    Ks_send_udp bytes
  | Ks_update_timer int
  | Ks_update_cancel
  | Ks_close_timer int
  | Ks_close_cancel
  | Ks_resolve string string
  | Ks_resolver_cancel
  | Ks_connect "endpoint list"
  | Ks_socket_options "socket_option list"
  | Ks_tcp_read
  | Ks_tcp_write bytes
  | Ks_shutdown_both
  | Ks_shutdown_send
  | Ks_tcp_close
  | Ks_run_close_handler
  | Ks_verbose string
  | Ks_warn string

datatype tcp_error = Tcp_eof | Tcp_reset | Tcp_aborted | Tcp_broken_pipe | Tcp_failure string

datatype ks_frame_type = Ks_data | Ks_fin

fun ks_type_code :: "ks_frame_type \<Rightarrow> byte" where
  "ks_type_code Ks_data = 1"
| "ks_type_code Ks_fin = 2"

record 'k kcp_session =
  ks_remote :: endpoint
  ks_conv :: u32
  ks_config :: base_config
  ks_crypt :: packet_crypt
  ks_has_close_handler :: bool
  ks_kcp :: 'k
  ks_stream_buffer :: bytes
  ks_pending_writes :: "bytes list"
  ks_write_active :: bool
  ks_tcp_ready :: bool
  ks_tcp_open :: bool
  ks_closing :: bool
  ks_local_fin :: bool
  ks_remote_fin :: bool
  ks_server_connecting :: bool
  ks_draws :: nat
  ks_effects :: "ks_effect list"

definition ks_note :: "ks_effect \<Rightarrow> 'k kcp_session \<Rightarrow> 'k kcp_session" where
  "ks_note e s = s \<lparr> ks_effects := ks_effects s @ [e] \<rparr>"

abbreviation frame_header_size :: nat where "frame_header_size \<equiv> 5"

definition max_frame_payload :: nat where
  "max_frame_payload = 16 * 1024 * 1024"

section \<open>Construction\<close>

definition ks_configure_kcp :: "'k transport_lib \<Rightarrow> 'k kcp_session \<Rightarrow> 'k kcp_session result" where
  "ks_configure_kcp lib s =
     (let config = ks_config s;
          too_small = Runtime_error ''mtu is too small after Shimakaze packet overhead is reserved'';
          k = tl_nodelay lib (cfg_nodelay config) (cfg_interval config) (cfg_resend config) (cfg_nc config) (ks_kcp s);
          k = tl_wndsize lib (cfg_sndwnd config) (cfg_rcvwnd config) k
      in case int_add (cfg_mtu config) (- int (pc_overhead (ks_crypt s))) of
           Inl e \<Rightarrow> Inl e
         | Inr kcp_mtu \<Rightarrow>
             if kcp_mtu < 50 then Inl too_small
             else
               let (failed, k) = tl_setmtu lib kcp_mtu k
               in if failed \<noteq> 0 then Inl too_small else Inr (s \<lparr> ks_kcp := tl_set_stream lib k \<rparr>))"

definition make_kcp_session ::
  "'k transport_lib \<Rightarrow> endpoint \<Rightarrow> u32 \<Rightarrow> base_config \<Rightarrow> bool \<Rightarrow> nat \<Rightarrow> 'k kcp_session result" where
  "make_kcp_session lib remote conv config close_handler draws =
     (case make_packet_crypt (tl_crypto lib) config of
        Inl e \<Rightarrow> Inl e
      | Inr crypt \<Rightarrow>
          (case tl_create lib conv of
             None \<Rightarrow> Inl (Runtime_error ''ikcp_create failed'')
           | Some kcp \<Rightarrow>
               ks_configure_kcp lib
                 \<lparr> ks_remote = remote, ks_conv = conv, ks_config = config, ks_crypt = crypt,
                   ks_has_close_handler = close_handler, ks_kcp = kcp, ks_stream_buffer = [], ks_pending_writes = [],
                   ks_write_active = False, ks_tcp_ready = False, ks_tcp_open = False, ks_closing = False,
                   ks_local_fin = False, ks_remote_fin = False, ks_server_connecting = False, ks_draws = draws,
                   ks_effects = [] \<rparr>))"

section \<open>Closing\<close>

definition ks_close :: "'k kcp_session \<Rightarrow> 'k kcp_session" where
  "ks_close s =
     (if ks_closing s then s
      else
        let s = ks_note Ks_resolver_cancel (ks_note Ks_close_cancel (ks_note Ks_update_cancel (s \<lparr> ks_closing := True \<rparr>)));
            s = (if ks_tcp_open s then ks_note Ks_tcp_close (ks_note Ks_shutdown_both (s \<lparr> ks_tcp_open := False \<rparr>)) else s);
            s = ks_note (Ks_verbose ''stream closed'') s
        in if ks_has_close_handler s then ks_note Ks_run_close_handler s else s)"

definition ks_fail_and_close :: "string \<Rightarrow> 'k kcp_session \<Rightarrow> 'k kcp_session" where
  "ks_fail_and_close where_from s = ks_close (ks_note (Ks_warn where_from) s)"

definition ks_schedule_close_after_fin :: "'k kcp_session \<Rightarrow> 'k kcp_session" where
  "ks_schedule_close_after_fin s = ks_note (Ks_close_timer (max 0 (cfg_closewait (ks_config s)))) s"

definition ks_close_timer_handler :: "bool \<Rightarrow> 'k kcp_session \<Rightarrow> 'k kcp_session" where
  "ks_close_timer_handler failed s = (if failed then s else ks_close s)"

definition ks_maybe_finish :: "'k kcp_session \<Rightarrow> 'k kcp_session" where
  "ks_maybe_finish s =
     (if ks_closing s then s
      else if ks_local_fin s \<and> ks_remote_fin s \<and> ks_pending_writes s = [] \<and> \<not> ks_write_active s then
        ks_schedule_close_after_fin s
      else s)"

section \<open>From TCP to KCP\<close>

definition ks_send_udp :: "'k transport_lib \<Rightarrow> bytes \<Rightarrow> 'k kcp_session \<Rightarrow> 'k kcp_session result" where
  "ks_send_udp lib buffer s =
     (if ks_closing s \<or> buffer = [] then Inr s
      else
        case pc_encrypt (tl_crypto lib) (tl_random lib (ks_draws s)) (ks_crypt s) buffer of
          Inl e \<Rightarrow> Inl e
        | Inr payload \<Rightarrow> Inr (ks_note (Ks_send_udp payload) (s \<lparr> ks_draws := ks_draws s + 1 \<rparr>)))"

text \<open>The output callback runs once for every buffer.\<close>

fun ks_run_output :: "'k transport_lib \<Rightarrow> bytes list \<Rightarrow> 'k kcp_session \<Rightarrow> 'k kcp_session result" where
  "ks_run_output lib [] s = Inr s"
| "ks_run_output lib (buffer # buffers) s =
     (case ks_send_udp lib buffer s of Inl e \<Rightarrow> Inl e | Inr s \<Rightarrow> ks_run_output lib buffers s)"

definition ks_flush :: "'k transport_lib \<Rightarrow> 'k kcp_session \<Rightarrow> 'k kcp_session result" where
  "ks_flush lib s = (let (buffers, k) = tl_flush lib (ks_kcp s) in ks_run_output lib buffers (s \<lparr> ks_kcp := k \<rparr>))"

definition ks_frame :: "ks_frame_type \<Rightarrow> bytes \<Rightarrow> bytes" where
  "ks_frame type payload =
     (let frame = (replicate (frame_header_size + length payload) 0)[0 := ks_type_code type];
          frame = write_be32 frame 1 (of_nat (length payload))
      in memcpy frame frame_header_size payload)"

definition ks_send_frame :: "'k transport_lib \<Rightarrow> ks_frame_type \<Rightarrow> bytes \<Rightarrow> 'k kcp_session \<Rightarrow> 'k kcp_session result" where
  "ks_send_frame lib type payload s =
     (if ks_closing s then Inr s
      else if length payload > max_frame_payload then Inl (Runtime_error ''frame payload is too large'')
      else
        let (r, k) = tl_send lib (ks_frame type payload) (ks_kcp s);
            s = s \<lparr> ks_kcp := k \<rparr>
        in if r < 0 then Inr (ks_note (Ks_warn ''ikcp_send failed'') s) else ks_flush lib s)"

definition ks_send_local_fin :: "'k transport_lib \<Rightarrow> 'k kcp_session \<Rightarrow> 'k kcp_session result" where
  "ks_send_local_fin lib s =
     (if ks_local_fin s \<or> ks_closing s then Inr s else ks_send_frame lib Ks_fin [] (s \<lparr> ks_local_fin := True \<rparr>))"

definition ks_start_tcp_read :: "'k kcp_session \<Rightarrow> 'k kcp_session" where
  "ks_start_tcp_read s =
     (if ks_closing s \<or> \<not> ks_tcp_ready s \<or> ks_local_fin s then s else ks_note Ks_tcp_read s)"

text \<open>The handler of \<open>async_read_some\<close>.\<close>

definition ks_read_handler :: "'k transport_lib \<Rightarrow> tcp_error + bytes \<Rightarrow> 'k kcp_session \<Rightarrow> 'k kcp_session result" where
  "ks_read_handler lib r s =
     (case r of
        Inr bytes \<Rightarrow>
          (case ks_send_frame lib Ks_data bytes s of Inl e \<Rightarrow> Inl e | Inr s \<Rightarrow> Inr (ks_start_tcp_read s))
      | Inl error \<Rightarrow>
          if error = Tcp_eof \<or> error = Tcp_reset \<or> error = Tcp_aborted then
            (case ks_send_local_fin lib s of Inl e \<Rightarrow> Inl e | Inr s \<Rightarrow> Inr (ks_maybe_finish s))
          else Inr (ks_fail_and_close ''tcp read'' s))"

section \<open>From KCP to TCP\<close>

definition ks_flush_tcp_writes :: "'k kcp_session \<Rightarrow> 'k kcp_session" where
  "ks_flush_tcp_writes s =
     (if ks_closing s \<or> \<not> ks_tcp_ready s \<or> ks_write_active s \<or> ks_pending_writes s = [] then s
      else ks_note (Ks_tcp_write (hd (ks_pending_writes s))) (s \<lparr> ks_write_active := True \<rparr>))"

text \<open>The handler of \<open>async_write\<close>.\<close>

definition ks_write_handler :: "'k transport_lib \<Rightarrow> tcp_error option \<Rightarrow> 'k kcp_session \<Rightarrow> 'k kcp_session result" where
  "ks_write_handler lib r s =
     (let s = s \<lparr> ks_write_active := False \<rparr>
      in case r of
           Some error \<Rightarrow>
             if error = Tcp_aborted \<or> error = Tcp_reset \<or> error = Tcp_broken_pipe then
               (case ks_send_local_fin lib s of Inl e \<Rightarrow> Inl e | Inr s \<Rightarrow> Inr (ks_maybe_finish s))
             else Inr (ks_fail_and_close ''tcp write'' s)
         | None \<Rightarrow>
             Inr (ks_maybe_finish (ks_flush_tcp_writes (s \<lparr> ks_pending_writes := tl (ks_pending_writes s) \<rparr>))))"

definition ks_enqueue_tcp_write :: "bytes \<Rightarrow> 'k kcp_session \<Rightarrow> 'k kcp_session" where
  "ks_enqueue_tcp_write data s = ks_flush_tcp_writes (s \<lparr> ks_pending_writes := ks_pending_writes s @ [data] \<rparr>)"

definition ks_handle_data_frame :: "bytes \<Rightarrow> 'k kcp_session \<Rightarrow> 'k kcp_session" where
  "ks_handle_data_frame payload s = (if payload = [] then s else ks_enqueue_tcp_write payload s)"

definition ks_handle_fin_frame :: "'k kcp_session \<Rightarrow> 'k kcp_session" where
  "ks_handle_fin_frame s =
     (if ks_remote_fin s then s
      else
        let s = s \<lparr> ks_remote_fin := True \<rparr>
        in ks_maybe_finish (if ks_tcp_open s then ks_note Ks_shutdown_send s else s))"

lemmas ks_plain_defs = ks_note_def ks_close_def ks_fail_and_close_def ks_schedule_close_after_fin_def
  ks_maybe_finish_def ks_flush_tcp_writes_def ks_enqueue_tcp_write_def ks_handle_data_frame_def
  ks_handle_fin_frame_def ks_start_tcp_read_def Let_def

lemma stream_buffer_unchanged [simp]:
  "ks_stream_buffer (ks_handle_data_frame payload s) = ks_stream_buffer s"
  "ks_stream_buffer (ks_handle_fin_frame s) = ks_stream_buffer s"
  "ks_stream_buffer (ks_close s) = ks_stream_buffer s"
  "ks_stream_buffer (ks_note e s) = ks_stream_buffer s"
  by (simp_all add: ks_plain_defs)

text \<open>The loop of \<open>parse_frames\<close>: one round for each complete frame in the buffer.\<close>

function ks_parse_frames :: "'k kcp_session \<Rightarrow> 'k kcp_session" where
  "ks_parse_frames s =
     (let buffer = ks_stream_buffer s
      in if length buffer < frame_header_size \<or> ks_closing s then s
         else
           let type = buffer ! 0; n = unat (read_be32 buffer 1)
           in if n > max_frame_payload then ks_close (ks_note (Ks_warn ''oversized frame'') s)
              else if length buffer < frame_header_size + n then s
              else if type = ks_type_code Ks_data \<or> type = ks_type_code Ks_fin then
                let s = (if type = ks_type_code Ks_data
                         then ks_handle_data_frame (take n (drop frame_header_size buffer)) s
                         else ks_handle_fin_frame s)
                in ks_parse_frames (s \<lparr> ks_stream_buffer := drop (frame_header_size + n) (ks_stream_buffer s) \<rparr>)
              else ks_close (ks_note (Ks_warn ''unknown frame type'') s))"
  by pat_completeness auto
termination by (relation "measure (\<lambda>s. length (ks_stream_buffer s))") auto

declare ks_parse_frames.simps [simp del]

text \<open>A round of the loop of \<open>drain_kcp\<close>: \<open>Inl\<close> leaves the loop.\<close>

definition ks_drain_round :: "'k transport_lib \<Rightarrow> 'k kcp_session \<Rightarrow> 'k kcp_session + 'k kcp_session" where
  "ks_drain_round lib s =
     (if ks_closing s \<or> tl_peeksize lib (ks_kcp s) \<le> 0 then Inl s
      else
        let (received, buffer, k) = tl_recv lib (tl_peeksize lib (ks_kcp s)) (ks_kcp s);
            s = s \<lparr> ks_kcp := k \<rparr>
        in if received \<le> 0 then Inl s
           else Inr (ks_parse_frames (s \<lparr> ks_stream_buffer := ks_stream_buffer s @ take (nat received) buffer \<rparr>)))"

partial_function (option) ks_drain_kcp :: "'k transport_lib \<Rightarrow> 'k kcp_session \<Rightarrow> 'k kcp_session option" where
  "ks_drain_kcp lib s = (case ks_drain_round lib s of Inl s \<Rightarrow> Some s | Inr s \<Rightarrow> ks_drain_kcp lib s)"

definition ks_input :: "'k transport_lib \<Rightarrow> bytes \<Rightarrow> 'k kcp_session \<Rightarrow> 'k kcp_session result option" where
  "ks_input lib packet s =
     (if ks_closing s \<or> packet = [] then Some (Inr s)
      else
        let (r, k) = tl_input lib packet (ks_kcp s);
            s = s \<lparr> ks_kcp := k \<rparr>
        in if r < 0 then Some (Inr (ks_note (Ks_warn ''ikcp_input failed'') s))
           else
             case ks_drain_kcp lib s of
               None \<Rightarrow> None
             | Some s \<Rightarrow> Some (if cfg_acknodelay (ks_config s) then ks_flush lib s else Inr s))"

definition ks_start_update_timer :: "'k kcp_session \<Rightarrow> 'k kcp_session" where
  "ks_start_update_timer s =
     (if ks_closing s then s else ks_note (Ks_update_timer (max 1 (cfg_interval (ks_config s)))) s)"

definition ks_update_kcp :: "'k transport_lib \<Rightarrow> int \<Rightarrow> 'k kcp_session \<Rightarrow> 'k kcp_session result option" where
  "ks_update_kcp lib now s =
     (if ks_closing s then Some (Inr s)
      else
        let (buffers, k) = tl_update lib (current_millis (nat now)) (ks_kcp s)
        in case ks_run_output lib buffers (s \<lparr> ks_kcp := k \<rparr>) of
             Inl e \<Rightarrow> Some (Inl e)
           | Inr s \<Rightarrow>
               (case ks_drain_kcp lib s of None \<Rightarrow> None | Some s \<Rightarrow> Some (Inr (ks_start_update_timer s))))"

definition ks_update_handler :: "'k transport_lib \<Rightarrow> int \<Rightarrow> bool \<Rightarrow> 'k kcp_session \<Rightarrow> 'k kcp_session result option" where
  "ks_update_handler lib now failed s = (if failed then Some (Inr s) else ks_update_kcp lib now s)"

section \<open>Starting\<close>

text \<open>The log lines ask for the address of the peer, which throws when it has gone (\<open>peer_known\<close>).\<close>

definition ks_start_client :: "bool \<Rightarrow> 'k kcp_session \<Rightarrow> 'k kcp_session result" where
  "ks_start_client peer_known s =
     (let s = ks_note (Ks_socket_options (set_socket_buffers (cfg_sockbuf (ks_config s)))) (s \<lparr> ks_tcp_open := True \<rparr>);
          s = s \<lparr> ks_tcp_ready := True \<rparr>
      in if \<not> peer_known then Inl Library_exception
         else Inr (ks_start_update_timer (ks_start_tcp_read (ks_note (Ks_verbose ''stream opened'') s))))"

definition ks_start_server :: "string \<Rightarrow> u16 \<Rightarrow> 'k kcp_session \<Rightarrow> 'k kcp_session" where
  "ks_start_server target_host target_port s =
     ks_start_update_timer
       (ks_note (Ks_resolve target_host (to_string (unat target_port))) (s \<lparr> ks_server_connecting := True \<rparr>))"

text \<open>\<open>async_connect\<close> opens the socket for the first of its endpoints.\<close>

definition ks_resolve_handler :: "string + endpoint list \<Rightarrow> 'k kcp_session \<Rightarrow> 'k kcp_session" where
  "ks_resolve_handler r s =
     (case r of
        Inl error \<Rightarrow> ks_fail_and_close ''resolve target'' s
      | Inr endpoints \<Rightarrow>
          ks_note (Ks_connect endpoints) (if endpoints = [] then s else s \<lparr> ks_tcp_open := True \<rparr>))"

definition ks_connect_handler :: "bool \<Rightarrow> bool \<Rightarrow> 'k kcp_session \<Rightarrow> 'k kcp_session result" where
  "ks_connect_handler failed peer_known s =
     (let s = s \<lparr> ks_server_connecting := False \<rparr>
      in if failed then Inr (ks_fail_and_close ''connect target'' s)
         else
           let s = ks_note (Ks_socket_options (set_socket_buffers (cfg_sockbuf (ks_config s)))) s;
               s = s \<lparr> ks_tcp_ready := True \<rparr>
           in if \<not> peer_known then Inl Library_exception
              else Inr (ks_start_tcp_read (ks_flush_tcp_writes (ks_note (Ks_verbose ''stream opened'') s))))"

end
