(* ===== verification/Kcp_Session_Safety.thy ===== *)
theory Kcp_Session_Safety
  imports Kcp_Session
begin

text \<open>
  The reachable states of a \<open>KcpSession\<close>. The relation carries the bytes that the session has
  taken from KCP, so that its invariant can say how the frames of that stream relate to the
  writes on the TCP socket.
\<close>

section \<open>Frames\<close>

lemma ks_frame_eq: "ks_frame type payload = ks_type_code type # be32_bytes (of_nat (length payload)) @ payload"
  by (simp add: ks_frame_def write_be32_def memcpy_def be32_bytes_def numeral_eq_Suc)

definition frame_stream :: "(ks_frame_type \<times> bytes) list \<Rightarrow> bytes" where
  "frame_stream frames = concat (map (\<lambda>(type, payload). ks_frame type payload) frames)"

definition frame_payloads :: "(ks_frame_type \<times> bytes) list \<Rightarrow> bytes list" where
  "frame_payloads frames = map snd (filter (\<lambda>(type, payload). type = Ks_data \<and> payload \<noteq> []) frames)"

definition small_frames :: "(ks_frame_type \<times> bytes) list \<Rightarrow> bool" where
  "small_frames frames \<longleftrightarrow> (\<forall>f \<in> set frames. length (snd f) \<le> max_frame_payload)"

lemma frame_simps [simp]:
  "frame_stream [] = []" "frame_stream (f # fs) = ks_frame (fst f) (snd f) @ frame_stream fs"
  "frame_stream (fs @ gs) = frame_stream fs @ frame_stream gs"
  "frame_payloads [] = []" "frame_payloads (fs @ gs) = frame_payloads fs @ frame_payloads gs"
  "small_frames []" "small_frames (f # fs) \<longleftrightarrow> length (snd f) \<le> max_frame_payload \<and> small_frames fs"
  "small_frames (fs @ gs) \<longleftrightarrow> small_frames fs \<and> small_frames gs"
  by (auto simp: frame_stream_def frame_payloads_def small_frames_def split_def)

lemma be32_cons: "read_be32 (x # be32_bytes v @ ys) 1 = v"
  using be32.dec_after [of "[x]" 1 v ys] by simp

lemma byte_bits_end: "8 \<le> n \<Longrightarrow> \<not> bit (b :: byte) n"
  using bit_imp_le_length [of b n] by auto

lemma be32_bytes_read: "be32_bytes (read_be32 (x # a # b # c # d # ys) 1) = [a, b, c, d]"
  by (auto simp: be32_bytes_def read_be32_def byte_bit_simps byte_bits_end intro!: bit_word_eqI)

lemma read_be32_frame:
  assumes "length payload \<le> max_frame_payload"
  shows "unat (read_be32 (ks_frame type payload @ rest) 1) = length payload"
  using assms by (simp add: ks_frame_eq be32_cons [unfolded One_nat_def] max_frame_payload_def unat_of_nat take_bit_nat_eq_self)

text \<open>A complete frame at the front of a buffer, read as the source reads it.\<close>

lemma frame_at_front:
  assumes "5 + unat (read_be32 buffer 1) \<le> length buffer" and "buffer ! 0 = ks_type_code type"
  shows "buffer = ks_frame type (take (unat (read_be32 buffer 1)) (drop 5 buffer)) @ drop (5 + unat (read_be32 buffer 1)) buffer"
    (is "_ = ks_frame type ?p @ ?rest")
proof -
  obtain x a b c d ys where buffer: "buffer = x # a # b # c # d # ys"
    using assms(1) by (auto simp: length_Suc_conv numeral_eq_Suc le_Suc_eq Suc_le_length_iff)
  have "be32_bytes (read_be32 buffer 1) = [a, b, c, d]"
    by (simp add: buffer be32_bytes_read [unfolded One_nat_def])
  moreover have "of_nat (length ?p) = read_be32 buffer 1" using assms(1) by simp
  moreover have "drop (5 + n) buffer = drop n ys" for n
    using drop_drop [of n 5 buffer] by (simp add: buffer add.commute)
  ultimately show ?thesis
    using assms(2) by (simp add: ks_frame_eq buffer)
qed

text \<open>Frames are prefix-free: whole frames at the front of a framed stream are its first frames.\<close>

lemma frame_cancel:
  assumes "ks_frame t p @ xs = ks_frame u q @ ys" and "length p \<le> max_frame_payload" "length q \<le> max_frame_payload"
  shows "t = u \<and> p = q \<and> xs = ys"
proof -
  have "length p = length q" using read_be32_frame [OF assms(2), of t xs] read_be32_frame [OF assms(3), of u ys] assms(1) by simp
  moreover have "t = u" using assms(1) by (cases t; cases u) (simp_all add: ks_frame_eq)
  ultimately show ?thesis using assms(1) by (simp add: ks_frame_eq)
qed

lemma frames_prefix:
  assumes "frame_stream fs @ rest = frame_stream gs" "small_frames fs" "small_frames gs"
  shows "\<exists>hs. gs = fs @ hs \<and> rest = frame_stream hs"
  using assms
proof (induction fs arbitrary: gs)
  case (Cons f fs)
  then obtain g gs' where gs: "gs = g # gs'" by (cases gs) (auto simp: ks_frame_eq)
  have "fst f = fst g \<and> snd f = snd g \<and> frame_stream fs @ rest = frame_stream gs'"
    using Cons.prems by (intro frame_cancel) (simp_all add: gs)
  then show ?case using Cons.IH [of gs'] Cons.prems by (auto simp: gs prod_eq_iff)
qed simp

section \<open>The invariant\<close>

fun tcp_write_of :: "ks_effect \<Rightarrow> bytes list" where
  "tcp_write_of (Ks_tcp_write data) = [data]"
| "tcp_write_of _ = []"

text \<open>The payloads handed to the TCP socket, in order.\<close>

definition ks_writes :: "'k kcp_session \<Rightarrow> bytes list" where
  "ks_writes s = concat (map tcp_write_of (ks_effects s))"

text \<open>
  The frames taken from the stream account for every payload: it is written (\<open>written\<close>) or
  waits, and the first one that waits may be on its way. In a run without failed writes
  (\<open>clean\<close>) that is also what the socket has seen.
\<close>

definition ks_delivery :: "bool \<Rightarrow> bytes \<Rightarrow> (ks_frame_type \<times> bytes) list \<Rightarrow> bytes list \<Rightarrow> 'k kcp_session \<Rightarrow> bool" where
  "ks_delivery clean stream frames written s \<longleftrightarrow>
     small_frames frames \<and> stream = frame_stream frames @ ks_stream_buffer s \<and>
     frame_payloads frames = written @ ks_pending_writes s \<and>
     ks_remote_fin s = (\<exists>f \<in> set frames. fst f = Ks_fin) \<and>
     (clean \<longrightarrow> ks_writes s = written @ take 1 (ks_pending_writes s) \<and> (ks_write_active s \<or> ks_closing s) \<or>
               ks_writes s = written \<and> \<not> ks_write_active s)"

definition ks_base :: "base_config \<Rightarrow> bool \<Rightarrow> bytes \<Rightarrow> 'k kcp_session \<Rightarrow> bool" where
  "ks_base config clean stream s \<longleftrightarrow>
     ks_config s = config \<and> (ks_write_active s \<longrightarrow> ks_pending_writes s \<noteq> [] \<and> ks_tcp_ready s) \<and>
     count_list (ks_effects s) Ks_run_close_handler = (if ks_closing s \<and> ks_has_close_handler s then 1 else 0) \<and>
     (\<exists>frames written. ks_delivery clean stream frames written s)"

definition ks_done :: "'k kcp_session \<Rightarrow> bool" where
  "ks_done s \<longleftrightarrow> \<not> ks_closing s \<and> ks_local_fin s \<and> ks_remote_fin s \<and> ks_pending_writes s = [] \<and> \<not> ks_write_active s"

definition ks_finished :: "'k kcp_session \<Rightarrow> bool" where
  "ks_finished s \<longleftrightarrow> (ks_done s \<longrightarrow> Ks_close_timer (max 0 (cfg_closewait (ks_config s))) \<in> set (ks_effects s))"

definition ks_parsed :: "'k kcp_session \<Rightarrow> bool" where
  "ks_parsed s \<longleftrightarrow>
     ks_closing s \<or> length (ks_stream_buffer s) < 5 \<or>
     length (ks_stream_buffer s) < 5 + unat (read_be32 (ks_stream_buffer s) 1)"

definition ks_inv :: "base_config \<Rightarrow> bool \<Rightarrow> bytes \<Rightarrow> 'k kcp_session \<Rightarrow> bool" where
  "ks_inv config clean stream s \<longleftrightarrow> ks_base config clean stream s \<and> ks_finished s \<and> ks_parsed s"

text \<open>Operations that touch neither the frames nor the writes.\<close>

definition ks_quiet :: "'k kcp_session \<Rightarrow> 'k kcp_session \<Rightarrow> bool" where
  "ks_quiet s s' \<longleftrightarrow>
     ks_config s' = ks_config s \<and> ks_has_close_handler s' = ks_has_close_handler s \<and>
     ks_stream_buffer s' = ks_stream_buffer s \<and> ks_pending_writes s' = ks_pending_writes s \<and>
     ks_write_active s' = ks_write_active s \<and> (ks_tcp_ready s \<longrightarrow> ks_tcp_ready s') \<and> ks_closing s' = ks_closing s \<and>
     ks_local_fin s' = ks_local_fin s \<and> ks_remote_fin s' = ks_remote_fin s \<and>
     (\<exists>es. ks_effects s' = ks_effects s @ es \<and> Ks_run_close_handler \<notin> set es \<and> concat (map tcp_write_of es) = [])"

lemma ks_quiet_refl [simp]: "ks_quiet s s"
  by (simp add: ks_quiet_def)

lemma ks_quiet_trans: "ks_quiet s t \<Longrightarrow> ks_quiet t u \<Longrightarrow> ks_quiet s u"
  by (fastforce simp: ks_quiet_def)

lemma ks_quiet_keeps:
  assumes "ks_quiet s s'"
  shows "ks_base config clean stream s \<Longrightarrow> ks_base config clean stream s'" "ks_finished s \<Longrightarrow> ks_finished s'"
    "ks_parsed s \<Longrightarrow> ks_parsed s'" "ks_inv config clean stream s \<Longrightarrow> ks_inv config clean stream s'"
proof -
  obtain es where es: "ks_effects s' = ks_effects s @ es" "Ks_run_close_handler \<notin> set es" "concat (map tcp_write_of es) = []"
    using assms by (auto simp: ks_quiet_def)
  have writes: "ks_writes s' = ks_writes s" using es by (simp add: ks_writes_def)
  show base: "ks_base config clean stream s \<Longrightarrow> ks_base config clean stream s'"
    using assms es(1,2) by (simp add: ks_base_def ks_delivery_def ks_quiet_def writes)
  show fin: "ks_finished s \<Longrightarrow> ks_finished s'"
    using assms es(1) by (auto simp: ks_finished_def ks_done_def ks_quiet_def)
  show parsed: "ks_parsed s \<Longrightarrow> ks_parsed s'"
    using assms by (simp add: ks_parsed_def ks_quiet_def)
  show "ks_inv config clean stream s \<Longrightarrow> ks_inv config clean stream s'"
    using base fin parsed by (simp add: ks_inv_def)
qed

lemma ks_quiet_fields:
  "ks_quiet s (s \<lparr> ks_kcp := k \<rparr>)" "ks_quiet s (s \<lparr> ks_draws := n \<rparr>)" "ks_quiet s (s \<lparr> ks_tcp_open := b \<rparr>)"
  "ks_quiet s (s \<lparr> ks_server_connecting := b \<rparr>)" "ks_quiet s (s \<lparr> ks_tcp_ready := True \<rparr>)"
  by (simp_all add: ks_quiet_def)

lemma ks_quiet_note: "tcp_write_of e = [] \<Longrightarrow> e \<noteq> Ks_run_close_handler \<Longrightarrow> ks_quiet s (ks_note e s)"
  by (simp add: ks_quiet_def ks_note_def)

lemma ks_quiet_warn: "ks_quiet s (ks_note (Ks_warn m) s)"
  by (rule ks_quiet_note) simp_all

lemma ks_quiet_timers: "ks_quiet s (ks_start_tcp_read s)" "ks_quiet s (ks_start_update_timer s)"
  by (simp_all add: ks_start_tcp_read_def ks_start_update_timer_def ks_quiet_note)

lemma ks_quiet_send_udp: "ks_send_udp lib buffer s = Inr s' \<Longrightarrow> ks_quiet s s'"
  by (auto simp: ks_send_udp_def ks_quiet_def ks_note_def split: if_splits sum.splits)

lemma ks_quiet_run_output: "ks_run_output lib buffers s = Inr s' \<Longrightarrow> ks_quiet s s'"
  by (induction buffers arbitrary: s) (auto split: sum.splits dest: ks_quiet_send_udp intro: ks_quiet_trans)

lemma ks_quiet_flush: "ks_flush lib s = Inr s' \<Longrightarrow> ks_quiet s s'"
  using ks_quiet_trans [OF ks_quiet_fields(1) ks_quiet_run_output]
  by (auto simp: ks_flush_def split: prod.splits)

lemma ks_quiet_send_frame: "ks_send_frame lib type payload s = Inr s' \<Longrightarrow> ks_quiet s s'"
  using ks_quiet_trans [OF ks_quiet_fields(1) ks_quiet_flush] ks_quiet_trans [OF ks_quiet_fields(1) ks_quiet_warn]
  by (auto simp: ks_send_frame_def Let_def split: if_splits prod.splits)


section \<open>Operations that do\<close>

lemma ks_note_fields [simp]:
  "ks_config (ks_note e s) = ks_config s" "ks_has_close_handler (ks_note e s) = ks_has_close_handler s"
  "ks_pending_writes (ks_note e s) = ks_pending_writes s" "ks_write_active (ks_note e s) = ks_write_active s"
  "ks_tcp_ready (ks_note e s) = ks_tcp_ready s" "ks_tcp_open (ks_note e s) = ks_tcp_open s"
  "ks_closing (ks_note e s) = ks_closing s" "ks_local_fin (ks_note e s) = ks_local_fin s"
  "ks_remote_fin (ks_note e s) = ks_remote_fin s" "ks_kcp (ks_note e s) = ks_kcp s"
  "ks_effects (ks_note e s) = ks_effects s @ [e]"
  by (simp_all add: ks_note_def)

lemma ks_writes_note: "ks_writes (ks_note e s) = ks_writes s @ tcp_write_of e"
  by (simp add: ks_writes_def ks_note_def)

lemma ks_writes_fields [simp]:
  "ks_writes (s \<lparr> ks_pending_writes := p \<rparr>) = ks_writes s" "ks_writes (s \<lparr> ks_write_active := b \<rparr>) = ks_writes s"
  "ks_writes (s \<lparr> ks_stream_buffer := x \<rparr>) = ks_writes s" "ks_writes (s \<lparr> ks_remote_fin := b \<rparr>) = ks_writes s"
  "ks_writes (s \<lparr> ks_closing := b \<rparr>) = ks_writes s" "ks_writes (s \<lparr> ks_tcp_open := b \<rparr>) = ks_writes s"
  "ks_writes (s \<lparr> ks_local_fin := b \<rparr>) = ks_writes s" "ks_writes (s \<lparr> ks_kcp := k \<rparr>) = ks_writes s"
  by (simp_all add: ks_writes_def)

lemma ks_close_effect:
  assumes "\<not> ks_closing s"
  shows "ks_writes (ks_close s) = ks_writes s" "ks_closing (ks_close s)" "ks_config (ks_close s) = ks_config s"
    "ks_has_close_handler (ks_close s) = ks_has_close_handler s" "ks_pending_writes (ks_close s) = ks_pending_writes s"
    "ks_write_active (ks_close s) = ks_write_active s" "ks_tcp_ready (ks_close s) = ks_tcp_ready s"
    "ks_remote_fin (ks_close s) = ks_remote_fin s"
    "count_list (ks_effects (ks_close s)) Ks_run_close_handler =
       count_list (ks_effects s) Ks_run_close_handler + (if ks_has_close_handler s then 1 else 0)"
  using assms by (simp_all add: ks_close_def ks_writes_def ks_note_def Let_def)

lemma ks_close_inv:
  assumes "ks_base config clean stream s"
  shows "ks_inv config clean stream (ks_close s)"
proof (cases "ks_closing s")
  case True
  then show ?thesis using assms by (simp add: ks_inv_def ks_close_def ks_finished_def ks_done_def ks_parsed_def)
next
  case False
  note e = ks_close_effect [OF False]
  have "ks_delivery clean stream frames written s \<Longrightarrow> ks_delivery clean stream frames written (ks_close s)" for frames written
    by (auto simp: ks_delivery_def e)
  then have "ks_base config clean stream (ks_close s)"
    using assms False by (auto simp: ks_base_def e)
  then show ?thesis by (simp add: ks_inv_def ks_finished_def ks_done_def ks_parsed_def e)
qed

lemma ks_fail_inv: "ks_base config clean stream s \<Longrightarrow> ks_inv config clean stream (ks_fail_and_close m s)"
  unfolding ks_fail_and_close_def by (rule ks_close_inv [OF ks_quiet_keeps(1) [OF ks_quiet_warn]])

lemma ks_maybe_finish_quiet: "ks_quiet s (ks_maybe_finish s)"
  by (simp add: ks_maybe_finish_def ks_schedule_close_after_fin_def ks_quiet_note)

lemma ks_maybe_finish_finished: "ks_finished (ks_maybe_finish s)"
  by (auto simp: ks_maybe_finish_def ks_schedule_close_after_fin_def ks_finished_def ks_done_def ks_note_def)

lemma ks_maybe_finish_inv:
  "ks_base config clean stream s \<Longrightarrow> ks_parsed s \<Longrightarrow> ks_inv config clean stream (ks_maybe_finish s)"
  by (simp add: ks_inv_def ks_quiet_keeps(1,3) [OF ks_maybe_finish_quiet] ks_maybe_finish_finished)

lemma ks_flush_tcp_writes_base:
  assumes "ks_base config clean stream s"
  shows "ks_base config clean stream (ks_flush_tcp_writes s)" "ks_finished s \<Longrightarrow> ks_finished (ks_flush_tcp_writes s)"
    "ks_parsed s \<Longrightarrow> ks_parsed (ks_flush_tcp_writes s)"
proof -
  have "ks_delivery clean stream frames written (ks_flush_tcp_writes s)" if "ks_delivery clean stream frames written s" for frames written
    using that by (cases "ks_pending_writes s")
      (auto simp: ks_flush_tcp_writes_def ks_delivery_def ks_writes_note)
  then show "ks_base config clean stream (ks_flush_tcp_writes s)"
    using assms unfolding ks_base_def by (elim conjE exE, intro conjI exI) (auto simp: ks_flush_tcp_writes_def)
qed (auto simp: ks_flush_tcp_writes_def ks_finished_def ks_done_def ks_parsed_def)

lemma ks_enqueue_delivery:
  assumes "ks_delivery clean stream frames written s" "\<not> ks_closing s"
    and "ks_write_active s \<longrightarrow> ks_pending_writes s \<noteq> []"
    and "ks_stream_buffer s = ks_frame Ks_data p @ rest" "length p \<le> max_frame_payload"
  shows "ks_delivery clean stream (frames @ [(Ks_data, p)]) written ((ks_handle_data_frame p s) \<lparr> ks_stream_buffer := rest \<rparr>)"
proof (cases "p = []")
  case True
  then show ?thesis using assms by (simp add: ks_delivery_def ks_handle_data_frame_def frame_payloads_def)
next
  case False
  have frames: "small_frames (frames @ [(Ks_data, p)])" "stream = frame_stream (frames @ [(Ks_data, p)]) @ rest"
      "frame_payloads (frames @ [(Ks_data, p)]) = written @ ks_pending_writes s @ [p]"
      "ks_remote_fin s = (\<exists>f \<in> set (frames @ [(Ks_data, p)]). fst f = Ks_fin)"
    using assms False by (simp_all add: ks_delivery_def frame_payloads_def)
  show ?thesis
    using assms False frames
    by (cases "ks_pending_writes s")
      (auto simp: ks_delivery_def ks_handle_data_frame_def ks_enqueue_tcp_write_def ks_flush_tcp_writes_def ks_writes_note
        simp del: frame_simps)
qed


section \<open>The receive loop\<close>

lemma ks_data_base:
  assumes "ks_base config clean stream s" "\<not> ks_closing s"
    and "ks_stream_buffer s = ks_frame Ks_data p @ rest" "length p \<le> max_frame_payload"
  shows "ks_base config clean stream ((ks_handle_data_frame p s) \<lparr> ks_stream_buffer := rest \<rparr>)"
proof -
  obtain frames written where d: "ks_delivery clean stream frames written s" using assms(1) by (auto simp: ks_base_def)
  have "ks_delivery clean stream (frames @ [(Ks_data, p)]) written ((ks_handle_data_frame p s) \<lparr> ks_stream_buffer := rest \<rparr>)"
    using assms by (intro ks_enqueue_delivery [OF d]) (auto simp: ks_base_def)
  then show ?thesis
    using assms(1) unfolding ks_base_def
    by (elim conjE exE, intro conjI exI)
      (auto simp: ks_handle_data_frame_def ks_enqueue_tcp_write_def ks_flush_tcp_writes_def)
qed

lemma ks_fin_base:
  assumes "ks_base config clean stream s" "ks_stream_buffer s = ks_frame Ks_fin p @ rest" "length p \<le> max_frame_payload"
  shows "ks_base config clean stream ((ks_handle_fin_frame s) \<lparr> ks_stream_buffer := rest \<rparr>)"
proof -
  obtain frames written where d: "ks_delivery clean stream frames written s" using assms(1) by (auto simp: ks_base_def)
  let ?s = "s \<lparr> ks_remote_fin := True, ks_stream_buffer := rest \<rparr>"
  have "ks_delivery clean stream (frames @ [(Ks_fin, p)]) written ?s"
    using d assms(2,3) by (auto simp: ks_delivery_def frame_payloads_def)
  then have base: "ks_base config clean stream ?s" using assms(1) by (auto simp: ks_base_def)
  have "ks_quiet ?s ((ks_handle_fin_frame s) \<lparr> ks_stream_buffer := rest \<rparr>)"
    by (simp add: ks_handle_fin_frame_def ks_maybe_finish_def ks_schedule_close_after_fin_def ks_quiet_def ks_note_def Let_def)
  then show ?thesis using base by (rule ks_quiet_keeps(1))
qed

lemma ks_handled_finished:
  assumes "ks_base config clean stream s" "ks_finished s"
  shows "ks_finished ((ks_handle_data_frame p s) \<lparr> ks_stream_buffer := rest \<rparr>)"
    "ks_finished ((ks_handle_fin_frame s) \<lparr> ks_stream_buffer := rest \<rparr>)"
proof -
  show "ks_finished ((ks_handle_data_frame p s) \<lparr> ks_stream_buffer := rest \<rparr>)"
    using assms(2) by (auto simp: ks_handle_data_frame_def ks_enqueue_tcp_write_def ks_flush_tcp_writes_def ks_finished_def ks_done_def)
  show "ks_finished ((ks_handle_fin_frame s) \<lparr> ks_stream_buffer := rest \<rparr>)"
    using assms(2) by (auto simp: ks_handle_fin_frame_def ks_maybe_finish_def ks_schedule_close_after_fin_def ks_finished_def ks_done_def Let_def)
qed

lemma ks_parse_frames_inv:
  assumes "ks_base config clean stream s" "ks_finished s"
  shows "ks_inv config clean stream (ks_parse_frames s)"
  using assms
proof (induction s rule: ks_parse_frames.induct)
  case (1 s)
  let ?buffer = "ks_stream_buffer s"
  let ?n = "unat (read_be32 ?buffer 1)"
  let ?p = "take ?n (drop 5 ?buffer)" and ?rest = "drop (5 + ?n) ?buffer"
  consider "length ?buffer < 5 \<or> ks_closing s" | "\<not> (length ?buffer < 5 \<or> ks_closing s)" "?n > max_frame_payload"
    | "\<not> (length ?buffer < 5 \<or> ks_closing s)" "\<not> ?n > max_frame_payload" "length ?buffer < 5 + ?n"
    | "\<not> (length ?buffer < 5 \<or> ks_closing s)" "\<not> ?n > max_frame_payload" "\<not> length ?buffer < 5 + ?n" "?buffer ! 0 = ks_type_code Ks_data"
    | "\<not> (length ?buffer < 5 \<or> ks_closing s)" "\<not> ?n > max_frame_payload" "\<not> length ?buffer < 5 + ?n" "?buffer ! 0 = ks_type_code Ks_fin"
    | "\<not> (length ?buffer < 5 \<or> ks_closing s)" "\<not> ?n > max_frame_payload" "\<not> length ?buffer < 5 + ?n"
      "\<not> (?buffer ! 0 = ks_type_code Ks_data \<or> ?buffer ! 0 = ks_type_code Ks_fin)"
    by blast
  then show ?case
  proof cases
    case 1
    then show ?thesis using "1.prems" by (subst ks_parse_frames.simps) (auto simp: ks_inv_def ks_parsed_def)
  next
    case 2
    then show ?thesis
      using ks_close_inv [OF ks_quiet_keeps(1) [OF ks_quiet_warn "1.prems"(1)]]
      by (subst ks_parse_frames.simps) (simp only: Let_def if_False if_True)
  next
    case 3
    then show ?thesis using "1.prems" by (subst ks_parse_frames.simps) (auto simp: ks_inv_def ks_parsed_def)
  next
    case 4
    have buffer: "?buffer = ks_frame Ks_data ?p @ ?rest"
      by (rule frame_at_front) (use 4(3,4) in \<open>simp_all only: not_less\<close>)
    have small: "length ?p \<le> max_frame_payload" using 4(2) by simp
    have "ks_inv config clean stream (ks_parse_frames ((ks_handle_data_frame ?p s) \<lparr> ks_stream_buffer := ?rest \<rparr>))"
      using 4 ks_data_base [OF "1.prems"(1) _ buffer small] ks_handled_finished(1) [OF "1.prems"]
        "1.IH" [OF refl 4(1) refl refl 4(2,3) _ refl]
      by simp
    then show ?thesis using 4 by (subst ks_parse_frames.simps) (simp add: Let_def)
  next
    case 5
    have buffer: "?buffer = ks_frame Ks_fin ?p @ ?rest"
      by (rule frame_at_front) (use 5(3,4) in \<open>simp_all only: not_less\<close>)
    have small: "length ?p \<le> max_frame_payload" using 5(2) by simp
    have "ks_inv config clean stream (ks_parse_frames ((ks_handle_fin_frame s) \<lparr> ks_stream_buffer := ?rest \<rparr>))"
      using 5 ks_fin_base [OF "1.prems"(1) buffer small] ks_handled_finished(2) [OF "1.prems"]
        "1.IH" [OF refl 5(1) refl refl 5(2,3) _ refl]
      by simp
    then show ?thesis using 5 by (subst ks_parse_frames.simps) (simp add: Let_def)
  next
    case 6
    then show ?thesis
      using ks_close_inv [OF ks_quiet_keeps(1) [OF ks_quiet_warn "1.prems"(1)]]
      by (subst ks_parse_frames.simps) (simp only: Let_def if_False if_True)
  qed
qed


text \<open>The bytes that the loop of \<open>drain_kcp\<close> takes from KCP.\<close>

definition ks_chunk :: "'k transport_lib \<Rightarrow> 'k kcp_session \<Rightarrow> bytes" where
  "ks_chunk lib s =
     (let (received, buffer, k) = tl_recv lib (tl_peeksize lib (ks_kcp s)) (ks_kcp s) in take (nat received) buffer)"

partial_function (option) ks_taken :: "'k transport_lib \<Rightarrow> 'k kcp_session \<Rightarrow> bytes option" where
  "ks_taken lib s =
     (case ks_drain_round lib s of
        Inl _ \<Rightarrow> Some []
      | Inr s' \<Rightarrow> Option.bind (ks_taken lib s') (\<lambda>bytes. Some (ks_chunk lib s @ bytes)))"

definition ks_drained :: "'k transport_lib \<Rightarrow> 'k kcp_session \<Rightarrow> bytes" where
  "ks_drained lib s = (case ks_taken lib s of None \<Rightarrow> [] | Some bytes \<Rightarrow> bytes)"

lemma ks_base_chunk:
  assumes "ks_base config clean stream s"
  shows "ks_base config clean (stream @ chunk) (s \<lparr> ks_stream_buffer := ks_stream_buffer s @ chunk \<rparr>)"
proof -
  obtain frames written where "ks_delivery clean stream frames written s" using assms by (auto simp: ks_base_def)
  then have "ks_delivery clean (stream @ chunk) frames written (s \<lparr> ks_stream_buffer := ks_stream_buffer s @ chunk \<rparr>)"
    by (simp add: ks_delivery_def)
  then show ?thesis using assms by (auto simp: ks_base_def)
qed

lemma ks_round_inv:
  assumes "ks_inv config clean stream s"
  shows "ks_drain_round lib s = Inl s' \<Longrightarrow> ks_inv config clean stream s'"
    "ks_drain_round lib s = Inr s' \<Longrightarrow> ks_inv config clean (stream @ ks_chunk lib s) s'"
proof -
  obtain r buf k where recv: "tl_recv lib (tl_peeksize lib (ks_kcp s)) (ks_kcp s) = (r, buf, k)" by (metis prod_cases3)
  show "ks_drain_round lib s = Inl s' \<Longrightarrow> ks_inv config clean stream s'"
    using assms ks_quiet_keeps(4) [OF ks_quiet_fields(1)] by (auto simp: ks_drain_round_def recv Let_def split: if_splits)
  assume round: "ks_drain_round lib s = Inr s'"
  let ?s = "s \<lparr> ks_kcp := k \<rparr>"
  have s': "s' = ks_parse_frames (?s \<lparr> ks_stream_buffer := ks_stream_buffer ?s @ ks_chunk lib s \<rparr>)"
    using round by (auto simp: ks_drain_round_def ks_chunk_def recv Let_def split: if_splits)
  have inv: "ks_inv config clean stream ?s" by (rule ks_quiet_keeps(4) [OF ks_quiet_fields(1) assms])
  have "ks_finished (?s \<lparr> ks_stream_buffer := ks_stream_buffer ?s @ ks_chunk lib s \<rparr>)"
    using inv by (auto simp: ks_inv_def ks_finished_def ks_done_def)
  then show "ks_inv config clean (stream @ ks_chunk lib s) s'"
    unfolding s' using inv by (intro ks_parse_frames_inv ks_base_chunk) (simp add: ks_inv_def)
qed

lemma ks_drain_inv:
  assumes "ks_drain_kcp lib s = Some s'" "ks_inv config clean stream s"
  shows "ks_inv config clean (stream @ ks_drained lib s) s'"
proof -
  have "\<forall>stream. ks_inv config clean stream s \<longrightarrow>
      (\<exists>bytes. ks_taken lib s = Some bytes \<and> ks_inv config clean (stream @ bytes) s')"
  proof (rule ks_drain_kcp.raw_induct [OF _ assms(1),
        where P = "\<lambda>lib s s'. \<forall>stream. ks_inv config clean stream s \<longrightarrow>
          (\<exists>bytes. ks_taken lib s = Some bytes \<and> ks_inv config clean (stream @ bytes) s')"])
    fix drain :: "'a transport_lib \<Rightarrow> 'a kcp_session \<Rightarrow> 'a kcp_session option" and lib s s'
    assume IH: "\<And>lib s s'. drain lib s = Some s' \<Longrightarrow> \<forall>stream. ks_inv config clean stream s \<longrightarrow>
          (\<exists>bytes. ks_taken lib s = Some bytes \<and> ks_inv config clean (stream @ bytes) s')"
      and run: "(case ks_drain_round lib s of Inl s \<Rightarrow> Some s | Inr s \<Rightarrow> drain lib s) = Some s'"
    show "\<forall>stream. ks_inv config clean stream s \<longrightarrow>
          (\<exists>bytes. ks_taken lib s = Some bytes \<and> ks_inv config clean (stream @ bytes) s')"
    proof (intro allI impI)
      fix stream assume inv: "ks_inv config clean stream s"
      show "\<exists>bytes. ks_taken lib s = Some bytes \<and> ks_inv config clean (stream @ bytes) s'"
      proof (cases "ks_drain_round lib s")
        case (Inl u)
        then show ?thesis using run ks_round_inv(1) [OF inv Inl] by (subst ks_taken.simps) simp
      next
        case (Inr u)
        then obtain bytes where "ks_taken lib u = Some bytes" "ks_inv config clean ((stream @ ks_chunk lib s) @ bytes) s'"
          using IH [of lib u s'] run ks_round_inv(2) [OF inv Inr] by auto
        then show ?thesis using Inr by (subst ks_taken.simps) simp
      qed
    qed
  qed
  then show ?thesis using assms(2) by (auto simp: ks_drained_def)
qed

section \<open>The handlers\<close>

definition ks_input_bytes :: "'k transport_lib \<Rightarrow> bytes \<Rightarrow> 'k kcp_session \<Rightarrow> bytes" where
  "ks_input_bytes lib packet s =
     (if ks_closing s \<or> packet = [] then []
      else let (r, k) = tl_input lib packet (ks_kcp s) in if r < 0 then [] else ks_drained lib (s \<lparr> ks_kcp := k \<rparr>))"

definition ks_update_bytes :: "'k transport_lib \<Rightarrow> int \<Rightarrow> bool \<Rightarrow> 'k kcp_session \<Rightarrow> bytes" where
  "ks_update_bytes lib now failed s =
     (if failed \<or> ks_closing s then []
      else
        let (buffers, k) = tl_update lib (current_millis (nat now)) (ks_kcp s)
        in case ks_run_output lib buffers (s \<lparr> ks_kcp := k \<rparr>) of Inl _ \<Rightarrow> [] | Inr s \<Rightarrow> ks_drained lib s)"

lemma ks_input_inv:
  assumes "ks_input lib packet s = Some (Inr s')" "ks_inv config clean stream s"
  shows "ks_inv config clean (stream @ ks_input_bytes lib packet s) s'"
proof (cases "ks_closing s \<or> packet = []")
  case True
  then show ?thesis using assms by (auto simp: ks_input_def ks_input_bytes_def)
next
  case False
  obtain r k where input: "tl_input lib packet (ks_kcp s) = (r, k)" by fastforce
  have inv: "ks_inv config clean stream (s \<lparr> ks_kcp := k \<rparr>)"
    by (rule ks_quiet_keeps(4) [OF ks_quiet_fields(1) assms(2)])
  show ?thesis
  proof (cases "r < 0")
    case True
    then show ?thesis
      using assms(1) False ks_quiet_keeps(4) [OF ks_quiet_warn inv] by (auto simp: ks_input_def ks_input_bytes_def input Let_def)
  next
    case ok: False
    then obtain u where u: "ks_drain_kcp lib (s \<lparr> ks_kcp := k \<rparr>) = Some u"
      and rest: "(if cfg_acknodelay (ks_config u) then ks_flush lib u else Inr u) = Inr s'"
      using assms(1) False by (auto simp: ks_input_def input Let_def split: option.splits)
    have "ks_inv config clean (stream @ ks_input_bytes lib packet s) u"
      using ks_drain_inv [OF u inv] False ok by (simp add: ks_input_bytes_def input Let_def)
    then show ?thesis using rest ks_quiet_keeps(4) [OF ks_quiet_flush] by (auto split: if_splits)
  qed
qed

lemma ks_update_inv:
  assumes "ks_update_handler lib now failed s = Some (Inr s')" "ks_inv config clean stream s"
  shows "ks_inv config clean (stream @ ks_update_bytes lib now failed s) s'"
proof (cases "failed \<or> ks_closing s")
  case True
  then show ?thesis using assms by (auto simp: ks_update_handler_def ks_update_kcp_def ks_update_bytes_def split: if_splits)
next
  case False
  obtain buffers k where up: "tl_update lib (current_millis (nat now)) (ks_kcp s) = (buffers, k)" by fastforce
  obtain t u where t: "ks_run_output lib buffers (s \<lparr> ks_kcp := k \<rparr>) = Inr t" and u: "ks_drain_kcp lib t = Some u"
    and s': "s' = ks_start_update_timer u"
    using assms(1) False by (auto simp: ks_update_handler_def ks_update_kcp_def up Let_def split: sum.splits option.splits)
  have "ks_inv config clean stream t"
    by (rule ks_quiet_keeps(4) [OF ks_quiet_trans [OF ks_quiet_fields(1) ks_quiet_run_output [OF t]] assms(2)])
  then have "ks_inv config clean (stream @ ks_drained lib t) s'"
    unfolding s' using ks_drain_inv [OF u] ks_quiet_keeps(4) [OF ks_quiet_timers(2)] by blast
  then show ?thesis using False t by (simp add: ks_update_bytes_def up Let_def)
qed


lemma ks_inv_flush: "ks_inv config clean stream s \<Longrightarrow> ks_inv config clean stream (ks_flush_tcp_writes s)"
  by (simp add: ks_inv_def ks_flush_tcp_writes_base(1) ks_flush_tcp_writes_base(2,3) [of config clean stream])

lemma ks_inv_close: "ks_inv config clean stream s \<Longrightarrow> ks_inv config clean stream (ks_close s)"
  by (rule ks_close_inv) (simp add: ks_inv_def)

lemma ks_local_fin_base:
  assumes "ks_base config clean stream s" "ks_parsed s" "ks_send_local_fin lib s = Inr s'"
  shows "ks_base config clean stream s'" "ks_parsed s'"
proof -
  have "ks_base config clean stream (s \<lparr> ks_local_fin := True \<rparr>)" "ks_parsed (s \<lparr> ks_local_fin := True \<rparr>)"
    using assms(1,2) by (simp_all add: ks_base_def ks_delivery_def ks_parsed_def)
  then show "ks_base config clean stream s'" "ks_parsed s'"
    using assms ks_quiet_keeps(1,3) [OF ks_quiet_send_frame] by (auto simp: ks_send_local_fin_def split: if_splits)
qed

lemma ks_half_close_inv:
  assumes "ks_base config clean stream s" "ks_parsed s"
    and "(case ks_send_local_fin lib s of Inl e \<Rightarrow> Inl e | Inr s \<Rightarrow> Inr (ks_maybe_finish s)) = Inr s'"
  shows "ks_inv config clean stream s'"
proof -
  obtain t where t: "ks_send_local_fin lib s = Inr t" "s' = ks_maybe_finish t"
    using assms(3) by (auto split: sum.splits)
  show ?thesis unfolding t(2) by (rule ks_maybe_finish_inv [OF ks_local_fin_base [OF assms(1,2) t(1)]])
qed

lemma ks_read_inv:
  assumes "ks_read_handler lib r s = Inr s'" "ks_inv config clean stream s"
  shows "ks_inv config clean stream s'"
proof (cases r)
  case (Inr bytes)
  then obtain t where t: "ks_send_frame lib Ks_data bytes s = Inr t" "s' = ks_start_tcp_read t"
    using assms(1) by (auto simp: ks_read_handler_def split: sum.splits)
  show ?thesis
    unfolding t(2) by (rule ks_quiet_keeps(4) [OF ks_quiet_trans [OF ks_quiet_send_frame [OF t(1)] ks_quiet_timers(1)] assms(2)])
next
  case (Inl e)
  have base: "ks_base config clean stream s" "ks_parsed s" using assms(2) by (simp_all add: ks_inv_def)
  show ?thesis
    using assms(1) Inl ks_half_close_inv [OF base] ks_fail_inv [OF base(1)] by (auto simp: ks_read_handler_def split: if_splits)
qed

lemma ks_write_inv:
  assumes "ks_write_handler lib r s = Inr s'" "ks_inv config clean stream s" "ks_write_active s"
    and "r \<noteq> None \<Longrightarrow> clean \<Longrightarrow> ks_closing s"
  shows "ks_inv config clean stream s'"
proof -
  obtain frames written where d: "ks_delivery clean stream frames written s" using assms(2) by (auto simp: ks_inv_def ks_base_def)
  have base: "ks_base config clean stream s" "ks_parsed s" and pending: "ks_pending_writes s \<noteq> []"
    using assms(2,3) by (simp_all add: ks_inv_def ks_base_def)
  show ?thesis
  proof (cases r)
    case None
    let ?s = "s \<lparr> ks_write_active := False, ks_pending_writes := tl (ks_pending_writes s) \<rparr>"
    have "ks_delivery clean stream frames (written @ [hd (ks_pending_writes s)]) ?s"
      using d assms(3) pending by (cases "ks_pending_writes s") (auto simp: ks_delivery_def)
    then have "ks_base config clean stream ?s" using base(1) by (auto simp: ks_base_def)
    moreover have "ks_parsed ?s" using base(2) by (simp add: ks_parsed_def)
    moreover have "s' = ks_maybe_finish (ks_flush_tcp_writes ?s)"
      using assms(1) None by (simp add: ks_write_handler_def Let_def)
    ultimately show ?thesis using ks_maybe_finish_inv ks_flush_tcp_writes_base(1,3) by blast
  next
    case (Some e)
    let ?s = "s \<lparr> ks_write_active := False \<rparr>"
    have "ks_delivery clean stream frames written ?s"
      using d assms(3,4) Some by (auto simp: ks_delivery_def)
    then have failed: "ks_base config clean stream ?s" using base(1) by (auto simp: ks_base_def)
    moreover have "ks_parsed ?s" using base(2) by (simp add: ks_parsed_def)
    ultimately show ?thesis
      using assms(1) Some ks_half_close_inv [OF failed] ks_fail_inv [OF failed]
      by (auto simp: ks_write_handler_def Let_def split: if_splits)
  qed
qed

section \<open>Reachable states\<close>

text \<open>
  A run of a session, with the bytes it has taken from KCP. In a \<open>clean\<close> run no write on the
  TCP socket fails before the session is closed.
\<close>

inductive ks_reachable :: "'k transport_lib \<Rightarrow> base_config \<Rightarrow> bool \<Rightarrow> bytes \<Rightarrow> 'k kcp_session \<Rightarrow> bool"
  for lib config clean where
  made: "make_kcp_session lib remote conv config close_handler draws = Inr s \<Longrightarrow> ks_reachable lib config clean [] s"
| client: "ks_reachable lib config clean stream s \<Longrightarrow> ks_start_client peer_known s = Inr s' \<Longrightarrow>
    ks_reachable lib config clean stream s'"
| server: "ks_reachable lib config clean stream s \<Longrightarrow> ks_reachable lib config clean stream (ks_start_server host port s)"
| resolved: "ks_reachable lib config clean stream s \<Longrightarrow> ks_server_connecting s \<Longrightarrow>
    ks_reachable lib config clean stream (ks_resolve_handler r s)"
| connected: "ks_reachable lib config clean stream s \<Longrightarrow> ks_server_connecting s \<Longrightarrow>
    ks_connect_handler failed peer_known s = Inr s' \<Longrightarrow> ks_reachable lib config clean stream s'"
| input: "ks_reachable lib config clean stream s \<Longrightarrow> ks_input lib packet s = Some (Inr s') \<Longrightarrow>
    ks_reachable lib config clean (stream @ ks_input_bytes lib packet s) s'"
| updated: "ks_reachable lib config clean stream s \<Longrightarrow> ks_update_handler lib now failed s = Some (Inr s') \<Longrightarrow>
    ks_reachable lib config clean (stream @ ks_update_bytes lib now failed s) s'"
| read: "ks_reachable lib config clean stream s \<Longrightarrow> ks_read_handler lib result s = Inr s' \<Longrightarrow>
    ks_reachable lib config clean stream s'"
| written: "ks_reachable lib config clean stream s \<Longrightarrow> ks_write_active s \<Longrightarrow> ks_write_handler lib error s = Inr s' \<Longrightarrow>
    (error \<noteq> None \<Longrightarrow> clean \<Longrightarrow> ks_closing s) \<Longrightarrow> ks_reachable lib config clean stream s'"
| close_timer: "ks_reachable lib config clean stream s \<Longrightarrow>
    ks_reachable lib config clean stream (ks_close_timer_handler failed s)"
| closed: "ks_reachable lib config clean stream s \<Longrightarrow> ks_reachable lib config clean stream (ks_close s)"

lemma ks_made_inv:
  assumes "make_kcp_session lib remote conv config close_handler draws = Inr s"
  shows "ks_inv config clean [] s"
proof -
  have fresh: "ks_stream_buffer s = []" "ks_pending_writes s = []" "ks_effects s = []" "\<not> ks_write_active s"
    "\<not> ks_closing s" "\<not> ks_local_fin s" "\<not> ks_remote_fin s" "ks_config s = config"
    using assms by (auto simp: make_kcp_session_def ks_configure_kcp_def Let_def split: sum.splits option.splits if_splits prod.splits)
  have "ks_delivery clean [] [] [] s" by (simp add: ks_delivery_def fresh ks_writes_def)
  then show ?thesis by (auto simp: ks_inv_def ks_base_def ks_finished_def ks_done_def ks_parsed_def fresh)
qed

lemma ks_quiet_start:
  "ks_start_client peer_known s = Inr s' \<Longrightarrow> ks_quiet s s'" "ks_quiet s (ks_start_server host port s)"
  by (auto simp: ks_start_client_def ks_start_server_def ks_start_tcp_read_def ks_start_update_timer_def ks_quiet_def
      ks_note_def Let_def split: if_splits)

lemma ks_resolve_inv:
  assumes "ks_inv config clean stream s"
  shows "ks_inv config clean stream (ks_resolve_handler r s)"
proof (cases r)
  case (Inl e)
  have "ks_base config clean stream s" using assms by (simp add: ks_inv_def)
  then show ?thesis unfolding Inl ks_resolve_handler_def sum.case by (rule ks_fail_inv)
next
  case (Inr endpoints)
  have "ks_quiet s (ks_resolve_handler r s)" by (simp add: Inr ks_resolve_handler_def ks_quiet_def ks_note_def)
  then show ?thesis using assms by (rule ks_quiet_keeps(4))
qed

lemma ks_connect_inv:
  assumes "ks_inv config clean stream s" "ks_connect_handler failed peer_known s = Inr s'"
  shows "ks_inv config clean stream s'"
proof -
  let ?s = "s \<lparr> ks_server_connecting := False \<rparr>"
  have inv: "ks_inv config clean stream ?s" by (rule ks_quiet_keeps(4) [OF ks_quiet_fields(4) assms(1)])
  show ?thesis
  proof (cases failed)
    case True
    have "ks_base config clean stream ?s" using inv by (simp add: ks_inv_def)
    then have "ks_inv config clean stream (ks_fail_and_close ''connect target'' ?s)" by (rule ks_fail_inv)
    then show ?thesis using assms(2) True by (simp add: ks_connect_handler_def)
  next
    case False
    let ?t = "ks_note (Ks_verbose ''stream opened'')
      ((ks_note (Ks_socket_options (set_socket_buffers (cfg_sockbuf (ks_config ?s)))) ?s) \<lparr> ks_tcp_ready := True \<rparr>)"
    have "ks_quiet ?s ?t" by (simp add: ks_quiet_def ks_note_def)
    then have "ks_inv config clean stream ?t" using inv by (rule ks_quiet_keeps(4))
    then have "ks_inv config clean stream (ks_flush_tcp_writes ?t)" by (rule ks_inv_flush)
    moreover have "s' = ks_start_tcp_read (ks_flush_tcp_writes ?t)"
      using assms(2) False by (auto simp: ks_connect_handler_def Let_def split: if_splits)
    ultimately show ?thesis using ks_quiet_keeps(4) [OF ks_quiet_timers(1)] by simp
  qed
qed

lemma ks_reachable_inv: "ks_reachable lib config clean stream s \<Longrightarrow> ks_inv config clean stream s"
proof (induction rule: ks_reachable.induct)
  case (client stream s peer_known s')
  show ?case by (rule ks_quiet_keeps(4) [OF ks_quiet_start(1) [OF client.hyps(2)] client.IH])
next
  case (server stream s host port)
  show ?case by (rule ks_quiet_keeps(4) [OF ks_quiet_start(2) server.IH])
next
  case (close_timer stream s failed)
  then show ?case by (simp add: ks_close_timer_handler_def ks_inv_close)
next
  case (closed stream s)
  then show ?case by (simp add: ks_inv_close)
next
  case (written stream s error s')
  show ?case by (rule ks_write_inv [OF written.hyps(3) written.IH written.hyps(2)]) (rule written.hyps(4))
qed (blast intro: ks_made_inv ks_resolve_inv ks_connect_inv ks_input_inv ks_update_inv ks_read_inv)+


section \<open>Receiving ends\<close>

lemma ks_parse_frames_kcp: "ks_kcp (ks_parse_frames s) = ks_kcp s"
proof (induction s rule: ks_parse_frames.induct)
  case (1 s)
  have same: "ks_kcp (ks_handle_data_frame p t) = ks_kcp t" "ks_kcp (ks_handle_fin_frame t) = ks_kcp t" "ks_kcp (ks_close t) = ks_kcp t"
    for p and t :: "'a kcp_session"
    by (simp_all add: ks_plain_defs)
  show ?case
    by (subst ks_parse_frames.simps) (use "1.IH" in \<open>auto simp: Let_def same split: if_splits\<close>)
qed

lemma ks_drain_ends:
  assumes "kcp_documented lib mtu backlog"
  shows "\<exists>s'. ks_drain_kcp lib s = Some s'"
proof (induction "backlog (ks_kcp s)" arbitrary: s rule: less_induct)
  case less
  show ?case
  proof (cases "ks_drain_round lib s")
    case (Inl u)
    then show ?thesis by (subst ks_drain_kcp.simps) simp
  next
    case (Inr u)
    obtain r buf k where recv: "tl_recv lib (tl_peeksize lib (ks_kcp s)) (ks_kcp s) = (r, buf, k)" by (metis prod_cases3)
    have "0 < r" "ks_kcp u = k"
      using Inr by (auto simp: ks_drain_round_def recv Let_def ks_parse_frames_kcp split: if_splits)
    then have "backlog (ks_kcp u) < backlog (ks_kcp s)" using kcp_documentedD(10) [OF assms recv] by simp
    then show ?thesis using less Inr by (subst ks_drain_kcp.simps) simp
  qed
qed

lemma ks_receiving_ends:
  assumes "kcp_documented lib mtu backlog"
  shows "\<exists>r. ks_input lib packet s = Some r" "\<exists>r. ks_update_handler lib now failed s = Some r"
proof -
  have drain: "ks_drain_kcp lib t = None \<longleftrightarrow> False" for t using ks_drain_ends [OF assms, of t] by auto
  show "\<exists>r. ks_input lib packet s = Some r"
    by (auto simp: ks_input_def Let_def drain split: prod.split option.split)
  show "\<exists>r. ks_update_handler lib now failed s = Some r"
    by (auto simp: ks_update_handler_def ks_update_kcp_def Let_def drain split: prod.split option.split sum.split)
qed

section \<open>A session to apply the properties to\<close>

lemma ks_parse_step:
  assumes "ks_stream_buffer s = ks_frame type p @ rest" "\<not> ks_closing s" "length p \<le> max_frame_payload"
  shows "ks_parse_frames s = ks_parse_frames
    ((case type of Ks_data \<Rightarrow> ks_handle_data_frame p s | Ks_fin \<Rightarrow> ks_handle_fin_frame s) \<lparr> ks_stream_buffer := rest \<rparr>)"
proof -
  have n: "unat (read_be32 (ks_stream_buffer s) 1) = length p" using read_be32_frame [OF assms(3)] assms(1) by simp
  have len: "length (ks_stream_buffer s) = 5 + length p + length rest" and code: "ks_stream_buffer s ! 0 = ks_type_code type"
    and parts: "take (length p) (drop 5 (ks_stream_buffer s)) = p" "drop (5 + length p) (ks_stream_buffer s) = rest"
    using assms(1) drop_drop [of "length p" 5 "ks_stream_buffer s"] by (simp_all add: ks_frame_eq add.commute)
  show ?thesis
    using assms(2,3) len
    by (subst ks_parse_frames.simps) (simp add: Let_def n [unfolded One_nat_def] code parts split: ks_frame_type.split)
qed

lemma ks_handle_buffer:
  "ks_handle_data_frame p (s \<lparr> ks_stream_buffer := x \<rparr>) = (ks_handle_data_frame p s) \<lparr> ks_stream_buffer := x \<rparr>"
  "ks_handle_fin_frame (s \<lparr> ks_stream_buffer := x \<rparr>) = (ks_handle_fin_frame s) \<lparr> ks_stream_buffer := x \<rparr>"
  by (simp_all add: ks_plain_defs)

lemma ks_parse_data:
  assumes "\<not> ks_closing s" "length p \<le> max_frame_payload"
  shows "ks_parse_frames (s \<lparr> ks_stream_buffer := ks_frame Ks_data p @ rest \<rparr>) =
    ks_parse_frames ((ks_handle_data_frame p s) \<lparr> ks_stream_buffer := rest \<rparr>)"
  using ks_parse_step [of "s \<lparr> ks_stream_buffer := ks_frame Ks_data p @ rest \<rparr>" Ks_data p rest] assms
  by (simp add: ks_handle_buffer)

lemma ks_parse_fin:
  assumes "\<not> ks_closing s" "length p \<le> max_frame_payload"
  shows "ks_parse_frames (s \<lparr> ks_stream_buffer := ks_frame Ks_fin p @ rest \<rparr>) =
    ks_parse_frames ((ks_handle_fin_frame s) \<lparr> ks_stream_buffer := rest \<rparr>)"
  using ks_parse_step [of "s \<lparr> ks_stream_buffer := ks_frame Ks_fin p @ rest \<rparr>" Ks_fin p rest] assms
  by (simp add: ks_handle_buffer)

lemma ks_parse_empty: "ks_stream_buffer s = [] \<Longrightarrow> ks_parse_frames s = s"
  by (subst ks_parse_frames.simps) simp

text \<open>Payloads that arrive in one go queue up behind the first one that is written.\<close>

lemma ks_data_queued:
  assumes "\<not> ks_closing s" "ks_tcp_ready s" "p \<noteq> []"
  shows "ks_handle_data_frame p s = s \<lparr> ks_pending_writes := ks_pending_writes s @ [p], ks_write_active := True,
    ks_effects := ks_effects s @ (if ks_write_active s then [] else [Ks_tcp_write (hd (ks_pending_writes s @ [p]))]) \<rparr>"
  using assms by (simp add: ks_handle_data_frame_def ks_enqueue_tcp_write_def ks_flush_tcp_writes_def ks_note_def)

lemma ks_payloads_wait:
  "\<not> ks_closing s \<Longrightarrow> ks_tcp_ready s \<Longrightarrow> ks_write_active s \<Longrightarrow> [] \<notin> set ps \<Longrightarrow>
     fold ks_handle_data_frame ps s = s \<lparr> ks_pending_writes := ks_pending_writes s @ ps, ks_write_active := True \<rparr>"
proof (induction ps arbitrary: s)
  case Nil
  then show ?case by (cases s) simp
next
  case (Cons p ps)
  have "p \<noteq> []" using Cons(5) by auto
  then have step: "ks_handle_data_frame p s = s \<lparr> ks_pending_writes := ks_pending_writes s @ [p], ks_write_active := True \<rparr>"
    using ks_data_queued [of s p] Cons(2-4) by simp
  then show ?case using Cons.IH [of "ks_handle_data_frame p s"] Cons(2-5) by simp
qed

lemma ks_payloads_queued:
  assumes "\<not> ks_closing s" "ks_tcp_ready s" "[] \<notin> set ps" "ps \<noteq> []"
  shows "fold ks_handle_data_frame ps s = s \<lparr> ks_pending_writes := ks_pending_writes s @ ps, ks_write_active := True,
    ks_effects := ks_effects s @ (if ks_write_active s then [] else [Ks_tcp_write (hd (ks_pending_writes s @ ps))]) \<rparr>"
proof -
  obtain p qs where ps: "ps = p # qs" using assms(4) by (cases ps) auto
  have "hd (ks_pending_writes s @ [p]) = hd (ks_pending_writes s @ ps)" by (cases "ks_pending_writes s") (simp_all add: ps)
  moreover have "p \<noteq> []" "[] \<notin> set qs" using assms(3) by (auto simp: ps)
  ultimately show ?thesis
    using ks_data_queued [OF assms(1,2)] ks_payloads_wait [of "ks_handle_data_frame p s" qs] assms(1,2) by (simp add: ps)
qed

lemma ks_parse_payloads:
  "\<not> ks_closing s \<Longrightarrow> ks_tcp_ready s \<Longrightarrow> \<forall>p \<in> set ps. p \<noteq> [] \<and> length p \<le> max_frame_payload \<Longrightarrow>
     ks_parse_frames (s \<lparr> ks_stream_buffer := frame_stream (map (Pair Ks_data) ps) @ rest \<rparr>) =
     ks_parse_frames ((fold ks_handle_data_frame ps s) \<lparr> ks_stream_buffer := rest \<rparr>)"
proof (induction ps arbitrary: s)
  case (Cons p ps)
  have "\<not> ks_closing (ks_handle_data_frame p s) \<and> ks_tcp_ready (ks_handle_data_frame p s)"
    using ks_data_queued [of s p] Cons(2-4) by simp
  then show ?case using Cons.IH [of "ks_handle_data_frame p s"] Cons(4) ks_parse_data [OF Cons(2), of p] by simp
qed simp

abbreviation demo_frames :: "(ks_frame_type \<times> bytes) list" where
  "demo_frames \<equiv> [(Ks_data, [42]), (Ks_data, [43]), (Ks_fin, [])]"

lemma demo_parse:
  fixes s :: "'k kcp_session"
  assumes "\<not> ks_closing s" "ks_pending_writes s = []" "\<not> ks_write_active s" "\<not> ks_local_fin s" "\<not> ks_remote_fin s"
    and "ks_tcp_ready s" "ks_tcp_open s" "ks_writes s = []"
  defines "v \<equiv> ks_parse_frames (s \<lparr> ks_stream_buffer := frame_stream demo_frames \<rparr>)"
  shows "ks_writes v = [[42]]" "ks_pending_writes v = [[42], [43]]" "ks_write_active v" "ks_tcp_open v"
    "last (ks_effects v) = Ks_shutdown_send" "\<not> ks_closing v" "ks_kcp v = ks_kcp s" "ks_config v = ks_config s"
proof -
  let ?x = "ks_handle_fin_frame (ks_handle_data_frame [43] (ks_handle_data_frame [42] s))"
  have open1: "\<not> ks_closing s" "\<not> ks_closing (ks_handle_data_frame [42] s)"
      "\<not> ks_closing (ks_handle_data_frame [43] (ks_handle_data_frame [42] s))" and small: "length [b] \<le> max_frame_payload" for b :: byte
    using assms by (simp_all add: ks_handle_data_frame_def ks_enqueue_tcp_write_def ks_flush_tcp_writes_def max_frame_payload_def)
  have "v = ks_parse_frames (?x \<lparr> ks_stream_buffer := [] \<rparr>)"
    unfolding v_def frame_simps append_Nil2 fst_conv snd_conv ks_parse_data [OF open1(1) small] ks_parse_data [OF open1(2) small]
    using ks_parse_fin [OF open1(3), of "[]" "[]"] by simp
  then have x: "v = ?x \<lparr> ks_stream_buffer := [] \<rparr>" by (simp add: ks_parse_empty)
  show "ks_writes v = [[42]]" "ks_pending_writes v = [[42], [43]]" "ks_write_active v" "ks_tcp_open v"
    "last (ks_effects v) = Ks_shutdown_send" "\<not> ks_closing v" "ks_kcp v = ks_kcp s" "ks_config v = ks_config s"
    unfolding x using assms by (simp_all add: ks_handle_data_frame_def ks_enqueue_tcp_write_def
        ks_flush_tcp_writes_def ks_handle_fin_frame_def ks_maybe_finish_def ks_writes_note Let_def)
qed

lemma ks_drain_once:
  assumes "ks_drain_round lib t = Inr v" "ks_drain_round lib v = Inl w"
  shows "ks_drain_kcp lib t = Some w" "ks_taken lib t = Some (ks_chunk lib t)"
proof -
  have "ks_drain_kcp lib v = Some w" by (subst ks_drain_kcp.simps) (simp add: assms)
  then show "ks_drain_kcp lib t = Some w" by (subst ks_drain_kcp.simps) (simp add: assms)
  have "ks_taken lib v = Some []" by (subst ks_taken.simps) (simp add: assms)
  then show "ks_taken lib t = Some (ks_chunk lib t)" by (subst ks_taken.simps) (simp add: assms)
qed

text \<open>A session of the server whose TCP connection to the target has just been made.\<close>

lemma demo_connected:
  obtains s :: "queue_engine kcp_session" where "ks_reachable queue_lib queue_config True [] s"
    "ks_kcp s = (1350, [], [])" "ks_stream_buffer s = []" "ks_pending_writes s = []" "\<not> ks_write_active s"
    "\<not> ks_closing s" "\<not> ks_local_fin s" "\<not> ks_remote_fin s" "ks_config s = queue_config" "ks_tcp_ready s" "ks_tcp_open s"
    "ks_writes s = []"
proof -
  have null: "normalize_method ''null'' = ''null''" by code_simp
  obtain crypt where crypt: "make_packet_crypt toy_lib queue_config = Inr crypt" "pc_overhead crypt = 0"
    by (simp add: make_packet_crypt_def null select_method_def base_defaults_def pc_overhead_def Let_def)
  let ?R = "ks_reachable queue_lib queue_config True"
  obtain s0 where made: "make_kcp_session queue_lib (''10.0.0.1'', 4000) 7 queue_config True 0 = Inr (s0 :: queue_engine kcp_session)"
    and s0: "ks_kcp s0 = (1350, [], [])" "ks_stream_buffer s0 = []" "ks_pending_writes s0 = []" "\<not> ks_write_active s0"
      "\<not> ks_closing s0" "\<not> ks_local_fin s0" "\<not> ks_remote_fin s0" "ks_config s0 = queue_config" "ks_effects s0 = []"
    using crypt by (auto simp: make_kcp_session_def ks_configure_kcp_def queue_lib_def base_defaults_def int_add_def int_range_def Let_def)
  define s1 where "s1 = ks_start_server ''h'' 80 s0"
  define s2 where "s2 = ks_resolve_handler (Inr [(''10.0.0.2'', 80)]) s1"
  have r1: "?R [] s1" unfolding s1_def by (rule ks_reachable.server [OF ks_reachable.made [OF made]])
  have r2: "?R [] s2" unfolding s2_def
    by (rule ks_reachable.resolved [OF r1]) (simp add: s1_def ks_start_server_def ks_start_update_timer_def ks_note_def)
  obtain s3 where s3: "ks_connect_handler False True s2 = Inr s3" by (simp add: ks_connect_handler_def Let_def)
  have r3: "?R [] s3"
    by (rule ks_reachable.connected [OF r2 _ s3])
      (simp add: s1_def s2_def ks_start_server_def ks_start_update_timer_def ks_resolve_handler_def ks_note_def)
  have f3: "ks_kcp s3 = (1350, [], [])" "ks_stream_buffer s3 = []" "ks_pending_writes s3 = []" "\<not> ks_write_active s3"
      "\<not> ks_closing s3" "\<not> ks_local_fin s3" "\<not> ks_remote_fin s3" "ks_config s3 = queue_config" "ks_tcp_ready s3" "ks_tcp_open s3"
      "ks_writes s3 = []"
    using s3 s0 by (auto simp: ks_connect_handler_def s1_def s2_def ks_start_server_def ks_start_update_timer_def
        ks_resolve_handler_def ks_note_def ks_start_tcp_read_def ks_flush_tcp_writes_def ks_writes_def Let_def)
  show ?thesis by (rule that [OF r3 f3])
qed

lemma demo_session:
  obtains s :: "queue_engine kcp_session" where "ks_reachable queue_lib queue_config True (frame_stream demo_frames) s"
    "ks_writes s = [[42]]" "ks_pending_writes s = [[42], [43]]" "ks_write_active s" "ks_tcp_open s"
    "last (ks_effects s) = Ks_shutdown_send" "\<not> ks_closing s"
proof -
  let ?R = "ks_reachable queue_lib queue_config True"
  obtain s3 :: "queue_engine kcp_session" where r3: "?R [] s3" and
    f3: "ks_kcp s3 = (1350, [], [])" "ks_stream_buffer s3 = []" "ks_pending_writes s3 = []" "\<not> ks_write_active s3"
      "\<not> ks_closing s3" "\<not> ks_local_fin s3" "\<not> ks_remote_fin s3" "ks_config s3 = queue_config" "ks_tcp_ready s3" "ks_tcp_open s3"
      "ks_writes s3 = []"
    by (rule demo_connected)
  let ?p = "frame_stream demo_frames"
  have p: "?p \<noteq> []" "0 < int (length ?p)" by (simp_all add: ks_frame_eq)
  let ?t = "s3 \<lparr> ks_kcp := (1350, [], [?p]) \<rparr>"
  let ?u = "s3 \<lparr> ks_kcp := (1350, [], []), ks_stream_buffer := ?p \<rparr>"
  have recv: "tl_recv queue_lib (tl_peeksize queue_lib (ks_kcp ?t)) (ks_kcp ?t) = (int (length ?p), ?p, (1350, [], []))"
    by (simp add: queue_lib_def)
  have round: "ks_drain_round queue_lib ?t = Inr (ks_parse_frames ?u)"
    using p f3(2,5) recv by (simp add: ks_drain_round_def queue_lib_def Let_def del: frame_simps)
  let ?v = "ks_parse_frames ?u"
  have v: "ks_writes ?v = [[42]]" "ks_pending_writes ?v = [[42], [43]]" "ks_write_active ?v" "ks_tcp_open ?v"
    "last (ks_effects ?v) = Ks_shutdown_send" "\<not> ks_closing ?v" "ks_kcp ?v = (1350, [], [])" "ks_config ?v = queue_config"
    using demo_parse [of "s3 \<lparr> ks_kcp := (1350, [], []) \<rparr>"] f3 by simp_all
  have stop: "ks_drain_round queue_lib ?v = Inl ?v" using v(7) by (simp add: ks_drain_round_def queue_lib_def)
  have drain: "ks_drain_kcp queue_lib ?t = Some ?v" "ks_taken queue_lib ?t = Some ?p"
    using ks_drain_once [OF round stop] recv by (simp_all add: ks_chunk_def)
  have input: "tl_input queue_lib ?p (ks_kcp s3) = (0, (1350, [], [?p]))" using f3(1) by (simp add: queue_lib_def)
  have ack: "\<not> cfg_acknodelay (ks_config ?v)" unfolding v(8) by (simp add: base_defaults_def)
  have "ks_input queue_lib ?p s3 = Some (Inr ?v)"
    using p f3(5) input drain(1) ack by (simp add: ks_input_def del: frame_simps)
  then have "?R ([] @ ks_input_bytes queue_lib ?p s3) ?v" by (rule ks_reachable.input [OF r3])
  moreover have "ks_input_bytes queue_lib ?p s3 = ?p"
    using p f3(5) input drain(2) by (simp add: ks_input_bytes_def ks_drained_def del: frame_simps)
  ultimately show ?thesis using that v by (simp del: frame_simps)
qed


section \<open>Properties\<close>

text \<open>C38: What KCP delivers reaches the TCP socket in order: in every run in which no write
  fails, when the peer's frames are \<open>sent\<close> and any part of their bytes has arrived, cut in
  any way, the socket has been given the first payloads of \<open>sent\<close>, in order and each once.
  When all have arrived, the end of the stream is known exactly when a \<open>fin\<close> was sent, no
  byte is left in the buffer, and the payloads not yet written are the ones that wait.\<close>

theorem ks_stream_to_socket:
  assumes "ks_reachable lib config True stream s"
    and "stream @ unread = frame_stream sent" and "small_frames sent"
  shows "(\<exists>n. ks_writes s = take n (frame_payloads sent)) \<and>
    (unread = [] \<and> \<not> ks_closing s \<longrightarrow>
       ks_stream_buffer s = [] \<and> ks_remote_fin s = (\<exists>f \<in> set sent. fst f = Ks_fin) \<and>
       frame_payloads sent = ks_writes s @ (if ks_write_active s then tl (ks_pending_writes s) else ks_pending_writes s))"
proof -
  have inv: "ks_inv config True stream s" by (rule ks_reachable_inv [OF assms(1)])
  then obtain frames written where d: "ks_delivery True stream frames written s" by (auto simp: ks_inv_def ks_base_def)
  then obtain hs where sent: "sent = frames @ hs" and rest: "ks_stream_buffer s @ unread = frame_stream hs"
    using frames_prefix [of frames "ks_stream_buffer s @ unread" sent] assms(2,3) by (auto simp: ks_delivery_def)
  have payloads: "frame_payloads sent = written @ ks_pending_writes s @ frame_payloads hs"
    using d by (simp add: sent ks_delivery_def)
  have "ks_writes s = take (length written) (frame_payloads sent) \<or>
      ks_writes s = take (length written + length (take 1 (ks_pending_writes s))) (frame_payloads sent)"
    using d by (cases "ks_pending_writes s") (auto simp: payloads ks_delivery_def)
  then have first: "\<exists>n. ks_writes s = take n (frame_payloads sent)" by blast
  have "hs = []" if all: "unread = []" "\<not> ks_closing s"
  proof (rule ccontr)
    assume "hs \<noteq> []"
    then obtain h hs' where hs: "hs = h # hs'" by (cases hs) auto
    have small: "length (snd h) \<le> max_frame_payload" using assms(3) by (simp add: sent hs)
    have buffer: "ks_stream_buffer s = ks_frame (fst h) (snd h) @ frame_stream hs'" using rest all(1) by (simp add: hs)
    have "unat (read_be32 (ks_stream_buffer s) 1) = length (snd h)"
      unfolding buffer by (rule read_be32_frame [OF small])
    moreover have "5 + length (snd h) \<le> length (ks_stream_buffer s)" by (simp add: buffer ks_frame_eq)
    ultimately show False using inv all(2) by (auto simp: ks_inv_def ks_parsed_def)
  qed
  moreover have "ks_write_active s \<longrightarrow> ks_pending_writes s \<noteq> []" using inv by (simp add: ks_inv_def ks_base_def)
  ultimately show ?thesis
    using d first rest payloads sent by (cases "ks_pending_writes s") (auto simp: ks_delivery_def)
qed

lemma ks_stream_to_socket_witness:
  "\<exists>s :: queue_engine kcp_session. ks_reachable queue_lib queue_config True (frame_stream demo_frames) s \<and>
     ks_remote_fin s \<and> [[42], [43]] = ks_writes s @ tl (ks_pending_writes s)"
proof -
  obtain s :: "queue_engine kcp_session" where s: "ks_reachable queue_lib queue_config True (frame_stream demo_frames) s"
    "ks_write_active s" "\<not> ks_closing s"
    by (rule demo_session)
  have small: "small_frames demo_frames" by (simp add: max_frame_payload_def)
  have "frame_payloads demo_frames = [[42], [43]]" by (simp add: frame_payloads_def)
  then show ?thesis
    using ks_stream_to_socket [OF s(1) append_Nil2 small] s by (intro exI [of _ s]) (simp del: frame_simps)
qed

text \<open>C39: A session ends once: in every run, the close handler runs exactly when the session
  is closed, and once. A session that is open, has sent its \<open>fin\<close>, has received the peer's and
  has nothing left to write has its close timer running, with the configured delay, and the
  timer closes it. A TCP write is in flight only for the first payload that waits.\<close>

theorem ks_closes_once:
  assumes "ks_reachable lib config clean stream s"
  shows "count_list (ks_effects s) Ks_run_close_handler = (if ks_closing s \<and> ks_has_close_handler s then 1 else 0) \<and>
    (\<not> ks_closing s \<and> ks_local_fin s \<and> ks_remote_fin s \<and> ks_pending_writes s = [] \<and> \<not> ks_write_active s \<longrightarrow>
       Ks_close_timer (max 0 (cfg_closewait config)) \<in> set (ks_effects s) \<and> ks_closing (ks_close_timer_handler False s)) \<and>
    (ks_write_active s \<longrightarrow> ks_pending_writes s \<noteq> [] \<and> ks_tcp_ready s)"
  using ks_reachable_inv [OF assms] ks_close_effect(2) [of s]
  by (auto simp: ks_inv_def ks_base_def ks_finished_def ks_done_def ks_close_timer_handler_def)

lemma ks_closes_once_witness:
  "\<exists>s :: queue_engine kcp_session. ks_reachable queue_lib queue_config True (frame_stream demo_frames) s \<and> ks_write_active s \<and>
     ks_pending_writes s \<noteq> [] \<and> count_list (ks_effects s) Ks_run_close_handler = 0"
proof -
  obtain s :: "queue_engine kcp_session" where s: "ks_reachable queue_lib queue_config True (frame_stream demo_frames) s"
    "ks_write_active s" "\<not> ks_closing s"
    by (rule demo_session)
  then show ?thesis using ks_closes_once [OF s(1)] by (intro exI [of _ s]) (simp del: frame_simps)
qed

text \<open>C40: The peer's \<open>fin\<close> overtakes its data: whatever payloads arrive together with a \<open>fin\<close> at
  a connected session, parsing them gives the TCP socket at most the first one that waits and
  then shuts down its sending side, while all the payloads are still in the queue, the first
  of them being written. (The end of the stream is lost.)\<close>

theorem ks_fin_overtakes_data:
  assumes "\<not> ks_closing s" "ks_tcp_ready s" "ks_tcp_open s" "\<not> ks_remote_fin s"
    and "payloads \<noteq> []" "\<forall>p \<in> set payloads. p \<noteq> [] \<and> length p \<le> max_frame_payload"
  defines "s' \<equiv> ks_parse_frames (s \<lparr> ks_stream_buffer := frame_stream (map (Pair Ks_data) payloads @ [(Ks_fin, [])]) \<rparr>)"
  shows "ks_effects s' = ks_effects s @
      (if ks_write_active s then [] else [Ks_tcp_write (hd (ks_pending_writes s @ payloads))]) @ [Ks_shutdown_send] \<and>
    ks_pending_writes s' = ks_pending_writes s @ payloads \<and> ks_write_active s' \<and> \<not> ks_closing s'"
proof -
  let ?t = "fold ks_handle_data_frame payloads s"
  have some: "[] \<notin> set payloads" using assms(6) by blast
  note t = ks_payloads_queued [OF assms(1,2) some assms(5)]
  have op: "\<not> ks_closing ?t" using t assms(1) by simp
  have "s' = ks_parse_frames (?t \<lparr> ks_stream_buffer := ks_frame Ks_fin [] \<rparr>)"
    using ks_parse_payloads [OF assms(1,2,6), of "ks_frame Ks_fin []"] by (simp add: s'_def)
  also have "\<dots> = (ks_handle_fin_frame ?t) \<lparr> ks_stream_buffer := [] \<rparr>"
    using ks_parse_fin [OF op, of "[]" "[]"] by (simp add: ks_parse_empty)
  finally show ?thesis
    using t assms(1-5) by (simp add: ks_handle_fin_frame_def ks_maybe_finish_def ks_note_def)
qed

text \<open>Two payloads and a \<open>fin\<close> at a session that has just connected.\<close>

lemma ks_fin_overtakes_data_witness:
  "\<exists>s :: queue_engine kcp_session. ks_reachable queue_lib queue_config True [] s \<and>
     (let s' = ks_parse_frames (s \<lparr> ks_stream_buffer := frame_stream demo_frames \<rparr>)
      in ks_effects s' = ks_effects s @ [Ks_tcp_write [42], Ks_shutdown_send] \<and> ks_pending_writes s' = [[42], [43]])"
proof -
  obtain s :: "queue_engine kcp_session" where s: "ks_reachable queue_lib queue_config True [] s" "ks_pending_writes s = []"
    "\<not> ks_write_active s" "\<not> ks_closing s" "\<not> ks_remote_fin s" "ks_tcp_ready s" "ks_tcp_open s"
    by (rule demo_connected)
  have "\<forall>p \<in> set [[42], [43 :: byte]]. p \<noteq> [] \<and> length p \<le> max_frame_payload" by (simp add: max_frame_payload_def)
  from ks_fin_overtakes_data [OF s(4,6,7,5) _ this] s show ?thesis
    by (intro exI [of _ s]) (simp add: Let_def del: frame_simps)
qed

end
