(* ===== verification/Logger.thy ===== *)
theory Logger
  imports Cpp_String
begin

text \<open>
  The logger of \<open>logger.hpp\<close> and \<open>logger.cpp\<close>: its level, the quiet flag, and where a line
  goes. The process-wide instance is a state that the operations thread; \<open>lg_file\<close> is the
  path of the open log file, and written lines are collected per destination. The clock
  is the argument \<open>timestamp\<close>.
\<close>

datatype log_level = Log_trace | Log_debug | Log_info | Log_warn | Log_error | Log_off

fun level_rank :: "log_level \<Rightarrow> nat" where
  "level_rank Log_trace = 0"
| "level_rank Log_debug = 1"
| "level_rank Log_info = 2"
| "level_rank Log_warn = 3"
| "level_rank Log_error = 4"
| "level_rank Log_off = 5"

record logger =
  lg_quiet :: bool
  lg_level :: log_level
  lg_file :: "string option"
  lg_lines :: "(string option \<times> string) list"

definition initial_logger :: logger where
  "initial_logger = \<lparr> lg_quiet = False, lg_level = Log_info, lg_file = None, lg_lines = [] \<rparr>"

text \<open>Dashes, underscores and case do not matter in option names and values.\<close>

definition normalize_key :: "string \<Rightarrow> string" where
  "normalize_key key = map tolower (filter (\<lambda>ch. ch \<noteq> CHR ''-'' \<and> ch \<noteq> CHR ''_'') key)"

definition set_quiet :: "bool \<Rightarrow> logger \<Rightarrow> logger" where
  "set_quiet quiet lg = lg \<lparr> lg_quiet := quiet \<rparr>"

definition set_level :: "string \<Rightarrow> logger \<Rightarrow> logger result" where
  "set_level level lg =
     (let normalized = normalize_key level
      in if normalized = ''trace'' then Inr (lg \<lparr> lg_level := Log_trace \<rparr>)
         else if normalized = ''debug'' then Inr (lg \<lparr> lg_level := Log_debug \<rparr>)
         else if normalized = ''info'' then Inr (lg \<lparr> lg_level := Log_info \<rparr>)
         else if normalized = ''warn'' \<or> normalized = ''warning'' then Inr (lg \<lparr> lg_level := Log_warn \<rparr>)
         else if normalized = ''error'' then Inr (lg \<lparr> lg_level := Log_error \<rparr>)
         else if normalized = ''off'' \<or> normalized = ''none'' \<or> normalized = ''silent'' then
           Inr (lg \<lparr> lg_level := Log_off \<rparr>)
         else Inl (Runtime_error (''invalid loglevel: '' @ level)))"

definition set_file :: "(string \<Rightarrow> bool) \<Rightarrow> string \<Rightarrow> logger \<Rightarrow> logger result" where
  "set_file writable path lg =
     (if path = [] then Inr (lg \<lparr> lg_file := None \<rparr>)
      else if \<not> writable path then Inl (Runtime_error (''failed to open log file: '' @ path))
      else Inr (lg \<lparr> lg_file := Some path \<rparr>))"

definition write_log :: "string \<Rightarrow> log_level \<Rightarrow> string \<Rightarrow> string \<Rightarrow> logger \<Rightarrow> logger" where
  "write_log timestamp level label message lg =
     (if level_rank level < level_rank (lg_level lg) then lg
      else lg \<lparr> lg_lines := lg_lines lg @
             [(lg_file lg, timestamp @ '' ['' @ label @ ''] '' @ message @ [CHR 0x0A])] \<rparr>)"

definition log_info_line :: "string \<Rightarrow> string \<Rightarrow> logger \<Rightarrow> logger" where
  "log_info_line ts message = write_log ts Log_info ''INFO'' message"

definition log_warn_line :: "string \<Rightarrow> string \<Rightarrow> logger \<Rightarrow> logger" where
  "log_warn_line ts message = write_log ts Log_warn ''WARN'' message"

definition log_trace_line :: "string \<Rightarrow> string \<Rightarrow> logger \<Rightarrow> logger" where
  "log_trace_line ts message = write_log ts Log_trace ''TRACE'' message"

definition log_debug_line :: "string \<Rightarrow> string \<Rightarrow> logger \<Rightarrow> logger" where
  "log_debug_line ts message = write_log ts Log_debug ''DEBUG'' message"

definition log_error_line :: "string \<Rightarrow> string \<Rightarrow> logger \<Rightarrow> logger" where
  "log_error_line ts message = write_log ts Log_error ''ERROR'' message"

definition log_verbose_line :: "string \<Rightarrow> string \<Rightarrow> logger \<Rightarrow> logger" where
  "log_verbose_line ts message lg =
     (if \<not> lg_quiet lg then write_log ts Log_info ''INFO'' message lg else lg)"

lemma tolower_plain: "tolower c = CHR ''-'' \<longleftrightarrow> c = CHR ''-''" "tolower c = CHR ''_'' \<longleftrightarrow> c = CHR ''_''"
  by (auto simp: tolower_def Let_def of_char_of dest: arg_cong [of _ _ "of_char :: char \<Rightarrow> nat"])

lemma normalize_key_idem [simp]: "normalize_key (normalize_key key) = normalize_key key"
proof -
  have "filter (\<lambda>ch. ch \<noteq> CHR ''-'' \<and> ch \<noteq> CHR ''_'') (map tolower (filter (\<lambda>ch. ch \<noteq> CHR ''-'' \<and> ch \<noteq> CHR ''_'') key)) =
      map tolower (filter (\<lambda>ch. ch \<noteq> CHR ''-'' \<and> ch \<noteq> CHR ''_'') key)"
    by (auto simp: filter_id_conv tolower_plain)
  then show ?thesis by (simp add: normalize_key_def comp_def)
qed

end
