(* ===== verification/Config.thy ===== *)
theory Config
  imports Base_Config Logger "HOL-Library.AList" "HOL-Library.Multiset"
begin

text \<open>
  \<open>config.cpp\<close>: option names and values, the scan of the command line, the JSON file, the
  environment, the mode profiles, and the validation that every start of the client and
  the server goes through. Boost.JSON is the parameter \<open>parse_json\<close>; files and the
  environment are arguments.
\<close>

section \<open>Names and values\<close>

definition is_bool_key :: "string \<Rightarrow> bool" where
  "is_bool_key key \<longleftrightarrow>
     normalize_key key \<in> set [''nocomp'', ''acknodelay'', ''quiet'', ''tcp'', ''pprof'', ''qpp'']"

definition parse_bool :: "string \<Rightarrow> bool result" where
  "parse_bool v =
     (let normalized = normalize_key v
      in if normalized = ''1'' \<or> normalized = ''true'' \<or> normalized = ''yes'' \<or> normalized = ''on'' then Inr True
         else if normalized = ''0'' \<or> normalized = ''false'' \<or> normalized = ''no'' \<or> normalized = ''off'' then Inr False
         else Inl (Runtime_error (''invalid boolean value: '' @ v)))"

text \<open>
  \<open>std::stoi(s, &used, 10)\<close>: white space, an optional sign, digits. \<open>None\<close> stands for its
  two exceptions, the result comes with the number of characters used.
\<close>

definition is_space :: "char \<Rightarrow> bool" where
  "is_space c \<longleftrightarrow> of_char c = (32 :: nat) \<or> 9 \<le> (of_char c :: nat) \<and> (of_char c :: nat) \<le> 13"

definition stoi :: "string \<Rightarrow> (int \<times> nat) option" where
  "stoi s =
     (let spaces = length (takeWhile is_space s);
          rest = dropWhile is_space s;
          negative = (rest \<noteq> [] \<and> hd rest = CHR ''-'');
          sign = (if rest \<noteq> [] \<and> (hd rest = CHR ''-'' \<or> hd rest = CHR ''+'') then 1 else 0);
          digits = takeWhile is_digit (drop sign rest);
          v = (if negative then - int (decimal_value digits) else int (decimal_value digits))
      in if digits = [] \<or> \<not> int_range v then None else Some (v, spaces + sign + length digits))"

definition parse_int :: "string \<Rightarrow> string \<Rightarrow> int result" where
  "parse_int key v =
     (case stoi v of
        Some (n, used) \<Rightarrow>
          if used = length v then Inr n
          else Inl (Runtime_error (''invalid integer for '' @ key @ '': '' @ v))
      | None \<Rightarrow> Inl (Runtime_error (''invalid integer for '' @ key @ '': '' @ v)))"

definition int_to_string :: "int \<Rightarrow> string" where
  "int_to_string n = (if n < 0 then ''-'' @ to_string (nat (- n)) else to_string (nat n))"

section \<open>The command line\<close>

definition split_argument :: "string \<Rightarrow> string \<times> string option" where
  "split_argument arg =
     (let arg = dropWhile (\<lambda>c. c = CHR ''-'') arg
      in case find_char arg CHR ''='' of
           None \<Rightarrow> (arg, None)
         | Some eq \<Rightarrow> (take eq arg, Some (drop (eq + 1) arg)))"

record cli_scan =
  cli_values :: "(string \<times> string) list"
  cli_config_path :: string

definition store_flag :: "string \<Rightarrow> string \<Rightarrow> cli_scan \<Rightarrow> cli_scan" where
  "store_flag normalized v scan =
     (if normalized = ''c'' \<or> normalized = ''config'' then scan \<lparr> cli_config_path := v \<rparr>
      else scan \<lparr> cli_values := AList.update normalized v (cli_values scan) \<rparr>)"

text \<open>The loop over \<open>argv\<close>, without the program name.\<close>

fun scan_args :: "string list \<Rightarrow> cli_scan \<Rightarrow> cli_scan result" where
  "scan_args [] scan = Inr scan"
| "scan_args (raw # args) scan =
     (if raw = ''-h'' \<or> raw = ''--help'' \<or> raw = ''help'' then Inl Help_requested
      else if raw = ''-v'' \<or> raw = ''--version'' \<or> raw = ''version'' then Inl Version_requested
      else if \<not> starts_with raw ''-'' then
        Inl (Runtime_error (''unexpected positional argument: '' @ raw))
      else
        let (key, inline_value) = split_argument raw;
            normalized = normalize_key key
        in case inline_value of
             Some v \<Rightarrow> scan_args args (store_flag normalized v scan)
           | None \<Rightarrow>
               if is_bool_key normalized then scan_args args (store_flag normalized ''true'' scan)
               else (case args of
                       [] \<Rightarrow> Inl (Runtime_error (''missing value for flag: '' @ key))
                     | v # args' \<Rightarrow> scan_args args' (store_flag normalized v scan)))"

definition empty_scan :: cli_scan where
  "empty_scan = \<lparr> cli_values = [], cli_config_path = [] \<rparr>"

section \<open>Options\<close>

text \<open>
  The \<open>else if\<close> chain of \<open>assign_common\<close> as a table: the name, and whether the member is
  assigned the string, the parsed integer or the parsed boolean.
\<close>

datatype 'c option_setter =
    Set_string "string \<Rightarrow> 'c \<Rightarrow> 'c"
  | Set_int "int \<Rightarrow> 'c \<Rightarrow> 'c"
  | Set_bool "bool \<Rightarrow> 'c \<Rightarrow> 'c"

definition common_options :: "(string \<times> 'a base_config_scheme option_setter) list" where
  "common_options =
    [(''key'', Set_string (\<lambda>v c. c \<lparr> cfg_key := v \<rparr>)),
     (''crypt'', Set_string (\<lambda>v c. c \<lparr> cfg_crypt := v \<rparr>)),
     (''mode'', Set_string (\<lambda>v c. c \<lparr> cfg_mode := v \<rparr>)),
     (''mtu'', Set_int (\<lambda>v c. c \<lparr> cfg_mtu := v \<rparr>)),
     (''ratelimit'', Set_int (\<lambda>v c. c \<lparr> cfg_ratelimit := v \<rparr>)),
     (''sndwnd'', Set_int (\<lambda>v c. c \<lparr> cfg_sndwnd := v \<rparr>)),
     (''rcvwnd'', Set_int (\<lambda>v c. c \<lparr> cfg_rcvwnd := v \<rparr>)),
     (''datashard'', Set_int (\<lambda>v c. c \<lparr> cfg_datashard := v \<rparr>)),
     (''ds'', Set_int (\<lambda>v c. c \<lparr> cfg_datashard := v \<rparr>)),
     (''parityshard'', Set_int (\<lambda>v c. c \<lparr> cfg_parityshard := v \<rparr>)),
     (''ps'', Set_int (\<lambda>v c. c \<lparr> cfg_parityshard := v \<rparr>)),
     (''dscp'', Set_int (\<lambda>v c. c \<lparr> cfg_dscp := v \<rparr>)),
     (''nocomp'', Set_bool (\<lambda>v c. c \<lparr> cfg_nocomp := v \<rparr>)),
     (''acknodelay'', Set_bool (\<lambda>v c. c \<lparr> cfg_acknodelay := v \<rparr>)),
     (''nodelay'', Set_int (\<lambda>v c. c \<lparr> cfg_nodelay := v \<rparr>)),
     (''interval'', Set_int (\<lambda>v c. c \<lparr> cfg_interval := v \<rparr>)),
     (''resend'', Set_int (\<lambda>v c. c \<lparr> cfg_resend := v \<rparr>)),
     (''nc'', Set_int (\<lambda>v c. c \<lparr> cfg_nc := v \<rparr>)),
     (''sockbuf'', Set_int (\<lambda>v c. c \<lparr> cfg_sockbuf := v \<rparr>)),
     (''smuxver'', Set_int (\<lambda>v c. c \<lparr> cfg_smuxver := v \<rparr>)),
     (''smuxbuf'', Set_int (\<lambda>v c. c \<lparr> cfg_smuxbuf := v \<rparr>)),
     (''framesize'', Set_int (\<lambda>v c. c \<lparr> cfg_framesize := v \<rparr>)),
     (''streambuf'', Set_int (\<lambda>v c. c \<lparr> cfg_streambuf := v \<rparr>)),
     (''keepalive'', Set_int (\<lambda>v c. c \<lparr> cfg_keepalive := v \<rparr>)),
     (''closewait'', Set_int (\<lambda>v c. c \<lparr> cfg_closewait := v \<rparr>)),
     (''snmplog'', Set_string (\<lambda>v c. c \<lparr> cfg_snmplog := v \<rparr>)),
     (''snmpperiod'', Set_int (\<lambda>v c. c \<lparr> cfg_snmpperiod := v \<rparr>)),
     (''log'', Set_string (\<lambda>v c. c \<lparr> cfg_log := v \<rparr>)),
     (''loglevel'', Set_string (\<lambda>v c. c \<lparr> cfg_loglevel := v \<rparr>)),
     (''quiet'', Set_bool (\<lambda>v c. c \<lparr> cfg_quiet := v \<rparr>)),
     (''tcp'', Set_bool (\<lambda>v c. c \<lparr> cfg_tcp := v \<rparr>)),
     (''pprof'', Set_bool (\<lambda>v c. c \<lparr> cfg_pprof := v \<rparr>)),
     (''qpp'', Set_bool (\<lambda>v c. c \<lparr> cfg_qpp := v \<rparr>)),
     (''qppcount'', Set_int (\<lambda>v c. c \<lparr> cfg_qpp_count := v \<rparr>))]"

definition apply_setter :: "'c option_setter \<Rightarrow> string \<Rightarrow> string \<Rightarrow> 'c \<Rightarrow> 'c result" where
  "apply_setter setter raw_key v config =
     (case setter of
        Set_string f \<Rightarrow> Inr (f v config)
      | Set_int f \<Rightarrow> (case parse_int raw_key v of Inl e \<Rightarrow> Inl e | Inr n \<Rightarrow> Inr (f n config))
      | Set_bool f \<Rightarrow> (case parse_bool v of Inl e \<Rightarrow> Inl e | Inr b \<Rightarrow> Inr (f b config)))"

definition assign_common ::
  "string \<Rightarrow> string \<Rightarrow> 'a base_config_scheme \<Rightarrow> 'a base_config_scheme result" where
  "assign_common raw_key v config =
     (case map_of common_options (normalize_key raw_key) of
        Some setter \<Rightarrow> apply_setter setter raw_key v config
      | None \<Rightarrow> Inl (Runtime_error (''unknown common option: '' @ raw_key)))"

text \<open>A loop over entries that stops at the first exception.\<close>

fun for_each :: "('x \<Rightarrow> 'c \<Rightarrow> 'c result) \<Rightarrow> 'x list \<Rightarrow> 'c \<Rightarrow> 'c result" where
  "for_each f [] c = Inr c"
| "for_each f (x # xs) c = (case f x c of Inl e \<Rightarrow> Inl e | Inr c' \<Rightarrow> for_each f xs c')"

section \<open>JSON\<close>

datatype json =
    J_string string
  | J_bool bool
  | J_int64 int
  | J_uint64 nat
  | J_object "(string \<times> json) list"
  | J_other

definition json_value_to_string :: "json \<Rightarrow> string result" where
  "json_value_to_string v =
     (case v of
        J_string s \<Rightarrow> Inr s
      | J_bool b \<Rightarrow> Inr (if b then ''true'' else ''false'')
      | J_int64 n \<Rightarrow> Inr (int_to_string n)
      | J_uint64 n \<Rightarrow> Inr (to_string n)
      | _ \<Rightarrow> Inl (Runtime_error ''JSON config values must be string, bool, or integer''))"

definition role_keys :: "string list" where
  "role_keys = [''localaddr'', ''remoteaddr'', ''conn'', ''autoexpire'', ''scavengettl'', ''listen'', ''target'']"

definition apply_json_common ::
  "(string \<times> json) list \<Rightarrow> 'a base_config_scheme \<Rightarrow> 'a base_config_scheme result" where
  "apply_json_common object =
     for_each (\<lambda>(key, v) config.
         if normalize_key key \<in> set role_keys then Inr config
         else (case json_value_to_string v of Inl e \<Rightarrow> Inl e | Inr s \<Rightarrow> assign_common key s config))
       object"

definition json_string_member ::
  "(string \<times> json) list \<Rightarrow> string \<Rightarrow> (string \<Rightarrow> 'c \<Rightarrow> 'c) \<Rightarrow> 'c \<Rightarrow> 'c result" where
  "json_string_member object key f config =
     (case map_of object key of
        None \<Rightarrow> Inr config
      | Some v \<Rightarrow> (case json_value_to_string v of Inl e \<Rightarrow> Inl e | Inr s \<Rightarrow> Inr (f s config)))"

definition json_int_member ::
  "(string \<times> json) list \<Rightarrow> string \<Rightarrow> (int \<Rightarrow> 'c \<Rightarrow> 'c) \<Rightarrow> 'c \<Rightarrow> 'c result" where
  "json_int_member object key f config =
     (case map_of object key of
        None \<Rightarrow> Inr config
      | Some v \<Rightarrow>
          (case json_value_to_string v of
             Inl e \<Rightarrow> Inl e
           | Inr s \<Rightarrow> (case parse_int key s of Inl e \<Rightarrow> Inl e | Inr n \<Rightarrow> Inr (f n config))))"

definition read_file :: "(string \<rightharpoonup> string) \<Rightarrow> string \<Rightarrow> string result" where
  "read_file files path =
     (case files path of
        None \<Rightarrow> Inl (Runtime_error (''failed to open config file: '' @ path))
      | Some content \<Rightarrow> Inr content)"

definition json_object :: "(string \<Rightarrow> json result) \<Rightarrow> (string \<rightharpoonup> string) \<Rightarrow> string \<Rightarrow> (string \<times> json) list result" where
  "json_object parse_json files path =
     (case read_file files path of
        Inl e \<Rightarrow> Inl e
      | Inr content \<Rightarrow>
          (case parse_json content of
             Inl e \<Rightarrow> Inl e
           | Inr (J_object object) \<Rightarrow> Inr object
           | Inr _ \<Rightarrow> Inl Library_exception))"

definition then_do :: "'c result \<Rightarrow> ('c \<Rightarrow> 'd result) \<Rightarrow> 'd result" where
  "then_do r k = (case r of Inl e \<Rightarrow> Inl e | Inr c \<Rightarrow> k c)"

definition load_json_client ::
  "(string \<Rightarrow> json result) \<Rightarrow> (string \<rightharpoonup> string) \<Rightarrow> string \<Rightarrow> client_config \<Rightarrow> client_config result" where
  "load_json_client parse_json files path config =
     then_do (json_object parse_json files path) (\<lambda>object.
     then_do (apply_json_common object config) (\<lambda>config.
     then_do (json_string_member object ''localaddr'' (\<lambda>s c. c \<lparr> cfg_localaddr := s \<rparr>) config) (\<lambda>config.
     then_do (json_string_member object ''remoteaddr'' (\<lambda>s c. c \<lparr> cfg_remoteaddr := s \<rparr>) config) (\<lambda>config.
     then_do (json_int_member object ''conn'' (\<lambda>n c. c \<lparr> cfg_conn := n \<rparr>) config) (\<lambda>config.
     then_do (json_int_member object ''autoexpire'' (\<lambda>n c. c \<lparr> cfg_autoexpire := n \<rparr>) config) (\<lambda>config.
     json_int_member object ''scavengettl'' (\<lambda>n c. c \<lparr> cfg_scavengettl := n \<rparr>) config))))))"

definition load_json_server ::
  "(string \<Rightarrow> json result) \<Rightarrow> (string \<rightharpoonup> string) \<Rightarrow> string \<Rightarrow> server_config \<Rightarrow> server_config result" where
  "load_json_server parse_json files path config =
     then_do (json_object parse_json files path) (\<lambda>object.
     then_do (apply_json_common object config) (\<lambda>config.
     then_do (json_string_member object ''listen'' (\<lambda>s c. c \<lparr> cfg_listen := s \<rparr>) config) (\<lambda>config.
     json_string_member object ''target'' (\<lambda>s c. c \<lparr> cfg_target := s \<rparr>) config)))"

section \<open>Applying the command line\<close>

text \<open>
  \<open>scan.values\<close> is an unordered map: the entries come as the list \<open>entries\<close> in whatever
  order the map iterates.
\<close>

definition cli_role_keys :: "string list" where
  "cli_role_keys = [''localaddr'', ''l'', ''remoteaddr'', ''r'', ''conn'', ''autoexpire'', ''scavengettl'',
     ''listen'', ''target'', ''t'']"

definition apply_cli_common ::
  "(string \<times> string) list \<Rightarrow> 'a base_config_scheme \<Rightarrow> 'a base_config_scheme result" where
  "apply_cli_common entries =
     for_each (\<lambda>(key, v) config.
         if normalize_key key \<in> set cli_role_keys then Inr config else assign_common key v config)
       entries"

definition client_entry :: "string \<times> string \<Rightarrow> client_config \<Rightarrow> client_config result" where
  "client_entry entry config =
     (case entry of (key, v) \<Rightarrow>
        let normalized = normalize_key key
        in if normalized = ''localaddr'' \<or> normalized = ''l'' then Inr (config \<lparr> cfg_localaddr := v \<rparr>)
           else if normalized = ''remoteaddr'' \<or> normalized = ''r'' then Inr (config \<lparr> cfg_remoteaddr := v \<rparr>)
           else if normalized = ''conn'' then
             then_do (parse_int key v) (\<lambda>n. Inr (config \<lparr> cfg_conn := n \<rparr>))
           else if normalized = ''autoexpire'' then
             then_do (parse_int key v) (\<lambda>n. Inr (config \<lparr> cfg_autoexpire := n \<rparr>))
           else if normalized = ''scavengettl'' then
             then_do (parse_int key v) (\<lambda>n. Inr (config \<lparr> cfg_scavengettl := n \<rparr>))
           else Inr config)"

definition apply_client_cli :: "(string \<times> string) list \<Rightarrow> client_config \<Rightarrow> client_config result" where
  "apply_client_cli entries config =
     then_do (apply_cli_common entries config) (for_each client_entry entries)"

definition server_entry :: "string \<times> string \<Rightarrow> server_config \<Rightarrow> server_config result" where
  "server_entry entry config =
     (case entry of (key, v) \<Rightarrow>
        let normalized = normalize_key key
        in if normalized = ''listen'' \<or> normalized = ''l'' then Inr (config \<lparr> cfg_listen := v \<rparr>)
           else if normalized = ''target'' \<or> normalized = ''t'' then Inr (config \<lparr> cfg_target := v \<rparr>)
           else Inr config)"

definition apply_server_cli :: "(string \<times> string) list \<Rightarrow> server_config \<Rightarrow> server_config result" where
  "apply_server_cli entries config =
     then_do (apply_cli_common entries config) (for_each server_entry entries)"

section \<open>Profiles and validation\<close>

definition apply_env :: "string option \<Rightarrow> 'a base_config_scheme \<Rightarrow> 'a base_config_scheme" where
  "apply_env env config =
     (case env of Some s \<Rightarrow> if s \<noteq> [] then config \<lparr> cfg_key := s \<rparr> else config | None \<Rightarrow> config)"

definition sanitize_common :: "'a base_config_scheme \<Rightarrow> 'a base_config_scheme" where
  "sanitize_common config = (if cfg_ratelimit config < 0 then config \<lparr> cfg_ratelimit := 0 \<rparr> else config)"

definition apply_mode :: "'a base_config_scheme \<Rightarrow> 'a base_config_scheme" where
  "apply_mode config =
     (let mode = normalize_key (cfg_mode config)
      in if mode = ''normal'' then
           config \<lparr> cfg_nodelay := 0, cfg_interval := 40, cfg_resend := 2, cfg_nc := 1 \<rparr>
         else if mode = ''fast'' then
           config \<lparr> cfg_nodelay := 0, cfg_interval := 30, cfg_resend := 2, cfg_nc := 1 \<rparr>
         else if mode = ''fast2'' then
           config \<lparr> cfg_nodelay := 1, cfg_interval := 20, cfg_resend := 2, cfg_nc := 1 \<rparr>
         else if mode = ''fast3'' then
           config \<lparr> cfg_nodelay := 1, cfg_interval := 10, cfg_resend := 2, cfg_nc := 1 \<rparr>
         else config)"

definition validate_common_config :: "'a base_config_scheme \<Rightarrow> logger \<Rightarrow> logger result" where
  "validate_common_config config lg =
     (if cfg_mtu config < 576 \<or> cfg_mtu config > 65535 then
        Inl (Runtime_error ''mtu must be between 576 and 65535'')
      else if cfg_interval config \<le> 0 then
        Inl (Runtime_error ''interval must be greater than 0'')
      else if cfg_sndwnd config \<le> 0 \<or> cfg_rcvwnd config \<le> 0 then
        Inl (Runtime_error ''sndwnd and rcvwnd must be greater than 0'')
      else
        then_do
          (if cfg_datashard config < 0 \<or> cfg_parityshard config < 0 then Inr True
           else then_do (int_add (cfg_datashard config) (cfg_parityshard config)) (\<lambda>sum. Inr (sum > 256)))
          (\<lambda>bad.
             if bad then
               Inl (Runtime_error ''datashard and parityshard must be non-negative and sum to at most 256'')
             else if cfg_smuxver config > 2 then
               Inl (Runtime_error (''unsupported smux version: '' @ int_to_string (cfg_smuxver config)))
             else if cfg_smuxbuf config \<le> 0 \<or> cfg_framesize config \<le> 0 \<or> cfg_streambuf config \<le> 0 \<or>
                     cfg_keepalive config \<le> 0 then
               Inl (Runtime_error ''smuxbuf, framesize, streambuf, and keepalive must be greater than 0'')
             else if cfg_qpp config \<and> (cfg_qpp_count config \<le> 0 \<or> cfg_qpp_count config > 65535) then
               Inl (Runtime_error ''QPPCount must be in range 1..65535 when QPP is enabled'')
             else set_level (cfg_loglevel config) lg))"

text \<open>
  The two entry points. \<open>iter\<close> is the iteration order of the unordered map: some
  permutation of its entries.
\<close>

definition parse_client_config ::
  "(string \<Rightarrow> json result) \<Rightarrow> (string \<rightharpoonup> string) \<Rightarrow> string option \<Rightarrow>
   ((string \<times> string) list \<Rightarrow> (string \<times> string) list) \<Rightarrow> string list \<Rightarrow> logger \<Rightarrow> (client_config \<times> logger) result" where
  "parse_client_config parse_json files env iter args lg =
     (let config = apply_env env default_client_config
      in then_do (scan_args args empty_scan) (\<lambda>scan.
         then_do (apply_client_cli (iter (cli_values scan)) config) (\<lambda>config.
         then_do (if cli_config_path scan \<noteq> [] then load_json_client parse_json files (cli_config_path scan) config
                  else Inr config) (\<lambda>config.
         let config = sanitize_common (apply_mode config)
         in then_do (validate_common_config config lg) (\<lambda>lg.
            if cfg_conn config \<le> 0 then Inl (Runtime_error ''conn must be greater than 0'')
            else Inr (config, lg))))))"

definition parse_server_config ::
  "(string \<Rightarrow> json result) \<Rightarrow> (string \<rightharpoonup> string) \<Rightarrow> string option \<Rightarrow>
   ((string \<times> string) list \<Rightarrow> (string \<times> string) list) \<Rightarrow> string list \<Rightarrow> logger \<Rightarrow> (server_config \<times> logger) result" where
  "parse_server_config parse_json files env iter args lg =
     (let config = apply_env env default_server_config
      in then_do (scan_args args empty_scan) (\<lambda>scan.
         then_do (apply_server_cli (iter (cli_values scan)) config) (\<lambda>config.
         then_do (if cli_config_path scan \<noteq> [] then load_json_server parse_json files (cli_config_path scan) config
                  else Inr config) (\<lambda>config.
         let config = sanitize_common (apply_mode config)
         in then_do (validate_common_config config lg) (\<lambda>lg. Inr (config, lg))))))"

section \<open>Lemmas\<close>

lemma then_do_simps [simp]: "then_do (Inl e) k = Inl e" "then_do (Inr c) k = k c"
  by (simp_all add: then_do_def)

lemma then_do_Inr: "then_do r k = Inr d \<longleftrightarrow> (\<exists>c. r = Inr c \<and> k c = Inr d)"
  by (cases r) auto

text \<open>The bounds that \<open>validate_common_config\<close> enforces.\<close>

definition config_valid :: "'a base_config_scheme \<Rightarrow> bool" where
  "config_valid c \<longleftrightarrow>
     576 \<le> cfg_mtu c \<and> cfg_mtu c \<le> 65535 \<and> 0 < cfg_interval c \<and> 0 < cfg_sndwnd c \<and> 0 < cfg_rcvwnd c \<and>
     0 \<le> cfg_datashard c \<and> 0 \<le> cfg_parityshard c \<and> cfg_datashard c + cfg_parityshard c \<le> 256 \<and>
     cfg_smuxver c \<le> 2 \<and> 0 < cfg_smuxbuf c \<and> 0 < cfg_framesize c \<and> 0 < cfg_streambuf c \<and> 0 < cfg_keepalive c \<and>
     (cfg_qpp c \<longrightarrow> 1 \<le> cfg_qpp_count c \<and> cfg_qpp_count c \<le> 65535)"

lemma validate_sound: "validate_common_config c lg = Inr lg' \<Longrightarrow> config_valid c"
  unfolding validate_common_config_def config_valid_def
  by (auto simp: then_do_Inr int_add_def split: if_splits)

lemma apply_mode_idem: "apply_mode (sanitize_common (apply_mode c)) = sanitize_common (apply_mode c)"
proof -
  have "cfg_mode (sanitize_common d) = cfg_mode d" "apply_mode (sanitize_common d) = sanitize_common (apply_mode d)" for d :: "'a base_config_scheme"
    by (simp_all add: sanitize_common_def apply_mode_def Let_def)
  moreover have "apply_mode (apply_mode c) = apply_mode c"
  proof -
    have "cfg_mode (apply_mode c) = cfg_mode c" by (simp add: apply_mode_def Let_def)
    then show ?thesis
      by (subst apply_mode_def) (simp add: apply_mode_def Let_def)
  qed
  ultimately show ?thesis by simp
qed

lemma sanitize_nonneg: "0 \<le> cfg_ratelimit (sanitize_common c)"
  by (simp add: sanitize_common_def)

lemma parse_client_valid:
  assumes "parse_client_config parse_json files env iter args lg = Inr (c, lg')"
  shows "config_valid c \<and> apply_mode c = c \<and> 0 \<le> cfg_ratelimit c \<and> 0 < cfg_conn c"
  using assms unfolding parse_client_config_def Let_def
  by (auto simp: then_do_Inr apply_mode_idem sanitize_nonneg split: if_splits dest!: validate_sound)

lemma parse_server_valid:
  assumes "parse_server_config parse_json files env iter args lg = Inr (c, lg')"
  shows "config_valid c \<and> apply_mode c = c \<and> 0 \<le> cfg_ratelimit c"
  using assms unfolding parse_server_config_def Let_def
  by (auto simp: then_do_Inr apply_mode_idem sanitize_nonneg split: if_splits dest!: validate_sound)

lemma not_space_digit: "is_digit c \<Longrightarrow> \<not> is_space c"
  by (auto simp: is_digit_def is_space_def)

lemma stoi_digits:
  assumes "ds \<noteq> []" "\<And>c. c \<in> set ds \<Longrightarrow> is_digit c"
  shows "stoi ds = (if int_range (int (decimal_value ds)) then Some (int (decimal_value ds), length ds) else None)"
    "stoi (''-'' @ ds) = (if int_range (- int (decimal_value ds)) then Some (- int (decimal_value ds), Suc (length ds)) else None)"
proof -
  have hd: "is_digit (hd ds)" using assms by simp
  have sp: "takeWhile is_space ds = []" "dropWhile is_space ds = ds"
    using assms not_space_digit by (cases ds; force)+
  have dg: "takeWhile is_digit ds = ds" using assms(2) by (simp add: takeWhile_eq_all_conv)
  have nsign: "hd ds \<noteq> CHR ''-''" "hd ds \<noteq> CHR ''+''" using hd by (auto simp: is_digit_def)
  show "stoi ds = (if int_range (int (decimal_value ds)) then Some (int (decimal_value ds), length ds) else None)"
    using assms(1) nsign by (simp add: stoi_def Let_def sp dg)
  have "\<not> is_space CHR ''-''" by (simp add: is_space_def)
  then show "stoi (''-'' @ ds) =
      (if int_range (- int (decimal_value ds)) then Some (- int (decimal_value ds), Suc (length ds)) else None)"
    using assms(1) by (simp add: stoi_def Let_def dg)
qed

lemma stoi_int_to_string:
  "stoi (int_to_string n) = (if int_range n then Some (n, length (int_to_string n)) else None)"
proof (cases "n < 0")
  case True
  then show ?thesis
    using stoi_digits(2) [of "to_string (nat (- n))"] to_string_digits by (simp add: int_to_string_def)
next
  case False
  then show ?thesis
    using stoi_digits(1) [of "to_string (nat n)"] to_string_digits by (simp add: int_to_string_def)
qed

lemma find_char_Cons_free:
  "CHR ''='' \<notin> set k \<Longrightarrow> find_char (k @ CHR ''='' # v) CHR ''='' = Some (length k)"
  by (rule find_char_append)

lemma split_argument_forms:
  assumes "k \<noteq> []" "hd k \<noteq> CHR ''-''" "CHR ''='' \<notin> set k"
  shows "split_argument (''--'' @ k) = (k, None)" "split_argument (''--'' @ k @ ''='' @ v) = (k, Some v)"
proof -
  have d: "dropWhile (\<lambda>c. c = CHR ''-'') (k @ w) = k @ w" for w using assms(1,2) by (cases k) auto
  show "split_argument (''--'' @ k) = (k, None)"
  proof -
    have "find_char k CHR ''='' = None" unfolding find_char_None by (rule assms(3))
    then show ?thesis using d [of "[]"] by (simp add: split_argument_def Let_def)
  qed
  show "split_argument (''--'' @ k @ ''='' @ v) = (k, Some v)"
    using d [of "''='' @ v"] find_char_append [OF assms(3), of v] by (simp add: split_argument_def Let_def)
qed

section \<open>Properties\<close>

text \<open>C21: What the client and the server start with is valid: whenever parsing the
  command line, the environment and the JSON file succeeds, in whatever order the option
  map is iterated, every numeric option is inside its documented bounds, the mode profile
  has been applied last (a profile overrides the explicit KCP options), the rate limit is
  not negative, and the client has at least one connection.\<close>

theorem parsed_config_valid:
  "(parse_client_config parse_json files env iter args lg = Inr (c, lg') \<longrightarrow>
      config_valid c \<and> apply_mode c = c \<and> 0 \<le> cfg_ratelimit c \<and> 0 < cfg_conn c) \<and>
   (parse_server_config parse_json files env iter args lg = Inr (d, lg'') \<longrightarrow>
      config_valid d \<and> apply_mode d = d \<and> 0 \<le> cfg_ratelimit d)"
  using parse_client_valid parse_server_valid by blast

lemma parsed_config_valid_witness:
  "\<exists>c lg d lg'. parse_client_config (\<lambda>_. Inl Library_exception) (\<lambda>_. None) None (\<lambda>xs. xs) [''--conn=4''] initial_logger = Inr (c, lg) \<and>
     cfg_conn c = 4 \<and> config_valid c \<and>
     parse_server_config (\<lambda>_. Inl Library_exception) (\<lambda>_. None) None (\<lambda>xs. xs) [] initial_logger = Inr (d, lg') \<and>
     config_valid d"
proof -
  have modes: "normalize_key ''fast'' = ''fast''" "normalize_key ''info'' = ''info''" "normalize_key ''conn'' = ''conn''"
    by code_simp+
  have scan: "scan_args [''--conn=4''] empty_scan = Inr \<lparr> cli_values = [(''conn'', ''4'')], cli_config_path = [] \<rparr>"
    by code_simp
  have four: "parse_int ''conn'' ''4'' = Inr 4" by code_simp
  have "\<exists>c lg. parse_client_config (\<lambda>_. Inl Library_exception) (\<lambda>_. None) None (\<lambda>xs. xs) [''--conn=4''] initial_logger = Inr (c, lg) \<and> cfg_conn c = 4"
    by (simp add: parse_client_config_def scan apply_client_cli_def apply_cli_common_def client_entry_def modes four
        cli_role_keys_def apply_env_def default_client_config_def base_defaults_def apply_mode_def sanitize_common_def
        validate_common_config_def int_add_def int_range_def set_level_def Let_def del: scan_args.simps)
  moreover have "\<exists>d lg. parse_server_config (\<lambda>_. Inl Library_exception) (\<lambda>_. None) None (\<lambda>xs. xs) [] initial_logger = Inr (d, lg)"
    by (simp add: parse_server_config_def empty_scan_def apply_server_cli_def apply_cli_common_def modes
        apply_env_def default_server_config_def base_defaults_def apply_mode_def sanitize_common_def
        validate_common_config_def int_add_def int_range_def set_level_def Let_def)
  ultimately show ?thesis using parsed_config_valid by blast
qed

text \<open>Integer options read back what is printed: the decimal text of every \<open>int\<close> parses
  to that number, and the text of a number outside the range of \<open>int\<close> is refused with the
  option's error.\<close>

theorem parse_int_roundtrip:
  "parse_int key (int_to_string n) =
     (if int_range n then Inr n
      else Inl (Runtime_error (''invalid integer for '' @ key @ '': '' @ int_to_string n)))"
  by (simp add: parse_int_def stoi_int_to_string)

text \<open>The two ways to write a flag mean the same: \<open>--key value\<close> and \<open>--key=value\<close> leave
  the same scan, for every flag that takes a value.\<close>

theorem flag_forms_agree:
  assumes "k \<noteq> []" "hd k \<noteq> CHR ''-''" "CHR ''='' \<notin> set k" "\<not> is_bool_key k" "k \<noteq> ''help''" "k \<noteq> ''version''"
  shows "scan_args ((''--'' @ k) # v # args) scan = scan_args ((''--'' @ k @ ''='' @ v) # args) scan"
proof -
  note sp = split_argument_forms [OF assms(1-3)]
  have nb: "\<not> is_bool_key (normalize_key k)" using assms(4) by (simp add: is_bool_key_def)
  have eq: "k @ ''='' @ v \<noteq> w" if "CHR ''='' \<notin> set w" for w using that by auto
  have "starts_with (''--'' @ k) ''-''" "starts_with (''--'' @ k @ ''='' @ v) ''-''"
    by (simp_all add: starts_with_def)
  moreover have "k @ ''='' @ v \<noteq> ''help''" "k @ ''='' @ v \<noteq> ''version''" by (rule eq; simp)+
  ultimately show ?thesis
    using assms(5,6) nb sp by simp
qed

lemma flag_forms_agree_witness:
  "scan_args [''--mtu'', ''1400''] empty_scan = scan_args [''--mtu=1400''] empty_scan"
  using flag_forms_agree [of "''mtu''" "''1400''" "[]" empty_scan]
  by (simp add: is_bool_key_def normalize_key_def tolower_def Let_def)

lemma role_spelling_facts:
  assumes "normalize_key k = ''remoteaddr'' \<or> normalize_key k = ''localaddr''" "k \<noteq> ''remoteaddr''" "k \<noteq> ''localaddr''"
  shows "map_of [(k, v)] ''localaddr'' = None" "map_of [(k, v)] ''remoteaddr'' = None" "map_of [(k, v)] ''conn'' = None"
    "map_of [(k, v)] ''autoexpire'' = None" "map_of [(k, v)] ''scavengettl'' = None" "normalize_key k \<in> set role_keys"
proof -
  have n: "normalize_key ''conn'' = ''conn''" "normalize_key ''autoexpire'' = ''autoexpire''"
    "normalize_key ''scavengettl'' = ''scavengettl''" by code_simp+
  have "k \<noteq> ''conn''" "k \<noteq> ''autoexpire''" "k \<noteq> ''scavengettl''" using assms(1) n by force+
  then show "map_of [(k, v)] ''localaddr'' = None" "map_of [(k, v)] ''remoteaddr'' = None" "map_of [(k, v)] ''conn'' = None"
    "map_of [(k, v)] ''autoexpire'' = None" "map_of [(k, v)] ''scavengettl'' = None"
    using assms(2,3) by auto
  show "normalize_key k \<in> set role_keys" using assms(1) by (auto simp: role_keys_def)
qed

text \<open>Spellings of a JSON member differ from those of an option. On the command line the
  address options are recognised up to case, dashes and underscores, and so is every common
  JSON member; but a JSON member that is \<open>remoteaddr\<close> or \<open>localaddr\<close> only up to such a
  spelling (\<open>RemoteAddr\<close>, \<open>remote_addr\<close>) is silently dropped: loading the file succeeds and
  leaves the configuration as it was.\<close>

theorem json_address_spelling_ignored:
  assumes "normalize_key k = ''remoteaddr'' \<or> normalize_key k = ''localaddr''" "k \<noteq> ''remoteaddr''" "k \<noteq> ''localaddr''"
    and "json_object parse_json files path = Inr [(k, v)]"
  shows "load_json_client parse_json files path c = Inr c \<and>
     (client_entry (k, w) c = Inr (c \<lparr> cfg_remoteaddr := w \<rparr>) \<or> client_entry (k, w) c = Inr (c \<lparr> cfg_localaddr := w \<rparr>))"
proof -
  note f = role_spelling_facts [OF assms(1-3)]
  have "load_json_client parse_json files path c = Inr c"
    using f(6) by (simp add: load_json_client_def assms(4) apply_json_common_def json_string_member_def
        json_int_member_def f(1-5) del: map_of.simps)
  moreover have "client_entry (k, w) c = Inr (c \<lparr> cfg_remoteaddr := w \<rparr>) \<or> client_entry (k, w) c = Inr (c \<lparr> cfg_localaddr := w \<rparr>)"
    using assms(1) by (auto simp: client_entry_def Let_def)
  ultimately show ?thesis by blast
qed

lemma json_address_spelling_ignored_witness:
  "load_json_client (\<lambda>_. Inr (J_object [(''RemoteAddr'', J_string ''example.org:4000'')])) (\<lambda>_. Some ''{}'') ''client.json''
     default_client_config = Inr default_client_config"
proof -
  have n: "normalize_key ''RemoteAddr'' = ''remoteaddr''" by code_simp
  have "json_object (\<lambda>_. Inr (J_object [(''RemoteAddr'', J_string ''example.org:4000'')])) (\<lambda>_. Some ''{}'') ''client.json'' =
      Inr [(''RemoteAddr'', J_string ''example.org:4000'')]" by (simp add: json_object_def read_file_def)
  from json_address_spelling_ignored [OF _ _ _ this] n show ?thesis by simp
qed

text \<open>The check that the shard counts sum to at most 256 adds two \<open>int\<close>s before it
  bounds them: from the command line, two counts that are each valid reach an addition
  whose overflow has no defined behaviour, instead of the error message.\<close>

theorem shard_sum_overflows:
  "scan_args [''--ds'', ''2147483647'', ''--ps'', ''1''] empty_scan =
     Inr \<lparr> cli_values = [(''ds'', ''2147483647''), (''ps'', ''1'')], cli_config_path = [] \<rparr> \<and>
   apply_client_cli [(''ds'', ''2147483647''), (''ps'', ''1'')] default_client_config =
     Inr (default_client_config \<lparr> cfg_datashard := 2147483647, cfg_parityshard := 1 \<rparr>) \<and>
   validate_common_config (apply_mode (default_client_config \<lparr> cfg_datashard := 2147483647, cfg_parityshard := 1 \<rparr>))
     initial_logger = Inl Undefined_behaviour"
proof (intro conjI)
  show "scan_args [''--ds'', ''2147483647'', ''--ps'', ''1''] empty_scan =
     Inr \<lparr> cli_values = [(''ds'', ''2147483647''), (''ps'', ''1'')], cli_config_path = [] \<rparr>" by code_simp
  have names: "normalize_key ''ds'' = ''ds''" "normalize_key ''ps'' = ''ps''" "normalize_key ''fast'' = ''fast''"
    by code_simp+
  have "parse_int ''ds'' ''2147483647'' = Inr 2147483647" "parse_int ''ps'' ''1'' = Inr 1"
    by (simp_all add: parse_int_def stoi_def decimal_value_def digit_val_def is_space_def is_digit_def Let_def int_range_def)
  note n = names this
  have opt: "map_of common_options ''ds'' = Some (Set_int (\<lambda>v c. c \<lparr> cfg_datashard := v \<rparr>))"
    "map_of common_options ''ps'' = Some (Set_int (\<lambda>v c. c \<lparr> cfg_parityshard := v \<rparr>))"
    by (simp_all add: common_options_def)
  have a: "assign_common ''ds'' ''2147483647'' c = Inr (c \<lparr> cfg_datashard := 2147483647 \<rparr>)"
    "assign_common ''ps'' ''1'' c = Inr (c \<lparr> cfg_parityshard := 1 \<rparr>)" for c :: client_config
    by (simp_all add: assign_common_def n opt apply_setter_def)
  have r: "\<not> normalize_key ''ds'' \<in> set cli_role_keys" "\<not> normalize_key ''ps'' \<in> set cli_role_keys"
    by (simp_all add: n cli_role_keys_def)
  have e: "client_entry (''ds'', ''2147483647'') c = Inr c" "client_entry (''ps'', ''1'') c = Inr c" for c
    by (simp_all add: client_entry_def n Let_def)
  show "apply_client_cli [(''ds'', ''2147483647''), (''ps'', ''1'')] default_client_config =
     Inr (default_client_config \<lparr> cfg_datashard := 2147483647, cfg_parityshard := 1 \<rparr>)"
    by (simp only: apply_client_cli_def apply_cli_common_def for_each.simps prod.case r a e if_False
        sum.case then_do_simps)
  show "validate_common_config (apply_mode (default_client_config \<lparr> cfg_datashard := 2147483647, cfg_parityshard := 1 \<rparr>))
     initial_logger = Inl Undefined_behaviour"
    by (simp add: default_client_config_def base_defaults_def apply_mode_def n validate_common_config_def
        int_add_def int_range_def Let_def)
qed

end
