(* ===== verification/Qpp.thy ===== *)
theory Qpp
  imports Wire Cpp_String
begin

text \<open>
  \<open>qpp.cpp\<close>: the Quantum Permutation Pad layer. A \<open>QppPad\<close> holds \<open>num_pads\<close> permutation
  tables of 256 bytes and their inverses, shuffled from the key; a \<open>QppStream\<close> sends each
  byte through a table picked by an xoshiro generator. PBKDF2, HMAC and AES come from
  Crypto++ and are the fields of \<open>qpp_lib\<close>.
\<close>

unbundle bit_operations_syntax

section \<open>Helpers\<close>

record qpp_lib =
  qlib_pbkdf2_sha1 :: "bytes \<Rightarrow> string \<Rightarrow> nat \<Rightarrow> bytes"
  qlib_hmac_sha256 :: "bytes \<Rightarrow> string \<Rightarrow> bytes"
  qlib_aes :: "bytes \<Rightarrow> bytes \<Rightarrow> bytes"

definition matrix_bytes :: nat where "matrix_bytes = 256"
definition qubits :: nat where "qubits = 8"
definition minimum_pads :: int where "minimum_pads = 7"
definition minimum_seed_length :: nat where "minimum_seed_length = 211"

definition pad_identifier_prefix :: string where "pad_identifier_prefix = ''QPP_''"
definition pm_selector_identifier :: string where "pm_selector_identifier = ''PERMUTATION_MATRIX_SELECTOR''"
definition shuffle_salt :: string where "shuffle_salt = ''___QUANTUM_PERMUTATION_PAD_SHUFFLE_SALT___''"
definition prng_salt :: string where "prng_salt = ''___QUANTUM_PERMUTATION_PAD_PRNG_SALT___''"
definition chunk_derive_salt :: string where "chunk_derive_salt = ''___QUANTUM_PERMUTATION_PAD_SEED_DERIVE___''"
definition pbkdf2_loops :: nat where "pbkdf2_loops = 128"
definition chunk_derive_loops :: nat where "chunk_derive_loops = 1024"

text \<open>\<open>xoshiro256ss\<close>: the result and the updated state array.\<close>

definition xoshiro256ss :: "u64 list \<Rightarrow> u64 \<times> u64 list" where
  "xoshiro256ss state =
     (let result = word_rotl 7 (state ! 1 * 5) * 9;
          t = push_bit 17 (state ! 1);
          state = state[2 := state ! 2 XOR state ! 0];
          state = state[3 := state ! 3 XOR state ! 1];
          state = state[1 := state ! 1 XOR state ! 2];
          state = state[0 := state ! 0 XOR state ! 3];
          state = state[2 := state ! 2 XOR t];
          state = state[3 := word_rotl 45 (state ! 3)]
      in (result, state))"

text \<open>The loop of \<open>binary_string\<close>, least significant digit first.\<close>

fun binary_digits :: "nat \<Rightarrow> string" where
  "binary_digits value =
     (if value = 0 then []
      else (if odd value then CHR ''1'' else CHR ''0'') # binary_digits (value div 2))"

declare binary_digits.simps [simp del]

definition binary_string :: "nat \<Rightarrow> string" where
  "binary_string value = (if value = 0 then ''0'' else rev (binary_digits value))"

definition mod_big_endian :: "bytes \<Rightarrow> u32 \<Rightarrow> u32" where
  "mod_big_endian bs modulus =
     foldl (\<lambda>result b. ucast ((ucast result * 256 + ucast b :: u64) mod ucast modulus)) 0 bs"

definition coprime_int :: "int \<Rightarrow> int \<Rightarrow> bool" where
  "coprime_int a b \<longleftrightarrow> gcd a b = 1"

section \<open>Pads\<close>

record qpp_pad =
  qpp_pads :: bytes
  qpp_rpads :: bytes
  qpp_num_pads :: nat

text \<open>The spans of the constructor: one table of a flat array, read and written back.\<close>

definition pad_span :: "bytes \<Rightarrow> nat \<Rightarrow> bytes" where
  "pad_span pads i = take matrix_bytes (drop (i * matrix_bytes) pads)"

definition write_span :: "bytes \<Rightarrow> nat \<Rightarrow> bytes \<Rightarrow> bytes" where
  "write_span pads i pad = memcpy pads (i * matrix_bytes) pad"

definition fill_pad :: "bytes \<Rightarrow> bytes" where
  "fill_pad pad = foldl (\<lambda>pad i. pad[i := of_nat i]) pad [0..<length pad]"

definition reverse_pad :: "bytes \<Rightarrow> bytes \<Rightarrow> bytes" where
  "reverse_pad pad rpad = foldl (\<lambda>rpad i. rpad[unat (pad ! i) := of_nat i]) rpad [0..<length pad]"

text \<open>Every AES block encrypts the 16-byte halves of the digest in place.\<close>

definition stir :: "qpp_lib \<Rightarrow> bytes list \<Rightarrow> bytes \<Rightarrow> bytes" where
  "stir lib aes_keys digest =
     foldl (\<lambda>digest key. foldl (\<lambda>digest off. memcpy digest off (qlib_aes lib key (take 16 (drop off digest)))) digest [0, 16])
       digest aes_keys"

text \<open>The Fisher-Yates loop, from \<open>i\<close> downwards.\<close>

fun shuffle_loop :: "qpp_lib \<Rightarrow> bytes list \<Rightarrow> bytes \<Rightarrow> bytes \<Rightarrow> nat \<Rightarrow> bytes" where
  "shuffle_loop lib aes_keys digest pad 0 = pad"
| "shuffle_loop lib aes_keys digest pad (Suc k) =
     (let i = Suc k;
          digest = stir lib aes_keys digest;
          j = unat (mod_big_endian digest (of_nat (i + 1)))
      in shuffle_loop lib aes_keys digest (pad[i := pad ! j, j := pad ! i]) k)"

definition shuffle_pad :: "qpp_lib \<Rightarrow> bytes \<Rightarrow> bytes \<Rightarrow> nat \<Rightarrow> bytes list \<Rightarrow> bytes" where
  "shuffle_pad lib chunk pad pad_id aes_keys =
     shuffle_loop lib aes_keys
       (qlib_hmac_sha256 lib chunk (pad_identifier_prefix @ binary_string pad_id))
       pad (length pad - 1)"

text \<open>
  \<open>seed_to_chunks\<close>: the running \<open>seed_index\<close> of byte \<open>i\<close> of chunk \<open>k\<close> is
  \<open>32 * k + i\<close>.
\<close>

definition seed_to_chunks :: "qpp_lib \<Rightarrow> bytes \<Rightarrow> bytes list" where
  "seed_to_chunks lib seed =
     (let expanded = (if length seed < 32 then qlib_pbkdf2_sha1 lib seed chunk_derive_salt pbkdf2_loops else seed);
          chunk_count = (minimum_seed_length + 31) div 32
      in map (\<lambda>k. let chunk = map (\<lambda>i. expanded ! ((32 * k + i) mod length expanded)) [0..<32]
                   in qlib_pbkdf2_sha1 lib chunk chunk_derive_salt chunk_derive_loops)
           [0..<chunk_count])"

definition build_pad :: "qpp_lib \<Rightarrow> bytes list \<Rightarrow> bytes list \<Rightarrow> nat \<Rightarrow> bytes \<times> bytes \<Rightarrow> bytes \<times> bytes" where
  "build_pad lib chunks aes_keys i = (\<lambda>(pads, rpads).
     (let pad = fill_pad (pad_span pads i);
          pad = shuffle_pad lib (chunks ! (i mod length chunks)) pad i aes_keys;
          rpad = reverse_pad pad (pad_span rpads i)
      in (write_span pads i pad, write_span rpads i rpad)))"

text \<open>The constructor. \<open>num_pads\<close> is the \<open>std::uint16_t\<close> argument.\<close>

definition make_qpp_pad :: "qpp_lib \<Rightarrow> bytes \<Rightarrow> u16 \<Rightarrow> qpp_pad result" where
  "make_qpp_pad lib seed num_pads =
     (let n = unat num_pads;
          zeros = replicate (n * matrix_bytes) 0
      in if n = 0 then Inl (Runtime_error ''QPPCount must be greater than 0 when QPP is enabled'')
         else
           let chunks = seed_to_chunks lib seed;
               aes_keys = map (\<lambda>chunk. qlib_pbkdf2_sha1 lib chunk shuffle_salt pbkdf2_loops) chunks;
               (pads, rpads) = foldl (\<lambda>s i. build_pad lib chunks aes_keys i s) (zeros, zeros) [0..<n]
           in Inr \<lparr> qpp_pads = pads, qpp_rpads = rpads, qpp_num_pads = n \<rparr>)"

section \<open>Streams\<close>

record qpp_rand =
  qr_xoshiro :: "u64 list"
  qr_seed64 :: u64
  qr_count :: nat

definition create_prng :: "qpp_lib \<Rightarrow> bytes \<Rightarrow> qpp_rand" where
  "create_prng lib seed =
     (let mac = qlib_hmac_sha256 lib seed pm_selector_identifier;
          xs = qlib_pbkdf2_sha1 lib mac prng_salt pbkdf2_loops;
          xoshiro = [read_le64 xs 0, read_le64 xs 8, read_le64 xs 16, read_le64 xs 24];
          (seed64, xoshiro) = xoshiro256ss xoshiro
      in \<lparr> qr_xoshiro = xoshiro, qr_seed64 = seed64, qr_count = 0 \<rparr>)"

text \<open>The end of a round of both loops: the next byte of \<open>r\<close>, or a fresh \<open>r\<close>.\<close>

definition next_rand :: "qpp_rand \<Rightarrow> qpp_rand" where
  "next_rand rand =
     (if qr_count rand + 1 = 8 then
        (let (r, xoshiro) = xoshiro256ss (qr_xoshiro rand)
         in rand \<lparr> qr_seed64 := r, qr_xoshiro := xoshiro, qr_count := 0 \<rparr>)
      else rand \<lparr> qr_count := qr_count rand + 1 \<rparr>)"

definition pad_index :: "qpp_pad \<Rightarrow> qpp_rand \<Rightarrow> nat" where
  "pad_index pad rand = unat (ucast (qr_seed64 rand) :: u16) mod qpp_num_pads pad * matrix_bytes"

definition rand_byte :: "qpp_rand \<Rightarrow> byte" where
  "rand_byte rand = ucast (drop_bit (qr_count rand * 8) (qr_seed64 rand))"

fun qpp_encrypt :: "qpp_pad \<Rightarrow> bytes \<Rightarrow> qpp_rand \<Rightarrow> bytes \<times> qpp_rand" where
  "qpp_encrypt pad [] rand = ([], rand)"
| "qpp_encrypt pad (plain # xs) rand =
     (let c = qpp_pads pad ! (pad_index pad rand + unat (plain XOR rand_byte rand));
          (cs, rand') = qpp_encrypt pad xs (next_rand rand)
      in (c # cs, rand'))"

fun qpp_decrypt :: "qpp_pad \<Rightarrow> bytes \<Rightarrow> qpp_rand \<Rightarrow> bytes \<times> qpp_rand" where
  "qpp_decrypt pad [] rand = ([], rand)"
| "qpp_decrypt pad (cipher # xs) rand =
     (let p = qpp_rpads pad ! (pad_index pad rand + unat cipher) XOR rand_byte rand;
          (ps, rand') = qpp_decrypt pad xs (next_rand rand)
      in (p # ps, rand'))"

text \<open>\<open>QppStream\<close>; without a pad (\<open>nullptr\<close>) the data pass unchanged.\<close>

record qpp_stream =
  qs_pad :: "qpp_pad option"
  qs_write_rand :: qpp_rand
  qs_read_rand :: qpp_rand

definition blank_rand :: qpp_rand where
  "blank_rand = \<lparr> qr_xoshiro = [0, 0, 0, 0], qr_seed64 = 0, qr_count = 0 \<rparr>"

definition make_qpp_stream :: "qpp_lib \<Rightarrow> qpp_pad option \<Rightarrow> bytes \<Rightarrow> qpp_stream" where
  "make_qpp_stream lib pad seed =
     (if pad \<noteq> None
      then \<lparr> qs_pad = pad, qs_write_rand = create_prng lib seed, qs_read_rand = create_prng lib seed \<rparr>
      else \<lparr> qs_pad = None, qs_write_rand = blank_rand, qs_read_rand = blank_rand \<rparr>)"

definition qpp_enabled :: "qpp_stream \<Rightarrow> bool" where
  "qpp_enabled s \<longleftrightarrow> qs_pad s \<noteq> None"

definition qs_encrypt :: "bytes \<Rightarrow> qpp_stream \<Rightarrow> bytes \<times> qpp_stream" where
  "qs_encrypt xs s =
     (case qs_pad s of
        None \<Rightarrow> (xs, s)
      | Some pad \<Rightarrow>
          (let (ys, rand) = qpp_encrypt pad xs (qs_write_rand s) in (ys, s \<lparr> qs_write_rand := rand \<rparr>)))"

definition qs_decrypt :: "bytes \<Rightarrow> qpp_stream \<Rightarrow> bytes \<times> qpp_stream" where
  "qs_decrypt xs s =
     (case qs_pad s of
        None \<Rightarrow> (xs, s)
      | Some pad \<Rightarrow>
          (let (ys, rand) = qpp_decrypt pad xs (qs_read_rand s) in (ys, s \<lparr> qs_read_rand := rand \<rparr>)))"

section \<open>Parameter warnings\<close>

definition validate_qpp_params :: "int \<Rightarrow> string \<Rightarrow> string list result" where
  "validate_qpp_params count key =
     (if count \<le> 0 then Inl (Runtime_error ''QPPCount must be greater than 0 when QPP is enabled'')
      else Inr (
        (if length key < minimum_seed_length then
           [''QPP Warning: '' @ [CHR 0x27] @ ''key'' @ [CHR 0x27] @ '' has size of '' @ to_string (length key) @ '' bytes, required '' @
            to_string minimum_seed_length @ '' bytes at least''] else []) @
        (if count < minimum_pads then
           [''QPP Warning: QPPCount '' @ to_string (nat count) @ '', required '' @
            to_string (nat minimum_pads) @ '' at least''] else []) @
        (if \<not> coprime_int count (int qubits) then
           [''QPP Warning: QPPCount '' @ to_string (nat count) @ '', choose a prime number for security'']
         else [])))"

section \<open>Permutations\<close>

lemma length_foldl_update [simp]: "length (foldl (\<lambda>p i. p[f p i := g p i]) xs is) = length xs"
  by (induction "is" arbitrary: xs) simp_all

lemma fill_loop:
  "n \<le> length xs \<Longrightarrow> foldl (\<lambda>p i. p[i := g i]) xs [0..<n] = map g [0..<n] @ drop n xs"
proof (induction n)
  case (Suc n)
  then have "drop n xs = xs ! n # drop (Suc n) xs" by (simp add: Cons_nth_drop_Suc)
  with Suc show ?case by (simp add: list_update_append)
qed simp

lemma fill_pad_eq: "fill_pad pad = map of_nat [0..<length pad]"
  by (simp add: fill_pad_def fill_loop)

text \<open>A permutation pad: 256 different bytes.\<close>

definition is_permutation_pad :: "bytes \<Rightarrow> bool" where
  "is_permutation_pad pad \<longleftrightarrow> length pad = matrix_bytes \<and> distinct pad"

lemma fill_pad_permutation: "length pad = matrix_bytes \<Longrightarrow> is_permutation_pad (fill_pad pad)"
proof -
  have "inj_on (of_nat :: nat \<Rightarrow> byte) {0..<256}"
  proof (rule inj_onI)
    fix m n :: nat
    assume r: "m \<in> {0..<256}" "n \<in> {0..<256}" and e: "(of_nat m :: byte) = of_nat n"
    have "unat (of_nat m :: byte) = m" "unat (of_nat n :: byte) = n"
      using r by (auto intro!: unat_of_nat_lt)
    with e show "m = n" by metis
  qed
  then show "length pad = matrix_bytes \<Longrightarrow> is_permutation_pad (fill_pad pad)"
    by (simp add: is_permutation_pad_def fill_pad_eq distinct_map matrix_bytes_def)
qed

lemma unat_ucast_u32_u64 [simp]: "unat (ucast (m :: u32) :: u64) = unat m"
  by (simp add: unsigned_ucast_eq take_bit_nat_eq_self less_trans [OF unat_u32_less])

lemma mod_big_endian_less:
  assumes "0 < m" "bs \<noteq> []"
  shows "unat (mod_big_endian bs m) < unat m"
proof -
  have m: "0 < unat m" using assms(1) by (simp add: word_less_nat_alt)
  have step: "unat (ucast ((x :: u64) mod ucast m) :: u32) < unat m" for x
  proof -
    have "unat (x mod ucast m) < unat m" using m by (simp add: unat_mod_distrib)
    moreover have "unat (ucast y :: u32) \<le> unat y" for y :: u64
      by (simp add: unsigned_ucast_eq take_bit_nat_less_eq_self)
    ultimately show ?thesis using le_less_trans by blast
  qed
  obtain ys y where "bs = ys @ [y]" using assms(2) by (cases bs rule: rev_cases) auto
  then show ?thesis using step by (simp add: mod_big_endian_def)
qed

text \<open>What the library documents: digests of 32 bytes and AES on 16-byte blocks.\<close>

definition qpp_documented :: "qpp_lib \<Rightarrow> bool" where
  "qpp_documented lib \<longleftrightarrow>
     (\<forall>pw salt n. length (qlib_pbkdf2_sha1 lib pw salt n) = 32) \<and>
     (\<forall>key m. length (qlib_hmac_sha256 lib key m) = 32) \<and>
     (\<forall>key b. length b = 16 \<longrightarrow> length (qlib_aes lib key b) = 16)"

lemma length_stir:
  assumes "qpp_documented lib" "length digest = 32"
  shows "length (stir lib keys digest) = 32"
  unfolding stir_def using assms
  by (intro foldl_invariant [where P = "\<lambda>d. length d = 32"]) (auto simp: qpp_documented_def)

lemma shuffle_loop_permutation:
  assumes "qpp_documented lib"
  shows "length digest = 32 \<Longrightarrow> is_permutation_pad pad \<Longrightarrow> i < matrix_bytes \<Longrightarrow>
     is_permutation_pad (shuffle_loop lib keys digest pad i)"
proof (induction i arbitrary: digest pad)
  case (Suc k)
  let ?d = "stir lib keys digest"
  let ?j = "unat (mod_big_endian ?d (of_nat (Suc k + 1)))"
  have d: "length ?d = 32" using assms Suc(2) by (rule length_stir)
  have m: "unat (of_nat (Suc k + 1) :: u32) = Suc k + 1"
    using Suc(4) by (intro unat_of_nat_lt) (simp add: matrix_bytes_def)
  then have "(0 :: u32) < of_nat (Suc k + 1)" unfolding word_less_nat_alt by simp
  moreover have "?d \<noteq> []" using d by auto
  ultimately have "?j < Suc k + 1" using mod_big_endian_less m by metis
  then have "is_permutation_pad (pad[Suc k := pad ! ?j, ?j := pad ! Suc k])"
    using Suc(3,4) by (simp add: is_permutation_pad_def)
  then show ?case using Suc.IH [OF d] Suc(4) by (simp add: Let_def)
qed simp

lemma shuffle_pad_permutation:
  "qpp_documented lib \<Longrightarrow> is_permutation_pad pad \<Longrightarrow> is_permutation_pad (shuffle_pad lib chunk pad i keys)"
  unfolding shuffle_pad_def
  by (rule shuffle_loop_permutation) (auto simp: qpp_documented_def is_permutation_pad_def matrix_bytes_def)

text \<open>\<open>rpad\<close> undoes \<open>pad\<close>.\<close>

definition inverse_pad :: "bytes \<Rightarrow> bytes \<Rightarrow> bool" where
  "inverse_pad pad rpad \<longleftrightarrow> is_permutation_pad pad \<and> length rpad = matrix_bytes \<and>
     (\<forall>b :: byte. rpad ! unat (pad ! unat b) = b)"

lemma reverse_pad_inverse:
  assumes "is_permutation_pad pad" "length rpad = matrix_bytes"
  shows "inverse_pad pad (reverse_pad pad rpad)"
proof -
  have len: "length pad = 256" and dist: "distinct pad"
    using assms(1) by (simp_all add: is_permutation_pad_def matrix_bytes_def)
  have "foldl (\<lambda>rpad i. rpad[unat (pad ! i) := of_nat i]) rpad [0..<n] ! unat (pad ! i) = of_nat i"
    if "i < n" "n \<le> 256" for i n
    using that
  proof (induction n)
    case (Suc n)
    have "pad ! i = pad ! n \<longleftrightarrow> i = n"
      using Suc(2,3) len dist by (intro nth_eq_iff_index_eq) auto
    then have "unat (pad ! i) = unat (pad ! n) \<longleftrightarrow> i = n" by (simp add: word_unat_eq_iff [symmetric])
    then show ?case using Suc assms(2) by (auto simp: nth_list_update matrix_bytes_def less_Suc_eq)
  qed simp
  from this [of _ 256] show ?thesis
    using assms by (simp add: inverse_pad_def reverse_pad_def len)
qed

text \<open>The constructor's loop: after \<open>n\<close> rounds the first \<open>n\<close> tables are filled.\<close>

lemma nth_memcpy:
  "off + length src \<le> length buf \<Longrightarrow> k < length buf \<Longrightarrow>
     memcpy buf off src ! k = (if off \<le> k \<and> k < off + length src then src ! (k - off) else buf ! k)"
  by (auto simp: memcpy_def nth_append)

lemma pad_span_write:
  assumes "length pad = matrix_bytes" "(i + 1) * matrix_bytes \<le> length pads"
  shows "pad_span (write_span pads i pad) j = (if j = i then pad else pad_span pads j)"
proof (rule nth_equalityI)
  have len: "length (write_span pads i pad) = length pads"
    using assms by (simp add: write_span_def)
  then show "length (pad_span (write_span pads i pad) j) = length (if j = i then pad else pad_span pads j)"
    using assms by (auto simp: pad_span_def)
  fix k assume k: "k < length (pad_span (write_span pads i pad) j)"
  then have k': "k < matrix_bytes" "j * matrix_bytes + k < length pads" by (auto simp: pad_span_def len)
  have "i * matrix_bytes \<le> j * matrix_bytes + k \<and> j * matrix_bytes + k < i * matrix_bytes + matrix_bytes \<longleftrightarrow> j = i"
    using k'(1) by (auto simp: matrix_bytes_def)
  with k' assms show "pad_span (write_span pads i pad) j ! k = (if j = i then pad else pad_span pads j) ! k"
    using len by (auto simp: pad_span_def write_span_def nth_memcpy)
qed

lemma length_pad_span: "(i + 1) * matrix_bytes \<le> length pads \<Longrightarrow> length (pad_span pads i) = matrix_bytes"
  by (simp add: pad_span_def)

lemma build_pads:
  fixes z :: bytes
  assumes "qpp_documented lib" "k * matrix_bytes \<le> length z"
    and "foldl (\<lambda>s i. build_pad lib chunks keys i s) (z, z) [0..<k] = (pads, rpads)"
  shows "length pads = length z \<and> length rpads = length z \<and>
     (\<forall>i < k. inverse_pad (pad_span pads i) (pad_span rpads i))"
  using assms(2,3)
proof (induction k arbitrary: pads rpads)
  case (Suc k)
  obtain p r where pr: "foldl (\<lambda>s i. build_pad lib chunks keys i s) (z, z) [0..<k] = (p, r)" by fastforce
  from Suc have IH: "length p = length z" "length r = length z"
    "\<forall>i < k. inverse_pad (pad_span p i) (pad_span r i)" using pr by auto
  define pad where "pad = shuffle_pad lib (chunks ! (k mod length chunks)) (fill_pad (pad_span p k)) k keys"
  define rpad where "rpad = reverse_pad pad (pad_span r k)"
  have span: "length (pad_span p k) = matrix_bytes" "length (pad_span r k) = matrix_bytes"
    using Suc(2) IH by (simp_all add: length_pad_span)
  have "is_permutation_pad pad"
    unfolding pad_def using assms(1) span by (intro shuffle_pad_permutation fill_pad_permutation)
  then have inv: "inverse_pad pad rpad" unfolding rpad_def using span by (intro reverse_pad_inverse)
  then have len: "length pad = matrix_bytes" "length rpad = matrix_bytes"
    by (auto simp: inverse_pad_def is_permutation_pad_def)
  have "pads = write_span p k pad" "rpads = write_span r k rpad"
    using Suc(3) pr by (auto simp: build_pad_def pad_def rpad_def Let_def)
  then show ?case
    using IH inv len Suc(2) by (auto simp: pad_span_write less_Suc_eq) (simp_all add: write_span_def)
qed simp

text \<open>What the constructor establishes.\<close>

definition qpp_pad_ok :: "qpp_pad \<Rightarrow> bool" where
  "qpp_pad_ok pad \<longleftrightarrow> 0 < qpp_num_pads pad \<and> qpp_num_pads pad < 65536 \<and>
     length (qpp_pads pad) = qpp_num_pads pad * matrix_bytes \<and>
     length (qpp_rpads pad) = qpp_num_pads pad * matrix_bytes \<and>
     (\<forall>i < qpp_num_pads pad. inverse_pad (pad_span (qpp_pads pad) i) (pad_span (qpp_rpads pad) i))"

lemma make_qpp_pad_ok:
  assumes "qpp_documented lib" "make_qpp_pad lib seed n = Inr pad"
  shows "qpp_pad_ok pad \<and> qpp_num_pads pad = unat n"
proof -
  let ?c = "seed_to_chunks lib seed"
  let ?k = "map (\<lambda>chunk. qlib_pbkdf2_sha1 lib chunk shuffle_salt pbkdf2_loops) ?c"
  let ?z = "replicate (unat n * matrix_bytes) (0 :: byte)"
  obtain p r where pr: "foldl (\<lambda>s i. build_pad lib ?c ?k i s) (?z, ?z) [0..<unat n] = (p, r)" by fastforce
  have "unat n \<noteq> 0" "pad = \<lparr> qpp_pads = p, qpp_rpads = r, qpp_num_pads = unat n \<rparr>"
    using assms(2) pr by (auto simp: make_qpp_pad_def Let_def split: if_splits)
  then show ?thesis
    using build_pads [OF assms(1) _ pr] by (simp add: qpp_pad_ok_def)
qed

lemma make_qpp_pad_total: "n \<noteq> 0 \<Longrightarrow> \<exists>pad. make_qpp_pad lib seed n = Inr pad"
  by (simp add: make_qpp_pad_def Let_def unat_eq_0 case_prod_unfold)

lemma span_nth: "k < matrix_bytes \<Longrightarrow> pad_span pads i ! k = pads ! (i * matrix_bytes + k)"
  if "(i + 1) * matrix_bytes \<le> length pads"
  using that by (simp add: pad_span_def)

section \<open>Encryption and decryption\<close>

lemma substitution_inverse:
  assumes "qpp_pad_ok pad"
  shows "qpp_rpads pad ! (pad_index pad rand + unat (qpp_pads pad ! (pad_index pad rand + unat (b :: byte)))) = b"
proof -
  let ?i = "unat (ucast (qr_seed64 rand) :: u16) mod qpp_num_pads pad"
  have i: "?i < qpp_num_pads pad" using assms by (simp add: qpp_pad_ok_def)
  then have bound: "(?i + 1) * matrix_bytes \<le> qpp_num_pads pad * matrix_bytes"
    by (intro mult_le_mono1) simp
  have "inverse_pad (pad_span (qpp_pads pad) ?i) (pad_span (qpp_rpads pad) ?i)"
    using assms i by (simp add: qpp_pad_ok_def)
  then have "pad_span (qpp_rpads pad) ?i ! unat (pad_span (qpp_pads pad) ?i ! unat b) = b"
    by (simp add: inverse_pad_def)
  then show ?thesis
    using bound assms by (simp add: span_nth pad_index_def qpp_pad_ok_def matrix_bytes_def)
qed

text \<open>The interface \<open>SmuxStream\<close> uses: a sender and a receiver that advance together.\<close>

fun through :: "(bytes \<Rightarrow> 's \<Rightarrow> bytes \<times> 's) \<Rightarrow> bytes list \<Rightarrow> 's \<Rightarrow> bytes list \<times> 's" where
  "through f [] s = ([], s)"
| "through f (x # xs) s = (let (y, s1) = f x s; (ys, s2) = through f xs s1 in (y # ys, s2))"

locale byte_transducer =
  fixes run :: "bytes \<Rightarrow> 's \<Rightarrow> bytes \<times> 's"
  assumes run_Nil: "run [] s = ([], s)"
    and run_append: "run (xs @ ys) s =
          (let (us, s1) = run xs s; (vs, s2) = run ys s1 in (us @ vs, s2))"
begin

text \<open>Pieces sent one after the other come out as the whole does.\<close>

lemma through_concat: "run (concat xss) s = (concat (fst (through run xss s)), snd (through run xss s))"
  by (induction xss arbitrary: s) (simp_all add: run_Nil run_append split: prod.split)

end

locale byte_stream_cipher = enc: byte_transducer enc + dec: byte_transducer dec
  for enc :: "bytes \<Rightarrow> 's \<Rightarrow> bytes \<times> 's" and dec :: "bytes \<Rightarrow> 's \<Rightarrow> bytes \<times> 's" +
  assumes dec_enc: "enc xs s = (ys, s') \<Longrightarrow> dec ys s = (xs, s')"
begin

lemma fragments_roundtrip:
  assumes "concat reads = concat (fst (through enc writes s))"
  shows "concat (fst (through dec reads s)) = concat writes"
proof -
  have "dec (concat reads) s = (concat writes, snd (through enc writes s))"
    using dec_enc [OF enc.through_concat] by (simp add: assms)
  then show ?thesis by (simp add: dec.through_concat)
qed

end

interpretation qpp_enc: byte_transducer "qpp_encrypt pad"
proof
  show "qpp_encrypt pad (xs @ ys) s =
      (let (us, s1) = qpp_encrypt pad xs s; (vs, s2) = qpp_encrypt pad ys s1 in (us @ vs, s2))" for xs ys s
    by (induction xs arbitrary: s) (simp_all add: Let_def split: prod.split)
qed simp

interpretation qpp_dec: byte_transducer "qpp_decrypt pad"
proof
  show "qpp_decrypt pad (xs @ ys) s =
      (let (us, s1) = qpp_decrypt pad xs s; (vs, s2) = qpp_decrypt pad ys s1 in (us @ vs, s2))" for xs ys s
    by (induction xs arbitrary: s) (simp_all add: Let_def split: prod.split)
qed simp

lemma qpp_decrypt_encrypt:
  "qpp_pad_ok pad \<Longrightarrow> qpp_encrypt pad xs rand = (ys, rand') \<Longrightarrow> qpp_decrypt pad ys rand = (xs, rand')"
proof (induction xs arbitrary: rand ys)
  case (Cons x xs)
  then obtain cs where "ys = qpp_pads pad ! (pad_index pad rand + unat (x XOR rand_byte rand)) # cs"
    "qpp_encrypt pad xs (next_rand rand) = (cs, rand')"
    by (auto simp: Let_def split: prod.splits)
  then show ?case using Cons by (simp add: substitution_inverse xor.assoc)
qed simp

text \<open>The stream of a valid pad, and the plain stream, are ciphers of this kind.\<close>

definition pad_or_plain :: "qpp_pad option \<Rightarrow> bool" where
  "pad_or_plain p \<longleftrightarrow> (case p of None \<Rightarrow> True | Some pad \<Rightarrow> qpp_pad_ok pad)"

definition opt_encrypt :: "qpp_pad option \<Rightarrow> bytes \<Rightarrow> qpp_rand \<Rightarrow> bytes \<times> qpp_rand" where
  "opt_encrypt p xs rand = (case p of None \<Rightarrow> (xs, rand) | Some pad \<Rightarrow> qpp_encrypt pad xs rand)"

definition opt_decrypt :: "qpp_pad option \<Rightarrow> bytes \<Rightarrow> qpp_rand \<Rightarrow> bytes \<times> qpp_rand" where
  "opt_decrypt p xs rand = (case p of None \<Rightarrow> (xs, rand) | Some pad \<Rightarrow> qpp_decrypt pad xs rand)"

lemma qpp_cipher: "pad_or_plain p \<Longrightarrow> byte_stream_cipher (opt_encrypt p) (opt_decrypt p)"
  by unfold_locales
    (auto simp: opt_encrypt_def opt_decrypt_def pad_or_plain_def qpp_enc.run_append qpp_dec.run_append
      qpp_decrypt_encrypt split: option.splits)

interpretation plain_stream: byte_stream_cipher "opt_encrypt None" "opt_decrypt None"
  by (rule qpp_cipher) (simp add: pad_or_plain_def)

lemma through_qs_encrypt:
  "through qs_encrypt xss s =
     (fst (through (opt_encrypt (qs_pad s)) xss (qs_write_rand s)),
      s \<lparr> qs_write_rand := snd (through (opt_encrypt (qs_pad s)) xss (qs_write_rand s)) \<rparr>)"
  by (induction xss arbitrary: s)
    (auto simp: qs_encrypt_def opt_encrypt_def Let_def split: option.split prod.split)

lemma through_qs_decrypt:
  "through qs_decrypt xss s =
     (fst (through (opt_decrypt (qs_pad s)) xss (qs_read_rand s)),
      s \<lparr> qs_read_rand := snd (through (opt_decrypt (qs_pad s)) xss (qs_read_rand s)) \<rparr>)"
  by (induction xss arbitrary: s)
    (auto simp: qs_decrypt_def opt_decrypt_def Let_def split: option.split prod.split)

lemma make_qpp_stream_pads [simp]:
  "qs_pad (make_qpp_stream lib p seed) = p"
  "qs_read_rand (make_qpp_stream lib p seed) = qs_write_rand (make_qpp_stream lib p seed)"
  by (auto simp: make_qpp_stream_def)

section \<open>Properties\<close>

text \<open>C19: Two \<open>QppStream\<close>s built from one key (with a pad, or without one) are a lossless
  channel: whatever pieces the sender encrypts and however the receiver's reads cut the
  bytes, the receiver decrypts exactly what was sent.\<close>

theorem qpp_stream_roundtrip:
  assumes "qpp_documented lib"
    and "popt = None \<or> (\<exists>pad. popt = Some pad \<and> make_qpp_pad lib seed n = Inr pad)"
    and "concat reads = concat (fst (through qs_encrypt writes (make_qpp_stream lib popt key)))"
  shows "concat (fst (through qs_decrypt reads (make_qpp_stream lib popt key))) = concat writes"
proof -
  have "pad_or_plain popt"
    using assms(1,2) make_qpp_pad_ok by (auto simp: pad_or_plain_def)
  then show ?thesis
    using byte_stream_cipher.fragments_roundtrip [OF qpp_cipher, of popt] assms(3)
    by (simp add: through_qs_encrypt through_qs_decrypt)
qed

text \<open>A stand-in for the library, to instantiate the parameters.\<close>

definition toy_qpp_lib :: qpp_lib where
  "toy_qpp_lib = \<lparr> qlib_pbkdf2_sha1 = (\<lambda>pw salt n. replicate 32 (of_nat (length pw + length salt))),
     qlib_hmac_sha256 = (\<lambda>key m. replicate 32 (of_nat (length key + length m))),
     qlib_aes = (\<lambda>key b. map (\<lambda>x. 3 * x + 1) b) \<rparr>"

lemma toy_qpp_documented: "qpp_documented toy_qpp_lib"
  by (simp add: qpp_documented_def toy_qpp_lib_def)

lemma qpp_stream_roundtrip_witness:
  "\<exists>pad. make_qpp_pad toy_qpp_lib [1, 2, 3] 2 = Inr pad \<and>
     concat (fst (through qs_decrypt
       [concat (fst (through qs_encrypt [[7, 8], [9]] (make_qpp_stream toy_qpp_lib (Some pad) [1, 2, 3])))]
       (make_qpp_stream toy_qpp_lib (Some pad) [1, 2, 3]))) = [7, 8, 9]"
proof -
  obtain pad where pad: "make_qpp_pad toy_qpp_lib [1, 2, 3] 2 = Inr pad"
    using make_qpp_pad_total [of 2 toy_qpp_lib "[1, 2, 3]"] by auto
  let ?s = "make_qpp_stream toy_qpp_lib (Some pad) [1, 2, 3]"
  have "concat (fst (through qs_decrypt [concat (fst (through qs_encrypt [[7, 8], [9]] ?s))] ?s)) =
      concat [[7, 8], [9]]"
    by (rule qpp_stream_roundtrip [OF toy_qpp_documented, where seed = "[1, 2, 3]" and n = 2])
      (use pad in \<open>auto simp del: through.simps\<close>)
  then have "concat (fst (through qs_decrypt [concat (fst (through qs_encrypt [[7, 8], [9]] ?s))] ?s)) =
      [7, 8, 9]" by (simp only: concat.simps append.simps)
  with pad show ?thesis by blast
qed

text \<open>A constructed \<open>QppPad\<close> holds a permutation of all 256 byte values in each of its
  \<open>num_pads\<close> tables and the inverse permutation in the matching table of \<open>rpads_\<close>; the
  constructor throws exactly for zero pads.\<close>

theorem qpp_pads_are_permutations:
  assumes "qpp_documented lib"
  shows "make_qpp_pad lib seed n =
      Inl (Runtime_error ''QPPCount must be greater than 0 when QPP is enabled'') \<and> n = 0 \<or>
    (\<exists>pad. make_qpp_pad lib seed n = Inr pad \<and> n \<noteq> 0 \<and> qpp_num_pads pad = unat n \<and>
       (\<forall>i < unat n. set (pad_span (qpp_pads pad) i) = UNIV \<and> length (pad_span (qpp_pads pad) i) = 256 \<and>
          (\<forall>b :: byte. pad_span (qpp_rpads pad) i ! unat (pad_span (qpp_pads pad) i ! unat b) = b)))"
proof (cases "n = 0")
  case True
  then show ?thesis by (simp add: make_qpp_pad_def)
next
  case False
  then obtain pad where pad: "make_qpp_pad lib seed n = Inr pad"
    using make_qpp_pad_total by blast
  note ok = make_qpp_pad_ok [OF assms pad]
  have "set (pad_span (qpp_pads pad) i) = UNIV \<and> length (pad_span (qpp_pads pad) i) = 256 \<and>
          (\<forall>b :: byte. pad_span (qpp_rpads pad) i ! unat (pad_span (qpp_pads pad) i ! unat b) = b)"
    if "i < unat n" for i
  proof -
    have inv: "inverse_pad (pad_span (qpp_pads pad) i) (pad_span (qpp_rpads pad) i)"
      using ok that by (auto simp: qpp_pad_ok_def)
    then have d: "distinct (pad_span (qpp_pads pad) i)" "length (pad_span (qpp_pads pad) i) = 256"
      by (auto simp: inverse_pad_def is_permutation_pad_def matrix_bytes_def)
    then have "card (set (pad_span (qpp_pads pad) i)) = card (UNIV :: byte set)"
      by (simp add: distinct_card card_word)
    then have "set (pad_span (qpp_pads pad) i) = UNIV" by (intro card_subset_eq) auto
    with inv d show ?thesis by (auto simp: inverse_pad_def)
  qed
  then show ?thesis using pad ok False by auto
qed

lemma qpp_pads_are_permutations_witness:
  "\<exists>pad. make_qpp_pad toy_qpp_lib [4] 3 = Inr pad \<and> set (pad_span (qpp_pads pad) 2) = UNIV"
  using qpp_pads_are_permutations [OF toy_qpp_documented, of "[4]" 3] by auto

text \<open>\<open>validate_qpp_params\<close> throws exactly for a count below one, and is silent exactly
  when the key has 211 bytes, the count is at least 7 and the count is odd: the warning
  that asks for a prime does not test primality.\<close>

theorem qpp_warnings:
  "((\<exists>e. validate_qpp_params count key = Inl e) \<longleftrightarrow> count \<le> 0) \<and>
   (validate_qpp_params count key = Inr [] \<longleftrightarrow> 211 \<le> length key \<and> 7 \<le> count \<and> odd count)"
proof
  show "(\<exists>e. validate_qpp_params count key = Inl e) \<longleftrightarrow> count \<le> 0"
    by (simp add: validate_qpp_params_def)
  have "gcd count 8 = 1 \<longleftrightarrow> odd count"
    using coprime_power_right_iff [of count 2 3] coprime_right_2_iff_odd [of count]
    by (simp add: coprime_iff_gcd_eq_1)
  then show "validate_qpp_params count key = Inr [] \<longleftrightarrow> 211 \<le> length key \<and> 7 \<le> count \<and> odd count"
    by (auto simp: validate_qpp_params_def coprime_int_def qubits_def minimum_seed_length_def minimum_pads_def not_less)
qed

end
