(* ===== verification/Diagnostics.thy ===== *)
theory Diagnostics
  imports Stats Logger
begin

text \<open>
  \<open>diagnostics.cpp\<close>: the small HTTP server that reports the counters. A connection collects
  the bytes of its request until the blank line, 8192 bytes or an error, then writes one
  response and closes. Opening, binding and listening answer with an error message or not.
\<close>

section \<open>Requests and responses\<close>

abbreviation crlf :: string where "crlf \<equiv> [CHR 0x0D, CHR 0x0A]"

definition request_path :: "string \<Rightarrow> string" where
  "request_path request =
     (case find_char request CHR '' '' of
        None \<Rightarrow> ''/''
      | Some first_space \<Rightarrow>
          (case find_char (drop (first_space + 1) request) CHR '' '' of
             None \<Rightarrow> ''/''
           | Some n \<Rightarrow> take n (drop (first_space + 1) request)))"

text \<open>Status, content type and body for a path.\<close>

definition response_parts :: "snmp \<Rightarrow> string \<Rightarrow> string \<times> string \<times> string" where
  "response_parts counters path =
     (if path = ''/debug/vars'' then (''200 OK'', ''application/json'', snmp_json counters)
      else if path = ''/debug/pprof/'' \<or> path = ''/debug/pprof'' then
        (''200 OK'', ''text/plain; charset=utf-8'',
         ''Shimakaze diagnostics'' @ [CHR 0x0A, CHR 0x0A] @ ''/debug/vars'' @ [CHR 0x0A] @ ''/debug/pprof/profile'' @ [CHR 0x0A])
      else if path = ''/debug/pprof/profile'' then
        (''501 Not Implemented'', ''text/plain; charset=utf-8'',
         ''CPU profiling is not available in this portable C++ build.'' @ [CHR 0x0A] @
         ''Use /debug/vars for live SNMP counters.'' @ [CHR 0x0A])
      else (''404 Not Found'', ''text/plain; charset=utf-8'', ''not found'' @ [CHR 0x0A]))"

definition response_for :: "snmp \<Rightarrow> string \<Rightarrow> string" where
  "response_for counters path =
     (let (status, content_type, body) = response_parts counters path
      in ''HTTP/1.1 '' @ status @ crlf @
         ''Content-Type: '' @ content_type @ crlf @
         ''Content-Length: '' @ to_string (length body) @ crlf @
         ''Connection: close'' @ crlf @ crlf @
         body)"

section \<open>A connection\<close>

record http_connection =
  hc_request :: string
  hc_response :: "string option"
  hc_open :: bool

definition new_http_connection :: http_connection where
  "new_http_connection = \<lparr> hc_request = [], hc_response = None, hc_open = True \<rparr>"

definition write_response :: "snmp \<Rightarrow> http_connection \<Rightarrow> http_connection" where
  "write_response counters c = c \<lparr> hc_response := Some (response_for counters (request_path (hc_request c))) \<rparr>"

text \<open>The handler of \<open>async_read_some\<close>: bytes, or \<open>None\<close> for an error.\<close>

definition http_read :: "snmp \<Rightarrow> string option \<Rightarrow> http_connection \<Rightarrow> http_connection" where
  "http_read counters received c =
     (case received of
        None \<Rightarrow> write_response counters c
      | Some bytes \<Rightarrow>
          let c = c \<lparr> hc_request := hc_request c @ bytes \<rparr>
          in if find_str (hc_request c) (crlf @ crlf) 0 = None \<and> length (hc_request c) < 8192 then c
             else write_response counters c)"

text \<open>The handler of \<open>async_write\<close>, whatever its outcome.\<close>

definition http_written :: "http_connection \<Rightarrow> http_connection" where
  "http_written c = c \<lparr> hc_open := False \<rparr>"

text \<open>A read is started again only while there is no response.\<close>

fun http_run :: "snmp \<Rightarrow> string option list \<Rightarrow> http_connection \<Rightarrow> http_connection" where
  "http_run counters [] c = c"
| "http_run counters (r # reads) c =
     (if hc_response c = None then http_run counters reads (http_read counters r c) else c)"

section \<open>The server\<close>

definition diagnostics_start ::
  "string \<Rightarrow> string option \<Rightarrow> string option \<Rightarrow> string option \<Rightarrow> logger \<Rightarrow> bool \<times> logger" where
  "diagnostics_start ts open_error bind_error listen_error lg =
     (case open_error of
        Some message \<Rightarrow> (False, log_warn_line ts (''pprof server: '' @ message) lg)
      | None \<Rightarrow>
          (case bind_error of
             Some message \<Rightarrow> (False, log_warn_line ts (''pprof server: '' @ message) lg)
           | None \<Rightarrow>
               (case listen_error of
                  Some message \<Rightarrow> (False, log_warn_line ts (''pprof server: '' @ message) lg)
                | None \<Rightarrow> (True, log_info_line ts ''pprof server listening on: 0.0.0.0:6060'' lg))))"

definition start_diagnostics_server ::
  "bool \<Rightarrow> string \<Rightarrow> string option \<Rightarrow> string option \<Rightarrow> string option \<Rightarrow> logger \<Rightarrow> bool \<times> logger" where
  "start_diagnostics_server enabled ts open_error bind_error listen_error lg =
     (if \<not> enabled then (False, lg) else diagnostics_start ts open_error bind_error listen_error lg)"

text \<open>
  The handler of \<open>async_accept\<close>: the connection it starts, whether it accepts again, and the
  log. An error is its message and whether the operation was aborted.
\<close>

definition diagnostics_accept ::
  "string \<Rightarrow> (string \<times> bool) option \<Rightarrow> bool \<Rightarrow> logger \<Rightarrow> http_connection option \<times> bool \<times> logger" where
  "diagnostics_accept ts error acceptor_open lg =
     (case error of
        None \<Rightarrow> (Some new_http_connection, acceptor_open, lg)
      | Some (message, aborted) \<Rightarrow>
          (None, acceptor_open, if aborted then lg else log_warn_line ts (''pprof accept: '' @ message) lg))"

section \<open>The periodic counter log\<close>

text \<open>
  The timer handler of \<open>SnmpLogger::schedule\<close> (\<open>stats.cpp\<close>): it appends a record to the log
  file, logs what went wrong, and arms the timer again, unless the timer itself failed.
\<close>

definition snmp_logger_tick ::
  "(string \<Rightarrow> string) \<Rightarrow> nat \<Rightarrow> (string \<Rightarrow> bool) \<Rightarrow> string \<Rightarrow> string \<Rightarrow> bool \<Rightarrow> snmp \<Rightarrow> (string \<rightharpoonup> string) \<times> logger \<Rightarrow>
     ((string \<rightharpoonup> string) \<times> logger) \<times> bool" where
  "snmp_logger_tick put_time unix writable ts path failed counters state =
     (if failed then (state, False)
      else
        (case write_csv_record put_time unix writable path counters (fst state) of
           Inl e \<Rightarrow>
             ((fst state, log_warn_line ts (''snmp logger: '' @ (case e of Runtime_error m \<Rightarrow> m | _ \<Rightarrow> [])) (snd state)), True)
         | Inr files \<Rightarrow> ((files, snd state), True)))"


section \<open>Finding the blank line\<close>

lemma find_str_first:
  assumes "take (length pat) (drop n text) = pat" "n + length pat \<le> length text"
    and "\<And>j. j < n \<Longrightarrow> take (length pat) (drop j text) \<noteq> pat"
  shows "find_str text pat 0 = Some n"
  unfolding find_str_def find_Some_iff
  using assms by (intro exI [of _ n]) (auto simp del: upt_Suc)

text \<open>A head is a list of lines that are neither empty nor contain a carriage return.\<close>

definition head_of :: "string list \<Rightarrow> string" where
  "head_of ls = concat (map (\<lambda>l. l @ crlf) ls)"

lemma blank_line_nth:
  assumes "take 4 (drop j t) = crlf @ crlf" "i < 4"
  shows "t ! (j + i) = (crlf @ crlf) ! i"
proof -
  have "length (take 4 (drop j t)) = 4" using assms(1) by simp
  then have "take 4 (drop j t) ! i = t ! (j + i)" using assms(2) by simp
  then show ?thesis using assms(1) by simp
qed

lemma blank_line_not_before:
  assumes "\<forall>l \<in> set ls. l \<noteq> [] \<and> CHR 0x0D \<notin> set l" "j + 2 < length (head_of ls)"
  shows "take 4 (drop j (head_of ls @ rest)) \<noteq> crlf @ crlf"
  using assms
proof (induction ls arbitrary: j)
  case Nil
  then show ?case by (simp add: head_of_def)
next
  case (Cons l ls)
  let ?whole = "head_of (l # ls) @ rest"
  have l: "l \<noteq> []" "CHR 0x0D \<notin> set l" and shape: "?whole = l @ crlf @ head_of ls @ rest"
    using Cons(2) by (auto simp: head_of_def)
  note nth = blank_line_nth [of j ?whole]
  consider "j < length l" | "j = length l" | "j = length l + 1" | "length l + 2 \<le> j" by linarith
  then show ?case
  proof cases
    case 1
    then have "l ! j \<noteq> CHR 0x0D" using l(2) nth_mem by metis
    then have "?whole ! j \<noteq> CHR 0x0D" using 1 by (simp add: shape nth_append)
    then show ?thesis using nth [of 0] by auto
  next
    case 2
    then have "ls \<noteq> []" using Cons(3) by (auto simp: head_of_def)
    then obtain k ks where ls: "ls = k # ks" by (cases ls) auto
    then have k: "k \<noteq> []" "CHR 0x0D \<notin> set k" using Cons(2) by auto
    then have "?whole ! (j + 2) = hd k" using 2 by (cases k) (simp_all add: shape ls head_of_def nth_append)
    moreover have "hd k \<noteq> CHR 0x0D" using k by (cases k) auto
    ultimately show ?thesis using nth [of 2] by auto
  next
    case 3
    then have "?whole ! j = CHR 0x0A" by (simp add: shape nth_append)
    then show ?thesis using nth [of 0] by auto
  next
    case 4
    then obtain i where i: "j = length l + 2 + i" using le_Suc_ex by blast
    then have "drop j ?whole = drop i (head_of ls @ rest)" by (simp add: shape)
    moreover have "i + 2 < length (head_of ls)" using Cons(3) i by (simp add: head_of_def)
    ultimately show ?thesis using Cons(1) [of i] Cons(2) by simp
  qed
qed

lemma find_blank_line:
  assumes "\<forall>l \<in> set (ls @ [l]). l \<noteq> [] \<and> CHR 0x0D \<notin> set l"
  shows "find_str (head_of (ls @ [l]) @ crlf @ body) (crlf @ crlf) 0 = Some (length (head_of ls @ l))"
proof (rule find_str_first)
  have four: "length (crlf @ crlf) = 4" by simp
  have shape: "head_of (ls @ [l]) @ crlf @ body = (head_of ls @ l) @ crlf @ crlf @ body" by (simp add: head_of_def)
  show "take (length (crlf @ crlf)) (drop (length (head_of ls @ l)) (head_of (ls @ [l]) @ crlf @ body)) = crlf @ crlf"
    unfolding shape by simp
  show "length (head_of ls @ l) + length (crlf @ crlf) \<le> length (head_of (ls @ [l]) @ crlf @ body)"
    by (simp add: head_of_def)
  fix j assume "j < length (head_of ls @ l)"
  then have "j + 2 < length (head_of (ls @ [l]))" by (simp add: head_of_def)
  then show "take (length (crlf @ crlf)) (drop j (head_of (ls @ [l]) @ crlf @ body)) \<noteq> crlf @ crlf"
    unfolding four by (rule blank_line_not_before [OF assms])
qed

section \<open>Properties\<close>

text \<open>Every response is framed as HTTP wants it: the first blank line ends the head, the
  head states the number of bytes after it, and its status is the one of the path; the live
  counters are served under \<open>/debug/vars\<close>.\<close>

theorem http_response_framed:
  "\<exists>head body. response_for counters path = head @ crlf @ crlf @ body \<and>
     find_str (response_for counters path) (crlf @ crlf) 0 = Some (length head) \<and>
     (\<exists>before after. head = before @ crlf @ ''Content-Length: '' @ to_string (length body) @ crlf @ after) \<and>
     (\<exists>lines. head = ''HTTP/1.1 '' @ fst (response_parts counters path) @ crlf @ lines) \<and>
     (body = snmp_json counters \<longleftrightarrow> path = ''/debug/vars'')"
proof -
  obtain status content_type body where parts: "response_parts counters path = (status, content_type, body)"
    by (metis prod.collapse)
  let ?ls = "[''HTTP/1.1 '' @ status, ''Content-Type: '' @ content_type, ''Content-Length: '' @ to_string (length body)]"
  let ?head = "head_of ?ls @ ''Connection: close''"
  have plain: "CHR 0x0D \<notin> set status" "CHR 0x0D \<notin> set content_type"
    using parts by (auto simp: response_parts_def split: if_splits)
  have digits: "CHR 0x0D \<notin> set (to_string n)" for n by (auto simp: is_digit_def dest!: to_string_digits)
  have shape: "response_for counters path = head_of (?ls @ [''Connection: close'']) @ crlf @ body"
    by (simp add: response_for_def parts head_of_def)
  have "find_str (response_for counters path) (crlf @ crlf) 0 = Some (length ?head)"
    unfolding shape by (rule find_blank_line) (use plain digits in auto)
  moreover have "response_for counters path = ?head @ crlf @ crlf @ body" by (simp add: shape head_of_def)
  moreover have "?head = (''HTTP/1.1 '' @ status @ crlf @ ''Content-Type: '' @ content_type) @ crlf @
      ''Content-Length: '' @ to_string (length body) @ crlf @ ''Connection: close''"
    by (simp add: head_of_def)
  moreover have "?head = ''HTTP/1.1 '' @ status @ crlf @ (''Content-Type: '' @ content_type @ crlf @
      ''Content-Length: '' @ to_string (length body) @ crlf @ ''Connection: close'')"
    by (simp add: head_of_def)
  moreover have "path \<noteq> ''/debug/vars'' \<Longrightarrow> hd body \<noteq> CHR ''{''" "path = ''/debug/vars'' \<Longrightarrow> body = snmp_json counters"
    using parts by (auto simp: response_parts_def split: if_splits)
  then have "body = snmp_json counters \<longleftrightarrow> path = ''/debug/vars''"
    by (cases "path = ''/debug/vars''") (auto simp: snmp_json_def)
  ultimately show ?thesis unfolding parts fst_conv by blast
qed

lemma http_run_final:
  fixes counters :: snmp and rs :: "string option list"
  shows "hc_response d = Some r \<Longrightarrow> http_run counters rs d = d"
  by (cases rs) simp_all

text \<open>A request that is not complete: no blank line yet, and fewer than 8192 bytes.\<close>

definition incomplete :: "string \<Rightarrow> bool" where
  "incomplete request \<longleftrightarrow> find_str request (crlf @ crlf) 0 = None \<and> length request < 8192"

text \<open>What a run of reads makes of a connection without a response.\<close>

definition received :: "string option list \<Rightarrow> string" where
  "received reads = concat (map the reads)"

lemma http_run_answers:
  fixes counters :: snmp and rs :: "string option list"
  assumes "hc_response d = None" "incomplete (hc_request d)"
  defines "c \<equiv> http_run counters rs d"
  shows "case hc_response c of
      None \<Rightarrow> None \<notin> set rs \<and> hc_request c = hc_request d @ received rs \<and> incomplete (hc_request c)
    | Some response \<Rightarrow> response = response_for counters (request_path (hc_request c)) \<and>
        (\<exists>n < length rs. None \<notin> set (take n rs) \<and> incomplete (hc_request d @ received (take n rs)) \<and>
           hc_request c = hc_request d @ received (take n rs) @ (case rs ! n of None \<Rightarrow> [] | Some bytes \<Rightarrow> bytes) \<and>
           (rs ! n = None \<or> \<not> incomplete (hc_request c)))"
  using assms(1,2) unfolding c_def
proof (induction rs arbitrary: d)
  case Nil
  then show ?case by (simp add: received_def)
next
  case (Cons r rs)
  let ?d = "http_read counters r d"
  have run: "http_run counters (r # rs) d = http_run counters rs ?d" using Cons(2) by simp
  show ?case
  proof (cases "hc_response ?d")
    case None
    then obtain bytes where r: "r = Some bytes" and read: "hc_request ?d = hc_request d @ bytes" "incomplete (hc_request ?d)"
      by (cases r) (auto simp: http_read_def write_response_def incomplete_def Let_def split: if_splits)
    have IH: "case hc_response (http_run counters rs ?d) of
        None \<Rightarrow> None \<notin> set rs \<and> hc_request (http_run counters rs ?d) = hc_request ?d @ received rs \<and> incomplete (hc_request (http_run counters rs ?d))
      | Some response \<Rightarrow> response = response_for counters (request_path (hc_request (http_run counters rs ?d))) \<and>
          (\<exists>n < length rs. None \<notin> set (take n rs) \<and> incomplete (hc_request ?d @ received (take n rs)) \<and>
             hc_request (http_run counters rs ?d) = hc_request ?d @ received (take n rs) @ (case rs ! n of None \<Rightarrow> [] | Some bytes \<Rightarrow> bytes) \<and>
             (rs ! n = None \<or> \<not> incomplete (hc_request (http_run counters rs ?d))))"
      by (rule Cons.IH [OF None read(2)])
    show ?thesis
    proof (cases "hc_response (http_run counters rs ?d)")
      case None
      then show ?thesis using IH read(1) unfolding run by (auto simp: r received_def)
    next
      case (Some response)
      then obtain n where "n < length rs" "None \<notin> set (take n rs)" "incomplete (hc_request ?d @ received (take n rs))"
        "hc_request (http_run counters rs ?d) = hc_request ?d @ received (take n rs) @ (case rs ! n of None \<Rightarrow> [] | Some bytes \<Rightarrow> bytes)"
        "rs ! n = None \<or> \<not> incomplete (hc_request (http_run counters rs ?d))"
        using IH by auto
      then show ?thesis
        using Some IH read(1) unfolding run by (auto simp: r received_def intro!: exI [of _ "Suc n"])
    qed
  next
    case (Some response)
    then have stop: "http_run counters (r # rs) d = ?d" using run http_run_final by simp
    have "response = response_for counters (request_path (hc_request ?d))"
      "hc_request ?d = hc_request d @ (case r of None \<Rightarrow> [] | Some bytes \<Rightarrow> bytes)" "r = None \<or> \<not> incomplete (hc_request ?d)"
      using Some Cons(2) by (auto simp: http_read_def write_response_def incomplete_def Let_def split: option.splits if_splits)
    then show ?thesis
      using Cons(3) unfolding stop Some by (auto simp: received_def intro!: exI [of _ 0])
  qed
qed

text \<open>C36: When a connection answers, and what: as long as every read succeeds and all bytes
  received contain no blank line and are fewer than 8192, there is no response and the
  connection holds exactly these bytes. The first read that fails or completes the request so
  far (a blank line, or 8192 bytes) is the last one: the response is the one for the request
  line of the bytes received up to then, whatever the pieces they came in, and the request has
  less than 8192 bytes and one more piece of at most 2048.\<close>

theorem http_connection_answers:
  fixes counters :: snmp and reads :: "string option list"
  assumes "\<forall>bytes. Some bytes \<in> set reads \<longrightarrow> length bytes \<le> 2048"
  defines "c \<equiv> http_run counters reads new_http_connection"
  shows "length (hc_request c) < 8192 + 2048 \<and>
    (case hc_response c of
       None \<Rightarrow> None \<notin> set reads \<and> hc_request c = received reads \<and> incomplete (hc_request c)
     | Some response \<Rightarrow> response = response_for counters (request_path (hc_request c)) \<and>
         (\<exists>n < length reads. None \<notin> set (take n reads) \<and> incomplete (received (take n reads)) \<and>
            hc_request c = received (take n reads) @ (case reads ! n of None \<Rightarrow> [] | Some bytes \<Rightarrow> bytes) \<and>
            (reads ! n = None \<or> \<not> incomplete (hc_request c))))"
proof -
  have "find_str [] (crlf @ crlf) 0 = None" by code_simp
  then have new: "hc_response new_http_connection = None" "hc_request new_http_connection = []"
    "incomplete (hc_request new_http_connection)"
    by (simp_all add: new_http_connection_def incomplete_def)
  note run = http_run_answers [OF new(1,3), where counters = counters and rs = reads, folded c_def, unfolded new(2) append_Nil]
  have "length (hc_request c) < 8192 + 2048"
  proof (cases "hc_response c")
    case None
    then have "incomplete (hc_request c)" using run by (auto split: option.splits)
    then show ?thesis by (simp add: incomplete_def)
  next
    case (Some response)
    then obtain n where "n < length reads" "incomplete (received (take n reads))"
      "hc_request c = received (take n reads) @ (case reads ! n of None \<Rightarrow> [] | Some bytes \<Rightarrow> bytes)"
      using run by auto
    moreover from this have "length (case reads ! n of None \<Rightarrow> [] | Some bytes \<Rightarrow> bytes) \<le> 2048"
      using assms(1) nth_mem [of n reads] by (cases "reads ! n") auto
    ultimately show ?thesis by (simp add: incomplete_def)
  qed
  then show ?thesis using run by simp
qed

text \<open>A request in two pieces, and an error after the first.\<close>

lemma http_connection_answers_witness:
  "hc_response (http_run empty_snmp [Some ''GET /debug/'', Some ''vars HTTP/1.1''] new_http_connection) = None \<and>
   hc_response (http_run empty_snmp [Some ''GET /debug/'', Some ''vars HTTP/1.1'', None] new_http_connection) =
     Some (response_for empty_snmp ''/debug/vars'')"
proof -
  let ?reads = "[Some ''GET /debug/'', Some ''vars HTTP/1.1'']"
  have all: "received ?reads = ''GET /debug/vars HTTP/1.1''" "received (?reads @ [None]) = received ?reads @ the None"
    by (simp_all add: received_def)
  have pieces: "incomplete ''GET /debug/''" "incomplete ''GET /debug/vars HTTP/1.1''" "request_path ''GET /debug/vars HTTP/1.1'' = ''/debug/vars''"
    by (simp_all add: incomplete_def) code_simp+
  let ?c = "http_run empty_snmp ?reads new_http_connection" and ?d = "http_run empty_snmp (?reads @ [None]) new_http_connection"
  have "hc_response ?c = None"
    using http_connection_answers [of ?reads empty_snmp] pieces
    by (auto simp: received_def less_Suc_eq nth_Cons' split: option.splits)
  moreover have "hc_response ?d = Some (response_for empty_snmp ''/debug/vars'')"
    using http_connection_answers [of "?reads @ [None]" empty_snmp] pieces
    by (auto simp: received_def less_Suc_eq nth_Cons' split: option.splits)
  ultimately show ?thesis by simp
qed

end
