(* ===== verification/Smux.thy ===== *)
theory Smux
  imports Base_Config Qpp Snappy_Stream "HOL-Library.AList"
begin

text \<open>
  \<open>smux.cpp\<close> and \<open>smux.hpp\<close>: the multiplexer. A \<open>SmuxSession\<close> reads frames from the KCP
  transport and hands them to \<open>SmuxStream\<close>s, each of which copies between the session and
  a local socket. This theory holds the state and every operation; what they guarantee is
  in \<open>Smux_Frames\<close>, \<open>Smux_Flow\<close> and \<open>Smux_Safety\<close>.

  The stream objects live in a store, and a \<open>shared_ptr\<close> to one is its index \<open>h\<close>: a stream
  erased from \<open>streams_\<close> may still be reached by the handlers that captured it. Calls that
  leave the program (transport, sockets, timers, the logger's warnings) are appended to
  \<open>ss_effects\<close> in the order they are made. A pending \<open>async_read_some\<close> is counted in
  \<open>sm_reads\<close>; the operating system completes it by writing to \<open>tcp_read_buffer_\<close>, and its
  handler runs later with the byte count queued in \<open>sm_reads_done\<close>. The operations on TCP
  and on Unix sockets, which the source writes out twice, differ in the flag \<open>sm_unix\<close>.
\<close>

section \<open>Types\<close>

definition smux_header_size :: nat where "smux_header_size = 8"
definition smux_update_size :: nat where "smux_update_size = 8"

text \<open>Times are nanoseconds of the steady clock.\<close>

definition smux_timeout :: int where "smux_timeout = 30 * 1000000000"

datatype smux_command = Cmd_syn | Cmd_fin | Cmd_psh | Cmd_nop | Cmd_upd

fun command_byte :: "smux_command \<Rightarrow> byte" where
  "command_byte Cmd_syn = 0"
| "command_byte Cmd_fin = 1"
| "command_byte Cmd_psh = 2"
| "command_byte Cmd_nop = 3"
| "command_byte Cmd_upd = 4"

definition byte_command :: "byte \<Rightarrow> smux_command option" where
  "byte_command b =
     (if b = 0 then Some Cmd_syn else if b = 1 then Some Cmd_fin else if b = 2 then Some Cmd_psh
      else if b = 3 then Some Cmd_nop else if b = 4 then Some Cmd_upd else None)"

datatype asio_error = Eof | Connection_reset | Operation_aborted | Broken_pipe | Other_error string

text \<open>What the accept handler installed by \<open>server.cpp\<close> connects a new stream to.\<close>

datatype smux_target = Tcp_target string u16 | Unix_target string

datatype smux_effect =
    Transport_start
  | Transport_send bytes
  | Transport_close
  | Close_handler
  | Warn string
  | Read_start nat
  | Write_start nat bytes
  | Shutdown_send nat
  | Socket_close nat
  | Resolve_start nat string u16
  | Connect_start nat
  | Close_timer_start nat int
  | Timers_cancel nat
  | Keepalive_start int
  | Keepalive_cancel

record smux_stream =
  sm_id :: u32
  sm_qpp :: qpp_stream
  sm_read_buffer :: bytes
  sm_pending_outbound :: "(bytes \<times> nat) list"
  sm_pending_tcp_writes :: "bytes list"
  sm_num_read :: u32
  sm_num_written :: u32
  sm_incr :: u32
  sm_peer_consumed :: u32
  sm_peer_window :: u32
  sm_tcp_ready :: bool
  sm_tcp_write_active :: bool
  sm_local_fin_sent :: bool
  sm_remote_fin_received :: bool
  sm_closed :: bool
  sm_server_connecting :: bool
  sm_unix :: bool
  sm_socket_open :: bool
  sm_reads :: nat
  sm_reads_done :: "nat list"

record smux_session =
  ss_config :: base_config
  ss_client :: bool
  ss_close_handler :: bool
  ss_accept_handler :: "smux_target option"
  ss_wrote_identifier :: bool
  ss_decompressor :: snappy_decoder
  ss_qpp_pad :: "qpp_pad option"
  ss_objects :: "smux_stream list"
  ss_streams :: "(u32 \<times> nat) list"
  ss_receive_buffer :: bytes
  ss_last_activity :: int
  ss_next_stream_id :: u32
  ss_closed :: bool
  ss_alive :: bool
  ss_effects :: "smux_effect list"

text \<open>The libraries behind the session: the Snappy block codec and the primitives of QPP.\<close>

record smux_lib =
  sl_compress :: "bytes \<Rightarrow> bytes"
  sl_uncompress :: "bytes \<Rightarrow> bytes option"
  sl_qpp :: qpp_lib

definition emit :: "smux_effect \<Rightarrow> smux_session \<Rightarrow> smux_session" where
  "emit e s = s \<lparr> ss_effects := ss_effects s @ [e] \<rparr>"

definition stream_at :: "smux_session \<Rightarrow> nat \<Rightarrow> smux_stream" where
  "stream_at s h = ss_objects s ! h"

definition put_stream :: "nat \<Rightarrow> smux_stream \<Rightarrow> smux_session \<Rightarrow> smux_session" where
  "put_stream h st s = s \<lparr> ss_objects := (ss_objects s)[h := st] \<rparr>"

definition version :: "smux_session \<Rightarrow> int" where "version s = cfg_smuxver (ss_config s)"
definition frame_size :: "smux_session \<Rightarrow> int" where "frame_size s = cfg_framesize (ss_config s)"
definition stream_buffer :: "smux_session \<Rightarrow> int" where "stream_buffer s = cfg_streambuf (ss_config s)"

section \<open>Frames\<close>

definition make_frame :: "int \<Rightarrow> smux_command \<Rightarrow> u32 \<Rightarrow> bytes \<Rightarrow> bytes" where
  "make_frame smuxver command stream_id payload =
     (let frame = replicate (smux_header_size + length payload) 0;
          frame = frame[0 := word_of_int smuxver];
          frame = frame[1 := command_byte command];
          frame = write_le16 frame 2 (of_nat (length payload));
          frame = write_le32 frame 4 stream_id
      in if payload \<noteq> [] then memcpy frame smux_header_size payload else frame)"

definition send_frame ::
  "smux_lib \<Rightarrow> smux_command \<Rightarrow> u32 \<Rightarrow> bytes \<Rightarrow> smux_session \<Rightarrow> smux_session" where
  "send_frame lib command stream_id payload s =
     (if ss_closed s \<or> length payload > 65535 then s
      else
        let frame = make_frame (cfg_smuxver (ss_config s)) command stream_id payload
        in if cfg_nocomp (ss_config s) then emit (Transport_send frame) s
           else
             let (chunks, wrote) = snappy_encode (sl_compress lib) frame (ss_wrote_identifier s)
             in foldl (\<lambda>s chunk. emit (Transport_send chunk) s) (s \<lparr> ss_wrote_identifier := wrote \<rparr>) chunks)"

definition send_update :: "smux_lib \<Rightarrow> u32 \<Rightarrow> u32 \<Rightarrow> u32 \<Rightarrow> smux_session \<Rightarrow> smux_session" where
  "send_update lib stream_id consumed window =
     send_frame lib Cmd_upd stream_id
       (write_le32 (write_le32 (replicate smux_update_size 0) 0 consumed) 4 window)"

definition stream_closed :: "u32 \<Rightarrow> smux_session \<Rightarrow> smux_session" where
  "stream_closed stream_id s = s \<lparr> ss_streams := AList.delete stream_id (ss_streams s) \<rparr>"

section \<open>Streams: from the socket to the session\<close>

definition make_stream :: "smux_lib \<Rightarrow> u32 \<Rightarrow> smux_session \<Rightarrow> smux_stream" where
  "make_stream lib stream_id s =
     \<lparr> sm_id = stream_id,
       sm_qpp = make_qpp_stream (sl_qpp lib) (ss_qpp_pad s) (string_bytes (cfg_key (ss_config s))),
       sm_read_buffer = replicate (32 * 1024) 0, sm_pending_outbound = [], sm_pending_tcp_writes = [],
       sm_num_read = 0, sm_num_written = 0, sm_incr = 0, sm_peer_consumed = 0, sm_peer_window = 262144,
       sm_tcp_ready = False, sm_tcp_write_active = False, sm_local_fin_sent = False,
       sm_remote_fin_received = False, sm_closed = False, sm_server_connecting = False,
       sm_unix = False, sm_socket_open = False, sm_reads = 0, sm_reads_done = [] \<rparr>"

definition has_pending_outbound :: "smux_stream \<Rightarrow> bool" where
  "has_pending_outbound st \<longleftrightarrow> sm_pending_outbound st \<noteq> []"

definition start_tcp_read :: "nat \<Rightarrow> smux_session \<Rightarrow> smux_session" where
  "start_tcp_read h s =
     (let st = stream_at s h
      in if sm_closed st \<or> \<not> sm_tcp_ready st \<or> sm_local_fin_sent st \<or> has_pending_outbound st then s
         else emit (Read_start h) (put_stream h (st \<lparr> sm_reads := sm_reads st + 1 \<rparr>) s))"

definition queue_outbound :: "bytes \<Rightarrow> smux_stream \<Rightarrow> smux_stream" where
  "queue_outbound payload st =
     (if payload = [] then st
      else st \<lparr> sm_pending_outbound := sm_pending_outbound st @ [(payload, 0)] \<rparr>)"

definition available_peer_window :: "smux_stream \<Rightarrow> int" where
  "available_peer_window st =
     (let inflight = sm_num_written st - sm_peer_consumed st
      in if sint inflight < 0 then 0 else int (unat (sm_peer_window st)) - int (unat inflight))"

text \<open>
  A round of the loop of \<open>try_flush_outbound\<close>: \<open>None\<close> leaves the loop. The stream it runs
  on is passed beside the session it calls, whose \<open>send_frame\<close> does not touch streams.
\<close>

definition send_chunk ::
  "smux_lib \<Rightarrow> bytes \<Rightarrow> nat \<Rightarrow> (bytes \<times> nat) list \<Rightarrow> nat \<Rightarrow> smux_stream \<Rightarrow> smux_session \<Rightarrow> smux_stream \<times> smux_session" where
  "send_chunk lib data off rest chunk_size st s =
     (let chunk = take chunk_size (drop off data);
          (payload, qpp) = (if qpp_enabled (sm_qpp st) then qs_encrypt chunk (sm_qpp st) else (chunk, sm_qpp st))
      in (st \<lparr> sm_qpp := qpp, sm_pending_outbound := (data, off + chunk_size) # rest,
               sm_num_written := sm_num_written st + of_nat chunk_size \<rparr>,
          send_frame lib Cmd_psh (sm_id st) payload s))"

definition flush_round :: "smux_lib \<Rightarrow> smux_stream \<Rightarrow> smux_session \<Rightarrow> (smux_stream \<times> smux_session) option" where
  "flush_round lib st s =
     (case sm_pending_outbound st of
        [] \<Rightarrow> None
      | (data, off) # rest \<Rightarrow>
          let max_frame = nat (max 1 (frame_size s));
              remaining = length data - off
          in if remaining = 0 then Some (st \<lparr> sm_pending_outbound := rest \<rparr>, s)
             else if version s = 2 \<and> available_peer_window st \<le> 0 then None
             else
               let allowed = (if version s = 2 then min remaining (nat (available_peer_window st)) else remaining)
               in Some (send_chunk lib data off rest (min allowed max_frame) st s))"

text \<open>The two ways a round goes on.\<close>

lemma flush_round_cases:
  assumes "flush_round lib st s = Some (st', s')"
  obtains (pop) data off rest where "sm_pending_outbound st = (data, off) # rest" "length data \<le> off"
      "st' = st \<lparr> sm_pending_outbound := rest \<rparr>" "s' = s"
    | (chunk) data off rest n where "sm_pending_outbound st = (data, off) # rest" "off + n \<le> length data" "0 < n"
      "int n \<le> max 1 (frame_size s)" "version s = 2 \<Longrightarrow> int n \<le> available_peer_window st"
      "send_chunk lib data off rest n st s = (st', s')"
proof (cases "sm_pending_outbound st")
  case Nil
  then show ?thesis using assms by (simp add: flush_round_def)
next
  case (Cons x rest)
  obtain data off where x: "x = (data, off)" by (cases x)
  show ?thesis
  proof (cases "length data - off = 0")
    case True
    then show ?thesis using assms Cons x by (intro pop) (auto simp: flush_round_def)
  next
    case False
    let ?allowed = "if version s = 2 then min (length data - off) (nat (available_peer_window st)) else length data - off"
    have "\<not> (version s = 2 \<and> available_peer_window st \<le> 0)"
      and eq: "send_chunk lib data off rest (min ?allowed (nat (max 1 (frame_size s)))) st s = (st', s')"
      using assms Cons x False by (auto simp: flush_round_def Let_def split: if_splits)
    then show ?thesis
      using False by (intro chunk [OF _ _ _ _ _ eq]) (auto simp: Cons x not_le)
  qed
qed

definition flush_measure :: "smux_stream \<Rightarrow> nat" where
  "flush_measure st = length (sm_pending_outbound st) +
     sum_list (map (\<lambda>(data, off). length data - off) (sm_pending_outbound st))"

lemma flush_round_progress:
  "flush_round lib st s = Some (st', s') \<Longrightarrow> flush_measure st' < flush_measure st"
  by (erule flush_round_cases) (auto simp: flush_measure_def send_chunk_def Let_def split: prod.splits)

function flush_loop :: "smux_lib \<Rightarrow> smux_stream \<Rightarrow> smux_session \<Rightarrow> smux_stream \<times> smux_session" where
  "flush_loop lib st s =
     (case flush_round lib st s of None \<Rightarrow> (st, s) | Some (st', s') \<Rightarrow> flush_loop lib st' s')"
  by pat_completeness auto
termination
  by (relation "measure (\<lambda>(_, st, _). flush_measure st)") (auto simp: flush_round_progress)

declare flush_loop.simps [simp del]

lemma flush_loop_invariant:
  assumes "P st s"
    and "\<And>st s st' s'. P st s \<Longrightarrow> flush_round lib st s = Some (st', s') \<Longrightarrow> P st' s'"
    and "flush_loop lib st s = (st', s')"
  shows "P st' s' \<and> flush_round lib st' s' = None"
  using assms(1,3)
proof (induction "flush_measure st" arbitrary: st s rule: less_induct)
  case less
  show ?case
  proof (cases "flush_round lib st s")
    case None
    then show ?thesis using less(2,3) by (simp add: flush_loop.simps [of lib st s])
  next
    case (Some r)
    obtain st1 s1 where r: "r = (st1, s1)" by (cases r)
    note round = Some [unfolded r]
    show ?thesis
      using less(1) [OF flush_round_progress [OF round] assms(2) [OF less(2) round]] less(3) round
      by (simp add: flush_loop.simps [of lib st s])
  qed
qed

definition try_flush_outbound :: "smux_lib \<Rightarrow> nat \<Rightarrow> smux_session \<Rightarrow> smux_session" where
  "try_flush_outbound lib h s =
     (if \<not> ss_alive s \<or> sm_closed (stream_at s h) then s
      else let (st, s) = flush_loop lib (stream_at s h) s in put_stream h st s)"

section \<open>Streams: from the session to the socket\<close>

definition flush_tcp_writes :: "nat \<Rightarrow> smux_session \<Rightarrow> smux_session" where
  "flush_tcp_writes h s =
     (let st = stream_at s h
      in if sm_closed st \<or> \<not> sm_tcp_ready st \<or> sm_tcp_write_active st \<or> sm_pending_tcp_writes st = [] then s
         else emit (Write_start h (hd (sm_pending_tcp_writes st)))
                (put_stream h (st \<lparr> sm_tcp_write_active := True \<rparr>) s))"

definition enqueue_tcp_write :: "nat \<Rightarrow> bytes \<Rightarrow> smux_session \<Rightarrow> smux_session" where
  "enqueue_tcp_write h payload s =
     (let st = stream_at s h
      in flush_tcp_writes h
           (put_stream h (st \<lparr> sm_pending_tcp_writes := sm_pending_tcp_writes st @ [payload] \<rparr>) s))"

definition on_data :: "nat \<Rightarrow> bytes \<Rightarrow> smux_session \<Rightarrow> smux_session" where
  "on_data h payload s =
     (let st = stream_at s h
      in if sm_closed st \<or> payload = [] then s
         else
           let (decoded, qpp) = qs_decrypt payload (sm_qpp st)
           in enqueue_tcp_write h decoded (put_stream h (st \<lparr> sm_qpp := qpp \<rparr>) s))"

definition mark_payload_consumed :: "smux_lib \<Rightarrow> nat \<Rightarrow> nat \<Rightarrow> smux_session \<Rightarrow> smux_session" where
  "mark_payload_consumed lib h n s =
     (if \<not> ss_alive s \<or> version s \<noteq> 2 \<or> n = 0 then s
      else
        let st = stream_at s h;
            st = st \<lparr> sm_num_read := sm_num_read st + of_nat n, sm_incr := sm_incr st + of_nat n \<rparr>
        in if sm_incr st \<ge> word_of_int (max 1 (stream_buffer s div 2)) \<or> sm_num_read st = of_nat n
           then put_stream h (st \<lparr> sm_incr := 0 \<rparr>)
                  (send_update lib (sm_id st) (sm_num_read st) (word_of_int (max 1 (stream_buffer s))) s)
           else put_stream h st s)"

definition shutdown_tcp_send_if_ready :: "nat \<Rightarrow> smux_session \<Rightarrow> smux_session" where
  "shutdown_tcp_send_if_ready h s =
     (let st = stream_at s h
      in if \<not> sm_remote_fin_received st \<or> sm_tcp_write_active st \<or> sm_pending_tcp_writes st \<noteq> [] \<or>
            \<not> sm_tcp_ready st then s
         else if sm_socket_open st then emit (Shutdown_send h) s else s)"

section \<open>Streams: closing\<close>

definition send_local_fin :: "smux_lib \<Rightarrow> nat \<Rightarrow> smux_session \<Rightarrow> smux_session" where
  "send_local_fin lib h s =
     (let st = stream_at s h
      in if sm_local_fin_sent st \<or> sm_closed st then s
         else
           let s = put_stream h (st \<lparr> sm_local_fin_sent := True \<rparr>) s
           in if ss_alive s then send_frame lib Cmd_fin (sm_id st) [] s else s)"

definition maybe_finish :: "nat \<Rightarrow> smux_session \<Rightarrow> smux_session" where
  "maybe_finish h s =
     (let st = stream_at s h
      in if sm_closed st then s
         else if sm_local_fin_sent st \<and> sm_remote_fin_received st \<and> sm_pending_tcp_writes st = [] \<and>
                 \<not> sm_tcp_write_active st \<and> sm_pending_outbound st = []
         then emit (Close_timer_start h (max 0 (cfg_closewait (ss_config s)))) s
         else s)"

definition close_stream :: "smux_lib \<Rightarrow> nat \<Rightarrow> smux_session \<Rightarrow> smux_session" where
  "close_stream lib h s =
     (if sm_closed (stream_at s h) then s
      else
        let s = send_local_fin lib h s;
            st = stream_at s h;
            s = emit (Timers_cancel h) (put_stream h (st \<lparr> sm_closed := True, sm_socket_open := False \<rparr>) s);
            s = (if sm_socket_open st then emit (Socket_close h) s else s)
        in if ss_alive s then stream_closed (sm_id st) s else s)"

definition fail_and_close :: "smux_lib \<Rightarrow> string \<Rightarrow> nat \<Rightarrow> smux_session \<Rightarrow> smux_session" where
  "fail_and_close lib origin h s = close_stream lib h (emit (Warn origin) s)"

definition on_fin :: "nat \<Rightarrow> smux_session \<Rightarrow> smux_session" where
  "on_fin h s =
     (let st = stream_at s h
      in if sm_remote_fin_received st then s
         else maybe_finish h (shutdown_tcp_send_if_ready h
                (put_stream h (st \<lparr> sm_remote_fin_received := True \<rparr>) s)))"

definition on_update :: "smux_lib \<Rightarrow> nat \<Rightarrow> u32 \<Rightarrow> u32 \<Rightarrow> smux_session \<Rightarrow> smux_session" where
  "on_update lib h consumed window s =
     (let s = put_stream h ((stream_at s h) \<lparr> sm_peer_consumed := consumed, sm_peer_window := window \<rparr>) s;
          s = try_flush_outbound lib h s
      in if \<not> has_pending_outbound (stream_at s h) then start_tcp_read h s else s)"

section \<open>What the stream operations leave alone\<close>

text \<open>
  Streams change stream objects, the table of streams, the encoder's flag and the effects;
  the rest of the session is the same before and after every stream operation.
\<close>

definition session_part :: "smux_session \<Rightarrow> smux_session" where
  "session_part s = s \<lparr> ss_objects := [], ss_streams := [], ss_wrote_identifier := False, ss_effects := [] \<rparr>"

lemma static_fields:
  assumes "session_part s' = session_part s"
  shows "ss_config s' = ss_config s" "ss_client s' = ss_client s" "ss_close_handler s' = ss_close_handler s"
    "ss_accept_handler s' = ss_accept_handler s" "ss_decompressor s' = ss_decompressor s"
    "ss_qpp_pad s' = ss_qpp_pad s" "ss_receive_buffer s' = ss_receive_buffer s"
    "ss_last_activity s' = ss_last_activity s" "ss_next_stream_id s' = ss_next_stream_id s"
    "ss_closed s' = ss_closed s" "ss_alive s' = ss_alive s"
  using assms by (cases s, cases s', simp add: session_part_def)+

lemma session_part_emit [simp]: "session_part (emit e s) = session_part s"
  by (simp add: session_part_def emit_def)

lemma session_part_put_stream [simp]: "session_part (put_stream h st s) = session_part s"
  by (simp add: session_part_def put_stream_def)

lemma session_part_stream_closed [simp]: "session_part (stream_closed sid s) = session_part s"
  by (simp add: session_part_def stream_closed_def)

lemma emit_fold_eq:
  "foldl (\<lambda>s chunk. emit (Transport_send chunk) s) s chunks =
     s \<lparr> ss_effects := ss_effects s @ map Transport_send chunks \<rparr>"
  by (induction chunks arbitrary: s) (simp_all add: emit_def)

text \<open>The bytes of one \<open>send_frame\<close>, as a list of transport sends.\<close>

definition frame_chunks :: "smux_lib \<Rightarrow> smux_command \<Rightarrow> u32 \<Rightarrow> bytes \<Rightarrow> smux_session \<Rightarrow> bytes list" where
  "frame_chunks lib command stream_id payload s =
     (let frame = make_frame (cfg_smuxver (ss_config s)) command stream_id payload
      in if cfg_nocomp (ss_config s) then [frame]
         else fst (snappy_encode (sl_compress lib) frame (ss_wrote_identifier s)))"

lemma send_frame_eq:
  "send_frame lib command stream_id payload s =
     (if ss_closed s \<or> length payload > 65535 then s
      else s \<lparr> ss_wrote_identifier := ss_wrote_identifier s \<or> \<not> cfg_nocomp (ss_config s),
               ss_effects := ss_effects s @ map Transport_send (frame_chunks lib command stream_id payload s) \<rparr>)"
  by (auto simp: send_frame_def frame_chunks_def emit_fold_eq Let_def snappy_encode_def)
    (auto simp: emit_def intro!: smux_session.equality)

lemma session_part_send_frame [simp]: "session_part (send_frame lib c sid p s) = session_part s"
  by (simp add: session_part_def send_frame_eq)

lemma objects_send_frame [simp]:
  "ss_objects (send_frame lib c sid p s) = ss_objects s"
  "ss_streams (send_frame lib c sid p s) = ss_streams s"
  by (simp_all add: send_frame_eq)

lemma session_part_flush_loop:
  assumes "flush_loop lib st s = (st', s')"
  shows "session_part s' = session_part s \<and> ss_objects s' = ss_objects s \<and> ss_streams s' = ss_streams s"
proof -
  let ?P = "\<lambda>_ t. session_part t = session_part s \<and> ss_objects t = ss_objects s \<and> ss_streams t = ss_streams s"
  have "?P st' s' \<and> flush_round lib st' s' = None"
  proof (rule flush_loop_invariant [where P = ?P, OF _ _ assms])
    fix st1 s1 st2 s2
    assume "?P st1 s1" "flush_round lib st1 s1 = Some (st2, s2)"
    then show "?P st2 s2"
      by (auto elim!: flush_round_cases simp: send_chunk_def Let_def split: prod.splits)
  qed simp
  then show ?thesis by blast
qed

lemma length_put_stream [simp]: "length (ss_objects (put_stream h st s)) = length (ss_objects s)"
  by (simp add: put_stream_def)

lemma objects_emit [simp]: "ss_objects (emit e s) = ss_objects s" "ss_streams (emit e s) = ss_streams s"
  by (simp_all add: emit_def)

text \<open>An operation that keeps the session part and the number of objects.\<close>

definition stream_op :: "(smux_session \<Rightarrow> smux_session) \<Rightarrow> bool" where
  "stream_op f \<longleftrightarrow> (\<forall>s. session_part (f s) = session_part s \<and> length (ss_objects (f s)) = length (ss_objects s))"

lemma stream_op_comp: "stream_op f \<Longrightarrow> stream_op g \<Longrightarrow> stream_op (\<lambda>s. f (g s))"
  by (simp add: stream_op_def)

lemma stream_opD:
  "stream_op f \<Longrightarrow> session_part (f s) = session_part s"
  "stream_op f \<Longrightarrow> length (ss_objects (f s)) = length (ss_objects s)"
  by (simp_all add: stream_op_def)

lemma stream_op_send_frame: "stream_op (send_frame lib c sid p)"
  by (simp add: stream_op_def)

lemma stream_op_try_flush: "stream_op (try_flush_outbound lib h)"
  using session_part_flush_loop
  by (auto simp: stream_op_def try_flush_outbound_def split: prod.splits)

lemma stream_op_start_tcp_read: "stream_op (start_tcp_read h)"
  by (simp add: stream_op_def start_tcp_read_def Let_def)

lemma stream_op_flush_tcp_writes: "stream_op (flush_tcp_writes h)"
  by (simp add: stream_op_def flush_tcp_writes_def Let_def)

lemma stream_op_on_data: "stream_op (on_data h p)"
  using stream_op_flush_tcp_writes [of h]
  by (simp add: stream_op_def on_data_def enqueue_tcp_write_def Let_def split: prod.split)

lemma stream_op_mark_payload_consumed: "stream_op (mark_payload_consumed lib h n)"
  by (simp add: stream_op_def mark_payload_consumed_def send_update_def Let_def)

lemma stream_op_shutdown: "stream_op (shutdown_tcp_send_if_ready h)"
  by (simp add: stream_op_def shutdown_tcp_send_if_ready_def Let_def)

lemma stream_op_send_local_fin: "stream_op (send_local_fin lib h)"
  by (simp add: stream_op_def send_local_fin_def Let_def)

lemma stream_op_maybe_finish: "stream_op (maybe_finish h)"
  by (simp add: stream_op_def maybe_finish_def Let_def)

lemma objects_stream_closed [simp]: "ss_objects (stream_closed sid s) = ss_objects s"
  by (simp add: stream_closed_def)

lemma stream_op_close_stream: "stream_op (close_stream lib h)"
  using stream_op_send_local_fin [of lib h]
  by (simp add: stream_op_def close_stream_def Let_def)

lemma stream_op_on_fin: "stream_op (on_fin h)"
  using stream_op_shutdown [of h] stream_op_maybe_finish [of h]
  by (simp add: stream_op_def on_fin_def Let_def)

lemma stream_op_on_update: "stream_op (on_update lib h c w)"
  using stream_op_try_flush [of lib h] stream_op_start_tcp_read [of h]
  by (simp add: stream_op_def on_update_def Let_def)

lemmas stream_ops = stream_op_send_frame stream_op_try_flush stream_op_start_tcp_read
  stream_op_flush_tcp_writes stream_op_on_data stream_op_mark_payload_consumed stream_op_shutdown
  stream_op_send_local_fin stream_op_maybe_finish stream_op_close_stream stream_op_on_fin
  stream_op_on_update

lemmas stream_op_parts [simp] = stream_ops [THEN stream_opD(1)]
lemmas stream_op_lengths [simp] = stream_ops [THEN stream_opD(2)]

end
