(* ===== verification/Smux_Session.thy ===== *)
theory Smux_Session
  imports Smux
begin

text \<open>
  The session side of \<open>smux.cpp\<close>: construction, opening and accepting streams, the frame
  loop over the receive buffer, the keepalive timer and \<open>close\<close>; then the completion
  handlers of the asynchronous operations, as the events of a transition system. The accept
  handler is the one that \<open>Server::UdpListener::handle_packet\<close> installs.
\<close>

section \<open>Construction and start\<close>

definition make_smux_session :: "smux_lib \<Rightarrow> base_config \<Rightarrow> bool \<Rightarrow> bool \<Rightarrow> int \<Rightarrow> smux_session result" where
  "make_smux_session lib config client close_handler now =
     (let s = \<lparr> ss_config = config, ss_client = client, ss_close_handler = close_handler,
                ss_accept_handler = None, ss_wrote_identifier = False,
                ss_decompressor = new_snappy_decoder, ss_qpp_pad = None, ss_objects = [],
                ss_streams = [], ss_receive_buffer = [], ss_last_activity = now,
                ss_next_stream_id = (if client then 1 else 0), ss_closed = False, ss_alive = True,
                ss_effects = [] \<rparr>
      in if cfg_qpp config then
           (case make_qpp_pad (sl_qpp lib) (string_bytes (cfg_key config)) (word_of_int (cfg_qpp_count config)) of
              Inl e \<Rightarrow> Inl e
            | Inr pad \<Rightarrow> Inr (s \<lparr> ss_qpp_pad := Some pad \<rparr>))
         else Inr s)"

definition start_keepalive_timer :: "smux_session \<Rightarrow> smux_session" where
  "start_keepalive_timer s =
     (if ss_closed s then s else emit (Keepalive_start (max 1 (cfg_keepalive (ss_config s)))) s)"

definition start_session :: "smux_session \<Rightarrow> smux_session" where
  "start_session s = start_keepalive_timer (emit Transport_start s)"

definition set_accept_handler :: "smux_target \<Rightarrow> smux_session \<Rightarrow> smux_session" where
  "set_accept_handler target s = s \<lparr> ss_accept_handler := Some target \<rparr>"

section \<open>Closing\<close>

text \<open>
  \<open>streams_\<close> is an unordered map; the model closes its streams in the order of the list.
\<close>

definition session_close :: "smux_lib \<Rightarrow> smux_session \<Rightarrow> smux_session" where
  "session_close lib s =
     (if ss_closed s then s
      else
        let s = emit Keepalive_cancel (s \<lparr> ss_closed := True \<rparr>);
            streams = ss_streams s;
            s = s \<lparr> ss_streams := [] \<rparr>;
            s = foldl (\<lambda>s (sid, h). close_stream lib h s) s streams;
            s = emit Transport_close s
        in if ss_close_handler s then emit Close_handler s else s)"

definition protocol_error :: "smux_lib \<Rightarrow> string \<Rightarrow> smux_session \<Rightarrow> smux_session" where
  "protocol_error lib message s = session_close lib (emit (Warn message) s)"

definition keepalive_tick :: "smux_lib \<Rightarrow> int \<Rightarrow> smux_session \<Rightarrow> smux_session" where
  "keepalive_tick lib now s =
     (if ss_closed s then s
      else
        let s = send_frame lib Cmd_nop 0 [] s
        in if now - ss_last_activity s > smux_timeout then session_close lib s
           else start_keepalive_timer s)"

section \<open>Streams of the session\<close>

text \<open>\<open>std::make_shared<SmuxStream>\<close>: the new object's index is the length of the store.\<close>

definition new_stream :: "smux_lib \<Rightarrow> u32 \<Rightarrow> smux_session \<Rightarrow> nat \<times> smux_session" where
  "new_stream lib sid s =
     (length (ss_objects s), s \<lparr> ss_objects := ss_objects s @ [make_stream lib sid s] \<rparr>)"

text \<open>\<open>streams_.emplace\<close>: nothing happens when the key exists.\<close>

definition emplace_stream :: "u32 \<Rightarrow> nat \<Rightarrow> smux_session \<Rightarrow> smux_session" where
  "emplace_stream sid h s =
     (if map_of (ss_streams s) sid = None then s \<lparr> ss_streams := (sid, h) # ss_streams s \<rparr> else s)"

definition open_stream :: "smux_lib \<Rightarrow> smux_session \<Rightarrow> (nat \<times> smux_session) result" where
  "open_stream lib s =
     (if ss_closed s then Inl (Runtime_error ''smux session is closed'')
      else if ss_next_stream_id s + 2 < ss_next_stream_id s then
        Inl (Runtime_error ''smux stream id exhausted'')
      else
        let s = s \<lparr> ss_next_stream_id := ss_next_stream_id s + 2 \<rparr>;
            sid = ss_next_stream_id s;
            (h, s) = new_stream lib sid s;
            s = send_frame lib Cmd_syn sid [] s
        in Inr (h, emplace_stream sid h s))"

text \<open>\<open>start_client\<close> of both overloads; \<open>unix\<close> tells them apart.\<close>

definition start_client :: "bool \<Rightarrow> nat \<Rightarrow> smux_session \<Rightarrow> smux_session" where
  "start_client unix h s =
     (let s = put_stream h ((stream_at s h)
                \<lparr> sm_unix := unix, sm_socket_open := True, sm_tcp_ready := True \<rparr>) s
      in start_tcp_read h (flush_tcp_writes h s))"

definition start_server :: "string \<Rightarrow> u16 \<Rightarrow> nat \<Rightarrow> smux_session \<Rightarrow> smux_session" where
  "start_server host port h s =
     emit (Resolve_start h host port) (put_stream h ((stream_at s h) \<lparr> sm_server_connecting := True \<rparr>) s)"

definition start_server_unix :: "string \<Rightarrow> nat \<Rightarrow> smux_session \<Rightarrow> smux_session" where
  "start_server_unix path h s =
     emit (Connect_start h) (put_stream h ((stream_at s h)
       \<lparr> sm_server_connecting := True, sm_unix := True, sm_socket_open := True \<rparr>) s)"

definition run_accept_handler :: "nat \<Rightarrow> smux_session \<Rightarrow> smux_session" where
  "run_accept_handler h s =
     (case ss_accept_handler s of
        None \<Rightarrow> s
      | Some (Unix_target path) \<Rightarrow> start_server_unix path h s
      | Some (Tcp_target host port) \<Rightarrow> start_server host port h s)"

section \<open>Receiving\<close>

text \<open>
  What the switch of \<open>consume_stream_bytes\<close> does with a frame whose header and length have
  been accepted.
\<close>

definition handle_frame :: "smux_lib \<Rightarrow> smux_command \<Rightarrow> u32 \<Rightarrow> bytes \<Rightarrow> smux_session \<Rightarrow> smux_session" where
  "handle_frame lib command sid payload s =
     (case command of
        Cmd_nop \<Rightarrow> s
      | Cmd_syn \<Rightarrow>
          (if map_of (ss_streams s) sid = None then
             (let (h, s) = new_stream lib sid s in run_accept_handler h (emplace_stream sid h s))
           else s)
      | Cmd_fin \<Rightarrow> (case map_of (ss_streams s) sid of None \<Rightarrow> s | Some h \<Rightarrow> on_fin h s)
      | Cmd_psh \<Rightarrow> (case map_of (ss_streams s) sid of None \<Rightarrow> s | Some h \<Rightarrow> on_data h payload s)
      | Cmd_upd \<Rightarrow>
          (case map_of (ss_streams s) sid of
             None \<Rightarrow> s
           | Some h \<Rightarrow> on_update lib h (read_le32 payload 0) (read_le32 payload 4) s))"

text \<open>
  The header tests of the loop: \<open>None\<close> waits for more bytes, \<open>Inl\<close> is a protocol error, and
  \<open>Inr\<close> is a complete frame with the bytes it takes.
\<close>

type_synonym frame = "smux_command \<times> u32 \<times> bytes"

definition next_frame :: "int \<Rightarrow> bytes \<Rightarrow> (string + frame \<times> nat) option" where
  "next_frame smuxver buffer =
     (if length buffer < smux_header_size then None
      else
        let version_byte = buffer ! 0;
            command = buffer ! 1;
            len = unat (read_le16 buffer 2);
            stream_id = read_le32 buffer 4
        in if version_byte \<noteq> word_of_int smuxver then Some (Inl ''smux protocol version mismatch'')
           else if length buffer < smux_header_size + len then None
           else
             let payload = take len (drop smux_header_size buffer)
             in case byte_command command of
                  None \<Rightarrow> Some (Inl ''invalid smux command'')
                | Some c \<Rightarrow>
                    if c = Cmd_upd \<and> (smuxver \<noteq> 2 \<or> len \<noteq> smux_update_size)
                    then Some (Inl ''invalid smux update frame'')
                    else Some (Inr ((c, stream_id, payload), smux_header_size + len)))"

lemma next_frame_consumes:
  "next_frame v buffer = Some (Inr (f, n)) \<Longrightarrow> smux_header_size \<le> n \<and> n \<le> length buffer"
  unfolding next_frame_def Let_def by (auto split: if_splits option.splits)

lemma session_part_new_stream:
  "new_stream lib sid s = (h, s') \<Longrightarrow> session_part s' = session_part s"
  by (auto simp: new_stream_def session_part_def)

lemma session_part_emplace [simp]: "session_part (emplace_stream sid h s) = session_part s"
  by (simp add: emplace_stream_def session_part_def)

lemma session_part_accept [simp]: "session_part (run_accept_handler h s) = session_part s"
  by (simp add: run_accept_handler_def start_server_def start_server_unix_def split: option.split smux_target.split)

lemma session_part_handle_frame [simp]: "session_part (handle_frame lib c sid p s) = session_part s"
  by (auto simp: handle_frame_def session_part_new_stream split: smux_command.split option.split prod.split)

text \<open>The loop. Each round erases the frame it handled from the front of the buffer.\<close>

function consume_loop :: "smux_lib \<Rightarrow> smux_session \<Rightarrow> smux_session" where
  "consume_loop lib s =
     (if ss_closed s then s
      else case next_frame (cfg_smuxver (ss_config s)) (ss_receive_buffer s) of
             None \<Rightarrow> s
           | Some (Inl message) \<Rightarrow> protocol_error lib message s
           | Some (Inr ((c, sid, payload), n)) \<Rightarrow>
               let s = handle_frame lib c sid payload s
               in consume_loop lib (s \<lparr> ss_receive_buffer := drop n (ss_receive_buffer s) \<rparr>))"
  by pat_completeness auto
termination
proof (relation "measure (\<lambda>(_, s). length (ss_receive_buffer s))", goal_cases)
  case (2 lib s x a b c d e f n t)
  then have "ss_receive_buffer t = ss_receive_buffer s"
    using static_fields(7) [OF session_part_handle_frame] by simp
  then show ?case
    using 2 by (auto dest!: next_frame_consumes simp: smux_header_size_def)
qed simp

declare consume_loop.simps [simp del]

definition consume_stream_bytes :: "smux_lib \<Rightarrow> bytes \<Rightarrow> smux_session \<Rightarrow> smux_session" where
  "consume_stream_bytes lib bytes s =
     (if int (length (ss_receive_buffer s) + length bytes) > max 1 (cfg_smuxbuf (ss_config s)) then
        protocol_error lib ''smux receive buffer overflow'' s
      else consume_loop lib (s \<lparr> ss_receive_buffer := ss_receive_buffer s @ bytes \<rparr>))"

definition error_what :: "cpp_error \<Rightarrow> string" where
  "error_what e = (case e of Runtime_error m \<Rightarrow> m | _ \<Rightarrow> [])"

definition on_transport_bytes :: "smux_lib \<Rightarrow> int \<Rightarrow> bytes \<Rightarrow> smux_session \<Rightarrow> smux_session" where
  "on_transport_bytes lib now bytes s =
     (if ss_closed s \<or> bytes = [] then s
      else
        let s = s \<lparr> ss_last_activity := now \<rparr>
        in if \<not> cfg_nocomp (ss_config s) then
             (case snappy_decode (sl_uncompress lib) bytes (ss_decompressor s) of
                Inl e \<Rightarrow> protocol_error lib (error_what e) s
              | Inr (decoded, d) \<Rightarrow>
                  foldl (\<lambda>s chunk. consume_stream_bytes lib chunk s) (s \<lparr> ss_decompressor := d \<rparr>) decoded)
           else consume_stream_bytes lib bytes s)"

section \<open>Completion handlers\<close>

text \<open>The handler of \<open>async_read_some\<close>, with the byte count of its completed read.\<close>

definition read_handler :: "smux_lib \<Rightarrow> nat \<Rightarrow> nat \<Rightarrow> smux_session \<Rightarrow> smux_session" where
  "read_handler lib h n s =
     (let st = stream_at s h;
          s = put_stream h (queue_outbound (take n (sm_read_buffer st)) st) s;
          s = try_flush_outbound lib h s
      in if \<not> has_pending_outbound (stream_at s h) then start_tcp_read h s else s)"

definition read_error :: "smux_lib \<Rightarrow> nat \<Rightarrow> asio_error \<Rightarrow> smux_session \<Rightarrow> smux_session" where
  "read_error lib h err s =
     (if err = Eof \<or> err = Connection_reset \<or> err = Operation_aborted then
        maybe_finish h (send_local_fin lib h s)
      else fail_and_close lib (if sm_unix (stream_at s h) then ''unix read'' else ''tcp read'') h s)"

text \<open>The handler of \<open>async_write\<close>.\<close>

definition write_handler :: "smux_lib \<Rightarrow> nat \<Rightarrow> asio_error option \<Rightarrow> nat \<Rightarrow> smux_session \<Rightarrow> smux_session" where
  "write_handler lib h err n s =
     (let s = put_stream h ((stream_at s h) \<lparr> sm_tcp_write_active := False \<rparr>) s
      in case err of
           Some e \<Rightarrow>
             (if e = Operation_aborted \<or> e = Connection_reset \<or> e = Broken_pipe then
                maybe_finish h (send_local_fin lib h s)
              else fail_and_close lib ''tcp write'' h s)
         | None \<Rightarrow>
             let st = stream_at s h;
                 s = put_stream h (st \<lparr> sm_pending_tcp_writes := tl (sm_pending_tcp_writes st) \<rparr>) s
             in maybe_finish h (shutdown_tcp_send_if_ready h (flush_tcp_writes h
                  (mark_payload_consumed lib h n s))))"

definition resolve_handler :: "smux_lib \<Rightarrow> nat \<Rightarrow> bool \<Rightarrow> smux_session \<Rightarrow> smux_session" where
  "resolve_handler lib h failed s =
     (if failed then fail_and_close lib ''resolve target'' h s
      else emit (Connect_start h) (put_stream h ((stream_at s h) \<lparr> sm_socket_open := True \<rparr>) s))"

definition connect_handler :: "smux_lib \<Rightarrow> nat \<Rightarrow> bool \<Rightarrow> smux_session \<Rightarrow> smux_session" where
  "connect_handler lib h failed s =
     (let st = stream_at s h;
          s = put_stream h (st \<lparr> sm_server_connecting := False \<rparr>) s
      in if failed then
           fail_and_close lib (if sm_unix st then ''connect unix target'' else ''connect target'') h s
         else
           let s = put_stream h ((stream_at s h) \<lparr> sm_tcp_ready := True \<rparr>) s
           in shutdown_tcp_send_if_ready h (start_tcp_read h (flush_tcp_writes h s)))"

end
