(* ===== verification/Smux_Frames.thy ===== *)
theory Smux_Frames
  imports Smux_Session
begin

text \<open>
  The frame layer of the multiplexer: what \<open>send_frame\<close> writes is what the loop of
  \<open>consume_stream_bytes\<close> reads, whatever cuts the transport makes. The header tests are a
  \<open>stream_parser\<close>, so the cut does not matter to them; a session then handles the parsed
  frames one after the other.
\<close>

section \<open>Writing and reading one frame\<close>

lemma make_frame_eq:
  "make_frame v c sid p =
     word_of_int v # command_byte c # le16_bytes (of_nat (length p)) @ le32_bytes sid @ p"
proof -
  have z: "replicate (smux_header_size + length p) (0 :: byte) =
      0 # 0 # [0, 0] @ [0, 0, 0, 0] @ replicate (length p) 0"
    by (simp add: smux_header_size_def numeral_eq_Suc)
  show ?thesis
    unfolding make_frame_def Let_def z
    by (simp add: write_le16_def write_le32_def smux_header_size_def memcpy_def le16_bytes_def le32_bytes_def)
qed

lemma length_make_frame [simp]: "length (make_frame v c sid p) = smux_header_size + length p"
  by (simp add: make_frame_eq smux_header_size_def)

lemma byte_command_inverse [simp]: "byte_command (command_byte c) = Some c"
  by (cases c) (simp_all add: byte_command_def)

definition frame_allowed :: "int \<Rightarrow> frame \<Rightarrow> bool" where
  "frame_allowed v f \<longleftrightarrow> (case f of (c, sid, p) \<Rightarrow>
     length p < 65536 \<and> (c = Cmd_upd \<longrightarrow> v = 2 \<and> length p = smux_update_size))"

lemma next_frame_make_frame:
  assumes "frame_allowed v (c, sid, p)"
  shows "next_frame v (make_frame v c sid p @ ys) = Some (Inr ((c, sid, p), smux_header_size + length p))"
proof -
  have f: "make_frame v c sid p @ ys =
      [word_of_int v, command_byte c] @ le16_bytes (of_nat (length p)) @ le32_bytes sid @ p @ ys"
    by (simp add: make_frame_eq)
  have len: "read_le16 (make_frame v c sid p @ ys) 2 = of_nat (length p)"
    unfolding f by (rule le16.dec_after) simp_all
  have "make_frame v c sid p @ ys =
      ([word_of_int v, command_byte c] @ le16_bytes (of_nat (length p))) @ le32_bytes sid @ p @ ys"
    by (simp add: make_frame_eq)
  then have id: "read_le32 (make_frame v c sid p @ ys) 4 = sid"
    by (simp only:) (rule le32.dec_after, simp_all)
  have n: "unat (of_nat (length p) :: u16) = length p"
    using assms by (intro unat_of_nat_lt) (simp add: frame_allowed_def)
  have payload: "take (length p) (drop smux_header_size (make_frame v c sid p @ ys)) = p"
    by (simp add: make_frame_eq smux_header_size_def numeral_eq_Suc le16_bytes_def le32_bytes_def)
  have head: "(make_frame v c sid p @ ys) ! 0 = word_of_int v" "(make_frame v c sid p @ ys) ! 1 = command_byte c"
    by (simp_all add: make_frame_eq)
  show ?thesis
    using assms unfolding next_frame_def Let_def len id n head payload
    by (auto simp: frame_allowed_def)
qed

section \<open>The frame parser\<close>

definition frame_step :: "int \<Rightarrow> (unit, frame) parser_step" where
  "frame_step v u buffer =
     (case next_frame v buffer of
        None \<Rightarrow> None
      | Some (Inl m) \<Rightarrow> Some (Inl (Runtime_error m))
      | Some (Inr (f, n)) \<Rightarrow> Some (Inr ((), [f], n)))"

function frame_loop :: "int \<Rightarrow> unit \<Rightarrow> bytes \<Rightarrow> (unit, frame) parser_result" where
  "frame_loop v u buffer =
     (case next_frame v buffer of
        None \<Rightarrow> Inr ((), [], buffer)
      | Some (Inl m) \<Rightarrow> Inl (Runtime_error m)
      | Some (Inr (f, n)) \<Rightarrow>
          (case frame_loop v () (drop n buffer) of
             Inl e \<Rightarrow> Inl e | Inr (u, fs, rest) \<Rightarrow> Inr ((), f # fs, rest)))"
  by pat_completeness auto
termination
  by (relation "measure (\<lambda>(_, _, buffer). length buffer)")
    (auto dest!: next_frame_consumes simp: smux_header_size_def)

declare frame_loop.simps [simp del]

lemma read_le_prefix:
  "8 \<le> length xs \<Longrightarrow> read_le16 (xs @ ys) 2 = read_le16 xs 2"
  "8 \<le> length xs \<Longrightarrow> read_le32 (xs @ ys) 4 = read_le32 xs 4"
  by (simp_all add: le16.dec_prefix le32.dec_prefix)

lemma next_frame_stable:
  assumes "next_frame v xs = Some r"
  shows "next_frame v (xs @ ys) = Some r"
proof -
  have len: "8 \<le> length xs" using assms by (auto simp: next_frame_def smux_header_size_def not_less split: if_splits)
  then have "(xs @ ys) ! 0 = xs ! 0" "(xs @ ys) ! 1 = xs ! 1" by (auto simp: nth_append)
  note head = this
  let ?n = "unat (read_le16 xs 2)"
  show ?thesis
  proof (cases "length xs < smux_header_size + ?n")
    case True
    then show ?thesis
      using assms len head unfolding next_frame_def Let_def read_le_prefix [OF len]
      by (auto simp: smux_header_size_def split: if_splits)
  next
    case False
    then have payload: "take ?n (drop 8 (xs @ ys)) = take ?n (drop 8 xs)" by (simp add: smux_header_size_def)
    show ?thesis
      using assms len head False
      unfolding next_frame_def Let_def read_le_prefix [OF len] smux_header_size_def payload
      by (simp split: if_splits)
  qed
qed

interpretation frames: stream_parser "frame_step v" "frame_loop v"
proof
  fix s xs
  show "frame_loop v s xs =
      (case frame_step v s xs of
         None \<Rightarrow> Inr (s, [], xs)
       | Some (Inl e) \<Rightarrow> Inl e
       | Some (Inr (s', outs, n)) \<Rightarrow> then_parse (Inr (s', outs, drop n xs)) (frame_loop v))"
    by (subst frame_loop.simps) (auto simp: frame_step_def split: option.split sum.split)
next
  fix s xs s' outs n
  assume "frame_step v s xs = Some (Inr (s', outs, n))"
  then show "0 < n \<and> n \<le> length xs"
    by (auto simp: frame_step_def smux_header_size_def dest!: next_frame_consumes split: option.splits sum.splits)
next
  fix s xs r ys
  assume "frame_step v s xs = Some r"
  then show "frame_step v s (xs @ ys) = Some r"
    by (auto simp: frame_step_def split: option.splits sum.splits dest: next_frame_stable [of _ _ _ ys])
qed

definition frame_bytes :: "int \<Rightarrow> frame \<Rightarrow> bytes" where
  "frame_bytes v f = (case f of (c, sid, p) \<Rightarrow> make_frame v c sid p)"

lemma frame_step_bytes:
  "frame_allowed v f \<Longrightarrow> frame_step v u (frame_bytes v f @ ys) = Some (Inr ((), [f], length (frame_bytes v f)))"
  by (cases f) (simp add: frame_bytes_def frame_step_def next_frame_make_frame)

lemma frame_loop_frames:
  "\<forall>f \<in> set fs. frame_allowed v f \<Longrightarrow>
     frame_loop v u (concat (map (frame_bytes v) fs)) = Inr ((), fs, [])"
proof (induction fs arbitrary: u)
  case Nil
  then show ?case by (simp add: frame_loop.simps [of v "()" "[]"] next_frame_def smux_header_size_def)
next
  case (Cons f fs)
  then show ?case
    using frames.loop_step [OF frame_step_bytes] by simp
qed

section \<open>The session's loop\<close>

fun handle_frames :: "smux_lib \<Rightarrow> frame list \<Rightarrow> smux_session \<Rightarrow> smux_session" where
  "handle_frames lib [] s = s"
| "handle_frames lib ((c, sid, p) # fs) s = handle_frames lib fs (handle_frame lib c sid p s)"

lemma handle_frames_append: "handle_frames lib (fs @ gs) s = handle_frames lib gs (handle_frames lib fs s)"
  by (induction fs arbitrary: s) auto

lemma session_part_handle_frames [simp]: "session_part (handle_frames lib fs s) = session_part s"
  by (induction fs arbitrary: s) auto

lemmas handle_frame_static [simp] = static_fields [OF session_part_handle_frame]
lemmas handle_frames_static [simp] = static_fields [OF session_part_handle_frames]

text \<open>
  Handlers neither read nor write the input side of the session: the receive buffer, the
  decompressor and the time of the last activity.
\<close>

definition with_input :: "bytes \<Rightarrow> snappy_decoder \<Rightarrow> int \<Rightarrow> smux_session \<Rightarrow> smux_session" where
  "with_input b d t s = s \<lparr> ss_receive_buffer := b, ss_decompressor := d, ss_last_activity := t \<rparr>"

lemma with_input_fields [simp]:
  "ss_config (with_input b d t s) = ss_config s" "ss_closed (with_input b d t s) = ss_closed s"
  "ss_alive (with_input b d t s) = ss_alive s" "ss_streams (with_input b d t s) = ss_streams s"
  "ss_objects (with_input b d t s) = ss_objects s" "ss_effects (with_input b d t s) = ss_effects s"
  "ss_wrote_identifier (with_input b d t s) = ss_wrote_identifier s"
  "ss_qpp_pad (with_input b d t s) = ss_qpp_pad s"
  "ss_accept_handler (with_input b d t s) = ss_accept_handler s"
  "ss_receive_buffer (with_input b d t s) = b" "ss_decompressor (with_input b d t s) = d"
  "ss_last_activity (with_input b d t s) = t"
  by (simp_all add: with_input_def)

lemma with_buffer_eq: "s \<lparr> ss_receive_buffer := b \<rparr> = with_input b (ss_decompressor s) (ss_last_activity s) s"
  by (simp add: with_input_def)

lemma activity_eq:
  "s \<lparr> ss_last_activity := t \<rparr> = with_input (ss_receive_buffer s) (ss_decompressor s) t s"
  "with_input b d' t s \<lparr> ss_decompressor := d \<rparr> = with_input b d t s"
  by (simp_all add: with_input_def)

lemma with_input_twice [simp]: "with_input b d t (with_input b' d' t' s) = with_input b d t s"
  by (simp add: with_input_def)

lemma with_input_same [simp]: "with_input (ss_receive_buffer s) (ss_decompressor s) (ss_last_activity s) s = s"
  by (simp add: with_input_def)

lemma emit_with_input: "emit e (with_input b d t s) = with_input b d t (emit e s)"
  by (simp add: emit_def with_input_def)

lemma put_with_input: "put_stream h st (with_input b d t s) = with_input b d t (put_stream h st s)"
  by (simp add: put_stream_def with_input_def)

lemma stream_at_with_input [simp]: "stream_at (with_input b d t s) h = stream_at s h"
  by (simp add: stream_at_def)

lemma send_frame_with_input:
  "send_frame lib c sid p (with_input b d t s) = with_input b d t (send_frame lib c sid p s)"
  by (simp add: send_frame_eq frame_chunks_def Let_def with_input_def)

lemma flush_round_with_input:
  "flush_round lib st (with_input b d t s) = map_option (\<lambda>(st, s). (st, with_input b d t s)) (flush_round lib st s)"
  by (auto simp: flush_round_def send_chunk_def version_def frame_size_def Let_def send_frame_with_input
      split: list.split prod.split)

lemma flush_loop_with_input:
  "flush_loop lib st (with_input b d t s) = (\<lambda>(st, s). (st, with_input b d t s)) (flush_loop lib st s)"
proof (induction "flush_measure st" arbitrary: st s rule: less_induct)
  case less
  show ?case
  proof (cases "flush_round lib st s")
    case None
    then show ?thesis
      by (simp add: flush_loop.simps [of lib st] flush_round_with_input)
  next
    case (Some r)
    obtain st1 s1 where r: "r = (st1, s1)" by (cases r)
    then show ?thesis
      using less [OF flush_round_progress [OF Some [unfolded r]], of s1] Some
      by (simp add: flush_loop.simps [of lib st] flush_round_with_input)
  qed
qed

lemmas with_input_simps = emit_with_input put_with_input send_frame_with_input flush_loop_with_input

lemma handle_frame_with_input:
  "handle_frame lib c sid p (with_input b d t s) = with_input b d t (handle_frame lib c sid p s)"
proof -
  have attempt: "try_flush_outbound lib h (with_input b d t s) = with_input b d t (try_flush_outbound lib h s)" for h s
    by (simp add: try_flush_outbound_def with_input_simps split: prod.split)
  have read: "start_tcp_read h (with_input b d t s) = with_input b d t (start_tcp_read h s)" for h s
    by (simp add: start_tcp_read_def Let_def with_input_simps)
  have writes: "flush_tcp_writes h (with_input b d t s) = with_input b d t (flush_tcp_writes h s)" for h s
    by (simp add: flush_tcp_writes_def Let_def with_input_simps)
  have data: "on_data h p (with_input b d t s) = with_input b d t (on_data h p s)" for h s
    by (simp add: on_data_def enqueue_tcp_write_def Let_def with_input_simps writes split: prod.split)
  have finish: "maybe_finish h (with_input b d t s) = with_input b d t (maybe_finish h s)" for h s
    by (simp add: maybe_finish_def Let_def with_input_simps)
  have shut: "shutdown_tcp_send_if_ready h (with_input b d t s) = with_input b d t (shutdown_tcp_send_if_ready h s)" for h s
    by (simp add: shutdown_tcp_send_if_ready_def Let_def with_input_simps)
  have fin: "on_fin h (with_input b d t s) = with_input b d t (on_fin h s)" for h s
    by (simp add: on_fin_def Let_def with_input_simps finish shut)
  have upd: "on_update lib h x y (with_input b d t s) = with_input b d t (on_update lib h x y s)" for h x y s
    by (simp add: on_update_def Let_def with_input_simps attempt read)
  have syn: "new_stream lib sid (with_input b d t s) = (\<lambda>(h, s). (h, with_input b d t s)) (new_stream lib sid s)"
    by (simp add: new_stream_def make_stream_def with_input_def)
  have emp: "emplace_stream sid h (with_input b d t s) = with_input b d t (emplace_stream sid h s)" for h s
    by (simp add: emplace_stream_def with_input_def)
  have acc: "run_accept_handler h (with_input b d t s) = with_input b d t (run_accept_handler h s)" for h s
    by (simp add: run_accept_handler_def start_server_def start_server_unix_def with_input_simps
        split: option.split smux_target.split)
  show ?thesis
    by (cases c) (simp_all add: handle_frame_def data fin upd syn acc emp split: option.split prod.split)
qed

lemma handle_frames_with_input:
  "handle_frames lib fs (with_input b d t s) = with_input b d t (handle_frames lib fs s)"
  by (induction fs arbitrary: s) (auto simp: handle_frame_with_input)

text \<open>The loop of the session is the frame parser followed by the handlers.\<close>

lemma consume_loop_frames:
  "frame_loop (cfg_smuxver (ss_config s)) u (ss_receive_buffer s) = Inr (u', fs, rest) \<Longrightarrow> \<not> ss_closed s \<Longrightarrow>
     consume_loop lib s = with_input rest (ss_decompressor s) (ss_last_activity s) (handle_frames lib fs s)"
proof (induction fs arbitrary: s u)
  case Nil
  then show ?case
    by (subst (asm) frame_loop.simps)
      (auto simp: consume_loop.simps [of lib s] split: option.splits sum.splits)
next
  case (Cons f fs)
  obtain c sid p where f: "f = (c, sid, p)" by (cases f)
  from Cons(2) obtain n where n: "next_frame (cfg_smuxver (ss_config s)) (ss_receive_buffer s) = Some (Inr ((c, sid, p), n))"
    and rest: "frame_loop (cfg_smuxver (ss_config s)) () (drop n (ss_receive_buffer s)) = Inr (u', fs, rest)"
    by (subst (asm) frame_loop.simps) (auto simp: f split: option.splits sum.splits)
  let ?s = "with_input (drop n (ss_receive_buffer s)) (ss_decompressor s) (ss_last_activity s) (handle_frame lib c sid p s)"
  have "consume_loop lib s = consume_loop lib ?s"
    using Cons(3) n by (simp add: consume_loop.simps [of lib s] with_buffer_eq)
  also have "\<dots> = with_input rest (ss_decompressor s) (ss_last_activity s) (handle_frames lib fs ?s)"
    using Cons.IH [of ?s "()"] rest Cons(3) by simp
  finally show ?case by (simp add: f handle_frames_with_input)
qed

text \<open>Reads that fit are parsed as one.\<close>

definition reads_fit :: "bytes list \<Rightarrow> smux_session \<Rightarrow> bool" where
  "reads_fit reads s \<longleftrightarrow> int (length (ss_receive_buffer s) + length (concat reads)) \<le> max 1 (cfg_smuxbuf (ss_config s))"

lemma frame_loop_shortens: "frame_loop v u xs = Inr (u', fs, rest) \<Longrightarrow> length rest \<le> length xs"
proof (induction v u xs arbitrary: fs rest rule: frame_loop.induct)
  case (1 v u buffer)
  show ?case
    using 1 by (subst (asm) (2) frame_loop.simps) (fastforce split: option.splits sum.splits)
qed

lemma consume_reads:
  assumes "frame_loop (cfg_smuxver (ss_config s)) () (ss_receive_buffer s @ concat reads) = Inr ((), fs, rest)"
    and "frame_step (cfg_smuxver (ss_config s)) () (ss_receive_buffer s) = None"
    and "\<not> ss_closed s" "reads_fit reads s"
  shows "foldl (\<lambda>s bs. consume_stream_bytes lib bs s) s reads = with_input rest (ss_decompressor s) (ss_last_activity s) (handle_frames lib fs s)"
  using assms
proof (induction reads arbitrary: s fs)
  case Nil
  then have "fs = []" "rest = ss_receive_buffer s"
    using frames.loop_unfold [of "cfg_smuxver (ss_config s)" "()" "ss_receive_buffer s"] by simp_all
  then show ?case by simp
next
  case (Cons x reads)
  let ?v = "cfg_smuxver (ss_config s)"
  have "frame_loop ?v () ((ss_receive_buffer s @ x) @ concat reads) = Inr ((), fs, rest)"
    using Cons(2) by simp
  then obtain fs1 rest1 fs2 where one: "frame_loop ?v () (ss_receive_buffer s @ x) = Inr ((), fs1, rest1)"
    and two: "frame_loop ?v () (rest1 @ concat reads) = Inr ((), fs2, rest)" and fs: "fs = fs1 @ fs2"
    unfolding frames.loop_append [of ?v "()" "ss_receive_buffer s @ x" "concat reads"]
    by (auto simp: then_parse_def split: sum.splits)
  let ?s = "with_input (ss_receive_buffer s @ x) (ss_decompressor s) (ss_last_activity s) s"
  let ?t = "with_input rest1 (ss_decompressor s) (ss_last_activity s) (handle_frames lib fs1 ?s)"
  have fit: "\<not> max 1 (cfg_smuxbuf (ss_config s)) < int (length (ss_receive_buffer s) + length x)"
    using Cons(5) unfolding reads_fit_def by (auto simp: not_less intro: order_trans [rotated])
  have first: "consume_stream_bytes lib x s = ?t"
    using consume_loop_frames [of ?s "()" "()" fs1 rest1] one Cons(4)
    unfolding consume_stream_bytes_def if_not_P [OF fit] with_buffer_eq by simp
  have "reads_fit reads ?t"
    using Cons(5) frame_loop_shortens [OF one] by (simp add: reads_fit_def)
  then have "foldl (\<lambda>s bs. consume_stream_bytes lib bs s) ?t reads = with_input rest (ss_decompressor s) (ss_last_activity s) (handle_frames lib fs2 ?t)"
    using Cons.IH [of ?t fs2] two frames.loop_rest [OF one] Cons(4) by simp
  then show ?case
    using first by (simp add: fs handle_frames_append handle_frames_with_input)
qed

section \<open>A pair of sessions\<close>

definition send_frames :: "smux_lib \<Rightarrow> frame list \<Rightarrow> smux_session \<Rightarrow> smux_session" where
  "send_frames lib fs s = foldl (\<lambda>s (c, sid, p). send_frame lib c sid p s) s fs"

text \<open>What the transport is given for a sequence of frames.\<close>

definition wire :: "smux_lib \<Rightarrow> frame list \<Rightarrow> smux_session \<Rightarrow> bytes list" where
  "wire lib fs s =
     (let frames = map (frame_bytes (cfg_smuxver (ss_config s))) fs
      in if cfg_nocomp (ss_config s) then frames
         else fst (snappy_encode_list (sl_compress lib) frames (ss_wrote_identifier s)))"

lemma send_frames_eq:
  assumes "\<not> ss_closed s" "\<forall>(c, sid, p) \<in> set fs. length p \<le> 65535"
  shows "send_frames lib fs s =
     s \<lparr> ss_wrote_identifier := ss_wrote_identifier s \<or> \<not> cfg_nocomp (ss_config s) \<and> fs \<noteq> [],
         ss_effects := ss_effects s @ map Transport_send (wire lib fs s) \<rparr>"
  using assms
proof (induction fs arbitrary: s)
  case Nil
  then show ?case by (simp add: send_frames_def wire_def)
next
  case (Cons f fs)
  obtain c sid p where f: "f = (c, sid, p)" by (cases f)
  let ?s = "send_frame lib c sid p s"
  have one: "?s = s \<lparr> ss_wrote_identifier := ss_wrote_identifier s \<or> \<not> cfg_nocomp (ss_config s),
        ss_effects := ss_effects s @ map Transport_send (frame_chunks lib c sid p s) \<rparr>"
    using Cons(2,3) by (simp add: send_frame_eq f)
  have rest: "send_frames lib (f # fs) s = send_frames lib fs ?s" by (simp add: send_frames_def f)
  have "wire lib (f # fs) s = frame_chunks lib c sid p s @ wire lib fs ?s"
    by (auto simp: wire_def one f frame_chunks_def frame_bytes_def Let_def snappy_encode_def split: prod.splits)
  then show ?case
    using Cons.IH [of ?s] Cons(2,3) by (simp add: rest one)
qed

text \<open>The reads the transport delivers, each with its time.\<close>

definition receive :: "smux_lib \<Rightarrow> (int \<times> bytes) list \<Rightarrow> smux_session \<Rightarrow> smux_session" where
  "receive lib reads s = foldl (\<lambda>s (now, bs). on_transport_bytes lib now bs s) s reads"

text \<open>The receiver stands where the sender is: same settings, nothing half read.\<close>

definition paired :: "smux_session \<Rightarrow> smux_session \<Rightarrow> bool" where
  "paired a b \<longleftrightarrow> cfg_smuxver (ss_config a) = cfg_smuxver (ss_config b) \<and>
     cfg_nocomp (ss_config a) = cfg_nocomp (ss_config b) \<and>
     ss_receive_buffer b = [] \<and>
     ss_decompressor b = \<lparr> sd_buffer = [], sd_saw_identifier = ss_wrote_identifier a \<and> \<not> cfg_nocomp (ss_config a) \<rparr>"

lemma foldl_consume_input:
  assumes "frame_loop (cfg_smuxver (ss_config s)) () (ss_receive_buffer s @ concat pieces) = Inr ((), fs, rest)"
    and "frame_step (cfg_smuxver (ss_config s)) () (ss_receive_buffer s) = None"
    and "\<not> ss_closed s" "reads_fit pieces s"
  shows "foldl (\<lambda>s bs. consume_stream_bytes lib bs s) (with_input (ss_receive_buffer s) d t s) pieces =
     with_input rest d t (handle_frames lib fs s)"
  using consume_reads [of "with_input (ss_receive_buffer s) d t s" pieces fs rest lib] assms
  by (simp add: reads_fit_def handle_frames_with_input)

text \<open>Without compression a read is a piece; with it, a read decodes to some pieces.\<close>

lemma receive_plain:
  assumes "cfg_nocomp (ss_config s)" "\<not> ss_closed s"
    and "frame_loop (cfg_smuxver (ss_config s)) () (ss_receive_buffer s @ concat (map snd reads)) = Inr ((), fs, rest)"
    and "frame_step (cfg_smuxver (ss_config s)) () (ss_receive_buffer s) = None"
    and "reads_fit (map snd reads) s"
  shows "\<exists>t. receive lib reads s = with_input rest (ss_decompressor s) t (handle_frames lib fs s)"
  using assms
proof (induction reads arbitrary: s fs)
  case Nil
  then have "fs = []" "rest = ss_receive_buffer s"
    using frames.loop_unfold [of "cfg_smuxver (ss_config s)" "()" "ss_receive_buffer s"] by simp_all
  then show ?case by (intro exI [of _ "ss_last_activity s"]) (simp add: receive_def)
next
  case (Cons r reads)
  obtain now x where r: "r = (now, x)" by (cases r)
  let ?v = "cfg_smuxver (ss_config s)"
  show ?case
  proof (cases "x = []")
    case True
    then show ?thesis using Cons.IH [of s fs] Cons(2-6) by (simp add: receive_def r on_transport_bytes_def reads_fit_def)
  next
    case False
    have "frame_loop ?v () ((ss_receive_buffer s @ x) @ concat (map snd reads)) = Inr ((), fs, rest)"
      using Cons(4) by (simp add: r)
    then obtain fs1 rest1 fs2 where one: "frame_loop ?v () (ss_receive_buffer s @ x) = Inr ((), fs1, rest1)"
      and two: "frame_loop ?v () (rest1 @ concat (map snd reads)) = Inr ((), fs2, rest)" and fs: "fs = fs1 @ fs2"
      unfolding frames.loop_append [of ?v "()" "ss_receive_buffer s @ x" "concat (map snd reads)"]
      by (auto simp: then_parse_def split: sum.splits)
    let ?t = "with_input rest1 (ss_decompressor s) now (handle_frames lib fs1 s)"
    have "reads_fit [x] s" using Cons(6) by (simp add: reads_fit_def r)
    then have "on_transport_bytes lib now x s = ?t"
      using foldl_consume_input [of s "[x]" fs1 rest1 lib "ss_decompressor s" now] one Cons(2,3,5) False
      by (simp add: on_transport_bytes_def activity_eq)
    moreover have "reads_fit (map snd reads) ?t"
      using Cons(6) frame_loop_shortens [OF one] by (simp add: reads_fit_def r)
    ultimately show ?thesis
      using Cons.IH [of ?t fs2] two frames.loop_rest [OF one] Cons(2,3)
      by (simp add: receive_def r fs handle_frames_append handle_frames_with_input)
  qed
qed

lemma receive_compressed:
  assumes "\<not> cfg_nocomp (ss_config s)" "\<not> ss_closed s"
    and "snappy_idle (sl_uncompress lib) (ss_decompressor s)"
    and "snappy_decode_list (sl_uncompress lib) (map snd reads) (ss_decompressor s) = Inr (pieces, d)"
    and "frame_loop (cfg_smuxver (ss_config s)) () (ss_receive_buffer s @ concat pieces) = Inr ((), fs, rest)"
    and "frame_step (cfg_smuxver (ss_config s)) () (ss_receive_buffer s) = None"
    and "reads_fit pieces s"
  shows "\<exists>t. receive lib reads s = with_input rest d t (handle_frames lib fs s)"
  using assms
proof (induction reads arbitrary: s fs pieces)
  case Nil
  then have "fs = []" "rest = ss_receive_buffer s" "d = ss_decompressor s"
    using frames.loop_unfold [of "cfg_smuxver (ss_config s)" "()" "ss_receive_buffer s"] by simp_all
  then show ?case by (intro exI [of _ "ss_last_activity s"]) (simp add: receive_def)
next
  case (Cons r reads)
  obtain now x where r: "r = (now, x)" by (cases r)
  let ?v = "cfg_smuxver (ss_config s)"
  let ?unc = "sl_uncompress lib"
  obtain ps1 d1 ps2 where d1: "snappy_decode ?unc x (ss_decompressor s) = Inr (ps1, d1)"
    and d2: "snappy_decode_list ?unc (map snd reads) d1 = Inr (ps2, d)" and ps: "pieces = ps1 @ ps2"
    using Cons(5) by (auto simp: r split: sum.splits)
  have idle: "snappy_idle ?unc d1"
    using d1 snappy.loop_rest by (fastforce simp: snappy_decode_def snappy_idle_def split: sum.splits)
  show ?case
  proof (cases "x = []")
    case True
    have "snappy_decode ?unc [] (ss_decompressor s) = Inr ([], ss_decompressor s)"
      using Cons(4) unfolding snappy_decode_def append_Nil2 snappy.loop_unfold [of _ _ "sd_buffer (ss_decompressor s)"]
      by (simp add: snappy_idle_def)
    then have "ps1 = []" "d1 = ss_decompressor s" using d1 True by simp_all
    then show ?thesis using Cons.IH [of s ps2 fs] Cons(2-8) True d2 ps
      by (simp add: receive_def r on_transport_bytes_def)
  next
    case False
    have "frame_loop ?v () ((ss_receive_buffer s @ concat ps1) @ concat ps2) = Inr ((), fs, rest)"
      using Cons(6) by (simp add: ps)
    then obtain fs1 rest1 fs2 where one: "frame_loop ?v () (ss_receive_buffer s @ concat ps1) = Inr ((), fs1, rest1)"
      and two: "frame_loop ?v () (rest1 @ concat ps2) = Inr ((), fs2, rest)" and fs: "fs = fs1 @ fs2"
      unfolding frames.loop_append [of ?v "()" "ss_receive_buffer s @ concat ps1" "concat ps2"]
      by (auto simp: then_parse_def split: sum.splits)
    let ?t = "with_input rest1 d1 now (handle_frames lib fs1 s)"
    have "reads_fit ps1 s" using Cons(8) by (simp add: reads_fit_def ps)
    then have "on_transport_bytes lib now x s = ?t"
      using foldl_consume_input [of s ps1 fs1 rest1 lib d1 now] one Cons(2,3,7) False d1
      by (simp add: on_transport_bytes_def activity_eq)
    moreover have "reads_fit ps2 ?t"
      using Cons(8) frame_loop_shortens [OF one] by (simp add: reads_fit_def ps)
    ultimately show ?thesis
      using Cons.IH [of ?t ps2 fs2] two frames.loop_rest [OF one] Cons(2,3) d2 idle
      by (simp add: receive_def r fs handle_frames_append handle_frames_with_input)
  qed
qed

lemma decode_wire:
  assumes unc: "\<And>x. unc (compress x) = Some x"
    and "concat reads = concat (fst (snappy_encode_list compress ws w))"
  shows "\<exists>pieces. concat pieces = concat ws \<and>
     snappy_decode_list unc reads \<lparr> sd_buffer = [], sd_saw_identifier = w \<rparr> =
       Inr (pieces, \<lparr> sd_buffer = [], sd_saw_identifier = w \<or> ws \<noteq> [] \<rparr>)"
proof -
  have idle: "snappy_idle unc \<lparr> sd_buffer = [], sd_saw_identifier = w \<rparr>"
    by (simp add: snappy_idle_def snappy_step_def)
  have nil: "snappy_loop unc b [] = Inr (b, [], [])" for b
    by (subst snappy_loop.simps) (simp add: snappy_step_def)
  have "\<exists>pieces. concat pieces = concat ws \<and>
     snappy_loop unc w (concat (fst (snappy_encode_list compress ws w))) = Inr (w \<or> ws \<noteq> [], pieces, [])"
  proof (cases "w \<or> ws = []")
    case True
    then show ?thesis
    proof
      assume w
      obtain ps where "concat ps = concat ws"
        "snappy_loop unc True (concat (fst (snappy_encode_list compress ws True)) @ []) =
           then_parse (Inr (True, ps, [])) (snappy_loop unc)"
        using encode_list_loop [of unc compress, OF unc] by blast
      then show ?thesis using \<open>w\<close> by (intro exI [of _ ps]) (simp add: nil)
    next
      assume "ws = []"
      then show ?thesis by (intro exI [of _ "[]"]) (simp add: nil)
    qed
  next
    case False
    then show ?thesis using encoded_stream_loop [of unc compress ws, OF unc] by auto
  qed
  then show ?thesis
    unfolding snappy_decode_list_loop [OF idle] using assms(2) by (auto simp: finish_decode_def)
qed

lemma sent_frames_received:
  assumes unc: "\<And>x. sl_uncompress lib (sl_compress lib x) = Some x"
    and p: "paired a b" and open_b: "\<not> ss_closed b"
    and fs: "\<forall>f \<in> set fs. frame_allowed (cfg_smuxver (ss_config a)) f"
    and reads: "concat (map snd reads) = concat (wire lib fs a)"
    and fit: "int (length (concat (map (frame_bytes (cfg_smuxver (ss_config a))) fs))) \<le> max 1 (cfg_smuxbuf (ss_config b))"
  shows "\<exists>t. receive lib reads b = with_input [] \<lparr> sd_buffer = [], sd_saw_identifier =
      (ss_wrote_identifier a \<or> fs \<noteq> []) \<and> \<not> cfg_nocomp (ss_config a) \<rparr> t (handle_frames lib fs b)"
proof -
  let ?v = "cfg_smuxver (ss_config a)"
  let ?frames = "map (frame_bytes ?v) fs"
  have v: "cfg_smuxver (ss_config b) = ?v" and c: "cfg_nocomp (ss_config b) = cfg_nocomp (ss_config a)"
    and rb: "ss_receive_buffer b = []"
    and d: "ss_decompressor b = \<lparr> sd_buffer = [], sd_saw_identifier = ss_wrote_identifier a \<and> \<not> cfg_nocomp (ss_config a) \<rparr>"
    using p by (simp_all add: paired_def)
  have loop: "frame_loop ?v () (concat ?frames) = Inr ((), fs, [])" by (rule frame_loop_frames [OF fs])
  have none: "frame_step ?v () [] = None" by (simp add: frame_step_def next_frame_def smux_header_size_def)
  show ?thesis
  proof (cases "cfg_nocomp (ss_config a)")
    case True
    then have "concat (map snd reads) = concat ?frames" using reads by (simp add: wire_def Let_def)
    then show ?thesis
      using receive_plain [of b reads fs "[]" lib] True loop none fit open_b c v rb d
      by (simp add: reads_fit_def)
  next
    case False
    let ?w = "ss_wrote_identifier a"
    obtain pieces where ps: "concat pieces = concat ?frames"
      "snappy_decode_list (sl_uncompress lib) (map snd reads) \<lparr> sd_buffer = [], sd_saw_identifier = ?w \<rparr> =
       Inr (pieces, \<lparr> sd_buffer = [], sd_saw_identifier = ?w \<or> ?frames \<noteq> [] \<rparr>)"
      using decode_wire [of "sl_uncompress lib" "sl_compress lib" "map snd reads" ?frames ?w, OF unc] reads False
      by (auto simp: wire_def Let_def)
    have "snappy_idle (sl_uncompress lib) \<lparr> sd_buffer = [], sd_saw_identifier = ?w \<rparr>"
      by (simp add: snappy_idle_def snappy_step_def)
    then show ?thesis
      using receive_compressed [of b lib reads pieces _ fs "[]"] False loop none fit open_b c v rb d ps
      by (simp add: reads_fit_def)
  qed
qed

section \<open>Properties\<close>

text \<open>C4: The frame channel between two sessions is lossless: for settings that agree and a
  Snappy codec that restores its blocks, the frames one session sends, compressed or not,
  are the frames the other one handles, in the same order, however the transport cuts the
  bytes into reads (as long as the receive buffer has room for them); afterwards the pair
  is in step again.\<close>

theorem smux_frames_delivered:
  assumes "\<forall>x. sl_uncompress lib (sl_compress lib x) = Some x"
    and "paired a b" "\<not> ss_closed a" "\<not> ss_closed b"
    and "\<forall>f \<in> set fs. frame_allowed (cfg_smuxver (ss_config a)) f"
    and "map Transport_send sends = drop (length (ss_effects a)) (ss_effects (send_frames lib fs a))"
    and "concat (map snd reads) = concat sends"
    and "int (length (concat (map (frame_bytes (cfg_smuxver (ss_config a))) fs))) \<le> max 1 (cfg_smuxbuf (ss_config b))"
  shows "(\<exists>d t. receive lib reads b = with_input [] d t (handle_frames lib fs b)) \<and>
    paired (send_frames lib fs a) (receive lib reads b)"
proof -
  have "\<forall>(c, sid, p) \<in> set fs. length p \<le> 65535" using assms(5) by (auto simp: frame_allowed_def)
  note send = send_frames_eq [OF assms(3) this, of lib]
  have "map Transport_send sends = map Transport_send (wire lib fs a)" using assms(6) by (simp add: send)
  then have "sends = wire lib fs a" by (simp add: inj_map_eq_map inj_def)
  then obtain t where t: "receive lib reads b = with_input [] \<lparr> sd_buffer = [], sd_saw_identifier =
      (ss_wrote_identifier a \<or> fs \<noteq> []) \<and> \<not> cfg_nocomp (ss_config a) \<rparr> t (handle_frames lib fs b)"
    using sent_frames_received [of lib a b fs reads] assms by auto
  moreover have "paired (send_frames lib fs a) (receive lib reads b)"
    using assms(2) by (auto simp: paired_def t send)
  ultimately show ?thesis by blast
qed

text \<open>Two sessions of the default configuration, compression on, byte-wise delivery.\<close>

definition toy_smux_lib :: smux_lib where
  "toy_smux_lib = \<lparr> sl_compress = toy_compress, sl_uncompress = toy_uncompress, sl_qpp = toy_qpp_lib \<rparr>"

lemma toy_smux_unc: "sl_uncompress toy_smux_lib (sl_compress toy_smux_lib x) = Some x"
  by (simp add: toy_smux_lib_def toy_roundtrip)

lemma default_sessions:
  obtains s where "make_smux_session lib (base_defaults ()) client ch now = Inr s" "\<not> ss_closed s" "ss_alive s"
    "ss_config s = base_defaults ()" "ss_wrote_identifier s = False" "ss_receive_buffer s = []"
    "ss_decompressor s = new_snappy_decoder" "ss_qpp_pad s = None" "ss_effects s = []" "ss_objects s = []"
    "ss_streams s = []"
  by (simp add: make_smux_session_def base_defaults_def)

lemma smux_frames_delivered_witness:
  "\<exists>a b reads d t. make_smux_session toy_smux_lib (base_defaults ()) True False 0 = Inr a \<and>
     make_smux_session toy_smux_lib (base_defaults ()) False False 0 = Inr b \<and>
     receive toy_smux_lib reads b =
       with_input [] d t (handle_frames toy_smux_lib [(Cmd_syn, 3, []), (Cmd_psh, 3, [1, 2])] b)"
proof -
  let ?lib = toy_smux_lib and ?fs = "[(Cmd_syn, 3, []), (Cmd_psh, 3, [1, 2])] :: frame list"
  obtain a where a: "make_smux_session ?lib (base_defaults ()) True False 0 = Inr a" "\<not> ss_closed a"
    "ss_config a = base_defaults ()" "ss_wrote_identifier a = False" "ss_effects a = []"
    by (rule default_sessions)
  obtain b where b: "make_smux_session ?lib (base_defaults ()) False False 0 = Inr b" "\<not> ss_closed b"
    "ss_config b = base_defaults ()" "ss_receive_buffer b = []" "ss_decompressor b = new_snappy_decoder"
    by (rule default_sessions)
  let ?reads = "map (\<lambda>x. (5, [x])) (concat (wire ?lib ?fs a))"
  have "paired a b"
    using a b by (simp add: paired_def new_snappy_decoder_def)
  moreover have "\<forall>f \<in> set ?fs. frame_allowed (cfg_smuxver (ss_config a)) f" by (simp add: frame_allowed_def)
  moreover have "map Transport_send (wire ?lib ?fs a) = drop (length (ss_effects a)) (ss_effects (send_frames ?lib ?fs a))"
    using a by (simp add: send_frames_eq)
  moreover have "concat (map snd ?reads) = concat (wire ?lib ?fs a)" by (simp add: comp_def concat_map_singleton)
  moreover have "int (length (concat (map (frame_bytes (cfg_smuxver (ss_config a))) ?fs))) \<le> max 1 (cfg_smuxbuf (ss_config b))"
    by (simp add: b frame_bytes_def smux_header_size_def base_defaults_def)
  ultimately obtain d t where "receive ?lib ?reads b = with_input [] d t (handle_frames ?lib ?fs b)"
    using smux_frames_delivered [of ?lib a b ?fs "wire ?lib ?fs a" ?reads] a(2) b(2) toy_smux_unc by blast
  with a(1) b(1) show ?thesis by blast
qed

end
