(* ===== verification/Smux_Flow.thy ===== *)
theory Smux_Flow
  imports Smux_Frames
begin

text \<open>
  The data path of a stream. The abstract view of the sending side is a queue of bytes
  (\<open>outbound\<close>); \<open>try_flush_outbound\<close> takes a prefix off it, as long as the window of the
  peer allows, and the peer's \<open>on_data\<close> puts the same bytes, in the same order, into the
  queue of writes to its socket. The receiver's updates keep the window from closing for
  good.
\<close>

section \<open>Flushing as a queue operation\<close>

definition outbound :: "smux_stream \<Rightarrow> bytes" where
  "outbound st = concat (map (\<lambda>(data, off). drop off data) (sm_pending_outbound st))"

definition psh_frames :: "u32 \<Rightarrow> bytes list \<Rightarrow> frame list" where
  "psh_frames sid ps = map (\<lambda>p. (Cmd_psh, sid, p)) ps"

lemma qs_encrypt_if: "(if qpp_enabled q then qs_encrypt x q else (x, q)) = qs_encrypt x q"
  by (auto simp: qpp_enabled_def qs_encrypt_def)

lemma send_frames_Cons: "send_frames lib ((c, sid, p) # fs) s = send_frames lib fs (send_frame lib c sid p s)"
  by (simp add: send_frames_def)

lemmas send_frame_static [simp] = static_fields [OF session_part_send_frame]

text \<open>Sending \<open>n\<close> bytes of a positive window leaves the rest of the window, or none.\<close>

lemma window_after_send:
  assumes "0 < int n" "int n \<le> available_peer_window st"
  shows "available_peer_window (st \<lparr> sm_num_written := sm_num_written st + of_nat n \<rparr>)
       \<in> {0, available_peer_window st - int n}"
proof -
  let ?i = "sm_num_written st - sm_peer_consumed st"
  have w: "available_peer_window st = int (unat (sm_peer_window st)) - int (unat ?i)"
    using assms by (auto simp: available_peer_window_def Let_def split: if_splits)
  have n: "unat ?i + n < 4294967296" using assms w unat_u32_less [of "sm_peer_window st"] by linarith
  have e: "sm_num_written st + of_nat n - sm_peer_consumed st = ?i + of_nat n" by simp
  have sum: "int (unat (?i + of_nat n)) = int (unat ?i) + int n"
    using n by (simp add: unat_word_ariths unsigned_of_nat take_bit_eq_mod del: int_nat_eq uint_nat)
  have "available_peer_window (st \<lparr> sm_num_written := sm_num_written st + of_nat n \<rparr>) =
      (if sint (?i + of_nat n) < 0 then 0 else int (unat (sm_peer_window st)) - int (unat (?i + of_nat n)))"
    unfolding e [symmetric] by (simp add: available_peer_window_def Let_def)
  then show ?thesis unfolding w sum by simp
qed

lemma window_sum: "m \<le> max 0 a' \<Longrightarrow> a' \<in> {0, a - n} \<Longrightarrow> n \<le> a \<Longrightarrow> n + m \<le> max 0 (a :: int)"
  by auto

lemma available_peer_window_qpp [simp]:
  "available_peer_window (st \<lparr> sm_qpp := q \<rparr>) = available_peer_window st"
  "available_peer_window (st \<lparr> sm_pending_outbound := p \<rparr>) = available_peer_window st"
  by (simp_all add: available_peer_window_def Let_def)

definition flushed :: "smux_lib \<Rightarrow> smux_stream \<Rightarrow> smux_session \<Rightarrow> bytes list \<Rightarrow> smux_stream \<Rightarrow> smux_session \<Rightarrow> bool" where
  "flushed lib st s pieces st' s' \<longleftrightarrow>
     outbound st = concat pieces @ outbound st' \<and>
     st' = st \<lparr> sm_qpp := snd (through qs_encrypt pieces (sm_qpp st)),
               sm_pending_outbound := sm_pending_outbound st',
               sm_num_written := sm_num_written st + of_nat (length (concat pieces)) \<rparr> \<and>
     s' = send_frames lib (psh_frames (sm_id st) (fst (through qs_encrypt pieces (sm_qpp st)))) s \<and>
     (\<forall>p \<in> set pieces. p \<noteq> [] \<and> int (length p) \<le> max 1 (frame_size s) \<and>
        (\<exists>(data, off) \<in> set (sm_pending_outbound st). length p \<le> length data)) \<and>
     (\<forall>(data, off) \<in> set (sm_pending_outbound st'). \<exists>off'. (data, off') \<in> set (sm_pending_outbound st)) \<and>
     (version s = 2 \<longrightarrow> int (length (concat pieces)) \<le> max 0 (available_peer_window st))"

lemma flushed_nil: "flushed lib st s [] st s"
  by (auto simp: flushed_def psh_frames_def send_frames_def)

lemma flushed_pop:
  assumes "sm_pending_outbound st = (data, off) # rest" "length data \<le> off"
    and "flushed lib (st \<lparr> sm_pending_outbound := rest \<rparr>) s pieces st' s'"
  shows "flushed lib st s pieces st' s'"
  using assms unfolding flushed_def by (auto simp: outbound_def)

lemma flushed_chunk:
  assumes pend: "sm_pending_outbound st = (data, off) # rest" and n: "off + n \<le> length data" "0 < n"
    and size: "int n \<le> max 1 (frame_size s)"
    and win: "version s = 2 \<Longrightarrow> int n \<le> available_peer_window st"
    and send: "send_chunk lib data off rest n st s = (st1, s1)"
    and rec: "flushed lib st1 s1 pieces st' s'"
  shows "flushed lib st s (take n (drop off data) # pieces) st' s'"
proof -
  let ?x = "take n (drop off data)"
  obtain y q where q: "qs_encrypt ?x (sm_qpp st) = (y, q)" by fastforce
  have st1: "st1 = st \<lparr> sm_qpp := q, sm_pending_outbound := (data, off + n) # rest,
      sm_num_written := sm_num_written st + of_nat n \<rparr>"
    and s1: "s1 = send_frame lib Cmd_psh (sm_id st) y s"
    using send q by (auto simp: send_chunk_def qs_encrypt_if Let_def)
  have len: "length ?x = n" using n by simp
  have same: "version s1 = version s" "frame_size s1 = frame_size s"
    by (simp_all add: s1 version_def frame_size_def)
  have out: "outbound st = ?x @ outbound st1"
    by (simp add: outbound_def pend st1) (metis append.assoc append_take_drop_id drop_drop add.commute)
  have aw: "available_peer_window st1 = available_peer_window (st \<lparr> sm_num_written := sm_num_written st + of_nat n \<rparr>)"
    by (simp add: st1 available_peer_window_def Let_def)
  have window: "int (n + length (concat pieces)) \<le> max 0 (available_peer_window st)" if "version s = 2"
  proof -
    have "int (length (concat pieces)) \<le> max 0 (available_peer_window st1)"
      using rec that by (simp add: flushed_def same)
    moreover have "available_peer_window st1 \<in> {0, available_peer_window st - int n}"
      unfolding aw using window_after_send [of n st] win [OF that] n(2) by simp
    ultimately show ?thesis using window_sum [OF _ _ win [OF that]] by simp
  qed
  have "st' = st \<lparr> sm_qpp := snd (through qs_encrypt (?x # pieces) (sm_qpp st)),
               sm_pending_outbound := sm_pending_outbound st',
               sm_num_written := sm_num_written st + of_nat (length (concat (?x # pieces))) \<rparr>"
    using rec len unfolding flushed_def st1 by (auto simp: q Let_def split_def add.assoc intro!: smux_stream.equality)
  moreover have "s' = send_frames lib (psh_frames (sm_id st) (fst (through qs_encrypt (?x # pieces) (sm_qpp st)))) s"
    using rec unfolding flushed_def st1 s1 by (simp add: q Let_def split_def psh_frames_def send_frames_Cons)
  moreover have "\<forall>p \<in> set (?x # pieces). p \<noteq> [] \<and> int (length p) \<le> max 1 (frame_size s) \<and>
        (\<exists>(data, off) \<in> set (sm_pending_outbound st). length p \<le> length data)"
    using rec n size len by (auto simp: flushed_def same st1 pend)
  moreover have "\<forall>(data, off) \<in> set (sm_pending_outbound st'). \<exists>off'. (data, off') \<in> set (sm_pending_outbound st)"
    using rec by (fastforce simp: flushed_def st1 pend)
  moreover have "version s = 2 \<longrightarrow> int (length (concat (?x # pieces))) \<le> max 0 (available_peer_window st)"
    using window len by simp
  moreover have "outbound st = concat (?x # pieces) @ outbound st'"
    using rec out by (simp add: flushed_def)
  ultimately show ?thesis unfolding flushed_def by blast
qed

lemma flush_loop_flushed:
  assumes "flush_loop lib st s = (st', s')"
  shows "\<exists>pieces. flushed lib st s pieces st' s' \<and> flush_round lib st' s' = None"
  using assms
proof (induction "flush_measure st" arbitrary: st s rule: less_induct)
  case less
  show ?case
  proof (cases "flush_round lib st s")
    case None
    then show ?thesis using less(2) flushed_nil by (auto simp: flush_loop.simps [of lib st])
  next
    case (Some r)
    obtain st1 s1 where r: "r = (st1, s1)" by (cases r)
    note round = Some [unfolded r]
    have "flush_loop lib st1 s1 = (st', s')" using less(2) round by (simp add: flush_loop.simps [of lib st])
    then obtain pieces where p: "flushed lib st1 s1 pieces st' s'" "flush_round lib st' s' = None"
      using less(1) [OF flush_round_progress [OF round]] by blast
    from round show ?thesis
    proof (cases rule: flush_round_cases)
      case (pop data off rest)
      then show ?thesis using flushed_pop p by blast
    next
      case (chunk data off rest n)
      then show ?thesis using flushed_chunk [OF chunk(1-5) _ p(1)] p(2) by blast
    qed
  qed
qed

text \<open>When the loop stops, nothing is left or the window is used up.\<close>

lemma flush_round_None:
  "flush_round lib st s = None \<Longrightarrow> sm_pending_outbound st = [] \<or> version s = 2 \<and> available_peer_window st \<le> 0"
  by (auto simp: flush_round_def Let_def split: list.splits prod.splits if_splits)

section \<open>The receiving side\<close>

lemma stream_at_put [simp]:
  "h < length (ss_objects s) \<Longrightarrow> stream_at (put_stream h st s) k = (if k = h then st else stream_at s k)"
  by (simp add: stream_at_def put_stream_def)

lemma stream_at_emit [simp]: "stream_at (emit e s) k = stream_at s k"
  by (simp add: stream_at_def)

lemma put_put_stream [simp]: "put_stream h st (put_stream h st' s) = put_stream h st s"
  by (simp add: put_stream_def)

lemma streams_put [simp]: "ss_streams (put_stream h st s) = ss_streams s"
  by (simp add: put_stream_def)

text \<open>What \<open>on_data\<close> does to its stream.\<close>

lemma on_data_stream:
  assumes "h < length (ss_objects s)" "\<not> sm_closed (stream_at s h)" "p \<noteq> []"
  shows "\<exists>active. stream_at (on_data h p s) h = (stream_at s h)
      \<lparr> sm_qpp := snd (qs_decrypt p (sm_qpp (stream_at s h))),
        sm_pending_tcp_writes := sm_pending_tcp_writes (stream_at s h) @ [fst (qs_decrypt p (sm_qpp (stream_at s h)))],
        sm_tcp_write_active := active \<rparr>"
    and "ss_streams (on_data h p s) = ss_streams s"
  using assms
  by (auto simp: on_data_def enqueue_tcp_write_def flush_tcp_writes_def Let_def split_def
      intro!: exI [of _ "sm_tcp_ready (stream_at s h) \<or> sm_tcp_write_active (stream_at s h)"] smux_stream.equality)

lemma handle_psh_frames:
  assumes "map_of (ss_streams s) sid = Some h" "h < length (ss_objects s)" "\<not> sm_closed (stream_at s h)"
    and "[] \<notin> set ps"
  shows "\<exists>active. stream_at (handle_frames lib (psh_frames sid ps) s) h = (stream_at s h)
      \<lparr> sm_qpp := snd (through qs_decrypt ps (sm_qpp (stream_at s h))),
        sm_pending_tcp_writes := sm_pending_tcp_writes (stream_at s h) @ fst (through qs_decrypt ps (sm_qpp (stream_at s h))),
        sm_tcp_write_active := active \<rparr>"
  using assms
proof (induction ps arbitrary: s)
  case Nil
  then show ?case
    by (intro exI [of _ "sm_tcp_write_active (stream_at s h)"]) (simp add: psh_frames_def)
next
  case (Cons p ps)
  let ?s = "on_data h p s"
  have p: "p \<noteq> []" using Cons(5) by auto
  note one = on_data_stream [OF Cons(3,4) p]
  have "handle_frames lib (psh_frames sid (p # ps)) s = handle_frames lib (psh_frames sid ps) ?s"
    using Cons(2) by (simp add: psh_frames_def handle_frame_def)
  moreover have open_s: "\<not> sm_closed (stream_at ?s h)" using one(1) Cons(4) by auto
  moreover have "[] \<notin> set ps" using Cons(5) by simp
  ultimately show ?case
    using Cons.IH [of ?s, OF _ _ open_s] one Cons(2,3) by (auto simp: Let_def split_def)
qed

section \<open>Ciphers in step\<close>

context byte_stream_cipher begin

lemma fragments_state:
  assumes "concat reads = concat (fst (through enc writes s))"
  shows "snd (through dec reads s) = snd (through enc writes s)"
  using dec_enc [OF enc.through_concat, of writes s] dec.through_concat [of reads s] by (simp add: assms)

end

lemma qs_in_step:
  assumes "qs_pad r = qs_pad q" "pad_or_plain (qs_pad q)" "qs_read_rand r = qs_write_rand q"
  shows "concat (fst (through qs_decrypt (fst (through qs_encrypt pieces q)) r)) = concat pieces"
    and "qs_read_rand (snd (through qs_decrypt (fst (through qs_encrypt pieces q)) r)) =
      qs_write_rand (snd (through qs_encrypt pieces q))"
  using byte_stream_cipher.fragments_roundtrip [OF qpp_cipher [OF assms(2)]]
    byte_stream_cipher.fragments_state [OF qpp_cipher [OF assms(2)]] assms(1,3)
  by (simp_all add: through_qs_encrypt [of pieces q] through_qs_decrypt [of _ r])

lemma length_qpp_encrypt: "length (fst (qpp_encrypt pad xs rand)) = length xs"
  by (induction pad xs rand rule: qpp_encrypt.induct) (auto simp: Let_def split: prod.splits)

lemma length_qs_encrypt: "length (fst (qs_encrypt xs q)) = length xs"
  using length_qpp_encrypt by (auto simp: qs_encrypt_def split: option.split prod.split) (metis fst_conv)

lemma through_qs_encrypt_lengths: "map length (fst (through qs_encrypt xss q)) = map length xss"
  by (induction xss arbitrary: q) (auto simp: Let_def split_def length_qs_encrypt)

lemma piece_sizes:
  assumes "y \<in> set ys" "map length ys = map length pieces" "flushed lib st s pieces st' s'"
    and "\<forall>(data, off) \<in> set (sm_pending_outbound st). length data \<le> n"
  shows "length y \<le> n \<and> y \<noteq> []"
proof -
  have "length y \<in> set (map length pieces)" using assms(1) by (simp flip: assms(2))
  then obtain p where "p \<in> set pieces" "length p = length y" by auto
  then show ?thesis using assms(3,4) by (fastforce simp: flushed_def)
qed

lemma psh_frames_size:
  assumes "[] \<notin> set ys"
  shows "length (concat (map (frame_bytes v) (psh_frames sid ys))) \<le> 9 * length (concat ys)"
  using assms
proof (induction ys)
  case (Cons y ys)
  then have "0 < length y" by (cases y) auto
  moreover have "length (concat (map (frame_bytes v) (psh_frames sid (y # ys)))) =
      8 + length y + length (concat (map (frame_bytes v) (psh_frames sid ys)))"
    by (simp add: psh_frames_def frame_bytes_def smux_header_size_def)
  moreover have "length (concat (map (frame_bytes v) (psh_frames sid ys))) \<le> 9 * length (concat ys)"
    using Cons by simp
  ultimately show ?case by (simp only: concat.simps length_append distrib_left)
qed (simp add: psh_frames_def)

section \<open>Updates\<close>

definition upd_frame :: "u32 \<Rightarrow> u32 \<times> u32 \<Rightarrow> frame" where
  "upd_frame sid u = (case u of (consumed, window) \<Rightarrow> (Cmd_upd, sid, le32_bytes consumed @ le32_bytes window))"

lemma send_update_eq: "send_update lib sid c w = (\<lambda>s. send_frames lib [upd_frame sid (c, w)] s)"
proof -
  have z: "replicate smux_update_size (0 :: byte) = [0, 0, 0, 0] @ [0, 0, 0, 0]"
    by (simp add: smux_update_size_def numeral_eq_Suc)
  have "write_le32 (write_le32 (replicate smux_update_size 0) 0 c) 4 w = le32_bytes c @ le32_bytes w"
    unfolding z by (simp add: write_le32_def memcpy_def le32_bytes_def)
  then show ?thesis by (simp add: send_update_def send_frames_def upd_frame_def)
qed

lemma upd_frame_read:
  "read_le32 (le32_bytes c @ le32_bytes w) 0 = c" "read_le32 (le32_bytes c @ le32_bytes w) 4 = w"
  using le32.dec_front [where v = c and post = "le32_bytes w"]
    le32.dec_after [where v = w and pre = "le32_bytes c" and n = 4 and post = "[]"]
  by simp_all

text \<open>A sequence of finished socket writes of the given sizes.\<close>

definition consume_all :: "smux_lib \<Rightarrow> nat \<Rightarrow> nat list \<Rightarrow> smux_session \<Rightarrow> smux_session" where
  "consume_all lib h ns s = foldl (\<lambda>s n. mark_payload_consumed lib h n s) s ns"

definition update_threshold :: "smux_session \<Rightarrow> nat" where
  "update_threshold s = nat (max 1 (stream_buffer s div 2))"

text \<open>One finished write sends no update or one, and moves the counters accordingly.\<close>

lemma mark_payload_consumed_cases:
  fixes lib :: smux_lib
  assumes "h < length (ss_objects s)" "ss_alive s" "version s = 2" "0 < n" "n < 65536"
    and "int_range (stream_buffer s)" "unat (sm_incr (stream_at s h)) < update_threshold s"
  defines "st \<equiv> stream_at s h" and "s' \<equiv> mark_payload_consumed lib h n s"
    and "w \<equiv> word_of_int (max 1 (stream_buffer s)) :: u32"
  obtains (quiet) "s' = put_stream h (stream_at s' h) s"
      "sm_num_read (stream_at s' h) = sm_num_read st + of_nat n"
      "sm_incr (stream_at s' h) = sm_incr st + of_nat n" "unat (sm_incr (stream_at s' h)) < update_threshold s"
    | (update) "s' = put_stream h (stream_at s' h) (send_frames lib [upd_frame (sm_id st) (sm_num_read st + of_nat n, w)] s)"
      "sm_num_read (stream_at s' h) = sm_num_read st + of_nat n" "sm_incr (stream_at s' h) = 0"
proof -
  let ?thr = "word_of_int (max 1 (stream_buffer s div 2)) :: u32"
  let ?st = "st \<lparr> sm_num_read := sm_num_read st + of_nat n, sm_incr := sm_incr st + of_nat n \<rparr>"
  have range: "stream_buffer s < 2 ^ 31" using assms(6) by (simp add: int_range_def)
  then have "0 \<le> max 1 (stream_buffer s div 2)" "max 1 (stream_buffer s div 2) < 2 ^ 32" by auto
  then have thr: "unat ?thr = update_threshold s"
    unfolding update_threshold_def by (simp add: unat_eq_nat_uint uint_word_of_int)
  show thesis
  proof (cases "?thr \<le> sm_incr ?st \<or> sm_num_read ?st = of_nat n")
    case True
    then have "s' = put_stream h (?st \<lparr> sm_incr := 0 \<rparr>) (send_update lib (sm_id st) (sm_num_read ?st) w s)"
      using assms(1-4) by (auto simp: s'_def mark_payload_consumed_def st_def w_def Let_def)
    then show thesis using assms(1) by (intro update) (simp_all add: send_update_eq send_frames_def upd_frame_def)
  next
    case False
    then have s': "s' = put_stream h ?st s"
      using assms(1-4) by (auto simp: s'_def mark_payload_consumed_def st_def Let_def)
    have "unat (sm_incr st + of_nat n) < update_threshold s"
      using False thr by (simp add: word_less_nat_alt not_le)
    then show thesis using assms(1) s' by (intro quiet) simp_all
  qed
qed

lemma send_frames_append: "send_frames lib (fs @ gs) s = send_frames lib gs (send_frames lib fs s)"
  by (simp add: send_frames_def)

lemma session_part_send_frames [simp]: "session_part (send_frames lib fs s) = session_part s"
  by (induction fs arbitrary: s) (auto simp: send_frames_def)

lemmas send_frames_static [simp] = static_fields [OF session_part_send_frames]

lemma objects_send_frames [simp]:
  "ss_objects (send_frames lib fs s) = ss_objects s" "ss_streams (send_frames lib fs s) = ss_streams s"
  by (induction fs arbitrary: s) (auto simp: send_frames_def)

lemma put_send_frame: "send_frame lib c sid p (put_stream h st s) = put_stream h st (send_frame lib c sid p s)"
  by (simp add: send_frame_eq frame_chunks_def put_stream_def Let_def)

lemma put_send_frames: "send_frames lib fs (put_stream h st s) = put_stream h st (send_frames lib fs s)"
  by (induction fs arbitrary: s) (auto simp: send_frames_def put_send_frame)

lemma stream_at_send_frames [simp]: "stream_at (send_frames lib fs s) h = stream_at s h"
  by (simp add: stream_at_def)

lemmas put_stream_static [simp] = static_fields [OF session_part_put_stream]

lemma put_stream_same: "put_stream h (stream_at s h) s = s"
  by (simp add: put_stream_def stream_at_def)

lemma mark_payload_consumed_id [simp]:
  "h < length (ss_objects s) \<Longrightarrow> sm_id (stream_at (mark_payload_consumed lib h n s) h) = sm_id (stream_at s h)"
  by (simp add: mark_payload_consumed_def send_update_eq Let_def)

text \<open>
  The last announcement \<open>u\<close> (the total and the window): the total is behind \<open>num_read\<close> by
  \<open>incr\<close>, which stays under the threshold; before the first one nothing has been read.
\<close>

definition announced :: "smux_session \<Rightarrow> nat \<Rightarrow> u32 \<times> u32 \<Rightarrow> bool" where
  "announced s h u \<longleftrightarrow> (let st = stream_at s h in
     unat (sm_incr st) < update_threshold s \<and> sm_num_read st - sm_incr st = fst u \<and>
     (snd u = word_of_int (max 1 (stream_buffer s)) \<or>
      sm_num_read st = 0 \<and> sm_incr st = 0 \<and> u = (0, 262144)))"

lemma update_threshold_pos: "0 < update_threshold s"
  by (simp add: update_threshold_def)

lemma mark_announced:
  assumes "h < length (ss_objects s)" "ss_alive s" "version s = 2" "0 < n" "n < 65536"
    and "int_range (stream_buffer s)" "announced s h u"
  shows "\<exists>us. mark_payload_consumed lib h n s = put_stream h (stream_at (mark_payload_consumed lib h n s) h)
        (send_frames lib (map (upd_frame (sm_id (stream_at s h))) us) s) \<and>
     announced (mark_payload_consumed lib h n s) h (last (u # us)) \<and>
     sm_num_read (stream_at (mark_payload_consumed lib h n s) h) = sm_num_read (stream_at s h) + of_nat n"
proof -
  let ?s = "mark_payload_consumed lib h n s"
  have same: "update_threshold ?s = update_threshold s" "stream_buffer ?s = stream_buffer s"
    using static_fields(1) [OF stream_opD(1) [OF stream_op_mark_payload_consumed]]
    by (simp_all add: update_threshold_def stream_buffer_def)
  have "unat (sm_incr (stream_at s h)) < update_threshold s" using assms(7) by (simp add: announced_def Let_def)
  from assms(1-6) this show ?thesis
  proof (cases rule: mark_payload_consumed_cases [where lib = lib])
    case quiet
    have "sm_num_read (stream_at s h) = 0 \<longrightarrow> snd u = word_of_int (max 1 (stream_buffer s))"
    proof
      assume zero: "sm_num_read (stream_at s h) = 0"
      show "snd u = word_of_int (max 1 (stream_buffer s))"
      proof (rule ccontr)
        assume no: "snd u \<noteq> word_of_int (max 1 (stream_buffer s))"
        have upd: "sm_num_read (stream_at s h) + of_nat n = of_nat n" using zero by simp
        have "sm_incr (stream_at ?s h) = 0"
          using assms(1-4) upd by (simp add: mark_payload_consumed_def send_update_eq Let_def)
        moreover have "sm_incr (stream_at s h) = 0" using no assms(7) by (simp add: announced_def Let_def)
        ultimately have "(of_nat n :: u32) = 0" using quiet(3) by simp
        then have "unat (of_nat n :: u32) = 0" by simp
        then show False using assms(4,5) unat_of_nat_lt [of n, where 'a = 32] by simp
      qed
    qed
    then show ?thesis
      using quiet assms(7)
      by (intro exI [of _ "[]"]) (auto simp: announced_def Let_def same send_frames_def)
  next
    case update
    then show ?thesis
      by (intro exI [of _ "[(sm_num_read (stream_at s h) + of_nat n, word_of_int (max 1 (stream_buffer s)))]"])
        (simp add: announced_def Let_def same update_threshold_pos)
  qed
qed

lemma consume_all_updates:
  assumes "h < length (ss_objects s)" "ss_alive s" "version s = 2" "\<forall>n \<in> set ns. 0 < n \<and> n < 65536"
    and "int_range (stream_buffer s)" "announced s h u"
  shows "\<exists>us. consume_all lib h ns s = put_stream h (stream_at (consume_all lib h ns s) h)
        (send_frames lib (map (upd_frame (sm_id (stream_at s h))) us) s) \<and>
     announced (consume_all lib h ns s) h (last (u # us)) \<and>
     sm_num_read (stream_at (consume_all lib h ns s) h) = sm_num_read (stream_at s h) + of_nat (sum_list ns)"
  using assms
proof (induction ns arbitrary: s u)
  case Nil
  then show ?case by (intro exI [of _ "[]"]) (simp add: consume_all_def send_frames_def put_stream_same)
next
  case (Cons n ns)
  let ?s = "mark_payload_consumed lib h n s"
  let ?t = "consume_all lib h ns ?s"
  have step: "consume_all lib h (n # ns) s = ?t" by (simp add: consume_all_def)
  obtain us where us: "?s = put_stream h (stream_at ?s h) (send_frames lib (map (upd_frame (sm_id (stream_at s h))) us) s)"
    "announced ?s h (last (u # us))" "sm_num_read (stream_at ?s h) = sm_num_read (stream_at s h) + of_nat n"
    using mark_announced [OF Cons(2-4) _ _ Cons(6,7), of n lib] Cons(5) by auto
  have same: "ss_alive ?s = ss_alive s" "version ?s = version s" "stream_buffer ?s = stream_buffer s"
    using static_fields(1,11) [OF stream_opD(1) [OF stream_op_mark_payload_consumed]]
    by (simp_all add: version_def stream_buffer_def)
  obtain vs where vs: "?t = put_stream h (stream_at ?t h) (send_frames lib (map (upd_frame (sm_id (stream_at ?s h))) vs) ?s)"
    "announced ?t h (last (last (u # us) # vs))"
    "sm_num_read (stream_at ?t h) = sm_num_read (stream_at ?s h) + of_nat (sum_list ns)"
    using Cons.IH [of ?s "last (u # us)"] us(2) Cons(2-6) same by auto
  have "?t = put_stream h (stream_at ?t h) (send_frames lib (map (upd_frame (sm_id (stream_at s h))) (us @ vs)) s)"
    using vs(1) Cons(2) unfolding map_append send_frames_append
    by (subst (asm) (4) us(1)) (simp add: put_send_frames)
  moreover have "last (u # us @ vs) = last (last (u # us) # vs)" by simp
  ultimately show ?case
    unfolding step using vs(2,3) us(3) by (intro exI [of _ "us @ vs"]) (simp add: add.assoc)
qed

text \<open>A sender that has heard the last announcement, for a peer that has read everything.\<close>

lemma announced_window_open:
  assumes "announced s h u" "int_range (stream_buffer s)"
    and "(sm_peer_consumed st, sm_peer_window st) = u" "sm_num_written st = sm_num_read (stream_at s h)"
  shows "0 < available_peer_window st"
proof -
  let ?r = "stream_at s h"
  have flight: "sm_num_written st - sm_peer_consumed st = sm_incr ?r"
    using assms(1,3,4) by (auto simp: announced_def Let_def algebra_simps)
  have range: "stream_buffer s < 2 ^ 31" using assms(2) by (simp add: int_range_def)
  have incr: "unat (sm_incr ?r) < update_threshold s" using assms(1) by (simp add: announced_def Let_def)
  moreover have "stream_buffer s div 2 \<le> 1073741824" using range by auto
  then have "update_threshold s \<le> 1073741824" by (simp add: update_threshold_def)
  ultimately have "unat (sm_incr ?r) < 2147483648" by linarith
  then have "int (unat (sm_incr ?r)) < 2147483648" by (simp only: of_nat_less_numeral_iff)
  then have "uint (sm_incr ?r) < 2 ^ 31" by simp
  then have "sint (sm_incr ?r) = uint (sm_incr ?r)"
    unfolding sint_uint by (intro signed_take_bit_int_eq_self) (simp_all add: order_trans [OF _ uint_nonnegative])
  then have "\<not> sint (sm_incr ?r) < 0" by simp
  moreover have "int (unat (sm_incr ?r)) < int (unat (sm_peer_window st))"
  proof (cases "snd u = word_of_int (max 1 (stream_buffer s))")
    case True
    then have "int (unat (sm_peer_window st)) = max 1 (stream_buffer s)"
      using assms(3) range by (auto simp: uint_word_of_int)
    moreover have "int (update_threshold s) \<le> max 1 (stream_buffer s)" by (auto simp: update_threshold_def)
    ultimately show ?thesis using incr by linarith
  next
    case False
    then show ?thesis using assms(1,3) by (auto simp: announced_def Let_def)
  qed
  ultimately show ?thesis by (simp add: available_peer_window_def Let_def flight)
qed

section \<open>Example sessions\<close>

text \<open>A session of the default configuration with one open stream that has \<open>data\<close> queued.\<close>

definition demo_session :: "bool \<Rightarrow> bytes \<Rightarrow> smux_session" where
  "demo_session client data =
     (let s = projr (make_smux_session toy_smux_lib (base_defaults ()) client False 0);
          st = make_stream toy_smux_lib 3 s
      in s \<lparr> ss_objects := [st \<lparr> sm_pending_outbound := [(data, 0)] \<rparr>], ss_streams := [(3, 0)] \<rparr>)"

lemma demo_session_fields [simp]:
  "ss_config (demo_session client data) = base_defaults ()" "\<not> ss_closed (demo_session client data)"
  "ss_alive (demo_session client data)" "length (ss_objects (demo_session client data)) = 1"
  "ss_streams (demo_session client data) = [(3, 0)]" "ss_effects (demo_session client data) = []"
  "ss_receive_buffer (demo_session client data) = []" "ss_wrote_identifier (demo_session client data) = False"
  "ss_decompressor (demo_session client data) = new_snappy_decoder"
  by (simp_all add: demo_session_def make_smux_session_def base_defaults_def Let_def)

lemma demo_stream_fields [simp]:
  "sm_id (stream_at (demo_session client data) 0) = 3" "\<not> sm_closed (stream_at (demo_session client data) 0)"
  "sm_pending_outbound (stream_at (demo_session client data) 0) = [(data, 0)]"
  "sm_num_read (stream_at (demo_session client data) 0) = 0" "sm_incr (stream_at (demo_session client data) 0) = 0"
  "sm_pending_tcp_writes (stream_at (demo_session client data) 0) = []"
  "sm_qpp (stream_at (demo_session client data) 0) =
     \<lparr> qs_pad = None, qs_write_rand = blank_rand, qs_read_rand = blank_rand \<rparr>"
  by (simp_all add: demo_session_def make_smux_session_def make_stream_def base_defaults_def Let_def stream_at_def
      make_qpp_stream_def)

lemma demo_session_version [simp]: "version (demo_session client data) = 2"
    "stream_buffer (demo_session client data) = 2 * 1024 * 1024"
  by (simp_all add: version_def stream_buffer_def base_defaults_def)

lemma demo_outbound [simp]: "outbound (stream_at (demo_session client data) 0) = data"
  by (simp add: outbound_def)

lemma send_frames_sends: "\<exists>sends. ss_effects (send_frames lib fs s) = ss_effects s @ map Transport_send sends"
proof (induction fs arbitrary: s)
  case Nil
  show ?case by (simp add: send_frames_def)
next
  case (Cons f fs)
  obtain c sid p where f: "f = (c, sid, p)" by (cases f)
  obtain xs where "ss_effects (send_frame lib c sid p s) = ss_effects s @ map Transport_send xs"
    by (cases "ss_closed s \<or> 65535 < length p") (auto simp: send_frame_eq intro: that [of "[]"])
  moreover obtain ys where "ss_effects (send_frames lib fs (send_frame lib c sid p s)) =
      ss_effects (send_frame lib c sid p s) @ map Transport_send ys" using Cons by blast
  ultimately show ?case by (intro exI [of _ "xs @ ys"]) (simp add: f send_frames_Cons)
qed

lemma flush_sends: "\<exists>sends. ss_effects (try_flush_outbound lib h s) = ss_effects s @ map Transport_send sends"
proof (cases "\<not> ss_alive s \<or> sm_closed (stream_at s h)")
  case True
  then show ?thesis by (simp add: try_flush_outbound_def)
next
  case False
  obtain st1 s1 where loop: "flush_loop lib (stream_at s h) s = (st1, s1)" by fastforce
  then obtain pieces where "flushed lib (stream_at s h) s pieces st1 s1" using flush_loop_flushed by blast
  then obtain fs where "s1 = send_frames lib fs s" unfolding flushed_def by blast
  then show ?thesis
    using send_frames_sends [of lib fs s] loop False by (simp add: try_flush_outbound_def put_stream_def)
qed

section \<open>Properties\<close>

text \<open>C15: \<open>try_flush_outbound\<close> refines taking a prefix off a byte queue: it cuts a prefix of
  the queued bytes into pieces, none empty and none longer than the frame size, sends each
  encrypted piece as one data frame in order, never sends more than the open window of a
  version 2 peer, and stops only when the queue is empty or that window is used up.\<close>

theorem flush_refines_queue:
  fixes lib :: smux_lib
  assumes "h < length (ss_objects s)" "ss_alive s" "\<not> sm_closed (stream_at s h)"
  defines "st \<equiv> stream_at s h" and "s' \<equiv> try_flush_outbound lib h s"
  shows "\<exists>pieces. outbound st = concat pieces @ outbound (stream_at s' h) \<and>
    s' = put_stream h (stream_at s' h)
      (send_frames lib (map (\<lambda>p. (Cmd_psh, sm_id st, p)) (fst (through qs_encrypt pieces (sm_qpp st)))) s) \<and>
    (\<forall>p \<in> set pieces. p \<noteq> [] \<and> int (length p) \<le> max 1 (cfg_framesize (ss_config s))) \<and>
    (version s = 2 \<longrightarrow> int (length (concat pieces)) \<le> max 0 (available_peer_window st)) \<and>
    (outbound (stream_at s' h) = [] \<or> version s = 2 \<and> available_peer_window (stream_at s' h) \<le> 0)"
proof -
  obtain st1 s1 where loop: "flush_loop lib st s = (st1, s1)" by fastforce
  then have s': "s' = put_stream h st1 s1" using assms(2,3) by (simp add: s'_def st_def try_flush_outbound_def)
  obtain pieces where p: "flushed lib st s pieces st1 s1" "flush_round lib st1 s1 = None"
    using flush_loop_flushed [OF loop] by blast
  then have s1: "s1 = send_frames lib (psh_frames (sm_id st) (fst (through qs_encrypt pieces (sm_qpp st)))) s"
    by (simp add: flushed_def)
  have "version s1 = version s" by (simp add: s1 version_def)
  moreover have at: "stream_at s' h = st1" using assms(1) by (simp add: s' s1)
  moreover have "sm_pending_outbound st1 = [] \<Longrightarrow> outbound st1 = []" by (simp add: outbound_def)
  ultimately show ?thesis
    using p flush_round_None [OF p(2)]
    by (intro exI [of _ pieces]) (auto simp: flushed_def frame_size_def psh_frames_def s' simp del: send_frames_static)
qed

lemma flush_refines_queue_witness:
  "\<exists>pieces. [7, 8, 9] = concat pieces @ outbound (stream_at (try_flush_outbound toy_smux_lib 0 (demo_session True [7, 8, 9])) 0) \<and>
     (\<forall>p \<in> set pieces. p \<noteq> [] \<and> int (length p) \<le> 8192)"
proof -
  let ?s = "demo_session True [7, 8, 9]"
  have pre: "0 < length (ss_objects ?s)" "ss_alive ?s" "\<not> sm_closed (stream_at ?s 0)" by simp_all
  obtain pieces where "outbound (stream_at ?s 0) = concat pieces @ outbound (stream_at (try_flush_outbound toy_smux_lib 0 ?s) 0)"
    "\<forall>p \<in> set pieces. p \<noteq> [] \<and> int (length p) \<le> max 1 (cfg_framesize (ss_config ?s))"
    using flush_refines_queue [OF pre] by blast
  then show ?thesis by (intro exI [of _ pieces]) (simp add: base_defaults_def)
qed

text \<open>C23: The bytes in flight stay within the window: a flush of a version 2 stream leaves
  \<open>num_written - peer_consumed\<close> (modulo 2^32) where it was or within the window the peer
  announced last.\<close>

theorem flush_respects_window:
  fixes lib :: smux_lib
  assumes "h < length (ss_objects s)" "ss_alive s" "\<not> sm_closed (stream_at s h)" "version s = 2"
  defines "st \<equiv> stream_at s h" and "st' \<equiv> stream_at (try_flush_outbound lib h s) h"
  shows "unat (sm_num_written st' - sm_peer_consumed st') \<le>
    max (unat (sm_num_written st - sm_peer_consumed st)) (unat (sm_peer_window st))"
proof -
  obtain st1 s1 where loop: "flush_loop lib st s = (st1, s1)" by fastforce
  obtain pieces where p: "flushed lib st s pieces st1 s1" using flush_loop_flushed [OF loop] by blast
  have "s1 = send_frames lib (psh_frames (sm_id st) (fst (through qs_encrypt pieces (sm_qpp st)))) s"
    using p by (simp add: flushed_def)
  then have at: "st' = st1" using assms(1-3) loop by (simp add: st'_def st_def try_flush_outbound_def)
  let ?n = "length (concat pieces)" and ?i = "sm_num_written st - sm_peer_consumed st"
  have n: "int ?n \<le> max 0 (available_peer_window st)" using p assms(4) by (simp add: flushed_def)
  have f: "st1 = st \<lparr> sm_qpp := snd (through qs_encrypt pieces (sm_qpp st)),
      sm_pending_outbound := sm_pending_outbound st1, sm_num_written := sm_num_written st + of_nat ?n \<rparr>"
    using p by (simp add: flushed_def)
  have e: "sm_num_written st1 - sm_peer_consumed st1 = ?i + of_nat ?n"
    by (subst f, subst (2) f) simp
  have window: "available_peer_window st \<le> int (unat (sm_peer_window st)) - int (unat ?i) \<or> available_peer_window st = 0"
    by (simp add: available_peer_window_def Let_def)
  show ?thesis
  proof (cases "?n = 0")
    case True
    then show ?thesis unfolding at e True by simp
  next
    case False
    then have "int (unat ?i) + int ?n \<le> int (unat (sm_peer_window st))" using n window by linarith
    then have b: "unat ?i + ?n \<le> unat (sm_peer_window st)" by linarith
    then have "unat ?i + ?n < 4294967296" using unat_u32_less [of "sm_peer_window st"] by linarith
    then have "unat (?i + of_nat ?n) = unat ?i + ?n"
      by (simp add: unat_word_ariths unsigned_of_nat take_bit_eq_mod)
    then show ?thesis unfolding at e using b by simp
  qed
qed

lemma flush_respects_window_witness:
  "let s = demo_session True [7, 8, 9]; st' = stream_at (try_flush_outbound toy_smux_lib 0 s) 0
   in unat (sm_num_written st' - sm_peer_consumed st') \<le>
     max (unat (sm_num_written (stream_at s 0) - sm_peer_consumed (stream_at s 0))) (unat (sm_peer_window (stream_at s 0)))"
  using flush_respects_window [of 0 "demo_session True [7, 8, 9]" toy_smux_lib] by (simp add: Let_def)

text \<open>The frames of a flush are allowed, and take up at most nine bytes for each one of data.\<close>

lemma flush_fits:
  assumes f: "flushed lib st s pieces st1 s1" and reads_of: "\<forall>(data, off) \<in> set (sm_pending_outbound st). length data \<le> 32 * 1024"
  defines "ys \<equiv> fst (through qs_encrypt pieces (sm_qpp st))"
  shows "[] \<notin> set ys" "\<forall>f \<in> set (psh_frames sid ys). frame_allowed v f"
    "length (concat (map (frame_bytes v) (psh_frames sid ys))) \<le> 9 * length (outbound st)"
proof -
  have lens: "map length ys = map length pieces" unfolding ys_def by (rule through_qs_encrypt_lengths)
  have small: "length y \<le> 32 * 1024 \<and> y \<noteq> []" if "y \<in> set ys" for y
    using that lens f reads_of by (rule piece_sizes)
  then show "[] \<notin> set ys" by blast
  show "\<forall>f \<in> set (psh_frames sid ys). frame_allowed v f"
    using small by (fastforce simp: psh_frames_def frame_allowed_def)
  have "length (concat (map (frame_bytes v) (psh_frames sid ys))) \<le> 9 * length (concat ys)"
    using small by (intro psh_frames_size) blast
  moreover have "length (concat ys) = length (concat pieces)" by (simp only: length_concat lens)
  moreover have "length (concat pieces) \<le> length (outbound st)" using f by (simp add: flushed_def)
  ultimately show "length (concat (map (frame_bytes v) (psh_frames sid ys))) \<le> 9 * length (outbound st)" by linarith
qed

text \<open>C5: Data sent on one stream is data delivered on its peer: when a flush of stream
  \<open>h\<close> of session \<open>a\<close> puts bytes on the transport, the session \<open>b\<close> that reads them, in any
  cuts, appends to the socket writes of the stream with the same id exactly the bytes that
  left the outbound queue, decrypted and in order; sessions and ciphers are in step again.\<close>

theorem stream_data_delivered:
  assumes lib: "\<forall>x. sl_uncompress lib (sl_compress lib x) = Some x" "qpp_documented (sl_qpp lib)"
    and ab: "paired a b" "\<not> ss_closed a" "ss_alive a" "\<not> ss_closed b"
    and a: "h < length (ss_objects a)" "\<not> sm_closed (stream_at a h)"
    and b: "map_of (ss_streams b) (sm_id (stream_at a h)) = Some k" "k < length (ss_objects b)" "\<not> sm_closed (stream_at b k)"
    and reads_of: "\<forall>(data, off) \<in> set (sm_pending_outbound (stream_at a h)). length data \<le> 32 * 1024"
    and cipher: "qs_pad (sm_qpp (stream_at b k)) = qs_pad (sm_qpp (stream_at a h))" "pad_or_plain (qs_pad (sm_qpp (stream_at a h)))"
      "qs_read_rand (sm_qpp (stream_at b k)) = qs_write_rand (sm_qpp (stream_at a h))"
    and a': "a' = try_flush_outbound lib h a"
    and sends: "map Transport_send sends = drop (length (ss_effects a)) (ss_effects a')"
    and reads: "concat (map snd reads) = concat sends" "b' = receive lib reads b"
    and room: "9 * int (length (outbound (stream_at a h))) \<le> max 1 (cfg_smuxbuf (ss_config b))"
  shows "\<exists>ds. sm_pending_tcp_writes (stream_at b' k) = sm_pending_tcp_writes (stream_at b k) @ ds \<and>
      outbound (stream_at a h) = concat ds @ outbound (stream_at a' h) \<and> paired a' b' \<and>
      qs_read_rand (sm_qpp (stream_at b' k)) = qs_write_rand (sm_qpp (stream_at a' h))"
proof -
  let ?q = "sm_qpp (stream_at a h)" and ?sid = "sm_id (stream_at a h)" and ?v = "cfg_smuxver (ss_config a)"
  obtain st1 s1 where loop: "flush_loop lib (stream_at a h) a = (st1, s1)" by fastforce
  obtain pieces where p: "flushed lib (stream_at a h) a pieces st1 s1" using flush_loop_flushed [OF loop] by blast
  define ys where "ys = fst (through qs_encrypt pieces ?q)"
  define fs where "fs = psh_frames ?sid ys"
  have s1: "s1 = send_frames lib fs a" using p by (simp add: flushed_def fs_def ys_def)
  have a'_eq: "a' = put_stream h st1 (send_frames lib fs a)"
    using a ab(3) loop s1 by (simp add: a' try_flush_outbound_def)
  then have at: "stream_at a' h = st1" using a(1) by simp
  have lens: "map length ys = map length pieces" unfolding ys_def by (rule through_qs_encrypt_lengths)
  note fits = flush_fits [OF p reads_of, folded ys_def]
  note allowed = fits(2) [where sid = ?sid and v = ?v, folded fs_def]
  have fit: "int (length (concat (map (frame_bytes ?v) fs))) \<le> max 1 (cfg_smuxbuf (ss_config b))"
    using fits(3) [where sid = ?sid and v = ?v, folded fs_def] room by linarith
  have limit: "\<forall>(c, sid, p) \<in> set fs. length p \<le> 65535" using allowed by (auto simp: frame_allowed_def)
  note sent = send_frames_eq [OF ab(2) limit, of lib]
  have "map Transport_send sends = map Transport_send (wire lib fs a)"
    using sends by (simp add: a'_eq sent put_stream_def)
  then have wire: "sends = wire lib fs a" by (simp add: inj_map_eq_map inj_def)
  obtain t where b': "b' = with_input [] \<lparr> sd_buffer = [], sd_saw_identifier =
      (ss_wrote_identifier a \<or> fs \<noteq> []) \<and> \<not> cfg_nocomp (ss_config a) \<rparr> t (handle_frames lib fs b)"
    using sent_frames_received [OF _ ab(1,4) allowed _ fit, of lib reads] lib(1) reads wire by auto
  obtain active where bk: "stream_at b' k = (stream_at b k)
      \<lparr> sm_qpp := snd (through qs_decrypt ys (sm_qpp (stream_at b k))),
        sm_pending_tcp_writes := sm_pending_tcp_writes (stream_at b k) @ fst (through qs_decrypt ys (sm_qpp (stream_at b k))),
        sm_tcp_write_active := active \<rparr>"
    using handle_psh_frames [OF b fits(1), of lib] by (auto simp: b' fs_def)
  have dec: "concat (fst (through qs_decrypt ys (sm_qpp (stream_at b k)))) = concat pieces"
    "qs_read_rand (snd (through qs_decrypt ys (sm_qpp (stream_at b k)))) = qs_write_rand (snd (through qs_encrypt pieces ?q))"
    unfolding ys_def using cipher by (rule qs_in_step)+
  have "outbound (stream_at a h) = concat pieces @ outbound (stream_at a' h)" using p by (simp add: flushed_def at)
  moreover have "sm_qpp st1 = snd (through qs_encrypt pieces ?q)"
    using p unfolding flushed_def by (metis smux_stream.select_convs(2) smux_stream.surjective smux_stream.update_convs(2,4,7))
  moreover have "paired a' b'" using ab(1) by (auto simp: paired_def a'_eq b' sent put_stream_def)
  ultimately show ?thesis using bk dec at by auto
qed

lemma stream_data_delivered_witness:
  "\<exists>reads ds b'. b' = receive toy_smux_lib reads (demo_session False []) \<and>
     sm_pending_tcp_writes (stream_at b' 0) = ds \<and>
     [7, 8, 9] = concat ds @ outbound (stream_at (try_flush_outbound toy_smux_lib 0 (demo_session True [7, 8, 9])) 0)"
proof -
  let ?a = "demo_session True [7, 8, 9]" and ?b = "demo_session False []"
  obtain sends where s: "ss_effects (try_flush_outbound toy_smux_lib 0 ?a) = map Transport_send sends"
    using flush_sends [of toy_smux_lib 0 ?a] by auto
  let ?reads = "map (\<lambda>x. (5, [x])) (concat sends)"
  have "paired ?a ?b" by (simp add: paired_def new_snappy_decoder_def)
  then have "\<exists>ds. sm_pending_tcp_writes (stream_at (receive toy_smux_lib ?reads ?b) 0) =
        sm_pending_tcp_writes (stream_at ?b 0) @ ds \<and>
      outbound (stream_at ?a 0) = concat ds @ outbound (stream_at (try_flush_outbound toy_smux_lib 0 ?a) 0) \<and>
      paired (try_flush_outbound toy_smux_lib 0 ?a) (receive toy_smux_lib ?reads ?b) \<and>
      qs_read_rand (sm_qpp (stream_at (receive toy_smux_lib ?reads ?b) 0)) =
        qs_write_rand (sm_qpp (stream_at (try_flush_outbound toy_smux_lib 0 ?a) 0))"
    by (intro stream_data_delivered [OF _ _ _ _ _ _ _ _ _ _ _ _ _ _ _ refl])
      (use s in \<open>simp_all add: toy_smux_unc toy_qpp_documented toy_smux_lib_def [THEN arg_cong, of sl_qpp] pad_or_plain_def
        base_defaults_def comp_def concat_map_singleton\<close>)
  then show ?thesis by auto
qed

text \<open>C24: The window never closes for good: once a version 2 peer has written every byte
  it was sent to its socket, the last update it has announced leaves the sender a positive
  window, whatever the sizes of the writes and however often the 32-bit totals have
  wrapped.\<close>

theorem window_reopens:
  assumes "h < length (ss_objects s)" "ss_alive s" "version s = 2" "int_range (stream_buffer s)"
    and "sm_num_read (stream_at s h) = 0" "sm_incr (stream_at s h) = 0"
    and "\<forall>n \<in> set ns. 0 < n \<and> n < 65536"
  shows "\<exists>us. consume_all lib h ns s = put_stream h (stream_at (consume_all lib h ns s) h)
        (send_frames lib (map (upd_frame (sm_id (stream_at s h))) us) s) \<and>
     (\<forall>sender. (sm_peer_consumed sender, sm_peer_window sender) = last ((0, 262144) # us) \<longrightarrow>
        sm_num_written sender = of_nat (sum_list ns) \<longrightarrow> 0 < available_peer_window sender)"
proof -
  let ?s = "consume_all lib h ns s"
  have "announced s h (0, 262144)" using assms(5,6) by (simp add: announced_def Let_def update_threshold_pos)
  then obtain us where us: "?s = put_stream h (stream_at ?s h) (send_frames lib (map (upd_frame (sm_id (stream_at s h))) us) s)"
    "announced ?s h (last ((0, 262144) # us))" "sm_num_read (stream_at ?s h) = of_nat (sum_list ns)"
    using consume_all_updates [OF assms(1-3,7,4), of "(0, 262144)" lib] assms(5) by auto
  have "ss_config ?s = ss_config s" by (subst us(1)) simp
  then have "int_range (stream_buffer ?s)" using assms(4) by (simp add: stream_buffer_def)
  then show ?thesis
    using us announced_window_open [OF us(2)] by (intro exI [of _ us]) auto
qed

lemma window_reopens_witness:
  "\<exists>us. \<forall>sender. (sm_peer_consumed sender, sm_peer_window sender) = last ((0, 262144) # us) \<longrightarrow>
     sm_num_written sender = 30 \<longrightarrow> 0 < available_peer_window sender"
proof -
  obtain us where "\<forall>sender. (sm_peer_consumed sender, sm_peer_window sender) = last ((0, 262144) # us) \<longrightarrow>
        sm_num_written sender = of_nat (sum_list [10, 20]) \<longrightarrow> 0 < available_peer_window sender"
    using window_reopens [of 0 "demo_session False []" "[10, 20]" toy_smux_lib] by (auto simp: int_range_def simp del: last.simps)
  then show ?thesis by (intro exI [of _ us]) (simp del: last.simps)
qed

end
