(* ===== verification/Smux_Safety.thy ===== *)
theory Smux_Safety
  imports Smux_Flow
begin

text \<open>
  The multiplexer as a transition system: every entry point of a session and every
  completion handler is an event, and the reachable states satisfy the invariant
  \<open>smux_inv\<close>. Asio's promises are the guards: a read completes only if one is pending, a
  successful \<open>async_write\<close> has written its whole buffer, a session lives until it is closed
  (its timer holds it).
\<close>

section \<open>Events\<close>

datatype smux_event =
    Ev_open bool
  | Ev_transport int bytes
  | Ev_readable nat bytes
  | Ev_read_handler nat
  | Ev_read_error nat asio_error
  | Ev_written nat "asio_error option"
  | Ev_resolved nat bool
  | Ev_connected nat bool
  | Ev_close_timer nat
  | Ev_keepalive int
  | Ev_close
  | Ev_dropped

definition has_stream :: "nat \<Rightarrow> smux_session \<Rightarrow> bool" where
  "has_stream h s \<longleftrightarrow> h < length (ss_objects s)"

inductive smux_step :: "smux_lib \<Rightarrow> smux_session \<Rightarrow> smux_event \<Rightarrow> smux_session \<Rightarrow> bool" for lib where
  open_ok: "ss_alive s \<Longrightarrow> open_stream lib s = Inr (h, s') \<Longrightarrow>
    smux_step lib s (Ev_open u) (start_client u h s')"
| open_refused: "ss_alive s \<Longrightarrow> open_stream lib s = Inl e \<Longrightarrow> smux_step lib s (Ev_open u) s"
| transport: "ss_alive s \<Longrightarrow> smux_step lib s (Ev_transport now bs) (on_transport_bytes lib now bs s)"
| readable: "has_stream h s \<Longrightarrow> st = stream_at s h \<Longrightarrow> 0 < sm_reads st \<Longrightarrow> data \<noteq> [] \<Longrightarrow> length data \<le> 32 * 1024 \<Longrightarrow>
    smux_step lib s (Ev_readable h data) (put_stream h
      (st \<lparr> sm_read_buffer := memcpy (sm_read_buffer st) 0 data, sm_reads := sm_reads st - 1,
            sm_reads_done := sm_reads_done st @ [length data] \<rparr>) s)"
| read_done: "has_stream h s \<Longrightarrow> st = stream_at s h \<Longrightarrow> sm_reads_done st = n # ns \<Longrightarrow>
    smux_step lib s (Ev_read_handler h) (read_handler lib h n (put_stream h (st \<lparr> sm_reads_done := ns \<rparr>) s))"
| read_failed: "has_stream h s \<Longrightarrow> st = stream_at s h \<Longrightarrow> 0 < sm_reads st \<Longrightarrow>
    smux_step lib s (Ev_read_error h err) (read_error lib h err (put_stream h (st \<lparr> sm_reads := sm_reads st - 1 \<rparr>) s))"
| written: "has_stream h s \<Longrightarrow> sm_tcp_write_active (stream_at s h) \<Longrightarrow>
    n = length (hd (sm_pending_tcp_writes (stream_at s h))) \<Longrightarrow>
    smux_step lib s (Ev_written h err) (write_handler lib h err n s)"
| resolved: "has_stream h s \<Longrightarrow> sm_server_connecting (stream_at s h) \<Longrightarrow>
    smux_step lib s (Ev_resolved h failed) (resolve_handler lib h failed s)"
| connected: "has_stream h s \<Longrightarrow> sm_server_connecting (stream_at s h) \<Longrightarrow>
    smux_step lib s (Ev_connected h failed) (connect_handler lib h failed s)"
| close_timer: "has_stream h s \<Longrightarrow> smux_step lib s (Ev_close_timer h) (close_stream lib h s)"
| keepalive: "ss_alive s \<Longrightarrow> smux_step lib s (Ev_keepalive now) (keepalive_tick lib now s)"
| closed: "ss_alive s \<Longrightarrow> smux_step lib s Ev_close (session_close lib s)"
| dropped: "ss_closed s \<Longrightarrow> smux_step lib s Ev_dropped (s \<lparr> ss_alive := False \<rparr>)"

inductive_cases smux_step_cases: "smux_step lib s ev s'"

text \<open>A constructed and started session, with the accept handler of the server or without.\<close>

definition initial_session ::
  "smux_lib \<Rightarrow> base_config \<Rightarrow> bool \<Rightarrow> bool \<Rightarrow> smux_target option \<Rightarrow> int \<Rightarrow> smux_session result" where
  "initial_session lib config client ch target now =
     (case make_smux_session lib config client ch now of
        Inl e \<Rightarrow> Inl e
      | Inr s \<Rightarrow> Inr (start_session (case target of None \<Rightarrow> s | Some t \<Rightarrow> set_accept_handler t s)))"

inductive smux_reachable :: "smux_lib \<Rightarrow> base_config \<Rightarrow> bool \<Rightarrow> smux_session \<Rightarrow> bool" for lib config client where
  start: "initial_session lib config client ch target now = Inr s \<Longrightarrow> smux_reachable lib config client s"
| step: "smux_reachable lib config client s \<Longrightarrow> smux_step lib s ev s' \<Longrightarrow> smux_reachable lib config client s'"

section \<open>Calm operations\<close>

text \<open>What a stream operation may add to the effects.\<close>

definition stream_effect :: "bool \<Rightarrow> smux_effect \<Rightarrow> bool" where
  "stream_effect closed e \<longleftrightarrow>
     (case e of Transport_send _ \<Rightarrow> \<not> closed | Transport_start \<Rightarrow> False | Transport_close \<Rightarrow> False
      | Close_handler \<Rightarrow> False | Keepalive_start _ \<Rightarrow> False | Keepalive_cancel \<Rightarrow> False | _ \<Rightarrow> True)"

definition adds :: "smux_session \<Rightarrow> smux_session \<Rightarrow> bool" where
  "adds s s' \<longleftrightarrow> (\<exists>es. ss_effects s' = ss_effects s @ es \<and> (\<forall>e \<in> set es. stream_effect (ss_closed s) e))"

lemma adds_refl [simp]: "adds s s"
  by (simp add: adds_def)

lemma adds_trans: "adds s t \<Longrightarrow> adds t u \<Longrightarrow> ss_closed t = ss_closed s \<Longrightarrow> adds s u"
  by (auto simp: adds_def)

text \<open>A calm operation leaves the session part, the table and the identity of the streams.\<close>

definition calm :: "smux_session \<Rightarrow> smux_session \<Rightarrow> bool" where
  "calm s s' \<longleftrightarrow> session_part s' = session_part s \<and> length (ss_objects s') = length (ss_objects s) \<and>
     ss_streams s' = ss_streams s \<and> adds s s' \<and>
     (\<forall>k < length (ss_objects s). sm_id (stream_at s' k) = sm_id (stream_at s k) \<and>
        sm_closed (stream_at s' k) = sm_closed (stream_at s k))"

lemma calm_refl [simp]: "calm s s"
  by (simp add: calm_def)

lemma calm_trans [trans]: "calm s t \<Longrightarrow> calm t u \<Longrightarrow> calm s u"
  using static_fields(10) [of t s] by (auto simp: calm_def intro: adds_trans)

lemma calm_emit: "stream_effect (ss_closed s) e \<Longrightarrow> calm s (emit e s)"
  by (simp add: calm_def adds_def emit_def session_part_def stream_at_def)

lemma stream_at_put_any:
  "stream_at (put_stream h st s) k = (if k = h \<and> h < length (ss_objects s) then st else stream_at s k)"
  by (auto simp: stream_at_def put_stream_def nth_list_update list_update_beyond not_less)

lemma effects_put [simp]: "ss_effects (put_stream h st s) = ss_effects s"
  by (simp add: put_stream_def)

lemma calm_put:
  "sm_id st = sm_id (stream_at s h) \<Longrightarrow> sm_closed st = sm_closed (stream_at s h) \<Longrightarrow> calm s (put_stream h st s)"
  by (auto simp: calm_def adds_def stream_at_put_any)

lemma calm_emit_put:
  "stream_effect (ss_closed s) e \<Longrightarrow> sm_id st = sm_id (stream_at s h) \<Longrightarrow> sm_closed st = sm_closed (stream_at s h) \<Longrightarrow>
     calm s (emit e (put_stream h st s))"
  by (rule calm_trans [OF calm_put calm_emit]) auto

lemma calm_send_frame: "calm s (send_frame lib c sid p s)"
  by (auto simp: calm_def adds_def send_frame_eq session_part_def stream_at_def stream_effect_def)

lemma calm_send_frames: "calm s (send_frames lib fs s)"
proof (induction fs arbitrary: s)
  case (Cons f fs)
  then show ?case using calm_trans calm_send_frame by (cases f) (simp add: send_frames_Cons, blast)
qed (simp add: send_frames_def)

lemma calm_start_tcp_read: "calm s (start_tcp_read h s)"
  by (auto simp: start_tcp_read_def Let_def stream_effect_def intro!: calm_emit_put)

lemma calm_flush_tcp_writes: "calm s (flush_tcp_writes h s)"
  by (auto simp: flush_tcp_writes_def Let_def stream_effect_def intro!: calm_emit_put)

lemma flushed_identity:
  "flushed lib st s pieces st' s' \<Longrightarrow> sm_id st' = sm_id st \<and> sm_closed st' = sm_closed st"
  unfolding flushed_def by (metis smux_stream.select_convs(1,15) smux_stream.surjective smux_stream.update_convs(2,4,7))

lemma calm_try_flush: "calm s (try_flush_outbound lib h s)"
proof (cases "\<not> ss_alive s \<or> sm_closed (stream_at s h)")
  case True
  then show ?thesis by (simp add: try_flush_outbound_def)
next
  case False
  obtain st1 s1 where loop: "flush_loop lib (stream_at s h) s = (st1, s1)" by fastforce
  then obtain pieces where p: "flushed lib (stream_at s h) s pieces st1 s1" using flush_loop_flushed by blast
  then obtain fs where s1: "s1 = send_frames lib fs s" unfolding flushed_def by blast
  have "calm s s1" unfolding s1 by (rule calm_send_frames)
  also have "calm s1 (put_stream h st1 s1)"
    using flushed_identity [OF p] by (intro calm_put) (simp_all add: s1)
  finally show ?thesis using loop False by (simp add: try_flush_outbound_def)
qed

lemma calm_on_data: "calm s (on_data h p s)"
proof -
  have "calm s (flush_tcp_writes h (put_stream h st (put_stream h st' s)))"
    if "sm_id st = sm_id (stream_at s h)" "sm_closed st = sm_closed (stream_at s h)" for st st'
    using calm_trans [OF calm_put [OF that] calm_flush_tcp_writes] by simp
  then show ?thesis
    by (cases "h < length (ss_objects s)")
      (auto simp: on_data_def enqueue_tcp_write_def Let_def stream_at_put_any split_def)
qed

lemma calm_mark: "calm s (mark_payload_consumed lib h n s)"
  unfolding mark_payload_consumed_def send_update_eq Let_def
  by (auto intro!: calm_put calm_trans [OF calm_send_frames calm_put])

lemma calm_shutdown: "calm s (shutdown_tcp_send_if_ready h s)"
  by (auto simp: shutdown_tcp_send_if_ready_def Let_def stream_effect_def intro!: calm_emit)

lemma calm_local_fin: "calm s (send_local_fin lib h s)"
  unfolding send_local_fin_def Let_def
  by (auto intro!: calm_put calm_trans [OF calm_put calm_send_frame])

lemma calm_maybe_finish: "calm s (maybe_finish h s)"
  by (auto simp: maybe_finish_def Let_def stream_effect_def intro!: calm_emit)

lemma calm_on_fin: "calm s (on_fin h s)"
  unfolding on_fin_def Let_def
  by (auto intro!: calm_trans [OF calm_put calm_trans [OF calm_shutdown calm_maybe_finish]])

lemma calm_on_update: "calm s (on_update lib h c w s)"
  unfolding on_update_def Let_def
  by (auto intro!: calm_trans [OF calm_put calm_try_flush] calm_trans [OF calm_trans [OF calm_put calm_try_flush] calm_start_tcp_read])

lemma calm_read_handler: "calm s (read_handler lib h n s)"
proof -
  have "calm s (try_flush_outbound lib h (put_stream h (queue_outbound x (stream_at s h)) s))" for x
    by (rule calm_trans [OF calm_put calm_try_flush]) (auto simp: queue_outbound_def)
  then show ?thesis unfolding read_handler_def Let_def by (auto intro: calm_trans [OF _ calm_start_tcp_read])
qed

text \<open>Closing a stream removes its entry and marks it.\<close>

definition closes :: "nat \<Rightarrow> smux_session \<Rightarrow> smux_session \<Rightarrow> bool" where
  "closes h s s' \<longleftrightarrow> session_part s' = session_part s \<and> length (ss_objects s') = length (ss_objects s) \<and>
     adds s s' \<and>
     (\<forall>k < length (ss_objects s). sm_id (stream_at s' k) = sm_id (stream_at s k) \<and>
        sm_closed (stream_at s' k) = (sm_closed (stream_at s k) \<or> k = h)) \<and>
     ss_streams s' = (if sm_closed (stream_at s h) \<or> \<not> ss_alive s then ss_streams s
                      else AList.delete (sm_id (stream_at s h)) (ss_streams s))"

lemma close_stream_closes:
  assumes "has_stream h s"
  shows "closes h s (close_stream lib h s)"
proof (cases "sm_closed (stream_at s h)")
  case True
  then show ?thesis by (auto simp: close_stream_def closes_def)
next
  case False
  let ?t = "send_local_fin lib h s"
  have t: "calm s ?t" by (rule calm_local_fin)
  then have h: "h < length (ss_objects ?t)" and id: "sm_id (stream_at ?t h) = sm_id (stream_at s h)"
    and part: "session_part ?t = session_part s"
    using assms by (auto simp: calm_def has_stream_def)
  note closed = static_fields(10) [OF part]
  define v where "v = emit (Timers_cancel h)
      (put_stream h ((stream_at ?t h) \<lparr> sm_closed := True, sm_socket_open := False \<rparr>) ?t)"
  define u where "u = (if sm_socket_open (stream_at ?t h) then emit (Socket_close h) v else v)"
  have u: "session_part u = session_part s" "length (ss_objects u) = length (ss_objects s)" "ss_streams u = ss_streams s"
    using t by (auto simp: u_def v_def calm_def)
  have eq: "close_stream lib h s = (if ss_alive s then stream_closed (sm_id (stream_at s h)) u else u)"
    using False static_fields(11) [OF u(1)] by (simp only: close_stream_def Let_def if_False id flip: v_def u_def)
  have "ss_effects u = ss_effects ?t @ [Timers_cancel h] @ (if sm_socket_open (stream_at ?t h) then [Socket_close h] else [])"
    by (simp add: u_def v_def emit_def)
  then have "adds ?t u" by (auto simp: adds_def stream_effect_def)
  then have ad: "adds s u" using t closed by (auto simp: calm_def intro: adds_trans)
  have at: "stream_at u k = (if k = h then (stream_at ?t h) \<lparr> sm_closed := True, sm_socket_open := False \<rparr> else stream_at ?t k)" for k
    using h by (simp add: u_def v_def)
  have closing: "\<forall>k < length (ss_objects s). sm_id (stream_at u k) = sm_id (stream_at s k) \<and>
        sm_closed (stream_at u k) = (sm_closed (stream_at s k) \<or> k = h)"
    using t at by (auto simp: calm_def)
  have del: "session_part (stream_closed sid u) = session_part u" "ss_objects (stream_closed sid u) = ss_objects u"
    "ss_effects (stream_closed sid u) = ss_effects u" "ss_streams (stream_closed sid u) = AList.delete sid (ss_streams u)" for sid
    by (simp_all add: stream_closed_def session_part_def)
  show ?thesis
    using u False ad closing unfolding closes_def eq adds_def stream_at_def by (simp add: del)
qed

section \<open>The invariant\<close>

definition quiet :: "smux_effect \<Rightarrow> bool" where
  "quiet e \<longleftrightarrow> (case e of Transport_send _ \<Rightarrow> False | Transport_close \<Rightarrow> False | Transport_start \<Rightarrow> False
     | Keepalive_start _ \<Rightarrow> False | _ \<Rightarrow> True)"

definition effects_ok :: "smux_session \<Rightarrow> bool" where
  "effects_ok s \<longleftrightarrow>
     (if ss_closed s then \<exists>xs ys. ss_effects s = xs @ Transport_close # ys \<and> Transport_close \<notin> set xs \<and> (\<forall>e \<in> set ys. quiet e)
      else Transport_close \<notin> set (ss_effects s))"

definition table_ok :: "smux_session \<Rightarrow> bool" where
  "table_ok s \<longleftrightarrow> distinct (map fst (ss_streams s)) \<and>
     (\<forall>(sid, h) \<in> set (ss_streams s). has_stream h s \<and> sm_id (stream_at s h) = sid \<and> \<not> sm_closed (stream_at s h))"

definition smux_inv :: "base_config \<Rightarrow> bool \<Rightarrow> smux_session \<Rightarrow> bool" where
  "smux_inv config client s \<longleftrightarrow> table_ok s \<and> effects_ok s \<and> ss_config s = config \<and> ss_client s = client \<and>
     (ss_closed s \<longrightarrow> ss_streams s = []) \<and> (\<not> ss_closed s \<longrightarrow> ss_alive s) \<and>
     int (length (ss_receive_buffer s)) \<le> max 1 (cfg_smuxbuf config) \<and>
     (odd (unat (ss_next_stream_id s)) \<longleftrightarrow> client)"

lemma effects_ok_adds: "effects_ok s \<Longrightarrow> adds s s' \<Longrightarrow> ss_closed s' = ss_closed s \<Longrightarrow> effects_ok s'"
  unfolding effects_ok_def adds_def
  by (auto simp: stream_effect_def quiet_def split: if_splits smux_effect.splits)
    (fastforce split: smux_effect.splits)+

lemma table_ok_calm: "table_ok s \<Longrightarrow> calm s s' \<Longrightarrow> table_ok s'"
  by (fastforce simp: table_ok_def calm_def has_stream_def)

lemma table_ok_closes: "table_ok s \<Longrightarrow> closes h s s' \<Longrightarrow> has_stream h s \<Longrightarrow> ss_alive s \<Longrightarrow> table_ok s'"
  unfolding table_ok_def closes_def has_stream_def
  by (cases "sm_closed (stream_at s h)") (auto simp: AList.delete_eq distinct_map_filter)

lemma smux_inv_calm:
  assumes "smux_inv config client s" "calm s s'"
  shows "smux_inv config client s'"
proof -
  have p: "session_part s' = session_part s" "ss_streams s' = ss_streams s" "adds s s'"
    using assms(2) by (auto simp: calm_def)
  then show ?thesis
    using assms table_ok_calm effects_ok_adds by (auto simp: smux_inv_def static_fields [OF p(1)])
qed

lemma smux_inv_closes:
  assumes "smux_inv config client s" "closes h s s'" "has_stream h s"
  shows "smux_inv config client s'"
proof -
  have p: "session_part s' = session_part s" "adds s s'" using assms(2) by (auto simp: closes_def)
  note same = static_fields [OF p(1)]
  have streams: "ss_streams s' = [] \<or> ss_alive s" "ss_closed s \<longrightarrow> ss_streams s' = []"
    using assms(1,2) by (auto simp: smux_inv_def closes_def)
  have "table_ok s'"
  proof (cases "ss_streams s' = []")
    case True
    then show ?thesis by (simp add: table_ok_def)
  next
    case False
    then show ?thesis using streams(1) table_ok_closes [OF _ assms(2,3)] assms(1) by (simp add: smux_inv_def)
  qed
  moreover have "effects_ok s'"
    using effects_ok_adds [OF _ p(2)] assms(1) by (simp add: smux_inv_def same)
  ultimately show ?thesis using assms(1) streams by (simp add: smux_inv_def same)
qed

lemmas smux_inv_close_stream = smux_inv_closes [OF _ close_stream_closes]

lemma smux_inv_fail_and_close:
  assumes "smux_inv config client s" "has_stream h s"
  shows "smux_inv config client (fail_and_close lib m h s)"
  unfolding fail_and_close_def
  by (rule smux_inv_close_stream [OF smux_inv_calm [OF assms(1) calm_emit]])
    (use assms(2) in \<open>auto simp: stream_effect_def has_stream_def\<close>)

lemma close_all:
  assumes "\<forall>(sid, h) \<in> set hs. has_stream h s" "ss_streams s = []"
  shows "session_part (foldl (\<lambda>s (sid, h). close_stream lib h s) s hs) = session_part s \<and>
    adds s (foldl (\<lambda>s (sid, h). close_stream lib h s) s hs) \<and>
    ss_streams (foldl (\<lambda>s (sid, h). close_stream lib h s) s hs) = []"
  using assms
proof (induction hs arbitrary: s)
  case (Cons x hs)
  obtain sid h where x: "x = (sid, h)" by (cases x)
  let ?s = "close_stream lib h s"
  have c: "closes h s ?s" using Cons(2) x by (intro close_stream_closes) auto
  then have s: "session_part ?s = session_part s" "ss_streams ?s = []" "adds s ?s"
    "length (ss_objects ?s) = length (ss_objects s)"
    using Cons(3) by (auto simp: closes_def)
  have "\<forall>(sid, h) \<in> set hs. has_stream h ?s" using Cons(2) s(4) by (auto simp: has_stream_def)
  then show ?case
    using Cons.IH [of ?s] s adds_trans [OF s(3) _ static_fields(10) [OF s(1)]] by (auto simp: x)
qed simp

lemma effects_ok_closedI:
  "ss_effects s = xs @ Transport_close # ys \<Longrightarrow> Transport_close \<notin> set xs \<Longrightarrow> ss_closed s \<Longrightarrow>
     \<forall>e \<in> set ys. quiet e \<Longrightarrow> effects_ok s"
  by (auto simp: effects_ok_def)

lemma smux_inv_session_close:
  assumes inv: "smux_inv config client s"
  shows "smux_inv config client (session_close lib s)"
proof (cases "ss_closed s")
  case True
  then show ?thesis using inv by (simp add: session_close_def)
next
  case False
  define u where "u = (emit Keepalive_cancel (s \<lparr> ss_closed := True \<rparr>)) \<lparr> ss_streams := [] \<rparr>"
  define v where "v = foldl (\<lambda>s (sid, h). close_stream lib h s) u (ss_streams s)"
  have "\<forall>(sid, h) \<in> set (ss_streams s). has_stream h u"
    using inv by (auto simp: smux_inv_def table_ok_def u_def has_stream_def)
  then have v: "session_part v = session_part u" "adds u v" "ss_streams v = []"
    using close_all [of "ss_streams s" u lib] by (auto simp: v_def u_def)
  obtain es where es: "ss_effects v = ss_effects s @ Keepalive_cancel # es" "\<forall>e \<in> set es. stream_effect True e"
    using v(2) by (auto simp: adds_def u_def emit_def)
  have eq: "session_close lib s = (if ss_close_handler s then emit Close_handler (emit Transport_close v) else emit Transport_close v)"
    using False static_fields(3) [OF v(1)] by (simp add: session_close_def Let_def v_def u_def emit_def)
  have notin: "Transport_close \<notin> set (ss_effects s @ Keepalive_cancel # es)"
    using inv False es(2) by (auto simp: smux_inv_def effects_ok_def stream_effect_def)
  have effs: "ss_effects (session_close lib s) =
      (ss_effects s @ Keepalive_cancel # es) @ Transport_close # (if ss_close_handler s then [Close_handler] else [])"
    using es(1) by (simp add: eq emit_def)
  have "ss_closed (session_close lib s)"
    using static_fields(10) [OF v(1)] by (simp add: eq emit_def u_def)
  then have "effects_ok (session_close lib s)"
    by (rule effects_ok_closedI [OF effs notin]) (simp add: quiet_def)
  then show ?thesis
    using inv v(3) static_fields [OF v(1)] by (simp add: smux_inv_def eq emit_def u_def table_ok_def)
qed

lemma smux_inv_protocol_error:
  "smux_inv config client s \<Longrightarrow> smux_inv config client (protocol_error lib m s)"
  unfolding protocol_error_def
  by (intro smux_inv_session_close smux_inv_calm [OF _ calm_emit]) (simp_all add: stream_effect_def)

text \<open>A new object, and its entry in the table.\<close>

lemma calm_accept: "calm s (run_accept_handler h s)"
  by (auto simp: run_accept_handler_def start_server_def start_server_unix_def stream_effect_def
      intro!: calm_emit_put split: option.split smux_target.split)

definition with_objects :: "smux_stream list \<Rightarrow> smux_session \<Rightarrow> smux_session" where
  "with_objects os s = s \<lparr> ss_objects := os \<rparr>"

lemma smux_inv_new_object:
  assumes "smux_inv config client s"
  shows "smux_inv config client (s \<lparr> ss_objects := ss_objects s @ [st] \<rparr>)"
proof -
  have "table_ok (s \<lparr> ss_objects := ss_objects s @ [st] \<rparr>)"
    using assms by (auto simp: smux_inv_def table_ok_def has_stream_def stream_at_def nth_append)
  then show ?thesis using assms by (simp add: smux_inv_def effects_ok_def)
qed

lemma smux_inv_emplace:
  assumes "smux_inv config client s" "\<not> ss_closed s" "has_stream h s" "sm_id (stream_at s h) = sid"
    "\<not> sm_closed (stream_at s h)"
  shows "smux_inv config client (emplace_stream sid h s)"
  using assms
  by (auto simp: emplace_stream_def smux_inv_def effects_ok_def table_ok_def has_stream_def stream_at_def map_of_eq_None_iff)

lemma stream_at_new [simp]: "stream_at (s \<lparr> ss_objects := ss_objects s @ [st] \<rparr>) (length (ss_objects s)) = st"
  by (simp add: stream_at_def)

lemma smux_inv_handle_frame:
  assumes inv: "smux_inv config client s" and op: "\<not> ss_closed s"
  shows "smux_inv config client (handle_frame lib c sid p s)"
proof (cases c)
  case Cmd_syn
  let ?s = "s \<lparr> ss_objects := ss_objects s @ [make_stream lib sid s] \<rparr>"
  have "smux_inv config client (emplace_stream sid (length (ss_objects s)) ?s)"
    by (rule smux_inv_emplace [OF smux_inv_new_object [OF inv]])
      (use op in \<open>simp_all add: has_stream_def make_stream_def\<close>)
  then show ?thesis
    using inv smux_inv_calm [OF _ calm_accept] by (simp add: Cmd_syn handle_frame_def new_stream_def)
qed (use inv in \<open>auto simp: handle_frame_def intro: smux_inv_calm [OF _ calm_on_fin]
      smux_inv_calm [OF _ calm_on_data] smux_inv_calm [OF _ calm_on_update] split: option.split\<close>)

lemma smux_inv_buffer:
  "smux_inv config client s \<Longrightarrow> int (length b) \<le> max 1 (cfg_smuxbuf config) \<Longrightarrow>
     smux_inv config client (s \<lparr> ss_receive_buffer := b \<rparr>)"
  by (simp add: smux_inv_def table_ok_def effects_ok_def has_stream_def stream_at_def)

lemma smux_inv_consume_loop: "smux_inv config client s \<Longrightarrow> smux_inv config client (consume_loop lib s)"
proof (induction "length (ss_receive_buffer s)" arbitrary: s rule: less_induct)
  case less
  show ?case
  proof (cases "ss_closed s \<or> next_frame (cfg_smuxver (ss_config s)) (ss_receive_buffer s) = None")
    case True
    then show ?thesis using less(2) by (auto simp: consume_loop.simps [of lib s])
  next
    case False
    then obtain r where r: "next_frame (cfg_smuxver (ss_config s)) (ss_receive_buffer s) = Some r" by auto
    show ?thesis
    proof (cases r)
      case (Inl m)
      then show ?thesis using False r smux_inv_protocol_error [OF less(2)] by (simp add: consume_loop.simps [of lib s])
    next
      case (Inr t)
      obtain c sid p n where t: "t = ((c, sid, p), n)" by (cases t, cases "fst t") auto
      let ?s = "handle_frame lib c sid p s"
      let ?t = "?s \<lparr> ss_receive_buffer := drop n (ss_receive_buffer ?s) \<rparr>"
      have "smux_inv config client ?s" using False less(2) by (intro smux_inv_handle_frame) auto
      then have inv: "smux_inv config client ?t"
        by (intro smux_inv_buffer) (auto simp: smux_inv_def)
      have "length (ss_receive_buffer ?t) < length (ss_receive_buffer s)"
        using next_frame_consumes [OF r [unfolded Inr t]] by (simp add: smux_header_size_def) linarith
      then have "smux_inv config client (consume_loop lib ?t)" using less(1) inv by blast
      then show ?thesis using False r Inr t by (simp add: consume_loop.simps [of lib s] Let_def)
    qed
  qed
qed

lemma smux_inv_consume:
  assumes "smux_inv config client s"
  shows "smux_inv config client (consume_stream_bytes lib bs s)"
proof (cases "max 1 (cfg_smuxbuf (ss_config s)) < int (length (ss_receive_buffer s) + length bs)")
  case True
  then show ?thesis
    unfolding consume_stream_bytes_def if_P [OF True] by (intro smux_inv_protocol_error assms)
next
  case False
  then show ?thesis
    unfolding consume_stream_bytes_def if_not_P [OF False]
    using False assms [unfolded smux_inv_def]
    by (intro smux_inv_consume_loop smux_inv_buffer assms) (simp only: not_less length_append)
qed

lemma smux_inv_input:
  "smux_inv config client s \<Longrightarrow> smux_inv config client (s \<lparr> ss_last_activity := t \<rparr>)"
  "smux_inv config client s \<Longrightarrow> smux_inv config client (s \<lparr> ss_decompressor := d \<rparr>)"
  by (simp_all add: smux_inv_def table_ok_def effects_ok_def has_stream_def stream_at_def)

lemma smux_inv_transport:
  assumes "smux_inv config client s"
  shows "smux_inv config client (on_transport_bytes lib now bs s)"
proof -
  have "smux_inv config client (foldl (\<lambda>s chunk. consume_stream_bytes lib chunk s) t chunks)"
    if "smux_inv config client t" for t chunks
    using that by (induction chunks arbitrary: t) (auto intro: smux_inv_consume)
  then show ?thesis
    using smux_inv_input [OF assms] smux_inv_input assms
    by (auto simp: on_transport_bytes_def Let_def intro!: smux_inv_protocol_error smux_inv_consume split: sum.split)
qed

section \<open>Every step\<close>

lemma smux_inv_open_stream:
  assumes inv: "smux_inv config client s" and "open_stream lib s = Inr (h, s')"
  shows "smux_inv config client s' \<and> has_stream h s'"
proof -
  let ?id = "ss_next_stream_id s + 2"
  let ?s = "s \<lparr> ss_next_stream_id := ?id \<rparr>"
  let ?o = "?s \<lparr> ss_objects := ss_objects ?s @ [make_stream lib ?id ?s] \<rparr>"
  have op: "\<not> ss_closed s" and no_wrap: "\<not> ?id < ss_next_stream_id s"
    and h: "h = length (ss_objects s)" and s': "s' = emplace_stream ?id h (send_frame lib Cmd_syn ?id [] ?o)"
    using assms(2) by (auto simp: open_stream_def new_stream_def Let_def split: if_splits)
  have "unat ?id = unat (ss_next_stream_id s) + 2"
    using no_wrap by (simp add: not_less unat_plus_simple)
  then have "smux_inv config client ?s"
    using inv by (simp add: smux_inv_def table_ok_def effects_ok_def has_stream_def stream_at_def)
  then have "smux_inv config client ?o" by (rule smux_inv_new_object)
  then have o: "smux_inv config client (send_frame lib Cmd_syn ?id [] ?o)" by (rule smux_inv_calm [OF _ calm_send_frame])
  have "stream_at (send_frame lib Cmd_syn ?id [] ?o) h = make_stream lib ?id ?s"
    by (simp add: stream_at_def h)
  then have "smux_inv config client s'"
    unfolding s' using op by (intro smux_inv_emplace [OF o]) (simp_all add: has_stream_def h make_stream_def)
  then show ?thesis by (simp add: s' has_stream_def h emplace_stream_def)
qed

lemma has_stream_calm: "calm s t \<Longrightarrow> has_stream h t = has_stream h s"
  by (simp add: calm_def has_stream_def)

lemma calm_start_client: "calm s (start_client u h s)"
  unfolding start_client_def Let_def
  by (rule calm_trans [OF calm_trans [OF calm_put calm_flush_tcp_writes] calm_start_tcp_read]) auto

lemma smux_inv_fin_or_fail:
  assumes "smux_inv config client s" "has_stream h s"
  shows "smux_inv config client (if b then maybe_finish h (send_local_fin lib h s) else fail_and_close lib m h s)"
  using smux_inv_fail_and_close [OF assms] smux_inv_calm [OF assms(1) calm_trans [OF calm_local_fin calm_maybe_finish]]
  by simp

lemma smux_inv_write_handler:
  assumes "smux_inv config client s" "has_stream h s"
  shows "smux_inv config client (write_handler lib h err n s)"
proof -
  let ?s = "put_stream h ((stream_at s h) \<lparr> sm_tcp_write_active := False \<rparr>) s"
  have c: "calm s ?s" by (rule calm_put) auto
  have s: "smux_inv config client ?s" "has_stream h ?s"
    using smux_inv_calm [OF assms(1) c] has_stream_calm [OF c] assms(2) by simp_all
  let ?p = "(stream_at ?s h) \<lparr> sm_pending_tcp_writes := tl (sm_pending_tcp_writes (stream_at ?s h)) \<rparr>"
  have "calm ?s (maybe_finish h (shutdown_tcp_send_if_ready h (flush_tcp_writes h (mark_payload_consumed lib h n (put_stream h ?p ?s)))))"
    by (intro calm_trans [OF _ calm_maybe_finish] calm_trans [OF _ calm_shutdown] calm_trans [OF _ calm_flush_tcp_writes]
        calm_trans [OF _ calm_mark] calm_put) auto
  then show ?thesis
    using smux_inv_fin_or_fail [OF s] smux_inv_calm [OF s(1)] unfolding write_handler_def Let_def
    by (auto split: option.split)
qed

lemma smux_inv_connect_handler:
  assumes "smux_inv config client s" "has_stream h s"
  shows "smux_inv config client (connect_handler lib h failed s)"
proof -
  let ?s = "put_stream h ((stream_at s h) \<lparr> sm_server_connecting := False \<rparr>) s"
  have c: "calm s ?s" by (rule calm_put) auto
  have s: "smux_inv config client ?s" "has_stream h ?s"
    using smux_inv_calm [OF assms(1) c] has_stream_calm [OF c] assms(2) by simp_all
  have "calm ?s (shutdown_tcp_send_if_ready h (start_tcp_read h (flush_tcp_writes h
      (put_stream h ((stream_at ?s h) \<lparr> sm_tcp_ready := True \<rparr>) ?s))))"
    by (intro calm_trans [OF _ calm_shutdown] calm_trans [OF _ calm_start_tcp_read] calm_trans [OF _ calm_flush_tcp_writes]
        calm_put) auto
  then show ?thesis
    using smux_inv_fail_and_close [OF s] smux_inv_calm [OF s(1)] unfolding connect_handler_def Let_def by auto
qed

lemma smux_inv_keepalive:
  assumes "smux_inv config client s"
  shows "smux_inv config client (keepalive_tick lib now s)"
proof -
  have s: "smux_inv config client (send_frame lib Cmd_nop 0 [] s)" by (rule smux_inv_calm [OF assms calm_send_frame])
  have "smux_inv config client (emit (Keepalive_start x) t)" if "smux_inv config client t" "\<not> ss_closed t" for x t
    using that by (simp add: smux_inv_def table_ok_def effects_ok_def has_stream_def stream_at_def emit_def)
  then show ?thesis
    using assms s smux_inv_session_close [OF s] by (simp add: keepalive_tick_def start_keepalive_timer_def Let_def)
qed

lemma smux_inv_step:
  assumes "smux_inv config client s" "smux_step lib s ev s'"
  shows "smux_inv config client s'"
  using assms(2)
proof (cases rule: smux_step.cases)
  case (open_ok h s1 u)
  then show ?thesis using smux_inv_open_stream [OF assms(1)] smux_inv_calm [OF _ calm_start_client] by blast
next
  case (read_done h st n ns)
  then show ?thesis using assms(1) by (auto intro!: smux_inv_calm [OF _ calm_trans [OF calm_put calm_read_handler]])
next
  case (readable h st data)
  then show ?thesis using assms(1) by (auto intro!: smux_inv_calm [OF _ calm_put])
next
  case (read_failed h st err)
  let ?t = "put_stream h (st \<lparr> sm_reads := sm_reads st - 1 \<rparr>) s"
  have c: "calm s ?t" using read_failed by (intro calm_put) auto
  have "smux_inv config client ?t" "has_stream h ?t"
    using smux_inv_calm [OF assms(1) c] has_stream_calm [OF c] read_failed by simp_all
  then show ?thesis using read_failed smux_inv_fin_or_fail unfolding read_error_def by simp
next
  case (resolved h failed)
  then show ?thesis
    using assms(1) smux_inv_fail_and_close
    by (auto simp: resolve_handler_def stream_effect_def intro!: smux_inv_calm [OF _ calm_emit_put])
next
  case dropped
  then show ?thesis using assms(1) by (simp add: smux_inv_def table_ok_def effects_ok_def has_stream_def stream_at_def)
qed (use assms(1) in \<open>auto intro: smux_inv_transport smux_inv_write_handler smux_inv_connect_handler
      smux_inv_close_stream smux_inv_keepalive smux_inv_session_close\<close>)

lemma smux_inv_initial:
  assumes "initial_session lib config client ch target now = Inr s"
  shows "smux_inv config client s"
proof -
  obtain s0 where s0: "make_smux_session lib config client ch now = Inr s0"
    "s = start_session (case target of None \<Rightarrow> s0 | Some t \<Rightarrow> set_accept_handler t s0)"
    using assms by (auto simp: initial_session_def split: sum.splits)
  then show ?thesis
    by (auto simp: make_smux_session_def Let_def start_session_def start_keepalive_timer_def emit_def set_accept_handler_def
        smux_inv_def table_ok_def effects_ok_def split: if_splits sum.splits option.splits)
qed

lemma smux_reachable_inv: "smux_reachable lib config client s \<Longrightarrow> smux_inv config client s"
  by (induction rule: smux_reachable.induct) (auto intro: smux_inv_initial smux_inv_step)

section \<open>What every reachable state satisfies\<close>

text \<open>C16: A closed session is silent: in every reachable state the session is closed
  exactly when it has closed its transport; it has done so once, and nothing was sent, no
  transport started and no keepalive timer armed after that.\<close>

theorem session_silent_after_close:
  assumes "smux_reachable lib config client s"
  shows "(ss_closed s \<longleftrightarrow> Transport_close \<in> set (ss_effects s)) \<and>
    (\<forall>before after. ss_effects s = before @ Transport_close # after \<longrightarrow>
       Transport_close \<notin> set after \<and> Transport_start \<notin> set after \<and>
       (\<forall>m d. Transport_send m \<notin> set after \<and> Keepalive_start d \<notin> set after))"
proof (intro conjI allI impI)
  have ok: "effects_ok s" using smux_reachable_inv [OF assms] by (simp add: smux_inv_def)
  show closed: "ss_closed s \<longleftrightarrow> Transport_close \<in> set (ss_effects s)"
    using ok by (auto simp: effects_ok_def split: if_splits)
  fix before after m d
  assume split: "ss_effects s = before @ Transport_close # after"
  then obtain xs ys where xy: "ss_effects s = xs @ Transport_close # ys" "Transport_close \<notin> set xs"
      and quiet: "\<forall>e \<in> set ys. quiet e"
    using ok closed by (auto simp: effects_ok_def)
  have "Transport_close \<notin> set ys" using quiet by (auto simp: quiet_def)
  then have "after = ys"
    using split xy by (auto simp: append_eq_append_conv2 append_eq_Cons_conv Cons_eq_append_conv)
  then show "Transport_close \<notin> set after" "Transport_start \<notin> set after"
    "Transport_send m \<notin> set after" "Keepalive_start d \<notin> set after"
    using quiet by (auto simp: quiet_def)
qed

lemma reachable_default:
  "smux_reachable lib (base_defaults ()) client
     (start_session (projr (make_smux_session lib (base_defaults ()) client ch 0)))"
  by (rule smux_reachable.start [of _ _ _ ch None 0])
    (simp add: initial_session_def make_smux_session_def base_defaults_def)

definition closed_demo :: "bool \<Rightarrow> smux_session" where
  "closed_demo client = session_close toy_smux_lib
     (start_session (projr (make_smux_session toy_smux_lib (base_defaults ()) client True 0)))"

lemma closed_demo_reachable: "smux_reachable toy_smux_lib (base_defaults ()) client (closed_demo client)"
  unfolding closed_demo_def
  by (rule smux_reachable.step [OF reachable_default smux_step.closed])
    (simp add: start_session_def start_keepalive_timer_def emit_def make_smux_session_def base_defaults_def)

lemma closed_demo_effects:
  "ss_effects (closed_demo client) = [Transport_start, Keepalive_start 10, Keepalive_cancel, Transport_close, Close_handler]"
  by (simp add: closed_demo_def session_close_def start_session_def start_keepalive_timer_def emit_def
      make_smux_session_def base_defaults_def)

lemma session_silent_after_close_witness: "ss_closed (closed_demo True) \<and> Transport_close \<notin> set [Close_handler]"
  using session_silent_after_close [OF closed_demo_reachable [of True]] closed_demo_effects [of True]
  by (metis append_Cons append_Nil in_set_conv_decomp)

text \<open>C27: The stream table of a reachable session is sound: its ids are distinct, each
  entry points to an existing, open stream of that id, and a closed session has none; a
  session that is not closed is still alive, and its receive buffer never exceeds
  \<open>max(1, smuxbuf)\<close>.\<close>

theorem stream_table_sound:
  assumes "smux_reachable lib config client s"
  shows "distinct (map fst (ss_streams s)) \<and>
    (\<forall>sid h. map_of (ss_streams s) sid = Some h \<longrightarrow>
       h < length (ss_objects s) \<and> sm_id (stream_at s h) = sid \<and> \<not> sm_closed (stream_at s h)) \<and>
    (if ss_closed s then ss_streams s = [] else ss_alive s) \<and>
    int (length (ss_receive_buffer s)) \<le> max 1 (cfg_smuxbuf config)"
  using smux_reachable_inv [OF assms]
  by (auto simp: smux_inv_def table_ok_def has_stream_def dest!: map_of_SomeD)

lemma stream_table_sound_witness: "ss_streams (closed_demo False) = [] \<and> length (ss_receive_buffer (closed_demo False)) \<le> 4194304"
proof -
  have "ss_closed (closed_demo False)"
    by (simp add: closed_demo_def session_close_def start_session_def start_keepalive_timer_def emit_def
      make_smux_session_def base_defaults_def)
  then show ?thesis
    using stream_table_sound [OF closed_demo_reachable [of False]] by (simp add: base_defaults_def)
qed

text \<open>\<open>open_stream\<close> of a reachable session refuses exactly when the session is closed or
  its 32-bit ids are used up, with the message for each; otherwise the new stream has the
  next id of the caller's parity (odd for a client, even for a server), announces it with a
  SYN frame, and is entered in the table unless the peer has taken that id already.\<close>

theorem open_stream_ids:
  assumes "smux_reachable lib config client s"
  defines "new_id \<equiv> unat (ss_next_stream_id s) + 2"
  shows "(case open_stream lib s of
       Inl e \<Rightarrow> (if ss_closed s then e = Runtime_error ''smux session is closed''
                 else 2 ^ 32 \<le> new_id \<and> e = Runtime_error ''smux stream id exhausted'')
     | Inr (h, s') \<Rightarrow> \<not> ss_closed s \<and> new_id < 2 ^ 32 \<and> (odd new_id \<longleftrightarrow> client) \<and>
         h = length (ss_objects s) \<and> unat (sm_id (stream_at s' h)) = new_id \<and>
         unat (ss_next_stream_id s') = new_id \<and>
         ss_effects s' = ss_effects s @ map Transport_send (frame_chunks lib Cmd_syn (of_nat new_id) [] s) \<and>
         map_of (ss_streams s') (of_nat new_id) =
           Some (case map_of (ss_streams s) (of_nat new_id) of None \<Rightarrow> h | Some k \<Rightarrow> k))"
proof -
  let ?id = "ss_next_stream_id s + 2"
  have parity: "odd new_id \<longleftrightarrow> client" using smux_reachable_inv [OF assms(1)] by (simp add: smux_inv_def new_id_def)
  have wrap: "?id < ss_next_stream_id s \<longleftrightarrow> unat ?id \<noteq> new_id"
    by (simp add: new_id_def not_le [symmetric] unat_plus_simple)
  have id: "of_nat new_id = ?id" by (simp add: new_id_def)
  have small: "unat ?id = new_id \<longleftrightarrow> new_id < 2 ^ 32"
  proof
    assume "unat ?id = new_id"
    moreover have "unat ?id < 2 ^ LENGTH(32)" by (rule unsigned_less)
    ultimately show "new_id < 2 ^ 32" by simp
  next
    assume "new_id < 2 ^ 32"
    then show "unat ?id = new_id" using unat_of_nat_lt [of new_id, where ?'a = 32] unfolding id by simp
  qed
  have chunks: "frame_chunks lib Cmd_syn ?id [] (s \<lparr> ss_next_stream_id := x, ss_objects := y \<rparr>) =
      frame_chunks lib Cmd_syn ?id [] s" for x y
    by (simp add: frame_chunks_def Let_def)
  show ?thesis
    unfolding id using parity small wrap
    by (auto simp: open_stream_def new_stream_def emplace_stream_def Let_def send_frame_eq chunks stream_at_def
        make_stream_def split: option.split)
qed

lemma open_stream_ids_witness:
  "\<exists>s h s'. smux_reachable toy_smux_lib (base_defaults ()) True s \<and>
     open_stream toy_smux_lib s = Inr (h, s') \<and> unat (sm_id (stream_at s' h)) = 3"
proof -
  let ?s = "start_session (projr (make_smux_session toy_smux_lib (base_defaults ()) True True 0))"
  have "\<not> ss_closed ?s" "unat (ss_next_stream_id ?s) = 1"
    by (simp_all add: start_session_def start_keepalive_timer_def emit_def make_smux_session_def base_defaults_def)
  then show ?thesis
    using open_stream_ids [OF reachable_default [of toy_smux_lib True True]] reachable_default [of toy_smux_lib True True]
    by (auto split: sum.splits prod.splits)
qed

section \<open>Overlapping reads\<close>

text \<open>
  \<open>start_tcp_read\<close> has no flag for a read in progress, and \<open>on_update\<close> calls it while the
  read started by \<open>start_client\<close> or by the last completion is pending. All reads of a stream
  share \<open>tcp_read_buffer_\<close>. Asio may complete two pending reads before it runs the first
  handler: its reactors do so when the first read fills the buffer.
\<close>

inductive smux_run :: "smux_lib \<Rightarrow> smux_session \<Rightarrow> smux_event list \<Rightarrow> smux_session \<Rightarrow> bool" for lib where
  stop: "smux_run lib s [] s"
| event: "smux_step lib s ev s' \<Longrightarrow> smux_run lib s' evs s'' \<Longrightarrow> smux_run lib s (ev # evs) s''"

definition plain_client :: "smux_lib \<Rightarrow> smux_session" where
  "plain_client lib = projr (initial_session lib ((base_defaults ()) \<lparr> cfg_nocomp := True \<rparr>) True False None 0)"

text \<open>The states of the run: the client with one stream.\<close>

definition one_stream :: "smux_lib \<Rightarrow> smux_stream \<Rightarrow> smux_effect list \<Rightarrow> int \<Rightarrow> smux_session" where
  "one_stream lib st es now = (plain_client lib)
     \<lparr> ss_objects := [st], ss_streams := [(3, 0)], ss_next_stream_id := 3, ss_effects := es, ss_last_activity := now \<rparr>"

lemma one_stream_fields [simp]:
  "ss_config (one_stream lib st es now) = (base_defaults ()) \<lparr> cfg_nocomp := True \<rparr>"
  "\<not> ss_closed (one_stream lib st es now)" "ss_alive (one_stream lib st es now)"
  "ss_objects (one_stream lib st es now) = [st]" "ss_streams (one_stream lib st es now) = [(3, 0)]"
  "ss_receive_buffer (one_stream lib st es now) = []" "stream_at (one_stream lib st es now) 0 = st"
  "has_stream 0 (one_stream lib st es now)" "ss_effects (one_stream lib st es now) = es"
  "emit e (one_stream lib st es now) = one_stream lib st (es @ [e]) now"
  "put_stream 0 st' (one_stream lib st es now) = one_stream lib st' es now"
  "with_input [] (ss_decompressor (one_stream lib st es t)) now (one_stream lib st' es' t') = one_stream lib st' es' now"
  by (simp_all add: one_stream_def plain_client_def initial_session_def make_smux_session_def start_session_def
      start_keepalive_timer_def emit_def put_stream_def stream_at_def has_stream_def base_defaults_def with_input_def)

lemma one_stream_version [simp]: "version (one_stream lib st es now) = 2" "frame_size (one_stream lib st es now) = 8192"
  by (simp_all add: version_def frame_size_def base_defaults_def)

definition ready :: "smux_stream \<Rightarrow> bool" where
  "ready st \<longleftrightarrow> sm_id st = 3 \<and> sm_tcp_ready st \<and> \<not> sm_closed st \<and> \<not> sm_local_fin_sent st \<and>
     sm_pending_outbound st = [] \<and> \<not> qpp_enabled (sm_qpp st)"

lemma ready_counters:
  "ready (st \<lparr> sm_read_buffer := b \<rparr>) = ready st" "ready (st \<lparr> sm_reads := n \<rparr>) = ready st"
  "ready (st \<lparr> sm_reads_done := ns \<rparr>) = ready st" "ready (st \<lparr> sm_num_written := v \<rparr>) = ready st"
  "ready (st \<lparr> sm_peer_consumed := v \<rparr>) = ready st" "ready (st \<lparr> sm_peer_window := v \<rparr>) = ready st"
  by (simp_all add: ready_def)

lemma run_readable:
  assumes "0 < sm_reads st"
  shows "smux_step lib (one_stream lib st es now) (Ev_readable 0 [x])
    (one_stream lib (st \<lparr> sm_read_buffer := memcpy (sm_read_buffer st) 0 [x], sm_reads := sm_reads st - 1,
       sm_reads_done := sm_reads_done st @ [1] \<rparr>) es now)"
  using smux_step.readable [of 0 "one_stream lib st es now" st "[x]" lib] assms by simp

lemma read_one_frame:
  assumes "cfg_nocomp (ss_config s)" "\<not> ss_closed s" "ss_receive_buffer s = []"
    and "frame_allowed (cfg_smuxver (ss_config s)) (c, sid, p)"
    and "int (8 + length p) \<le> cfg_smuxbuf (ss_config s)"
  shows "on_transport_bytes lib now (make_frame (cfg_smuxver (ss_config s)) c sid p) s =
     with_input [] (ss_decompressor s) now (handle_frame lib c sid p s)"
proof -
  let ?v = "cfg_smuxver (ss_config s)" and ?f = "make_frame (cfg_smuxver (ss_config s)) c sid p"
  have "frame_loop ?v () ?f = Inr ((), [(c, sid, p)], [])"
    using frame_loop_frames [of "[(c, sid, p)]" ?v] assms(4) by (simp add: frame_bytes_def)
  then have "foldl (\<lambda>s bs. consume_stream_bytes lib bs s) (with_input [] (ss_decompressor s) now s) [?f] =
      with_input [] (ss_decompressor s) now (handle_frames lib [(c, sid, p)] s)"
    using assms foldl_consume_input [of s "[?f]" "[(c, sid, p)]" "[]"]
    by (simp add: reads_fit_def smux_header_size_def frame_step_def next_frame_def)
  moreover have "?f \<noteq> []" by (simp add: make_frame_eq)
  ultimately show ?thesis using assms by (simp add: on_transport_bytes_def activity_eq)
qed

lemma run_update:
  assumes "ready st"
  shows "smux_step lib (one_stream lib st es t)
    (Ev_transport now (make_frame 2 Cmd_upd 3 (le32_bytes c @ le32_bytes w)))
    (one_stream lib (st \<lparr> sm_peer_consumed := c, sm_peer_window := w, sm_reads := sm_reads st + 1 \<rparr>)
       (es @ [Read_start 0]) now)"
proof -
  let ?p = "le32_bytes c @ le32_bytes w" and ?s = "one_stream lib st es t"
  have up: "on_update lib 0 c w ?s = one_stream lib (st \<lparr> sm_peer_consumed := c, sm_peer_window := w, sm_reads := sm_reads st + 1 \<rparr>)
       (es @ [Read_start 0]) t"
    using assms by (simp add: on_update_def try_flush_outbound_def flush_loop.simps flush_round_def ready_def
        has_pending_outbound_def start_tcp_read_def)
  have fields: "read_le32 ?p 0 = c" "read_le32 ?p 4 = w"
    using le32.dec_after [of "[]" 0 c "le32_bytes w"] le32.dec_after [of "le32_bytes c" 4 w "[]"] by simp_all
  have "on_transport_bytes lib now (make_frame 2 Cmd_upd 3 ?p) ?s = with_input [] (ss_decompressor ?s) now (on_update lib 0 c w ?s)"
    using read_one_frame [of ?s Cmd_upd 3 ?p lib now]
    by (simp add: base_defaults_def frame_allowed_def handle_frame_def fields smux_update_size_def)
  also have "\<dots> = one_stream lib (st \<lparr> sm_peer_consumed := c, sm_peer_window := w, sm_reads := sm_reads st + 1 \<rparr>)
       (es @ [Read_start 0]) now"
    unfolding up by simp
  finally show ?thesis
    using smux_step.transport [of ?s lib now "make_frame 2 Cmd_upd 3 ?p"] by simp
qed

lemma run_handler:
  assumes "ready st" "sm_reads_done st = 1 # ns" "take 1 (sm_read_buffer st) = [x]" "0 < available_peer_window st"
  shows "smux_step lib (one_stream lib st es t) (Ev_read_handler 0)
    (one_stream lib (st \<lparr> sm_reads_done := ns, sm_num_written := sm_num_written st + 1, sm_reads := sm_reads st + 1 \<rparr>)
       (es @ [Transport_send (make_frame 2 Cmd_psh 3 [x]), Read_start 0]) t)"
proof -
  let ?st = "st \<lparr> sm_reads_done := ns, sm_pending_outbound := [([x], 0)] \<rparr>"
  let ?sent = "?st \<lparr> sm_pending_outbound := [([x], 1)], sm_num_written := sm_num_written st + 1 \<rparr>"
  let ?es = "es @ [Transport_send (make_frame 2 Cmd_psh 3 [x])]"
  have "available_peer_window ?st = available_peer_window st" by (simp add: available_peer_window_def Let_def)
  then have "flush_round lib ?st (one_stream lib ?st es t) = Some (?sent, one_stream lib ?st ?es t)"
    using assms by (simp add: flush_round_def ready_def send_chunk_def send_frame_def base_defaults_def Let_def)
  moreover have "flush_round lib ?sent (one_stream lib ?st ?es t) = Some (?sent \<lparr> sm_pending_outbound := [] \<rparr>, one_stream lib ?st ?es t)"
    by (simp add: flush_round_def)
  ultimately have "flush_loop lib ?st (one_stream lib ?st es t) = (?sent \<lparr> sm_pending_outbound := [] \<rparr>, one_stream lib ?st ?es t)"
    by (simp add: flush_loop.simps flush_round_def)
  moreover have "queue_outbound (take 1 (sm_read_buffer st)) (st \<lparr> sm_reads_done := ns \<rparr>) = ?st"
    using assms(1) unfolding assms(3) by (simp add: queue_outbound_def ready_def)
  ultimately have "read_handler lib 0 1 (one_stream lib (st \<lparr> sm_reads_done := ns \<rparr>) es t) =
      start_tcp_read 0 (one_stream lib (?sent \<lparr> sm_pending_outbound := [] \<rparr>) ?es t)"
    using assms by (simp add: read_handler_def Let_def ready_def try_flush_outbound_def has_pending_outbound_def)
  also have "\<dots> = one_stream lib (?sent \<lparr> sm_pending_outbound := [], sm_reads := sm_reads st + 1 \<rparr>) (?es @ [Read_start 0]) t"
    using assms(1) by (simp add: start_tcp_read_def ready_def has_pending_outbound_def)
  also have "?sent \<lparr> sm_pending_outbound := [], sm_reads := sm_reads st + 1 \<rparr> =
      st \<lparr> sm_reads_done := ns, sm_num_written := sm_num_written st + 1, sm_reads := sm_reads st + 1 \<rparr>"
    using assms(1) by (simp add: ready_def)
  finally show ?thesis
    using smux_step.read_done [of 0 "one_stream lib st es t" st 1 ns lib] assms(2) by simp
qed

lemma run_open:
  "smux_step lib (plain_client lib) (Ev_open False)
     (one_stream lib ((make_stream lib 3 (plain_client lib)) \<lparr> sm_socket_open := True, sm_tcp_ready := True, sm_reads := 1 \<rparr>)
       [Transport_start, Keepalive_start 10, Transport_send (make_frame 2 Cmd_syn 3 []), Read_start 0] 0)"
proof -
  let ?st = "make_stream lib 3 (plain_client lib)"
  let ?es = "[Transport_start, Keepalive_start 10, Transport_send (make_frame 2 Cmd_syn 3 [])]"
  have fresh: "\<not> ss_closed (plain_client lib)" "ss_next_stream_id (plain_client lib) = 1" "ss_objects (plain_client lib) = []"
    "ss_streams (plain_client lib) = []" "ss_effects (plain_client lib) = [Transport_start, Keepalive_start 10]" "ss_alive (plain_client lib)"
    "ss_config (plain_client lib) = (base_defaults ()) \<lparr> cfg_nocomp := True \<rparr>" "ss_last_activity (plain_client lib) = 0"
    by (simp_all add: plain_client_def initial_session_def make_smux_session_def start_session_def
      start_keepalive_timer_def emit_def base_defaults_def)
  have st: "make_stream lib 3 (plain_client lib \<lparr> ss_next_stream_id := 3 \<rparr>) = ?st"
    "make_stream lib 3 (one_stream lib x es t) = ?st" for x es t
    by (simp_all add: make_stream_def one_stream_def)
  have "open_stream lib (plain_client lib) = Inr (0, one_stream lib ?st ?es 0)"
    using fresh by (simp add: open_stream_def new_stream_def emplace_stream_def Let_def send_frame_def emit_def base_defaults_def
       one_stream_def st)
  then have "smux_step lib (plain_client lib) (Ev_open False) (start_client False 0 (one_stream lib ?st ?es 0))"
    using fresh(6) by (rule smux_step.open_ok [rotated])
  moreover have "start_client False 0 (one_stream lib ?st ?es 0) =
      one_stream lib (?st \<lparr> sm_socket_open := True, sm_tcp_ready := True, sm_reads := 1 \<rparr>) (?es @ [Read_start 0]) 0"
    by (simp add: start_client_def flush_tcp_writes_def start_tcp_read_def has_pending_outbound_def Let_def make_stream_def)
  ultimately show ?thesis by simp
qed

text \<open>The frames an uncompressed session has sent.\<close>

definition sent_frames :: "smux_session \<Rightarrow> bytes list" where
  "sent_frames s = [m. Transport_send m \<leftarrow> ss_effects s]"

text \<open>A window update that arrives while a read is pending starts a second read into the
  same buffer, and bytes are lost: in the run below the socket of stream 3 yields 7, 1, 2
  (the peer acknowledges the 7, both pending reads complete, then their handlers run), and
  the client sends 7, 2, 2.\<close>

theorem update_starts_overlapping_read:
  "smux_reachable lib ((base_defaults ()) \<lparr> cfg_nocomp := True \<rparr>) True (plain_client lib) \<and> (\<exists>s. smux_run lib (plain_client lib)
      [Ev_open False, Ev_readable 0 [7], Ev_read_handler 0,
       Ev_transport 1 (make_frame 2 Cmd_upd 3 (le32_bytes 1 @ le32_bytes 2097152)),
       Ev_readable 0 [1], Ev_readable 0 [2], Ev_read_handler 0, Ev_read_handler 0] s \<and>
    sent_frames s = [make_frame 2 Cmd_syn 3 [],
      make_frame 2 Cmd_psh 3 [7], make_frame 2 Cmd_psh 3 [2], make_frame 2 Cmd_psh 3 [2]])"
proof -
  let ?st = "(make_stream lib 3 (plain_client lib)) \<lparr> sm_socket_open := True, sm_tcp_ready := True, sm_reads := 1 \<rparr>"
  define st where "st = ?st"
  have buf: "length (sm_read_buffer st) = 32768" by (simp add: st_def make_stream_def)
  have ready: "ready st" and counts: "sm_reads st = 1" "sm_reads_done st = []" "sm_num_written st = 0"
      "sm_peer_consumed st = 0" "sm_peer_window st = 262144"
    by (simp_all add: st_def make_stream_def ready_def make_qpp_stream_def qpp_enabled_def plain_client_def
        initial_session_def make_smux_session_def start_session_def start_keepalive_timer_def emit_def base_defaults_def)
  note facts = ready_counters ready counts memcpy_zero available_peer_window_def Let_def
  obtain s where "smux_run lib (plain_client lib)
      [Ev_open False, Ev_readable 0 [7], Ev_read_handler 0,
       Ev_transport 1 (make_frame 2 Cmd_upd 3 (le32_bytes 1 @ le32_bytes 2097152)),
       Ev_readable 0 [1], Ev_readable 0 [2], Ev_read_handler 0, Ev_read_handler 0] s"
    "sent_frames s = [make_frame 2 Cmd_syn 3 [],
      make_frame 2 Cmd_psh 3 [7], make_frame 2 Cmd_psh 3 [2], make_frame 2 Cmd_psh 3 [2]]"
    apply (rule that)
     apply (rule smux_run.event [OF run_open [of lib, folded st_def]])
     apply (rule smux_run.event [OF run_readable], simp add: facts)
     apply (rule smux_run.event [OF run_handler [where x = 7 and ns = "[]"]], (simp add: facts)+)
     apply (rule smux_run.event [OF run_update], simp add: facts)
     apply (rule smux_run.event [OF run_readable], simp add: facts)
     apply (rule smux_run.event [OF run_readable], simp add: facts)
     apply (rule smux_run.event [OF run_handler [where x = 2 and ns = "[1]"]], (simp add: facts)+)
     apply (rule smux_run.event [OF run_handler [where x = 2 and ns = "[]"]], (simp add: facts)+)
     apply (rule smux_run.stop)
    apply (simp add: sent_frames_def)
    done
  moreover have "smux_reachable lib ((base_defaults ()) \<lparr> cfg_nocomp := True \<rparr>) True (plain_client lib)"
    by (rule smux_reachable.start [of _ _ _ False None 0])
      (simp add: plain_client_def initial_session_def make_smux_session_def base_defaults_def)
  ultimately show ?thesis by blast
qed

end
