(* ===== verification/Tunnel.thy ===== *)
theory Tunnel
  imports Kcp_Delivery Smux_Safety
begin

text \<open>
  A session on its transport: \<open>SmuxSession\<close> and \<open>KcpTransport\<close> as they are wired by
  \<open>SmuxSession::start\<close>. The session is the user state of the transport; the transport
  calls it makes are those among the effects it adds, in the same order. A session never
  asks the transport for anything, so running the calls after the handler is the same as
  running them inside it.
\<close>

type_synonym 'k tunnel = "('k, smux_session) kcp_transport"

fun transport_call :: "smux_effect \<Rightarrow> transport_call option" where
  "transport_call (Transport_send bytes) = Some (Call_send bytes)"
| "transport_call Transport_close = Some Call_close"
| "transport_call _ = None"

definition new_calls :: "smux_session \<Rightarrow> smux_session \<Rightarrow> transport_call list" where
  "new_calls s s' = List.map_filter transport_call (drop (length (ss_effects s)) (ss_effects s'))"

text \<open>The read handler holds the session weakly.\<close>

definition smux_reader :: "smux_lib \<Rightarrow> smux_session reader" where
  "smux_reader slib now data s =
     (if ss_alive s then let s' = on_transport_bytes slib now data s in (new_calls s s', s') else ([], s))"

text \<open>An operation on the session, run by anything but the transport.\<close>

definition on_session :: "'k transport_lib \<Rightarrow> int \<Rightarrow> (smux_session \<Rightarrow> smux_session) \<Rightarrow> 'k tunnel \<Rightarrow> 'k tunnel" where
  "on_session lib now f t =
     (let s = f (kt_user t) in foldl (run_call lib now) (t \<lparr> kt_user := s \<rparr>) (new_calls (kt_user t) s))"

text \<open>
  \<open>make_shared<KcpTransport>\<close>, then \<open>make_shared<SmuxSession>\<close>: the exception of the first
  constructor wins.
\<close>

definition make_tunnel ::
  "'k transport_lib \<Rightarrow> smux_lib \<Rightarrow> int \<Rightarrow> endpoint \<Rightarrow> u32 \<Rightarrow> base_config \<Rightarrow> bool \<Rightarrow> snmp \<Rightarrow> nat \<Rightarrow> 'k tunnel result" where
  "make_tunnel lib slib now remote conv config client counters draws =
     (case make_smux_session slib config client False now of
        Inr s \<Rightarrow> make_kcp_transport lib remote conv config True counters draws s
      | Inl e \<Rightarrow>
          (case make_kcp_transport lib remote conv config True counters draws () of
             Inl e' \<Rightarrow> Inl e'
           | Inr _ \<Rightarrow> Inl e))"

definition start_tunnel :: "smux_lib \<Rightarrow> 'k tunnel \<Rightarrow> 'k tunnel" where
  "start_tunnel slib t =
     (let t = start_transport (set_read_handler (smux_reader slib) t)
      in t \<lparr> kt_user := start_session (kt_user t) \<rparr>)"

section \<open>What no operation changes\<close>

text \<open>The address, the conversation number and the configuration of a transport.\<close>

definition same_peer :: "('k, 'w) kcp_transport \<Rightarrow> ('k, 'w) kcp_transport \<Rightarrow> bool" where
  "same_peer t t' \<longleftrightarrow> kt_remote t' = kt_remote t \<and> kt_conv t' = kt_conv t \<and> kt_config t' = kt_config t \<and>
     kt_has_close_handler t' = kt_has_close_handler t \<and> kt_crypt t' = kt_crypt t"

lemma same_peer_refl [simp]: "same_peer t t"
  by (simp add: same_peer_def)

lemma same_peer_trans: "same_peer t u \<Longrightarrow> same_peer u v \<Longrightarrow> same_peer t v"
  by (simp add: same_peer_def)

lemma same_peer_updates [simp]:
  "same_peer t (note_effect e u) = same_peer t u" "same_peer t (count f n u) = same_peer t u"
  "same_peer t (u \<lparr> kt_kcp := k \<rparr>) = same_peer t u" "same_peer t (u \<lparr> kt_fec := c \<rparr>) = same_peer t u"
  "same_peer t (u \<lparr> kt_draws := n \<rparr>) = same_peer t u" "same_peer t (u \<lparr> kt_user := w \<rparr>) = same_peer t u"
  "same_peer t (u \<lparr> kt_snmp := c' \<rparr>) = same_peer t u" "same_peer t (u \<lparr> kt_pending_udp := q \<rparr>) = same_peer t u"
  "same_peer t (u \<lparr> kt_closing := b \<rparr>) = same_peer t u" "same_peer t (set_read_handler h u) = same_peer t u"
  "same_peer t (u \<lparr> kt_rate_send_active := b, kt_next_tx_time := m \<rparr>) = same_peer t u"
  by (simp_all add: same_peer_def note_effect_def count_def set_read_handler_def)

lemma same_peer_simple [simp]:
  "same_peer t (close_transport u) = same_peer t u" "same_peer t (schedule_rate_limited_send now u) = same_peer t u"
  "same_peer t (enqueue_udp_packet now d u) = same_peer t u" "same_peer t (start_update_timer u) = same_peer t u"
  by (simp_all add: close_transport_def schedule_rate_limited_send_def enqueue_udp_packet_def start_update_timer_def Let_def)

lemma same_peer_send_packets [simp]: "same_peer t (send_packets lib now packets u) = same_peer t u"
  by (induction lib now packets u rule: send_packets.induct) (simp_all split: sum.split)

lemma same_peer_run_output [simp]: "same_peer t (run_output lib now r u) = same_peer t u"
proof -
  have "same_peer t (foldl (send_udp lib now) v ps) = same_peer t v" for v ps
    by (induction ps arbitrary: v) (simp_all add: send_udp_def Let_def split: prod.split)
  then show ?thesis by (simp add: run_output_def)
qed

lemma same_peer_send [simp]: "same_peer t (transport_send lib now bytes u) = same_peer t u"
  by (simp add: transport_send_def Let_def split: prod.split)

lemma same_peer_calls [simp]: "same_peer t (foldl (run_call lib now) u calls) = same_peer t u"
proof (induction calls arbitrary: u)
  case (Cons c calls)
  then show ?case by (cases c) simp_all
qed simp

lemma same_peer_drain:
  assumes "drain_kcp lib now t = Some t'"
  shows "same_peer t t'"
proof (rule drain_kcp.raw_induct [OF _ assms])
  fix drain lib now and t t' :: "('a, 'b) kcp_transport"
  assume ih: "\<And>lib now t t'. drain lib now t = Some t' \<Longrightarrow> same_peer t t'"
    and body: "(case drain_round lib now t of Inl t \<Rightarrow> Some t | Inr t \<Rightarrow> drain lib now t) = Some t'"
  have "case drain_round lib now t of Inl u \<Rightarrow> same_peer t u | Inr u \<Rightarrow> same_peer t u"
    by (simp add: drain_round_def run_read_handler_def Let_def split: prod.split option.split)
  then show "same_peer t t'" using body by (auto split: sum.splits dest!: ih intro: same_peer_trans)
qed

lemma same_peer_feed: "feed_packets lib now packets t = Some t' \<Longrightarrow> same_peer t t'"
proof (induction packets arbitrary: t)
  case (Cons p packets)
  show ?case using Cons(2)
    by (auto simp: Let_def split: prod.splits if_splits option.splits
        dest!: Cons(1) same_peer_drain intro: same_peer_trans elim!: same_peer_trans [rotated])
qed simp

lemma same_peer_input: "transport_input lib now packet t = Some (Inr t') \<Longrightarrow> same_peer t t'"
  by (auto simp: transport_input_def split: if_splits sum.splits prod.splits option.splits dest!: same_peer_feed)
    (auto simp: same_peer_def)

end
