(* ===== verification/Tunnel_Safety.thy ===== *)
theory Tunnel_Safety
  imports Tunnel
begin

text \<open>
  A session and its transport as one transition system, and its invariant: the two are
  closed together, so an open session is never left on a dead transport.
\<close>

section \<open>The effects of a session only grow\<close>

definition grows :: "smux_session \<Rightarrow> smux_session \<Rightarrow> bool" where
  "grows s s' \<longleftrightarrow> (\<exists>es. ss_effects s' = ss_effects s @ es)"

lemma grows_trans: "grows s t \<Longrightarrow> grows t u \<Longrightarrow> grows s u"
  by (auto simp: grows_def)

lemma grows_calm: "calm s t \<Longrightarrow> grows s t"
  by (auto simp: calm_def adds_def grows_def)

lemma grows_refl [simp]: "grows s s"
  by (simp add: grows_def)

lemma grows_put [simp]: "grows s (put_stream h st t) = grows s t" "grows (put_stream h st s) t = grows s t"
  by (simp_all add: grows_def)

lemma grows_emit: "grows s t \<Longrightarrow> grows s (emit e t)"
  by (auto simp: grows_def emit_def)

lemma effects_updates [simp]:
  "ss_effects (s \<lparr> ss_streams := x \<rparr>) = ss_effects s" "ss_effects (s \<lparr> ss_closed := b \<rparr>) = ss_effects s"
  "ss_effects (s \<lparr> ss_receive_buffer := y \<rparr>) = ss_effects s" "ss_effects (emplace_stream sid h s) = ss_effects s"
  "ss_effects (stream_closed sid s) = ss_effects s"
  by (simp_all add: emplace_stream_def stream_closed_def)

lemma grows_close_stream: "grows s (close_stream lib h s)"
proof (cases "sm_closed (stream_at s h)")
  case True
  then show ?thesis by (simp add: close_stream_def)
next
  case False
  have "grows s (send_local_fin lib h s)" by (rule grows_calm [OF calm_local_fin])
  then show ?thesis using False by (auto simp: close_stream_def grows_def emit_def Let_def)
qed

lemma grows_fail: "grows s (fail_and_close lib m h s)"
  unfolding fail_and_close_def by (rule grows_trans [OF _ grows_close_stream]) (auto simp: grows_def emit_def)

lemma grows_session_close: "grows s (session_close lib s)"
proof -
  have streams: "grows t (foldl (\<lambda>s (sid, h). close_stream lib h s) t hs)" for t hs
  proof (induction hs arbitrary: t)
    case (Cons x hs)
    then show ?case using grows_trans [OF grows_close_stream Cons] by (cases x) simp
  qed simp
  have "grows s ((emit Keepalive_cancel (s \<lparr> ss_closed := True \<rparr>)) \<lparr> ss_streams := [] \<rparr>)"
    by (simp add: grows_def emit_def)
  from grows_trans [OF this streams] show ?thesis
    by (auto simp: session_close_def Let_def intro!: grows_emit)
qed

lemma grows_protocol_error: "grows s (protocol_error lib m s)"
  unfolding protocol_error_def by (rule grows_trans [OF _ grows_session_close]) (auto simp: grows_def emit_def)

lemma grows_handle_frame: "grows s (handle_frame lib c sid p s)"
proof (cases c)
  case Cmd_syn
  have "grows s (run_accept_handler h (emplace_stream sid h (s \<lparr> ss_objects := os \<rparr>)))" for h os
    by (rule grows_trans [OF _ grows_calm [OF calm_accept]]) (simp add: grows_def)
  then show ?thesis by (auto simp: Cmd_syn handle_frame_def new_stream_def)
qed (auto simp: handle_frame_def intro: grows_calm [OF calm_on_fin] grows_calm [OF calm_on_data]
    grows_calm [OF calm_on_update] split: option.split)

lemma grows_consume_loop: "grows s (consume_loop lib s)"
proof (induction lib s rule: consume_loop.induct)
  case (1 lib s)
  show ?case
  proof (cases "ss_closed s \<or> next_frame (cfg_smuxver (ss_config s)) (ss_receive_buffer s) = None")
    case True
    then show ?thesis by (auto simp: consume_loop.simps [of lib s])
  next
    case False
    then obtain r where r: "next_frame (cfg_smuxver (ss_config s)) (ss_receive_buffer s) = Some r" by auto
    show ?thesis
    proof (cases r)
      case (Inl m)
      then show ?thesis using False r by (simp add: consume_loop.simps [of lib s] grows_protocol_error)
    next
      case (Inr f)
      obtain c sid p n where f: "f = ((c, sid, p), n)" by (cases f) auto
      let ?s = "handle_frame lib c sid p s"
      have "grows (?s \<lparr> ss_receive_buffer := drop n (ss_receive_buffer ?s) \<rparr>)
          (consume_loop lib (?s \<lparr> ss_receive_buffer := drop n (ss_receive_buffer ?s) \<rparr>))"
        using 1 False r Inr f by simp
      moreover have "grows s (?s \<lparr> ss_receive_buffer := drop n (ss_receive_buffer ?s) \<rparr>)"
        using grows_handle_frame [of s] by (simp add: grows_def)
      ultimately show ?thesis
        using False r Inr f grows_trans by (auto simp: consume_loop.simps [of lib s] Let_def)
    qed
  qed
qed

lemma grows_consume: "grows s (consume_stream_bytes lib bs s)"
proof -
  have "grows s (consume_loop lib (s \<lparr> ss_receive_buffer := ss_receive_buffer s @ bs \<rparr>))"
    by (rule grows_trans [OF _ grows_consume_loop]) (simp add: grows_def)
  then show ?thesis using grows_protocol_error by (simp add: consume_stream_bytes_def)
qed

lemma grows_transport: "grows s (on_transport_bytes lib now bs s)"
proof -
  have chunks: "grows t (foldl (\<lambda>s chunk. consume_stream_bytes lib chunk s) t cs)" for t cs
    by (induction cs arbitrary: t) (auto intro: grows_trans [OF grows_consume])
  have start: "grows s (s \<lparr> ss_last_activity := now \<rparr>)"
    "\<And>d. grows s (s \<lparr> ss_last_activity := now, ss_decompressor := d \<rparr>)"
    by (simp_all add: grows_def)
  show ?thesis
    using grows_trans [OF start(1) grows_protocol_error] grows_trans [OF start(1) grows_consume]
      grows_trans [OF start(2) chunks]
    by (auto simp: on_transport_bytes_def Let_def split: sum.split)
qed

lemma grows_fin: "grows s (maybe_finish h (send_local_fin lib h s))"
  by (rule grows_calm [OF calm_trans [OF calm_local_fin calm_maybe_finish]])

lemma grows_read_error: "grows s (read_error lib h err s)"
  by (simp add: read_error_def grows_fin grows_fail)

lemma grows_write_handler: "grows s (write_handler lib h err n s)"
proof -
  have all_calm: "grows t (maybe_finish h (shutdown_tcp_send_if_ready h (flush_tcp_writes h (mark_payload_consumed lib h n t))))" for t
    by (intro grows_calm calm_trans [OF _ calm_maybe_finish] calm_trans [OF _ calm_shutdown]
        calm_trans [OF _ calm_flush_tcp_writes] calm_mark)
  have put: "grows s t" if "grows (put_stream h st s) t" for st t using that by simp
  show ?thesis
    unfolding write_handler_def Let_def
    by (auto split: option.split intro: put [OF grows_fin] put [OF grows_fail] put [OF grows_trans [OF _ all_calm]])
qed

lemma grows_connect_handler: "grows s (connect_handler lib h failed s)"
proof -
  have ready: "grows t (shutdown_tcp_send_if_ready h (start_tcp_read h (flush_tcp_writes h t)))" for t
    by (intro grows_calm calm_trans [OF _ calm_shutdown] calm_trans [OF _ calm_start_tcp_read] calm_flush_tcp_writes)
  have put: "grows s t" if "grows (put_stream h st s) t" for st t using that by simp
  show ?thesis
    unfolding connect_handler_def Let_def
    by (auto intro: put [OF grows_fail] put [OF grows_trans [OF _ ready]])
qed

lemma grows_keepalive: "grows s (keepalive_tick lib now s)"
proof -
  have "grows s (send_frame lib Cmd_nop 0 [] s)" by (rule grows_calm [OF calm_send_frame])
  then show ?thesis
    using grows_trans [OF _ grows_session_close] grows_emit
    by (simp add: keepalive_tick_def start_keepalive_timer_def Let_def)
qed

lemma grows_step: "smux_step lib s ev s' \<Longrightarrow> grows s s'"
proof (induction rule: smux_step.cases)
  case (open_ok s h s1 u)
  have "grows s s1"
    using open_ok(5) by (auto simp: open_stream_def new_stream_def Let_def send_frame_eq grows_def split: if_splits)
  then show ?case using open_ok(1,2,3) grows_trans grows_calm [OF calm_start_client] by blast
next
  case (read_done h s st n ns)
  have "grows (put_stream h (st \<lparr> sm_reads_done := ns \<rparr>) s) s'" unfolding read_done by (rule grows_calm [OF calm_read_handler])
  then show ?case using read_done(1) by simp
next
  case (read_failed h s st err)
  have "grows (put_stream h (st \<lparr> sm_reads := sm_reads st - 1 \<rparr>) s) s'" unfolding read_failed by (rule grows_read_error)
  then show ?case using read_failed(1) by simp
next
  case (resolved h s failed)
  then show ?case using grows_fail by (auto simp: resolve_handler_def intro: grows_emit)
next
  case (dropped s)
  then show ?case by (simp add: grows_def)
qed (auto intro: grows_transport grows_close_stream grows_session_close grows_write_handler grows_connect_handler
    grows_keepalive)

section \<open>The transition system\<close>

definition accepting :: "smux_target option \<Rightarrow> 'k tunnel \<Rightarrow> 'k tunnel" where
  "accepting target t =
     (case target of None \<Rightarrow> t | Some g \<Rightarrow> t \<lparr> kt_user := set_accept_handler g (kt_user t) \<rparr>)"

inductive tunnel_step :: "'k transport_lib \<Rightarrow> smux_lib \<Rightarrow> 'k tunnel \<Rightarrow> 'k tunnel \<Rightarrow> bool" for lib slib where
  session: "smux_step slib (kt_user t) ev s \<Longrightarrow> tunnel_step lib slib t (on_session lib now (\<lambda>_. s) t)"
| received: "transport_input lib now packet t = Some (Inr t') \<Longrightarrow> tunnel_step lib slib t t'"
| updated: "update_kcp lib now t = Some t' \<Longrightarrow> tunnel_step lib slib t t'"
| rate_timer: "tunnel_step lib slib t (rate_timer_handler failed now t)"
| completed: "tunnel_step lib slib t (sent_handler failed n t)"
| outside: "tunnel_step lib slib t (t \<lparr> kt_snmp := counters, kt_draws := draws \<rparr>)"

inductive tunnel_reachable :: "'k transport_lib \<Rightarrow> smux_lib \<Rightarrow> base_config \<Rightarrow> bool \<Rightarrow> 'k tunnel \<Rightarrow> bool"
  for lib slib config client where
  made: "make_tunnel lib slib now remote conv config client counters draws = Inr t \<Longrightarrow>
    tunnel_reachable lib slib config client (start_tunnel slib (accepting target t))"
| step: "tunnel_reachable lib slib config client t \<Longrightarrow> tunnel_step lib slib t t' \<Longrightarrow>
    tunnel_reachable lib slib config client t'"

section \<open>Closed together\<close>

definition tunnel_inv ::
  "'k transport_lib \<Rightarrow> ('k \<Rightarrow> int) \<Rightarrow> smux_lib \<Rightarrow> base_config \<Rightarrow> bool \<Rightarrow> 'k tunnel \<Rightarrow> bool" where
  "tunnel_inv lib mtu slib config client t \<longleftrightarrow> kt_inv lib mtu config t \<and>
     kt_read_handler t = Some (smux_reader slib) \<and> smux_reachable slib config client (kt_user t) \<and>
     kt_closing t = ss_closed (kt_user t)"

text \<open>What the transport does on its own closes nothing.\<close>

definition steady :: "('k, 'w) kcp_transport \<Rightarrow> ('k, 'w) kcp_transport \<Rightarrow> bool" where
  "steady t t' \<longleftrightarrow> kt_user t' = kt_user t \<and> kt_read_handler t' = kt_read_handler t \<and> kt_closing t' = kt_closing t"

lemma steady_refl [simp]: "steady t t"
  by (simp add: steady_def)

lemma steady_trans: "steady t u \<Longrightarrow> steady u v \<Longrightarrow> steady t v"
  by (simp add: steady_def)

lemma steady_updates [simp]:
  "steady t (note_effect e u) = steady t u" "steady t (count f n u) = steady t u"
  "steady t (u \<lparr> kt_kcp := k \<rparr>) = steady t u" "steady t (u \<lparr> kt_fec := c \<rparr>) = steady t u"
  "steady t (u \<lparr> kt_draws := n \<rparr>) = steady t u" "steady t (u \<lparr> kt_snmp := c' \<rparr>) = steady t u"
  "steady t (u \<lparr> kt_pending_udp := q \<rparr>) = steady t u"
  "steady t (u \<lparr> kt_rate_send_active := b, kt_next_tx_time := m \<rparr>) = steady t u"
  "steady t (u \<lparr> kt_pending_udp := q, kt_next_tx_time := m \<rparr>) = steady t u"
  "steady t (u \<lparr> kt_rate_send_active := b \<rparr>) = steady t u"
  "steady t (u \<lparr> kt_next_tx_time := m \<rparr>) = steady t u"
  by (simp_all add: steady_def note_effect_def count_def)

lemma steady_simple [simp]:
  "steady t (schedule_rate_limited_send now u) = steady t u" "steady t (enqueue_udp_packet now d u) = steady t u"
  "steady t (start_update_timer u) = steady t u" "steady t (sent_handler failed n u) = steady t u"
  "steady t (rate_timer_handler failed now u) = steady t u"
  by (simp_all add: schedule_rate_limited_send_def enqueue_udp_packet_def start_update_timer_def sent_handler_def
      rate_timer_handler_def Let_def)

lemma steady_send_packets:
  assumes "crypto_documented lib" "\<forall>p \<in> set packets. length p \<le> 2147483647"
  shows "steady t (send_packets lib now packets t)"
  using assms(2)
proof (induction packets arbitrary: t)
  case (Cons p packets)
  have "random_block (tl_random lib (kt_draws t))" "gcm_documented (tl_crypto lib)"
    using assms(1) by (auto simp: crypto_documented_def)
  then obtain c where "pc_encrypt (tl_crypto lib) (tl_random lib (kt_draws t)) (kt_crypt t) p = Inr c"
    using pc_roundtrip Cons(2) by (metis list.set_intros(1))
  then show ?case
    using Cons(1) [of "enqueue_udp_packet now c (t \<lparr> kt_draws := kt_draws t + 1 \<rparr>)"] Cons(2)
      steady_trans [of t "enqueue_udp_packet now c (t \<lparr> kt_draws := kt_draws t + 1 \<rparr>)"] by simp
qed simp

lemma steady_send_udp:
  assumes lib: "crypto_documented lib" "int_range (cfg_mtu config)" and inv: "kt_inv lib mtu config t"
    and p: "int (length p) \<le> mtu (kt_kcp t)"
  shows "steady t (send_udp lib now t p)"
proof (cases "kt_closing t \<or> p = []")
  case False
  let ?t = "count Out_segs (count_kcp_segments p) t" and ?m = "nat (mtu (kt_kcp t))"
  obtain packets fec where enc: "fec_encode (int (unat (current_millis (nat now)))) p (kt_fec t) = (packets, fec)" by fastforce
  have "\<forall>q \<in> set packets. length q \<le> ?m + fec_overhead (kt_fec t)"
    using fec_encode_reachable [OF _ enc, of config ?m] inv p by (auto simp: kt_inv_def)
  then have "\<forall>q \<in> set packets. length q \<le> 2147483647"
    using inv lib(2) by (fastforce simp: kt_inv_def int_range_def)
  then have "steady (?t \<lparr> kt_fec := fec \<rparr>) (send_packets lib now packets (?t \<lparr> kt_fec := fec \<rparr>))"
    by (rule steady_send_packets [OF lib(1)])
  then have "steady t (send_packets lib now packets (?t \<lparr> kt_fec := fec \<rparr>))"
    using steady_trans [of t "?t \<lparr> kt_fec := fec \<rparr>"] by simp
  then show ?thesis using False enc by (simp add: send_udp_def count_def Let_def)
qed (simp add: send_udp_def)

lemma steady_run_output:
  assumes lib: "crypto_documented lib" "int_range (cfg_mtu config)" and inv: "kt_inv lib mtu config t"
    and r: "mtu (snd r) = mtu (kt_kcp t)" "\<forall>p \<in> set (fst r). int (length p) \<le> mtu (kt_kcp t)"
  shows "steady t (run_output lib now r t)"
proof -
  have all: "steady u (foldl (send_udp lib now) u ps)"
    if "kt_inv lib mtu config u" "\<forall>p \<in> set ps. int (length p) \<le> mtu (kt_kcp u)" for u ps
    using that
  proof (induction ps arbitrary: u)
    case (Cons p ps)
    have "steady u (send_udp lib now u p)" "kt_inv lib mtu config (send_udp lib now u p)"
      using Cons(2,3) steady_send_udp [OF lib] kt_inv_send_udp [OF lib] by auto
    then show ?case using Cons(1) [of "send_udp lib now u p"] Cons(3) steady_trans by auto
  qed simp
  have "kt_inv lib mtu config (t \<lparr> kt_kcp := snd r \<rparr>)" by (rule kt_inv_minor [OF inv minor_basic(3) [OF r(1)]])
  then have "steady (t \<lparr> kt_kcp := snd r \<rparr>) (run_output lib now r t)"
    unfolding run_output_def by (rule all) (simp add: r)
  then show ?thesis using steady_trans [of t "t \<lparr> kt_kcp := snd r \<rparr>"] by simp
qed

lemma steady_send:
  assumes lib: "kcp_documented lib mtu backlog" "crypto_documented lib" "int_range (cfg_mtu config)"
    and inv: "kt_inv lib mtu config t"
  shows "steady t (transport_send lib now bytes t)"
proof (cases "kt_closing t \<or> bytes = []")
  case False
  obtain complete r k where loop: "send_loop lib bytes (kt_kcp t) = (complete, r, k)" by (metis prod.collapse)
  note law = kcp_documentedD [OF lib(1)]
  let ?t = "(count Bytes_sent (length bytes) t) \<lparr> kt_kcp := k \<rparr>"
  have "mtu k = mtu (kt_kcp (count Bytes_sent (length bytes) t))"
    using send_loop_keeps [OF law(1), of bytes "kt_kcp t"] loop by simp
  then have "kt_inv lib mtu config ?t"
    by (rule kt_inv_minor [OF kt_inv_minor [OF inv minor_basic(2)] minor_basic(3)])
  then have "steady ?t (run_output lib now (tl_flush lib (kt_kcp ?t)) ?t)"
    by (rule steady_run_output [OF lib(2,3) _ law(5,8)])
  then have "steady t (run_output lib now (tl_flush lib (kt_kcp ?t)) ?t)"
    using steady_trans [of t ?t] by simp
  then show ?thesis using loop unfolding transport_send_def Let_def if_not_P [OF False] by simp
qed (simp add: transport_send_def)

lemma session_part_close: "session_part (close_stream lib h s) = session_part s"
proof (cases "sm_closed (stream_at s h)")
  case True
  then show ?thesis by (simp add: close_stream_def)
next
  case False
  have fin: "session_part (send_local_fin lib h s) = session_part s" using calm_local_fin by (auto simp: calm_def)
  have closed: "session_part (stream_closed sid t) = session_part t" for sid t
    by (simp add: stream_closed_def session_part_def)
  show ?thesis using False by (simp add: close_stream_def closed fin Let_def)
qed

lemma session_close_closed: "ss_closed (session_close lib s)"
proof (cases "ss_closed s")
  case True
  then show ?thesis by (simp add: session_close_def)
next
  case False
  define u where "u = (emit Keepalive_cancel (s \<lparr> ss_closed := True \<rparr>)) \<lparr> ss_streams := [] \<rparr>"
  have "session_part (foldl (\<lambda>s (sid, h). close_stream lib h s) v hs) = session_part v" for v hs
    by (induction hs arbitrary: v) (auto simp: session_part_close)
  note part = static_fields(10) [OF this]
  have "ss_closed (foldl (\<lambda>s (sid, h). close_stream lib h s) u hs)" for hs
    unfolding part by (simp add: u_def emit_def)
  then show ?thesis
    unfolding session_close_def Let_def if_not_P [OF False] by (simp add: u_def emit_def)
qed

text \<open>The calls of a session; it closes the transport exactly when it closes itself.\<close>

lemma run_calls:
  assumes lib: "kcp_documented lib mtu backlog" "crypto_documented lib" "int_range (cfg_mtu config)"
    and "kt_inv lib mtu config t"
  shows "kt_inv lib mtu config (foldl (run_call lib now) t calls) \<and>
    kt_user (foldl (run_call lib now) t calls) = kt_user t \<and>
    kt_read_handler (foldl (run_call lib now) t calls) = kt_read_handler t \<and>
    kt_closing (foldl (run_call lib now) t calls) = (kt_closing t \<or> Call_close \<in> set calls)"
  using assms(4)
proof (induction calls arbitrary: t)
  case (Cons c calls)
  have inv: "kt_inv lib mtu config (run_call lib now t c)"
    using Cons(2) good_call [OF lib, of t now c] by (simp add: good_def)
  show ?case
  proof (cases c)
    case (Call_send b)
    then show ?thesis using Cons(1) [OF inv] steady_send [OF lib Cons(2), of now b] by (simp add: steady_def)
  next
    case Call_close
    have "kt_user (close_transport t) = kt_user t" "kt_read_handler (close_transport t) = kt_read_handler t"
      "kt_closing (close_transport t)"
      by (simp_all add: close_transport_def note_effect_def Let_def)
    then show ?thesis using Cons(1) [OF inv] Call_close by simp
  qed
qed simp

lemma close_calls:
  assumes "smux_reachable slib config client s" "smux_step slib s ev s'"
  shows "ss_closed s' = (ss_closed s \<or> Call_close \<in> set (new_calls s s'))"
proof -
  have "effects_ok s" "effects_ok s'"
    using smux_reachable_inv assms smux_reachable.step by (fastforce simp: smux_inv_def)+
  then have closed: "ss_closed s \<longleftrightarrow> Transport_close \<in> set (ss_effects s)" "ss_closed s' \<longleftrightarrow> Transport_close \<in> set (ss_effects s')"
    by (auto simp: effects_ok_def split: if_splits)
  obtain es where es: "ss_effects s' = ss_effects s @ es" using grows_step [OF assms(2)] by (auto simp: grows_def)
  have "transport_call e = Some Call_close \<longleftrightarrow> e = Transport_close" for e by (cases e) auto
  then have "Call_close \<in> set (List.map_filter transport_call es) \<longleftrightarrow> Transport_close \<in> set es"
    by (force simp: List.map_filter_def)
  then show ?thesis using closed es by (auto simp: new_calls_def)
qed

lemma tunnel_inv_calls:
  assumes lib: "kcp_documented lib mtu backlog" "crypto_documented lib" "int_range (cfg_mtu config)"
    and inv: "tunnel_inv lib mtu slib config client t" and ev: "smux_step slib (kt_user t) ev s"
  shows "tunnel_inv lib mtu slib config client (foldl (run_call lib now) (t \<lparr> kt_user := s \<rparr>) (new_calls (kt_user t) s))"
proof -
  have "kt_inv lib mtu config (t \<lparr> kt_user := s \<rparr>)" and reach: "smux_reachable slib config client (kt_user t)"
    using inv kt_inv_minor [OF _ minor_basic(5)] by (auto simp: tunnel_inv_def)
  from run_calls [OF lib this(1), of now "new_calls (kt_user t) s"] show ?thesis
    using inv close_calls [OF reach ev] smux_reachable.step [OF reach ev] by (auto simp: tunnel_inv_def)
qed

lemma tunnel_inv_steady:
  "tunnel_inv lib mtu slib config client t \<Longrightarrow> kt_inv lib mtu config t' \<Longrightarrow> steady t t' \<Longrightarrow>
     tunnel_inv lib mtu slib config client t'"
  by (simp add: tunnel_inv_def steady_def)

lemma tunnel_inv_minor:
  "tunnel_inv lib mtu slib config client t \<Longrightarrow> minor mtu t t' \<Longrightarrow> steady t t' \<Longrightarrow> tunnel_inv lib mtu slib config client t'"
  by (rule tunnel_inv_steady) (auto simp: tunnel_inv_def intro: kt_inv_minor)

lemma tunnel_inv_read_handler:
  assumes lib: "kcp_documented lib mtu backlog" "crypto_documented lib" "int_range (cfg_mtu config)"
    and inv: "tunnel_inv lib mtu slib config client t"
  shows "tunnel_inv lib mtu slib config client (run_read_handler lib now data t)"
proof -
  have "kt_read_handler t = Some (smux_reader slib)" using inv by (simp add: tunnel_inv_def)
  then show ?thesis
    using inv tunnel_inv_calls [OF lib inv smux_step.transport, where now1 = now and bs1 = data and now = now]
    by (simp add: run_read_handler_def smux_reader_def Let_def)
qed

lemma tunnel_inv_drain:
  assumes lib: "kcp_documented lib mtu backlog" "crypto_documented lib" "int_range (cfg_mtu config)"
    and inv: "tunnel_inv lib mtu slib config client t" and drain: "drain_kcp lib now t = Some t'"
  shows "tunnel_inv lib mtu slib config client t'"
proof -
  have round: "case drain_round lib now t of Inl u \<Rightarrow> tunnel_inv lib mtu slib config client u
      | Inr u \<Rightarrow> tunnel_inv lib mtu slib config client u"
    if inv: "tunnel_inv lib mtu slib config client t" for now t
  proof -
    obtain r buf k where recv: "tl_recv lib (tl_peeksize lib (kt_kcp t)) (kt_kcp t) = (r, buf, k)" by (metis prod.collapse)
    have k: "mtu k = mtu (kt_kcp t)" using kcp_documentedD(4) [OF lib(1)] recv by (metis snd_conv)
    have "tunnel_inv lib mtu slib config client (t \<lparr> kt_kcp := k \<rparr>)"
      by (rule tunnel_inv_minor [OF inv minor_basic(3) [OF k]]) simp
    moreover have "tunnel_inv lib mtu slib config client (count Bytes_received n u)"
      if "tunnel_inv lib mtu slib config client u" for n u
      by (rule tunnel_inv_minor [OF that minor_basic(2)]) simp
    ultimately show ?thesis
      using inv recv tunnel_inv_read_handler [OF lib] by (simp add: drain_round_def Let_def)
  qed
  have "lib' = lib \<longrightarrow> tunnel_inv lib mtu slib config client u \<longrightarrow> tunnel_inv lib mtu slib config client u'"
    if "drain_kcp lib' now u = Some u'" for lib' now u u'
  proof (rule drain_kcp.raw_induct [where P = "\<lambda>lib' now u u'. lib' = lib \<longrightarrow>
        tunnel_inv lib mtu slib config client u \<longrightarrow> tunnel_inv lib mtu slib config client u'", OF _ that], intro impI)
    fix drain lib' now u u'
    assume ih: "\<And>lib' now u u'. drain lib' now u = Some u' \<Longrightarrow> lib' = lib \<longrightarrow>
        tunnel_inv lib mtu slib config client u \<longrightarrow> tunnel_inv lib mtu slib config client u'"
      and body: "(case drain_round lib' now u of Inl t \<Rightarrow> Some t | Inr t \<Rightarrow> drain lib' now t) = Some u'"
      and u: "lib' = lib" "tunnel_inv lib mtu slib config client u"
    show "tunnel_inv lib mtu slib config client u'"
      using round [OF u(2), of now] body ih u(1) by (auto split: sum.splits)
  qed
  then show ?thesis using inv drain by blast
qed

lemma tunnel_inv_feed:
  assumes lib: "kcp_documented lib mtu backlog" "crypto_documented lib" "int_range (cfg_mtu config)"
  shows "tunnel_inv lib mtu slib config client t \<Longrightarrow> feed_packets lib now packets t = Some t' \<Longrightarrow>
    tunnel_inv lib mtu slib config client t'"
proof (induction packets arbitrary: t)
  case (Cons p packets)
  let ?c = "count In_segs (count_kcp_segments p) t"
  obtain r k where input: "tl_input lib p (kt_kcp ?c) = (r, k)" by fastforce
  let ?t = "?c \<lparr> kt_kcp := k \<rparr>"
  have k: "mtu k = mtu (kt_kcp ?c)" using kcp_documentedD(3) [OF lib(1)] input by (metis snd_conv)
  have t: "tunnel_inv lib mtu slib config client ?t"
    by (rule tunnel_inv_minor [OF Cons(2) minor_trans [OF minor_basic(2) minor_basic(3) [OF k]]]) simp
  have "tunnel_inv lib mtu slib config client (note_effect (Transport_warn m) (count Kcp_in_errors 1 ?t))" for m
    by (rule tunnel_inv_minor [OF t minor_trans [OF minor_basic(2) minor_basic(1)]]) simp_all
  then show ?case
    using Cons(1,3) input tunnel_inv_drain [OF lib t] by (auto simp: Let_def split: if_splits option.splits)
qed simp

lemma tunnel_inv_flush:
  assumes lib: "kcp_documented lib mtu backlog" "crypto_documented lib" "int_range (cfg_mtu config)"
    and inv: "tunnel_inv lib mtu slib config client t"
  shows "tunnel_inv lib mtu slib config client (run_output lib now (tl_flush lib (kt_kcp t)) t)"
    "tunnel_inv lib mtu slib config client (run_output lib now (tl_update lib ms (kt_kcp t)) t)"
proof -
  note law = kcp_documentedD [OF lib(1)]
  have kt: "kt_inv lib mtu config t" using inv by (simp add: tunnel_inv_def)
  show "tunnel_inv lib mtu slib config client (run_output lib now (tl_flush lib (kt_kcp t)) t)"
    "tunnel_inv lib mtu slib config client (run_output lib now (tl_update lib ms (kt_kcp t)) t)"
    using tunnel_inv_steady [OF inv _ steady_run_output [OF lib(2,3) kt law(5,8)]] kt_inv_run_output [OF lib(2,3) kt law(5,8)]
      tunnel_inv_steady [OF inv _ steady_run_output [OF lib(2,3) kt law(6,9)]] kt_inv_run_output [OF lib(2,3) kt law(6,9)]
    by blast+
qed

lemma tunnel_inv_step:
  assumes lib: "kcp_documented lib mtu backlog" "crypto_documented lib" "int_range (cfg_mtu config)"
    and inv: "tunnel_inv lib mtu slib config client t" and "tunnel_step lib slib t t'"
  shows "tunnel_inv lib mtu slib config client t'"
  using assms(5)
proof cases
  case (session ev s now)
  then show ?thesis using tunnel_inv_calls [OF lib inv] by (simp add: on_session_def Let_def)
next
  case (received now packet)
  obtain packets fec counters where dec: "fec_decode packet (kt_fec t) (kt_snmp t) = Inr (packets, fec, counters)"
    "fec_reachable config fec" "fec_overhead fec = fec_overhead (kt_fec t)" "fec_max_shard_len fec = fec_max_shard_len (kt_fec t)"
    using fec_decode_reachable inv by (metis tunnel_inv_def kt_inv_def)
  let ?t = "t \<lparr> kt_fec := fec, kt_snmp := counters \<rparr>"
  have "kt_inv lib mtu config ?t" using inv dec by (simp add: tunnel_inv_def kt_inv_def udp_packets_def)
  then have t: "tunnel_inv lib mtu slib config client ?t" by (rule tunnel_inv_steady [OF inv]) simp
  show ?thesis
  proof (cases "kt_closing t \<or> packet = []")
    case True
    then show ?thesis using received inv by (simp add: transport_input_def)
  next
    case False
    then obtain u where "feed_packets lib now packets ?t = Some u"
      "t' = (if cfg_acknodelay (kt_config u) then run_output lib now (tl_flush lib (kt_kcp u)) u else u)"
      using received dec(1) by (auto simp: transport_input_def split: option.splits)
    then show ?thesis using tunnel_inv_feed [OF lib t] tunnel_inv_flush [OF lib] by simp
  qed
next
  case (updated now)
  show ?thesis
  proof (cases "kt_closing t")
    case True
    then show ?thesis using updated inv by (simp add: update_kcp_def)
  next
    case False
    then obtain u where "drain_kcp lib now (run_output lib now (tl_update lib (current_millis (nat now)) (kt_kcp t)) t) = Some u"
      "t' = start_update_timer u"
      using updated by (auto simp: update_kcp_def split: option.splits)
    then show ?thesis
      using tunnel_inv_minor [OF tunnel_inv_drain [OF lib tunnel_inv_flush(2) [OF lib inv]] minor_update_timer] by simp
  qed
next
  case (outside counters draws)
  have "kt_inv lib mtu config t'" using inv by (simp add: outside tunnel_inv_def kt_inv_def udp_packets_def)
  then show ?thesis by (rule tunnel_inv_steady [OF inv]) (simp add: outside)
qed (use tunnel_inv_minor [OF inv minor_rate_timer] tunnel_inv_minor [OF inv minor_sent] in simp_all)

lemma make_tunnel_parts:
  assumes "make_tunnel lib slib now remote conv config client counters draws = Inr t"
  obtains s where "make_smux_session slib config client False now = Inr s"
    "make_kcp_transport lib remote conv config True counters draws s = Inr t"
  using assms by (auto simp: make_tunnel_def split: sum.splits)

lemma tunnel_inv_made:
  assumes lib: "kcp_documented lib mtu backlog"
    and "make_tunnel lib slib now remote conv config client counters draws = Inr t"
  shows "tunnel_inv lib mtu slib config client (start_tunnel slib (accepting target t))"
proof -
  obtain s where s: "make_smux_session slib config client False now = Inr s"
    "make_kcp_transport lib remote conv config True counters draws s = Inr t"
    by (rule make_tunnel_parts [OF assms(2)])
  have user: "kt_user t = s" "\<not> kt_closing t"
    using s(2) by (auto simp: make_kcp_transport_def configure_kcp_def Let_def split: sum.splits option.splits if_splits prod.splits)
  let ?t = "start_tunnel slib (accepting target t)"
  have "initial_session slib config client False target now = Inr (kt_user ?t)"
    using s(1) user by (simp add: initial_session_def start_tunnel_def accepting_def start_transport_def start_update_timer_def
        set_read_handler_def note_effect_def Let_def split: option.split)
  then have "smux_reachable slib config client (kt_user ?t)" by (rule smux_reachable.start)
  moreover have "minor mtu t ?t"
    by (simp add: start_tunnel_def accepting_def start_transport_def start_update_timer_def
        set_read_handler_def note_effect_def minor_def udp_packets_def Let_def split: option.split)
  then have "kt_inv lib mtu config ?t" using kt_inv_made [OF lib s(2)] kt_inv_minor by blast
  moreover have "kt_read_handler ?t = Some (smux_reader slib)" "\<not> kt_closing ?t"
    using user by (simp_all add: start_tunnel_def accepting_def start_transport_def start_update_timer_def
        set_read_handler_def note_effect_def Let_def split: option.split)
  moreover have "\<not> ss_closed s"
    using s(1) by (auto simp: make_smux_session_def Let_def split: if_splits sum.splits)
  then have "\<not> ss_closed (kt_user ?t)"
    using user by (simp add: start_tunnel_def accepting_def start_transport_def start_update_timer_def start_session_def
        start_keepalive_timer_def emit_def set_accept_handler_def
        set_read_handler_def note_effect_def Let_def split: option.split)
  ultimately show ?thesis by (simp add: tunnel_inv_def)
qed

lemma tunnel_reachable_inv:
  assumes lib: "kcp_documented lib mtu backlog" "crypto_documented lib" "int_range (cfg_mtu config)"
    and "tunnel_reachable lib slib config client t"
  shows "tunnel_inv lib mtu slib config client t"
  using assms(4)
proof (induction rule: tunnel_reachable.induct)
  case (made now remote conv counters draws t target)
  then show ?case by (rule tunnel_inv_made [OF lib(1)])
next
  case (step t t')
  then show ?case using tunnel_inv_step [OF lib] by blast
qed

section \<open>Properties\<close>

text \<open>C9: A session and its transport are closed together: in every reachable state of the
  two, whatever arrives and whichever timer fires, the transport is closing exactly when the
  session is closed, so no stream is left waiting on a dead transport and no transport is
  left running without its session.\<close>

theorem closed_together:
  assumes "kcp_documented lib mtu backlog" "crypto_documented lib" "int_range (cfg_mtu config)"
    and "tunnel_reachable lib slib config client t"
  shows "kt_closing t \<longleftrightarrow> ss_closed (kt_user t)"
  using tunnel_reachable_inv [OF assms] by (simp add: tunnel_inv_def)

lemma queue_tunnel:
  obtains t :: "queue_engine tunnel" where
    "make_tunnel queue_lib toy_smux_lib 5 remote conv queue_config client counters draws = Inr t"
proof -
  have null: "normalize_method ''null'' = ''null''" by code_simp
  obtain fec where fec: "make_fec_codec queue_config = Inr fec" "fec_enabled fec"
    using make_fec_codec_total [of queue_config] by (auto simp: base_defaults_def)
  obtain crypt where crypt: "make_packet_crypt toy_lib queue_config = Inr crypt" "pc_overhead crypt = 0"
    by (simp add: make_packet_crypt_def null select_method_def base_defaults_def pc_overhead_def Let_def)
  obtain s where s: "make_smux_session toy_smux_lib queue_config client False 5 = Inr s"
    by (simp add: make_smux_session_def base_defaults_def Let_def)
  show ?thesis
    using that fec crypt s by (auto simp: make_tunnel_def make_kcp_transport_def queue_lib_def configure_kcp_def fec_overhead_def
        fec_header_size_plus_size_def int_add_def int_range_def base_defaults_def Let_def)
qed

lemma closed_together_witness:
  "\<exists>t :: queue_engine tunnel. ss_closed (kt_user t) \<and> kt_closing t"
proof -
  obtain t :: "queue_engine tunnel" where
    t: "make_tunnel queue_lib toy_smux_lib 5 (''10.0.0.1'', 4000) 7 queue_config True empty_snmp 0 = Inr t"
    by (rule queue_tunnel)
  let ?t = "start_tunnel toy_smux_lib (accepting None t)"
  let ?u = "on_session queue_lib 9 (session_close toy_smux_lib) ?t"
  have reach: "tunnel_reachable queue_lib toy_smux_lib queue_config True ?t" by (rule tunnel_reachable.made [OF t])
  then have "ss_alive (kt_user ?t) \<or> ss_closed (kt_user ?t)"
    using smux_reachable_inv tunnel_reachable_inv [OF queue_hyps reach] by (auto simp: tunnel_inv_def smux_inv_def)
  then have "tunnel_step queue_lib toy_smux_lib ?t ?u \<or> ss_closed (kt_user ?t)"
    using tunnel_step.session [OF smux_step.closed, of ?t queue_lib toy_smux_lib 9] by (auto simp: on_session_def)
  then have "tunnel_reachable queue_lib toy_smux_lib queue_config True ?u \<or> ss_closed (kt_user ?t)"
    using tunnel_reachable.step [OF reach] by blast
  moreover have "ss_closed (kt_user ?u)"
  proof -
    have "kt_inv queue_lib fst queue_config (?t \<lparr> kt_user := session_close toy_smux_lib (kt_user ?t) \<rparr>)"
      using tunnel_reachable_inv [OF queue_hyps reach] kt_inv_minor [OF _ minor_basic(5)] by (auto simp: tunnel_inv_def)
    from run_calls [OF queue_hyps this] show ?thesis by (simp add: on_session_def Let_def session_close_closed)
  qed
  ultimately show ?thesis using closed_together [OF queue_hyps] reach by blast
qed

end
