(* ===== verification/Server.thy ===== *)
theory Server
  imports Tunnel_Safety
begin

text \<open>
  \<open>server.cpp\<close>: the target and the ports of the configuration, one \<open>UdpListener\<close> per port,
  and \<open>handle_packet\<close>, which finds the session of a datagram or creates it.

  The close handler of a session's transport erases the session from the table; the model
  does this when the call on the transport has returned. \<open>ikcp_getconv\<close> is a parameter.
\<close>

section \<open>Construction\<close>

record server =
  sv_config :: server_config
  sv_crypt :: packet_crypt
  sv_listen_address :: multi_port
  sv_target :: smux_target

text \<open>The target is a TCP address if it parses as one, and the path of a Unix socket otherwise.\<close>

definition choose_target :: "string \<Rightarrow> smux_target result" where
  "choose_target target =
     (case parse_multiport target of
        Inl _ \<Rightarrow> Inr (Unix_target target)
      | Inr mp \<Rightarrow>
          if mp_min_port mp \<noteq> mp_max_port mp then Inl (Runtime_error ''server target must be a single TCP endpoint'')
          else Inr (Tcp_target (mp_host mp) (mp_min_port mp)))"

definition make_server :: "crypto_lib \<Rightarrow> server_config \<Rightarrow> server result" where
  "make_server lib config =
     (case make_packet_crypt lib config of
        Inl e \<Rightarrow> Inl e
      | Inr crypt \<Rightarrow>
          (case parse_multiport (cfg_listen config) of
             Inl e \<Rightarrow> Inl e
           | Inr listen \<Rightarrow>
               (case choose_target (cfg_target config) of
                  Inl e \<Rightarrow> Inl e
                | Inr target \<Rightarrow>
                    Inr \<lparr> sv_config = config, sv_crypt = crypt, sv_listen_address = listen, sv_target = target \<rparr>)))"

text \<open>The loop of \<open>Server::start\<close> over 16-bit ports, with its break at the last one.\<close>

lemma unat_next_port:
  assumes "port \<noteq> 65535"
  shows "unat (port + 1 :: u16) = unat port + 1"
proof -
  have "unat port < 65536" by (rule order.strict_trans2 [OF unsigned_less]) simp
  moreover have "unat port \<noteq> 65535" using assms word_unat_eq_iff [of port 65535] by simp
  ultimately have "unat port + 1 < 65536" by linarith
  then show ?thesis by (simp add: unat_word_ariths)
qed

function listener_ports :: "u16 \<Rightarrow> u16 \<Rightarrow> u16 list" where
  "listener_ports port last_port =
     (if port \<le> last_port then port # (if port = 65535 then [] else listener_ports (port + 1) last_port) else [])"
  by pat_completeness auto
termination
  by (relation "measure (\<lambda>(port, last_port). Suc (unat last_port) - unat port)")
    (auto simp: unat_next_port word_le_nat_alt)

declare listener_ports.simps [simp del]

text \<open>\<open>UdpListener::start\<close>: the endpoint it binds and the options it sets.\<close>

definition start_listener :: "resolver \<Rightarrow> server \<Rightarrow> u16 \<Rightarrow> (endpoint \<times> socket_option list) result" where
  "start_listener resolve sv port =
     (case make_udp_bind_endpoint resolve (sv_listen_address sv) port of
        Inl e \<Rightarrow> Inl e
      | Inr endpoint \<Rightarrow>
          Inr (endpoint, set_socket_buffers (cfg_sockbuf (sv_config sv)) @ set_dscp (cfg_dscp (sv_config sv))))"

fun start_listeners :: "resolver \<Rightarrow> server \<Rightarrow> u16 list \<Rightarrow> (endpoint \<times> socket_option list) list result" where
  "start_listeners resolve sv [] = Inr []"
| "start_listeners resolve sv (port # ports) =
     (case start_listener resolve sv port of
        Inl e \<Rightarrow> Inl e
      | Inr l \<Rightarrow> (case start_listeners resolve sv ports of Inl e \<Rightarrow> Inl e | Inr ls \<Rightarrow> Inr (l # ls)))"

definition start_server_ports :: "resolver \<Rightarrow> server \<Rightarrow> (endpoint \<times> socket_option list) list result" where
  "start_server_ports resolve sv =
     start_listeners resolve sv
       (listener_ports (mp_min_port (sv_listen_address sv)) (mp_max_port (sv_listen_address sv)))"

section \<open>One listener\<close>

record 'k udp_listener =
  ul_config :: base_config
  ul_crypt :: packet_crypt
  ul_target :: smux_target
  ul_sessions :: "(string \<times> 'k tunnel) list"
  ul_snmp :: snmp
  ul_draws :: nat

definition bump :: "snmp_field \<Rightarrow> 'k udp_listener \<Rightarrow> 'k udp_listener" where
  "bump f l = l \<lparr> ul_snmp := snmp_add f 1 (ul_snmp l) \<rparr>"

text \<open>The counters and the random pool are global: a call takes them along and brings them back.\<close>

definition lend :: "'k udp_listener \<Rightarrow> 'k tunnel \<Rightarrow> 'k tunnel" where
  "lend l t = t \<lparr> kt_snmp := ul_snmp l, kt_draws := ul_draws l \<rparr>"

definition settle :: "string \<Rightarrow> 'k tunnel \<Rightarrow> 'k udp_listener \<Rightarrow> 'k udp_listener" where
  "settle key t l =
     (let l = l \<lparr> ul_snmp := kt_snmp t, ul_draws := kt_draws t \<rparr>
      in if kt_closing t then
           l \<lparr> ul_sessions := AList.delete key (ul_sessions l), ul_snmp := snmp_connection_close (ul_snmp l) \<rparr>
         else l \<lparr> ul_sessions := AList.update key t (ul_sessions l) \<rparr>)"

definition input_session ::
  "'k transport_lib \<Rightarrow> int \<Rightarrow> bytes \<Rightarrow> string \<Rightarrow> 'k tunnel \<Rightarrow> 'k udp_listener \<Rightarrow> 'k udp_listener result option" where
  "input_session lib now data key t l =
     (case transport_input lib now data (lend l t) of
        None \<Rightarrow> None
      | Some (Inl e) \<Rightarrow> Some (Inl e)
      | Some (Inr t') \<Rightarrow> Some (Inr (settle key t' l)))"

definition new_session ::
  "'k transport_lib \<Rightarrow> smux_lib \<Rightarrow> int \<Rightarrow> endpoint \<Rightarrow> u32 \<Rightarrow> 'k udp_listener \<Rightarrow> ('k tunnel \<times> 'k udp_listener) result" where
  "new_session lib slib now sender conv l =
     (case make_tunnel lib slib now sender conv (ul_config l) False (ul_snmp l) (ul_draws l) of
        Inl e \<Rightarrow> Inl e
      | Inr t \<Rightarrow>
          let t = t \<lparr> kt_user := set_accept_handler (ul_target l) (kt_user t) \<rparr>;
              t = start_tunnel slib t
          in Inr (t, l \<lparr> ul_sessions := (endpoint_key sender conv, t) # ul_sessions l,
                         ul_snmp := snmp_connection_open False (ul_snmp l) \<rparr>))"

definition handle_packet ::
  "'k transport_lib \<Rightarrow> smux_lib \<Rightarrow> (bytes \<Rightarrow> u32) \<Rightarrow> int \<Rightarrow> endpoint \<Rightarrow> bytes \<Rightarrow> 'k udp_listener \<Rightarrow> 'k udp_listener result option" where
  "handle_packet lib slib getconv now sender packet l =
     (case pc_decrypt (tl_crypto lib) (ul_crypt l) packet of
        None \<Rightarrow> Some (Inr (bump In_csum_errors l))
      | Some decoded \<Rightarrow>
          if length decoded < 4 then Some (Inr (bump In_csum_errors l))
          else
            (case fec_kcp_payload_offset decoded of
               None \<Rightarrow>
                 (case filter (\<lambda>(key, t). kt_remote t = sender) (ul_sessions l) of
                    [(key, t)] \<Rightarrow> input_session lib now decoded key t l
                  | _ \<Rightarrow> Some (Inr l))
             | Some offset \<Rightarrow>
                 if length decoded < offset + 4 then Some (Inr l)
                 else
                   let conv = getconv (drop offset decoded);
                       key = endpoint_key sender conv
                   in (case map_of (ul_sessions l) key of
                         Some t \<Rightarrow> input_session lib now decoded key t l
                       | None \<Rightarrow>
                           (case new_session lib slib now sender conv l of
                              Inl e \<Rightarrow> Some (Inl e)
                            | Inr (t, l) \<Rightarrow> input_session lib now decoded key t l))))"

text \<open>The completion handler of \<open>async_receive_from\<close>.\<close>

definition receive_handler ::
  "'k transport_lib \<Rightarrow> smux_lib \<Rightarrow> (bytes \<Rightarrow> u32) \<Rightarrow> int \<Rightarrow> endpoint \<Rightarrow> bytes + asio_error \<Rightarrow> 'k udp_listener \<Rightarrow>
     'k udp_listener result option" where
  "receive_handler lib slib getconv now sender received l =
     (case received of
        Inl packet \<Rightarrow>
          handle_packet lib slib getconv now sender packet
            (l \<lparr> ul_snmp := snmp_add In_bytes (of_nat (length packet)) (snmp_add In_pkts 1 (ul_snmp l)) \<rparr>)
      | Inr e \<Rightarrow> Some (Inr (if e = Operation_aborted then l else bump In_errs l)))"

section \<open>Ports\<close>

lemma listener_ports_from:
  "port \<le> last_port \<Longrightarrow> map unat (listener_ports port last_port) = [unat port..<Suc (unat last_port)]"
proof (induction port last_port rule: listener_ports.induct)
  case (1 port last_port)
  show ?case
  proof (cases "port = last_port")
    case True
    have "\<not> last_port + 1 \<le> last_port" if "last_port \<noteq> 65535"
      using unat_next_port [OF that] by (simp add: word_le_nat_alt)
    then show ?thesis
      using True by (simp add: listener_ports.simps [of last_port last_port] listener_ports.simps [of "last_port + 1" last_port])
  next
    case False
    then have less: "unat port < unat last_port" using 1(2) by (metis order_le_less word_less_nat_alt)
    moreover have "unat last_port < 65536" by (rule order.strict_trans2 [OF unsigned_less]) simp
    ultimately have "unat port \<noteq> 65535" by linarith
    then have p: "port \<noteq> 65535" by auto
    then have "map unat (listener_ports (port + 1) last_port) = [unat port + 1..<Suc (unat last_port)]"
      using 1 less unat_next_port [OF p] by (simp add: word_le_nat_alt)
    then show ?thesis
      using 1(2) p less by (simp add: listener_ports.simps [of port last_port] upt_conv_Cons)
  qed
qed

section \<open>The session table\<close>

text \<open>The key of a session names its endpoint and conversation.\<close>

lemma split_last:
  assumes "xs @ c # ys = xs' @ c # ys'" "c \<notin> set ys" "c \<notin> set ys'"
  shows "xs = xs' \<and> ys = ys'"
proof -
  have "rev ys @ c # rev xs = rev ys' @ c # rev xs'" using arg_cong [OF assms(1), of rev] by simp
  then show ?thesis using assms(2,3) by (auto simp: append_eq_append_conv2 append_eq_Cons_conv Cons_eq_append_conv) (metis in_set_conv_decomp rev_rev_ident set_rev)+
qed

lemma endpoint_key_inj: "endpoint_key e c = endpoint_key e' c' \<longleftrightarrow> e = e' \<and> c = c'"
proof
  assume eq: "endpoint_key e c = endpoint_key e' c'"
  have plain: "CHR ''#'' \<notin> set (to_string n)" "CHR '':'' \<notin> set (to_string n)" for n
    by (auto simp: is_digit_def dest!: to_string_digits)
  have "(fst e @ '':'' @ to_string (unat (snd e))) @ CHR ''#'' # to_string (unat c) =
      (fst e' @ '':'' @ to_string (unat (snd e'))) @ CHR ''#'' # to_string (unat c')"
    using eq by (simp add: endpoint_key_def)
  from split_last [OF this plain(1) plain(1)]
  have "fst e @ CHR '':'' # to_string (unat (snd e)) = fst e' @ CHR '':'' # to_string (unat (snd e'))"
    and c: "unat c = unat c'" by (simp_all add: to_string_inj)
  from split_last [OF this(1) plain(2) plain(2)] show "e = e' \<and> c = c'"
    using c by (auto simp: to_string_inj prod_eq_iff word_unat_eq_iff)
qed simp

definition entry_ok :: "'k transport_lib \<Rightarrow> base_config \<Rightarrow> string \<Rightarrow> 'k tunnel \<Rightarrow> bool" where
  "entry_ok lib config key t \<longleftrightarrow> key = endpoint_key (kt_remote t) (kt_conv t) \<and> \<not> kt_closing t \<and>
     kt_has_close_handler t \<and> kt_reachable lib config t"

definition listener_ok :: "'k transport_lib \<Rightarrow> 'k udp_listener \<Rightarrow> bool" where
  "listener_ok lib l \<longleftrightarrow> distinct (map fst (ul_sessions l)) \<and>
     (\<forall>key t. map_of (ul_sessions l) key = Some t \<longrightarrow> entry_ok lib (ul_config l) key t)"

text \<open>A listener that has just been constructed.\<close>

definition new_listener :: "server \<Rightarrow> snmp \<Rightarrow> nat \<Rightarrow> 'k udp_listener" where
  "new_listener sv counters draws =
     \<lparr> ul_config = base_config.truncate (sv_config sv), ul_crypt = sv_crypt sv, ul_target = sv_target sv,
       ul_sessions = [], ul_snmp = counters, ul_draws = draws \<rparr>"

lemma listener_ok_new: "listener_ok lib (new_listener sv counters draws)"
  by (simp add: listener_ok_def new_listener_def)

lemma listener_ok_bump [simp]: "listener_ok lib (bump f l) = listener_ok lib l"
  by (simp add: listener_ok_def bump_def)

lemma settle_sessions:
  "ul_sessions (settle key t l) =
     (if kt_closing t then AList.delete key (ul_sessions l) else AList.update key t (ul_sessions l))"
  "ul_config (settle key t l) = ul_config l"
  by (simp_all add: settle_def Let_def)

lemma input_session_effect:
  assumes "listener_ok lib l" "map_of (ul_sessions l) key = Some t"
    and "input_session lib now data key t l = Some (Inr l')"
  obtains t' where "transport_input lib now data (lend l t) = Some (Inr t')" "l' = settle key t' l"
    "same_peer t t'" "kt_reachable lib (ul_config l) t'"
proof -
  obtain t' where t': "transport_input lib now data (lend l t) = Some (Inr t')" "l' = settle key t' l"
    using assms(3) by (auto simp: input_session_def split: option.splits sum.splits)
  have "same_peer (lend l t) t'" by (rule same_peer_input [OF t'(1)])
  then have "same_peer t t'" by (simp add: same_peer_def lend_def)
  moreover have "kt_reachable lib (ul_config l) (lend l t)"
    using kt_reachable.outside [where t = t and lib = lib and counters = "ul_snmp l" and draws = "ul_draws l" and user = "kt_user t"] assms(1,2)
    by (simp add: listener_ok_def entry_ok_def lend_def del: map_of_eq_Some_iff)
  ultimately show ?thesis using that t' kt_reachable.received [OF _ t'(1)] by blast
qed

lemma input_session_ok:
  assumes ok: "listener_ok lib l" and t: "map_of (ul_sessions l) key = Some t"
    and input: "input_session lib now data key t l = Some (Inr l')"
  shows "listener_ok lib l'" "\<And>k. k \<noteq> key \<Longrightarrow> map_of (ul_sessions l') k = map_of (ul_sessions l) k"
    "\<And>t'. map_of (ul_sessions l') key = Some t' \<Longrightarrow> kt_remote t' = kt_remote t"
proof -
  obtain t' where t': "l' = settle key t' l" "same_peer t t'" "kt_reachable lib (ul_config l) t'"
    using input_session_effect [OF assms] by blast
  have same: "kt_remote t' = kt_remote t" "kt_conv t' = kt_conv t" "kt_has_close_handler t' = kt_has_close_handler t"
    using t'(2) by (auto simp: same_peer_def)
  show "map_of (ul_sessions l') k = map_of (ul_sessions l) k" if "k \<noteq> key" for k
    using that by (simp add: t'(1) settle_sessions delete_conv' update_conv')
  show "kt_remote u = kt_remote t" if "map_of (ul_sessions l') key = Some u" for u
    using that same(1) by (auto simp: t'(1) settle_sessions delete_conv' update_conv' split: if_splits)
  have "entry_ok lib (ul_config l) key t" using ok t by (simp add: listener_ok_def del: map_of_eq_Some_iff)
  then have entry: "\<not> kt_closing t' \<Longrightarrow> entry_ok lib (ul_config l) key t'"
    using t'(3) same by (simp add: entry_ok_def)
  have "distinct (map fst (ul_sessions l))" using ok by (simp add: listener_ok_def)
  then show "listener_ok lib l'"
    using ok entry unfolding listener_ok_def t'(1) settle_sessions
    by (simp add: delete_conv' update_conv' distinct_delete distinct_update del: map_of_eq_Some_iff)
qed

lemma make_transport_fields:
  assumes "make_kcp_transport lib remote conv config h counters draws user = Inr t"
  shows "kt_remote t = remote \<and> kt_conv t = conv \<and> \<not> kt_closing t \<and> kt_has_close_handler t = h \<and> kt_user t = user"
proof -
  obtain t0 where "configure_kcp lib t0 = Inr t" "kt_remote t0 = remote" "kt_conv t0 = conv" "\<not> kt_closing t0"
    "kt_has_close_handler t0 = h" "kt_user t0 = user"
    using assms by (auto simp: make_kcp_transport_def split: sum.splits option.splits)
  then show ?thesis by (auto simp: configure_kcp_def Let_def split: sum.splits if_splits prod.splits)
qed

lemma same_peer_start: "same_peer t (start_tunnel slib u) = same_peer t u"
  by (simp add: start_tunnel_def start_transport_def Let_def)

lemma start_tunnel_closing: "kt_closing (start_tunnel slib u) = kt_closing u"
  by (simp add: start_tunnel_def start_transport_def start_update_timer_def note_effect_def set_read_handler_def Let_def)

lemma new_session_ok:
  assumes ok: "listener_ok lib l" and new: "map_of (ul_sessions l) (endpoint_key sender conv) = None"
    and made: "new_session lib slib now sender conv l = Inr (t, l')"
  shows "listener_ok lib l'" "map_of (ul_sessions l') (endpoint_key sender conv) = Some t" "kt_remote t = sender"
    "\<And>k. k \<noteq> endpoint_key sender conv \<Longrightarrow> map_of (ul_sessions l') k = map_of (ul_sessions l) k"
proof -
  obtain u where u: "make_tunnel lib slib now sender conv (ul_config l) False (ul_snmp l) (ul_draws l) = Inr u"
    using made unfolding new_session_def by (cases "make_tunnel lib slib now sender conv (ul_config l) False (ul_snmp l) (ul_draws l)") simp_all
  define t1 where "t1 = u \<lparr> kt_user := set_accept_handler (ul_target l) (kt_user u) \<rparr>"
  have both: "(start_tunnel slib t1, l \<lparr> ul_sessions := (endpoint_key sender conv, start_tunnel slib t1) # ul_sessions l,
      ul_snmp := snmp_connection_open False (ul_snmp l) \<rparr>) = (t, l')"
    using made by (simp only: new_session_def u sum.case Let_def t1_def sum.inject)
  then have t: "t = start_tunnel slib t1"
    and l': "l' = l \<lparr> ul_sessions := (endpoint_key sender conv, t) # ul_sessions l, ul_snmp := snmp_connection_open False (ul_snmp l) \<rparr>"
    by blast+
  obtain s where made_t: "make_kcp_transport lib sender conv (ul_config l) True (ul_snmp l) (ul_draws l) s = Inr u"
    using u by (auto simp: make_tunnel_def split: sum.splits)
  note u_fields = make_transport_fields [OF made_t]
  have "same_peer u t" "kt_closing t = kt_closing u"
    by (simp_all add: t t1_def same_peer_start start_tunnel_closing)
  then have t_fields: "kt_remote t = sender" "kt_conv t = conv" "\<not> kt_closing t" "kt_has_close_handler t"
    using u_fields by (auto simp: same_peer_def)
  have user: "kt_reachable lib c (v \<lparr> kt_user := w \<rparr>)" if "kt_reachable lib c v" for c w and v :: "'a tunnel"
    using kt_reachable.outside [OF that, where counters = "kt_snmp v" and draws = "kt_draws v" and user = w] by simp
  have "kt_reachable lib (ul_config l) t"
    unfolding t t1_def start_tunnel_def Let_def
    by (intro user kt_reachable.started kt_reachable.read_handler_set kt_reachable.made [OF made_t])
  then have "entry_ok lib (ul_config l) (endpoint_key sender conv) t" using t_fields by (simp add: entry_ok_def)
  then show "listener_ok lib l'"
    using ok new by (simp add: listener_ok_def l' map_of_eq_None_iff del: map_of_eq_Some_iff)
  show "map_of (ul_sessions l') (endpoint_key sender conv) = Some t" "kt_remote t = sender"
    "\<And>k. k \<noteq> endpoint_key sender conv \<Longrightarrow> map_of (ul_sessions l') k = map_of (ul_sessions l) k"
    using t_fields by (auto simp: l')
qed

lemma handle_packet_new:
  assumes "pc_decrypt (tl_crypto lib) (ul_crypt l) packet = Some x" "\<not> length x < 4"
    and "fec_kcp_payload_offset x = Some off" "\<not> length x < off + 4"
    and "map_of (ul_sessions l) (endpoint_key sender (getconv (drop off x))) = None"
    and "handle_packet lib slib getconv now sender packet l = r"
  shows "(case new_session lib slib now sender (getconv (drop off x)) l of Inl e \<Rightarrow> Some (Inl e)
    | Inr (t, m) \<Rightarrow> input_session lib now x (endpoint_key sender (getconv (drop off x))) t m) = r"
  using assms(6) unfolding handle_packet_def by (simp only: assms(1-5) if_False option.case Let_def)

lemma handle_packet_found:
  assumes "pc_decrypt (tl_crypto lib) (ul_crypt l) packet = Some x" "\<not> length x < 4"
    and "fec_kcp_payload_offset x = Some off" "\<not> length x < off + 4"
    and "map_of (ul_sessions l) (endpoint_key sender (getconv (drop off x))) = Some t"
    and "handle_packet lib slib getconv now sender packet l = r"
  shows "input_session lib now x (endpoint_key sender (getconv (drop off x))) t l = r"
  using assms(6) unfolding handle_packet_def by (simp only: assms(1-5) if_False option.case Let_def)

lemma result_pair_cases:
  assumes "(case r of Inl e \<Rightarrow> Some (Inl e) | Inr (a, b) \<Rightarrow> f a b) = Some (Inr y)"
  obtains a b where "r = Inr (a, b)" "f a b = Some (Inr y)"
  using assms by (auto split: sum.splits prod.splits)

section \<open>A listener to apply the properties to\<close>

abbreviation demo_sender :: endpoint where "demo_sender \<equiv> (''10.0.0.1'', 4000)"
abbreviation demo_packet :: bytes where "demo_packet \<equiv> [7, 0, 0, 0, 81] @ replicate 19 0"

lemma queue_listener:
  obtains l :: "queue_engine udp_listener" and t l' where
    "listener_ok queue_lib l" "ul_config l = queue_config" "make_packet_crypt toy_lib queue_config = Inr (ul_crypt l)"
    "ul_sessions l = []" "pc_decrypt toy_lib (ul_crypt l) demo_packet = Some demo_packet"
    "new_session queue_lib toy_smux_lib 5 demo_sender 7 l = Inr (t, l')" "ul_config l' = queue_config" "ul_crypt l' = ul_crypt l"
proof -
  have null: "normalize_method ''null'' = ''null''" by code_simp
  obtain crypt where crypt: "make_packet_crypt toy_lib queue_config = Inr crypt" "pc_overhead crypt = 0"
    "pc_decrypt toy_lib crypt demo_packet = Some demo_packet"
    by (simp add: make_packet_crypt_def null select_method_def base_defaults_def pc_overhead_def pc_decrypt_def Let_def)
  define l :: "queue_engine udp_listener" where
    "l = \<lparr> ul_config = queue_config, ul_crypt = crypt, ul_target = Unix_target ''s'', ul_sessions = [],
           ul_snmp = empty_snmp, ul_draws = 0 \<rparr>"
  obtain u :: "queue_engine tunnel" where
    "make_tunnel queue_lib toy_smux_lib 5 demo_sender 7 queue_config False empty_snmp 0 = Inr u" by (rule queue_tunnel)
  then have "\<exists>t l'. new_session queue_lib toy_smux_lib 5 demo_sender 7 l = Inr (t, l') \<and> ul_config l' = queue_config \<and> ul_crypt l' = ul_crypt l"
    by (simp add: new_session_def l_def Let_def)
  then show ?thesis using that [of l] crypt by (auto simp: l_def listener_ok_def)
qed

section \<open>Properties\<close>

text \<open>The loop of \<open>Server::start\<close> ends for every pair of 16-bit ports, 65535 included
  where \<open>++port\<close> would wrap, and starts one listener for each port of the closed range, in
  order.\<close>

theorem server_listens_on_range:
  "map unat (listener_ports lo hi) = [unat lo..<Suc (unat hi)]"
proof (cases "lo \<le> hi")
  case True
  then show ?thesis by (rule listener_ports_from)
next
  case False
  then have "unat hi < unat lo" by (simp add: word_less_nat_alt not_le)
  then show ?thesis using False by (simp add: listener_ports.simps [of lo hi])
qed

text \<open>The sessions of other addresses are the same in both listeners.\<close>

definition spares :: "endpoint \<Rightarrow> 'k udp_listener \<Rightarrow> 'k udp_listener \<Rightarrow> bool" where
  "spares sender l l' \<longleftrightarrow>
     (\<forall>key t. kt_remote t \<noteq> sender \<longrightarrow> (map_of (ul_sessions l') key = Some t \<longleftrightarrow> map_of (ul_sessions l) key = Some t))"

lemma spares_same: "l' = l \<or> l' = bump c l \<Longrightarrow> listener_ok lib l \<Longrightarrow> listener_ok lib l' \<and> spares sender l l'"
  by (auto simp: spares_def bump_def listener_ok_def)

lemma spares_trans: "spares sender l m \<Longrightarrow> spares sender m n \<Longrightarrow> spares sender l n"
  by (simp add: spares_def)

lemma input_session_spares:
  assumes "listener_ok lib l" "map_of (ul_sessions l) key = Some t" "kt_remote t = sender"
    and "input_session lib now x key t l = Some (Inr l')"
  shows "listener_ok lib l' \<and> spares sender l l'"
proof -
  have "map_of (ul_sessions l') k = Some u \<longleftrightarrow> map_of (ul_sessions l) k = Some u" if "kt_remote u \<noteq> sender" for k u
    using input_session_ok(2,3) [OF assms(1,2,4)] assms(2,3) that by (cases "k = key") auto
  then show ?thesis using input_session_ok(1) [OF assms(1,2,4)] by (simp add: spares_def)
qed

text \<open>A packet that is no KCP packet goes to the only session of its sender.\<close>

lemma parity_spares:
  assumes "listener_ok lib l" "handle_packet lib slib getconv now sender packet l = Some (Inr l')"
    and "pc_decrypt (tl_crypto lib) (ul_crypt l) packet = Some x" "\<not> length x < 4" "fec_kcp_payload_offset x = None"
  shows "listener_ok lib l' \<and> spares sender l l'"
proof (cases "\<exists>key t. filter (\<lambda>(key, t). kt_remote t = sender) (ul_sessions l) = [(key, t)]")
  case True
  then obtain key t where f: "filter (\<lambda>(key, t). kt_remote t = sender) (ul_sessions l) = [(key, t)]" by blast
  then have "(key, t) \<in> set (filter (\<lambda>(key, t). kt_remote t = sender) (ul_sessions l))" by simp
  then have "map_of (ul_sessions l) key = Some t" "kt_remote t = sender"
    using assms(1) by (auto simp: listener_ok_def)
  then show ?thesis
    using assms f by (intro input_session_spares [of lib l key t]) (simp_all add: handle_packet_def)
next
  case False
  then have "l' = l" using assms(2-) by (auto simp: handle_packet_def split: list.splits prod.splits)
  then show ?thesis using assms(1) spares_same by blast
qed

text \<open>A KCP packet goes to the session of its sender and conversation, new or not.\<close>

lemma kcp_packet_spares:
  assumes "listener_ok lib l" "handle_packet lib slib getconv now sender packet l = Some (Inr l')"
    and x: "pc_decrypt (tl_crypto lib) (ul_crypt l) packet = Some x" "\<not> length x < 4" "fec_kcp_payload_offset x = Some off"
      "\<not> length x < off + 4"
  shows "listener_ok lib l' \<and> spares sender l l'"
proof -
  let ?conv = "getconv (drop off x)"
  let ?key = "endpoint_key sender ?conv"
  show ?thesis
  proof (cases "map_of (ul_sessions l) ?key")
    case (Some t)
    then have "?key = endpoint_key (kt_remote t) (kt_conv t)"
      using assms(1) by (simp add: listener_ok_def entry_ok_def del: map_of_eq_Some_iff)
    then have sender: "kt_remote t = sender" by (simp only: endpoint_key_inj)
    show ?thesis
      by (rule input_session_spares [OF assms(1) Some sender handle_packet_found [OF x Some assms(2)]])
  next
    case new: None
    obtain t m where made: "new_session lib slib now sender ?conv l = Inr (t, m)" "input_session lib now x ?key t m = Some (Inr l')"
      by (rule result_pair_cases [OF handle_packet_new [OF x new assms(2)]])
    note ok = new_session_ok [OF assms(1) new made(1)]
    have "map_of (ul_sessions m) k = Some u \<longleftrightarrow> map_of (ul_sessions l) k = Some u" if "kt_remote u \<noteq> sender" for k u
      using ok(2-4) new that by (cases "k = ?key") auto
    then have "spares sender l m" by (simp add: spares_def)
    then show ?thesis using input_session_spares [OF ok(1,2,3) made(2)] spares_trans by blast
  qed
qed

text \<open>C11: Sessions are isolated: a datagram from one address leaves every session of another
  address as it is, and creates none for it; a datagram that fails decryption changes no
  session; keys stay distinct and name the address and conversation of their session.\<close>

theorem server_isolates_sessions:
  assumes "listener_ok lib l" "handle_packet lib slib getconv now sender packet l = Some (Inr l')"
  shows "listener_ok lib l' \<and>
    (\<forall>key t. kt_remote t \<noteq> sender \<longrightarrow>
       (map_of (ul_sessions l') key = Some t \<longleftrightarrow> map_of (ul_sessions l) key = Some t)) \<and>
    (pc_decrypt (tl_crypto lib) (ul_crypt l) packet = None \<longrightarrow> ul_sessions l' = ul_sessions l)"
proof (cases "pc_decrypt (tl_crypto lib) (ul_crypt l) packet")
  case None
  then show ?thesis using assms by (auto simp: handle_packet_def bump_def listener_ok_def)
next
  case (Some x)
  have same: "listener_ok lib l' \<and> spares sender l l'" if "l' = l \<or> l' = bump In_csum_errors l"
    using that assms(1) by (rule spares_same)
  consider "length x < 4" | "\<not> length x < 4" "fec_kcp_payload_offset x = None"
    | off where "\<not> length x < 4" "fec_kcp_payload_offset x = Some off" "length x < off + 4"
    | off where "\<not> length x < 4" "fec_kcp_payload_offset x = Some off" "\<not> length x < off + 4"
    by (cases "fec_kcp_payload_offset x") auto
  then have "listener_ok lib l' \<and> spares sender l l'"
    using parity_spares [OF assms Some] kcp_packet_spares [OF assms Some]
    by cases (use assms(2) Some same in \<open>auto simp: handle_packet_def\<close>)
  then show ?thesis using Some by (simp add: spares_def)
qed

lemma server_isolates_sessions_witness:
  "\<exists>l l' :: queue_engine udp_listener. listener_ok queue_lib l \<and>
     handle_packet queue_lib toy_smux_lib (\<lambda>_. 7) 5 demo_sender demo_packet l = Some (Inr l') \<and> listener_ok queue_lib l'"
proof -
  obtain l t m where l: "listener_ok queue_lib (l :: queue_engine udp_listener)" "ul_config l = queue_config" "ul_sessions l = []"
    "pc_decrypt toy_lib (ul_crypt l) demo_packet = Some demo_packet"
    "new_session queue_lib toy_smux_lib 5 demo_sender 7 l = Inr (t, m)" "ul_config m = queue_config"
    by (rule queue_listener)
  note ok = new_session_ok [OF l(1) _ l(5)]
  have "kt_reachable queue_lib queue_config (lend m t)"
    using kt_reachable.outside [where t = t and lib = queue_lib and counters = "ul_snmp m" and draws = "ul_draws m" and user = "kt_user t"]
      ok(1,2) l(3,6) by (simp add: listener_ok_def entry_ok_def lend_def del: map_of_eq_Some_iff)
  then obtain t' where "transport_input queue_lib 5 demo_packet (lend m t) = Some (Inr t')"
    using transport_input_ends [OF queue_hyps kt_reachable_inv [OF queue_hyps]] by blast
  then have input: "input_session queue_lib 5 demo_packet (endpoint_key demo_sender 7) t m = Some (Inr (settle (endpoint_key demo_sender 7) t' m))"
    by (simp add: input_session_def)
  have offset: "fec_kcp_payload_offset demo_packet = Some 0" by code_simp
  have crypto: "tl_crypto queue_lib = toy_lib" by (simp add: queue_lib_def)
  have "handle_packet queue_lib toy_smux_lib (\<lambda>_. 7) 5 demo_sender demo_packet l = Some (Inr (settle (endpoint_key demo_sender 7) t' m))"
    using handle_packet_new [OF _ _ offset _ _ refl, where lib = queue_lib and l = l and packet = demo_packet and sender = demo_sender
        and getconv = "\<lambda>_. 7" and slib = toy_smux_lib and now = 5]
      l(3,4,5) input crypto by simp
  then show ?thesis using l(1) server_isolates_sessions by blast
qed

text \<open>C6: A KCP packet of a client's transport reaches the server's session of the same
  address and conversation: the first datagram \<open>send_udp\<close> puts out for it makes
  \<open>handle_packet\<close> call \<open>input\<close> on that session, on no other, with a packet whose first
  FEC output is the KCP packet.\<close>

theorem datagram_reaches_session:
  fixes a t :: "'k tunnel"
  assumes "kcp_documented lib mtu backlog" "crypto_documented lib" "int_range (cfg_mtu (ul_config l))"
    and "kt_reachable lib (ul_config l) a" "listener_ok lib l" "make_packet_crypt (tl_crypto lib) (ul_config l) = Inr (ul_crypt l)"
    and "map_of (ul_sessions l) (endpoint_key sender (getconv p)) = Some t"
    and "\<not> kt_closing a" "24 \<le> length p" "int (length p) \<le> mtu (kt_kcp a)" "p ! 4 \<in> {81, 82, 83, 84}"
  shows "\<exists>d more x out fec counters. udp_out (send_udp lib now a p) = udp_out a @ d # more \<and>
    handle_packet lib slib getconv now' sender d l = input_session lib now' x (endpoint_key sender (getconv p)) t l \<and>
    fec_decode x (kt_fec t) (ul_snmp l) = Inr (p # out, fec, counters)"
proof -
  let ?config = "ul_config l" and ?key = "endpoint_key sender (getconv p)"
  have "entry_ok lib ?config ?key t" using assms(5,7) by (simp add: listener_ok_def del: map_of_eq_Some_iff)
  then have inv: "kt_inv lib mtu ?config a" "kt_inv lib mtu ?config t"
    using kt_reachable_inv [OF assms(1-3)] assms(4) by (auto simp: entry_ok_def)
  then have crypt: "kt_crypt t = ul_crypt l" using assms(6) by (simp add: kt_inv_def)
  have "p \<noteq> []" using assms(9) by auto
  then obtain d more x out fec s' where out: "udp_out (send_udp lib now a p) = udp_out a @ d # more"
    "pc_decrypt (tl_crypto lib) (ul_crypt l) d = Some x" "fec_decode x (kt_fec t) (ul_snmp l) = Inr (p # out, fec, s')"
    "carries (kt_fec a) p x"
    using send_udp_out [OF assms(1-3) inv assms(8) _ assms(10), of now "ul_snmp l"] crypt by auto
  have "ucast (read_le16 p 4) = p ! 4"
    unfolding read_le16_def by (rule bit_eqI) (auto simp: bit_simps)
  then have flag: "read_le16 p 4 \<notin> {fec_type_data, fec_type_oob, fec_type_parity}"
    using assms(11) by (auto simp: fec_constants)
  have "\<exists>off. fec_kcp_payload_offset x = Some off \<and> drop off x = p \<and> length x = length p + off"
  proof (cases "fec_enabled (kt_fec a)")
    case False
    then have "x = p" using out(4) by (simp add: carries_def)
    then show ?thesis using flag by (simp add: fec_kcp_payload_offset_def Let_def)
  qed (use out(4) in \<open>auto simp: carries_def\<close>)
  then obtain off where off: "fec_kcp_payload_offset x = Some off" "drop off x = p" "length x = length p + off" by blast
  then have "handle_packet lib slib getconv now' sender d l = input_session lib now' x ?key t l"
    using out(2) assms(7,9) by (simp add: handle_packet_def Let_def)
  then show ?thesis using out by blast
qed

lemma datagram_reaches_session_witness:
  "\<exists>(l :: queue_engine udp_listener) t d more x. listener_ok queue_lib l \<and>
     map_of (ul_sessions l) (endpoint_key demo_sender 7) = Some t \<and>
     udp_out (send_udp queue_lib 5 t demo_packet) = udp_out t @ d # more \<and>
     handle_packet queue_lib toy_smux_lib (\<lambda>_. 7) 6 demo_sender d l =
       input_session queue_lib 6 x (endpoint_key demo_sender 7) t l"
proof -
  obtain l t m where l: "listener_ok queue_lib (l :: queue_engine udp_listener)" "ul_sessions l = []"
    "make_packet_crypt toy_lib queue_config = Inr (ul_crypt l)"
    "new_session queue_lib toy_smux_lib 5 demo_sender 7 l = Inr (t, m)" "ul_config m = queue_config" "ul_crypt m = ul_crypt l"
    by (rule queue_listener)
  note ok = new_session_ok [OF l(1) _ l(4)]
  have entry: "entry_ok queue_lib queue_config (endpoint_key demo_sender 7) t"
    using ok(1,2) l(2,5) by (simp add: listener_ok_def del: map_of_eq_Some_iff)
  then have "kt_inv queue_lib fst queue_config t"
    by (intro kt_reachable_inv [OF queue_hyps]) (simp add: entry_ok_def)
  then have fits: "int (length demo_packet) \<le> fst (kt_kcp t)" by (simp add: kt_inv_def)
  have crypto: "tl_crypto queue_lib = toy_lib" by (simp add: queue_lib_def)
  show ?thesis
    using datagram_reaches_session [OF queue_lib_documented, of m t demo_sender "\<lambda>_. 7" demo_packet t 5 toy_smux_lib 6]
      queue_config_mtu(1) entry ok(1,2) l(2,3,5,6) fits crypto by (auto simp: entry_ok_def)
qed

end
