(* ===== verification/Client.thy ===== *)
theory Client
  imports Tunnel_Safety
begin

text \<open>
  \<open>client.cpp\<close>: the client accepts local connections and spreads them as streams over
  \<open>conn\<close> multiplexed sessions, each on a transport and a UDP socket of its own.

  A \<open>Connection\<close> object is shared by its slot, its receive handler and its timer: the
  client keeps every connection ever made in a list, and all of them refer to its index.
  \<open>transports_\<close> maps a conversation number to the connection whose transport it is. The close
  handler of a transport runs when the call on the transport has returned.
\<close>

section \<open>State\<close>

datatype local_address = Local_tcp multi_port | Local_unix string

datatype client_effect =
    Listen_tcp endpoint
  | Listen_unix string
  | Accept_start
  | Receive_start nat
  | Scavenge_start nat int
  | Set_options nat "socket_option list"
  | Client_warn string

record 'k connection =
  cn_tunnel :: "'k tunnel"
  cn_conv :: u32
  cn_expiry :: int
  cn_socket_open :: bool

record 'k client =
  cl_config :: client_config
  cl_crypt :: packet_crypt
  cl_local :: local_address
  cl_remote :: multi_port
  cl_connections :: "'k connection list"
  cl_transports :: "(u32 \<times> nat) list"
  cl_muxes :: "nat option list"
  cl_scavenge_timers :: "nat list"
  cl_rr :: u64
  cl_snmp :: snmp
  cl_draws :: nat
  cl_random :: nat
  cl_effects :: "client_effect list"

text \<open>
  The environment: the resolver, opening and binding a UDP socket towards an endpoint, and
  the \<open>n\<close>-th value of the random distributions.
\<close>

record client_env =
  ce_resolve :: resolver
  ce_open :: "endpoint \<Rightarrow> unit result"
  ce_draw :: "nat \<Rightarrow> int \<Rightarrow> int \<Rightarrow> int"

definition client_note :: "client_effect \<Rightarrow> 'k client \<Rightarrow> 'k client" where
  "client_note e c = c \<lparr> cl_effects := cl_effects c @ [e] \<rparr>"

definition client_count :: "snmp_field \<Rightarrow> nat \<Rightarrow> 'k client \<Rightarrow> 'k client" where
  "client_count f n c = c \<lparr> cl_snmp := snmp_add f (of_nat n) (cl_snmp c) \<rparr>"

section \<open>Construction\<close>

definition choose_local :: "string \<Rightarrow> local_address result" where
  "choose_local localaddr =
     (case parse_multiport localaddr of
        Inl _ \<Rightarrow> Inr (Local_unix localaddr)
      | Inr mp \<Rightarrow>
          if mp_min_port mp \<noteq> mp_max_port mp then
            Inl (Runtime_error ''client localaddr currently supports a single listen port'')
          else Inr (Local_tcp mp))"

definition make_client :: "crypto_lib \<Rightarrow> client_config \<Rightarrow> snmp \<Rightarrow> nat \<Rightarrow> 'k client result" where
  "make_client lib config counters draws =
     (case make_packet_crypt lib config of
        Inl e \<Rightarrow> Inl e
      | Inr crypt \<Rightarrow>
          (case parse_multiport (cfg_remoteaddr config) of
             Inl e \<Rightarrow> Inl e
           | Inr remote \<Rightarrow>
               (case choose_local (cfg_localaddr config) of
                  Inl e \<Rightarrow> Inl e
                | Inr local_addr \<Rightarrow>
                    Inr \<lparr> cl_config = config, cl_crypt = crypt, cl_local = local_addr, cl_remote = remote,
                          cl_connections = [], cl_transports = [],
                          cl_muxes = replicate (nat (max 1 (cfg_conn config))) None,
                          cl_scavenge_timers = [], cl_rr = 0, cl_snmp = counters, cl_draws = draws,
                          cl_random = 0, cl_effects = [] \<rparr>)))"

definition start_listening :: "client_env \<Rightarrow> 'k client \<Rightarrow> 'k client result" where
  "start_listening env c =
     (case cl_local c of
        Local_unix path \<Rightarrow> Inr (client_note Accept_start (client_note (Listen_unix path) c))
      | Local_tcp address \<Rightarrow>
          (case make_tcp_bind_endpoint (ce_resolve env) address of
             Inl e \<Rightarrow> Inl e
           | Inr endpoint \<Rightarrow> Inr (client_note Accept_start (client_note (Listen_tcp endpoint) c))))"

section \<open>Connections\<close>

definition connection_at :: "'k client \<Rightarrow> nat \<Rightarrow> 'k connection" where
  "connection_at c i = cl_connections c ! i"

definition tunnel_at :: "'k client \<Rightarrow> nat \<Rightarrow> 'k tunnel" where
  "tunnel_at c i = cn_tunnel (connection_at c i)"

text \<open>The loop of \<open>next_conv\<close> over the draws of the generator.\<close>

partial_function (option) next_conv :: "client_env \<Rightarrow> (u32 \<times> nat) list \<Rightarrow> nat \<Rightarrow> (u32 \<times> nat) option" where
  "next_conv env transports n =
     (let conv = random_conv (ce_draw env n)
      in if map_of transports conv = None then Some (conv, n + 1) else next_conv env transports (n + 1))"

definition pick_remote_endpoint :: "client_env \<Rightarrow> 'k client \<Rightarrow> endpoint result" where
  "pick_remote_endpoint env c =
     resolve_udp_endpoint (ce_resolve env) (mp_host (cl_remote c)) (choose_port (ce_draw env (cl_random c)) (cl_remote c))"

text \<open>Seconds of the configuration as nanoseconds of the steady clock.\<close>

definition seconds :: "int \<Rightarrow> int" where
  "seconds s = s * 1000000000"

definition schedule_scavenge :: "nat \<Rightarrow> int \<Rightarrow> 'k client \<Rightarrow> 'k client" where
  "schedule_scavenge i delay c =
     client_note (Scavenge_start i delay) (c \<lparr> cl_scavenge_timers := cl_scavenge_timers c @ [i] \<rparr>)"

text \<open>The new connection joins the list, the table and the counters together.\<close>

definition add_connection :: "int \<Rightarrow> u32 \<Rightarrow> 'k tunnel \<Rightarrow> 'k client \<Rightarrow> 'k client" where
  "add_connection now conv t c =
     c \<lparr> cl_connections := cl_connections c @
           [\<lparr> cn_tunnel = t, cn_conv = conv, cn_expiry = now + seconds (max 0 (cfg_autoexpire (cl_config c))),
              cn_socket_open = True \<rparr>],
         cl_transports := (conv, length (cl_connections c)) # cl_transports c,
         cl_snmp := snmp_connection_open True (cl_snmp c) \<rparr>"

text \<open>The timer and the first receive; the sum of the two delays is an \<open>int\<close>.\<close>

definition arm_connection :: "nat \<Rightarrow> 'k client \<Rightarrow> nat result \<times> 'k client" where
  "arm_connection i c =
     (if cfg_autoexpire (cl_config c) \<le> 0 then (Inr i, client_note (Receive_start i) c)
      else
        case int_add (max 0 (cfg_autoexpire (cl_config c))) (max 0 (cfg_scavengettl (cl_config c))) of
          Inl e \<Rightarrow> (Inl e, c)
        | Inr delay \<Rightarrow> (Inr i, client_note (Receive_start i) (schedule_scavenge i delay c)))"

text \<open>
  \<open>None\<close> is the loop of \<open>next_conv\<close> that does not end; an exception comes with the state it
  leaves.
\<close>

definition create_connection ::
  "'k transport_lib \<Rightarrow> smux_lib \<Rightarrow> client_env \<Rightarrow> int \<Rightarrow> 'k client \<Rightarrow> (nat result \<times> 'k client) option" where
  "create_connection lib slib env now c =
     (case next_conv env (cl_transports c) (cl_random c) of
        None \<Rightarrow> None
      | Some (conv, n) \<Rightarrow>
          let c = c \<lparr> cl_random := n \<rparr>;
              picked = pick_remote_endpoint env c;
              c = c \<lparr> cl_random := n + 1 \<rparr>
          in case picked of
               Inl e \<Rightarrow> Some (Inl e, c)
             | Inr remote \<Rightarrow>
                 (case ce_open env remote of
                    Inl e \<Rightarrow> Some (Inl e, c)
                  | Inr _ \<Rightarrow>
                      let i = length (cl_connections c);
                          c = client_note (Set_options i (set_socket_buffers (cfg_sockbuf (cl_config c)) @
                                set_dscp (cfg_dscp (cl_config c)))) c
                      in case make_tunnel lib slib now remote conv (base_config.truncate (cl_config c)) True
                                (cl_snmp c) (cl_draws c) of
                           Inl e \<Rightarrow> Some (Inl e, c)
                         | Inr t \<Rightarrow> Some (arm_connection i (add_connection now conv (start_tunnel slib t) c))))"

definition expired :: "int \<Rightarrow> 'k client \<Rightarrow> nat \<Rightarrow> bool" where
  "expired now c i \<longleftrightarrow> 0 < cfg_autoexpire (cl_config c) \<and> cn_expiry (connection_at c i) \<le> now"

definition usable :: "int \<Rightarrow> 'k client \<Rightarrow> nat \<Rightarrow> bool" where
  "usable now c i \<longleftrightarrow> \<not> ss_closed (kt_user (tunnel_at c i)) \<and> \<not> expired now c i"

definition ensure_session ::
  "'k transport_lib \<Rightarrow> smux_lib \<Rightarrow> client_env \<Rightarrow> int \<Rightarrow> nat \<Rightarrow> 'k client \<Rightarrow> (nat result \<times> 'k client) option" where
  "ensure_session lib slib env now index c =
     (let renew =
        (case create_connection lib slib env now c of
           None \<Rightarrow> None
         | Some (Inl e, c) \<Rightarrow> Some (Inl e, c)
         | Some (Inr i, c) \<Rightarrow> Some (Inr i, c \<lparr> cl_muxes := (cl_muxes c)[index := Some i] \<rparr>))
      in case cl_muxes c ! index of
           None \<Rightarrow> renew
         | Some i \<Rightarrow> if usable now c i then Some (Inr i, c) else renew)"

section \<open>Running a connection\<close>

text \<open>The counters and the random pool are global: a call takes them along and brings them back.\<close>

definition borrow :: "'k client \<Rightarrow> nat \<Rightarrow> 'k tunnel" where
  "borrow c i = (tunnel_at c i) \<lparr> kt_snmp := cl_snmp c, kt_draws := cl_draws c \<rparr>"

text \<open>The close handler: it erases the transport, counts, and closes the socket.\<close>

definition release :: "nat \<Rightarrow> 'k client \<Rightarrow> 'k client" where
  "release i c =
     c \<lparr> cl_transports := AList.delete (cn_conv (connection_at c i)) (cl_transports c),
         cl_snmp := snmp_connection_close (cl_snmp c),
         cl_connections := (cl_connections c)[i := (connection_at c i) \<lparr> cn_socket_open := False \<rparr>] \<rparr>"

definition give_back :: "nat \<Rightarrow> 'k tunnel \<Rightarrow> 'k client \<Rightarrow> 'k client" where
  "give_back i t c =
     (let closes = (kt_closing t \<and> \<not> kt_closing (tunnel_at c i));
          c = c \<lparr> cl_connections := (cl_connections c)[i := (connection_at c i) \<lparr> cn_tunnel := t \<rparr>],
                  cl_snmp := kt_snmp t, cl_draws := kt_draws t \<rparr>
      in if closes then release i c else c)"

text \<open>The exceptions of \<open>handle_accept\<close> are caught and logged.\<close>

definition handle_accept ::
  "'k transport_lib \<Rightarrow> smux_lib \<Rightarrow> client_env \<Rightarrow> int \<Rightarrow> bool \<Rightarrow> 'k client \<Rightarrow> 'k client option" where
  "handle_accept lib slib env now unix c =
     (let index = unat (cl_rr c) mod length (cl_muxes c);
          c = c \<lparr> cl_rr := cl_rr c + 1 \<rparr>
      in case ensure_session lib slib env now index c of
           None \<Rightarrow> None
         | Some (Inl e, c) \<Rightarrow> Some (client_note (Client_warn (''open smux stream: '' @ error_what e)) c)
         | Some (Inr i, c) \<Rightarrow>
             (case open_stream slib (kt_user (tunnel_at c i)) of
                Inl e \<Rightarrow> Some (client_note (Client_warn (''open smux stream: '' @ error_what e)) c)
              | Inr (h, s) \<Rightarrow> Some (give_back i (on_session lib now (\<lambda>_. start_client unix h s) (borrow c i)) c)))"

text \<open>The completion handler of \<open>async_accept\<close> of either acceptor.\<close>

definition accept_handler ::
  "'k transport_lib \<Rightarrow> smux_lib \<Rightarrow> client_env \<Rightarrow> int \<Rightarrow> bool \<Rightarrow> bool \<Rightarrow> 'k client \<Rightarrow> 'k client option" where
  "accept_handler lib slib env now unix failed c =
     map_option (client_note Accept_start)
       (if failed then Some (client_note (Client_warn (if unix then ''accept unix'' else ''accept'')) c)
        else handle_accept lib slib env now unix c)"

definition input_connection ::
  "'k transport_lib \<Rightarrow> int \<Rightarrow> bytes \<Rightarrow> nat \<Rightarrow> 'k client \<Rightarrow> 'k client result option" where
  "input_connection lib now data i c =
     (case transport_input lib now data (borrow c i) of
        None \<Rightarrow> None
      | Some (Inl e) \<Rightarrow> Some (Inl e)
      | Some (Inr t) \<Rightarrow> Some (Inr (give_back i t c)))"

text \<open>What the receive handler does with a datagram, up to the next \<open>start_udp_receive\<close>.\<close>

definition handle_datagram ::
  "'k transport_lib \<Rightarrow> (bytes \<Rightarrow> u32) \<Rightarrow> int \<Rightarrow> nat \<Rightarrow> endpoint \<Rightarrow> bytes \<Rightarrow> 'k client \<Rightarrow> 'k client result option" where
  "handle_datagram lib getconv now i sender packet c =
     (case pc_decrypt (tl_crypto lib) (cl_crypt c) packet of
        None \<Rightarrow> Some (Inr (client_count In_csum_errors 1 c))
      | Some decoded \<Rightarrow>
          if length decoded < 4 then Some (Inr (client_count In_csum_errors 1 c))
          else
            (case fec_kcp_payload_offset decoded of
               None \<Rightarrow>
                 if kt_remote (tunnel_at c i) = sender then input_connection lib now decoded i c else Some (Inr c)
             | Some offset \<Rightarrow>
                 if length decoded < offset + 4 then Some (Inr c)
                 else if getconv (drop offset decoded) = cn_conv (connection_at c i) \<and>
                   kt_remote (tunnel_at c i) = sender
                 then input_connection lib now decoded i c else Some (Inr c)))"

text \<open>
  The completion handler of \<open>async_receive_from\<close>: after a checksum error it receives again
  whether or not the socket is open.
\<close>

definition drops_datagram :: "'k transport_lib \<Rightarrow> bytes \<Rightarrow> 'k client \<Rightarrow> bool" where
  "drops_datagram lib packet c \<longleftrightarrow>
     (case pc_decrypt (tl_crypto lib) (cl_crypt c) packet of None \<Rightarrow> True | Some decoded \<Rightarrow> length decoded < 4)"

definition udp_handler ::
  "'k transport_lib \<Rightarrow> (bytes \<Rightarrow> u32) \<Rightarrow> int \<Rightarrow> nat \<Rightarrow> endpoint \<Rightarrow> bytes + asio_error \<Rightarrow> 'k client \<Rightarrow>
     'k client result option" where
  "udp_handler lib getconv now i sender received c =
     (let again = (\<lambda>must c. if must \<or> cn_socket_open (connection_at c i) then client_note (Receive_start i) c else c)
      in case received of
           Inl packet \<Rightarrow>
             let c = client_count In_bytes (length packet) (client_count In_pkts 1 c)
             in map_option (map_sum id (again (drops_datagram lib packet c))) (handle_datagram lib getconv now i sender packet c)
         | Inr e \<Rightarrow>
             Some (Inr (again False (if e = Operation_aborted then c
               else client_note (Client_warn ''udp receive'') (client_count In_errs 1 c)))))"

text \<open>The handler of a scavenge timer; the session of the connection has been set by then.\<close>

definition scavenge_handler ::
  "'k transport_lib \<Rightarrow> smux_lib \<Rightarrow> int \<Rightarrow> bool \<Rightarrow> nat \<Rightarrow> 'k client \<Rightarrow> 'k client" where
  "scavenge_handler lib slib now failed i c =
     (let c = c \<lparr> cl_scavenge_timers := remove1 i (cl_scavenge_timers c) \<rparr>
      in if failed then c else give_back i (on_session lib now (session_close slib) (borrow c i)) c)"

end
