(* ===== verification/Client_Safety.thy ===== *)
theory Client_Safety
  imports Client
begin

text \<open>
  The client as a transition system: accepted connections, datagrams, timers and the events
  of its sessions and transports, and the invariant of its connections.
\<close>

section \<open>Closing is final\<close>

lemma session_closed_final:
  assumes "smux_reachable slib config client s" "smux_step slib s ev s'" "ss_closed s"
  shows "ss_closed s'"
  using close_calls [OF assms(1,2)] assms(3) by simp

lemma same_peer_step_simple [simp]:
  "same_peer t (rate_timer_handler failed now u) = same_peer t u" "same_peer t (sent_handler failed n u) = same_peer t u"
  "same_peer t (on_session lib now f u) = same_peer t u" "same_peer t (u \<lparr> kt_snmp := c, kt_draws := n \<rparr>) = same_peer t u"
  by (simp_all add: rate_timer_handler_def sent_handler_def on_session_def schedule_rate_limited_send_def
      note_effect_def count_def same_peer_def [of _ "kt_user_update _ _"] Let_def)
    (simp_all add: same_peer_def)

lemma same_peer_update: "update_kcp lib now t = Some t' \<Longrightarrow> same_peer t t'"
  by (auto simp: update_kcp_def split: if_splits option.splits dest!: same_peer_drain elim!: same_peer_trans [rotated])

lemma tunnel_step_keeps:
  assumes "tunnel_inv lib mtu slib config client t" "tunnel_step lib slib t t'"
  shows "same_peer t t'" "kt_closing t \<Longrightarrow> kt_closing t'"
proof -
  show "same_peer t t'"
    using assms(2) by cases (auto intro: same_peer_input same_peer_update)
  assume closing: "kt_closing t"
  have calls: "kt_closing u \<Longrightarrow> kt_closing (foldl (run_call lib now) u cs)" for u cs and now :: int
  proof (induction cs arbitrary: u)
    case (Cons c cs)
    then have "kt_closing (run_call lib now u c)"
      by (cases c) (simp_all add: transport_send_def close_transport_def)
    then show ?case using Cons(1) by simp
  qed simp
  have steady: "steady t t' \<Longrightarrow> kt_closing t'" using closing by (simp add: steady_def)
  show "kt_closing t'"
    using assms(2)
  proof cases
    case (session ev s now)
    then show ?thesis using calls [of "t \<lparr> kt_user := s \<rparr>"] closing by (simp add: on_session_def Let_def)
  qed (use closing steady in \<open>simp_all add: transport_input_def update_kcp_def\<close>)
qed

section \<open>Steps\<close>

inductive client_step ::
  "'k transport_lib \<Rightarrow> smux_lib \<Rightarrow> client_env \<Rightarrow> (bytes \<Rightarrow> u32) \<Rightarrow> 'k client \<Rightarrow> 'k client \<Rightarrow> bool"
  for lib slib env getconv where
  accept: "accept_handler lib slib env now unix failed c = Some c' \<Longrightarrow> client_step lib slib env getconv c c'"
| datagram: "i < length (cl_connections c) \<Longrightarrow>
    udp_handler lib getconv now i sender received c = Some (Inr c') \<Longrightarrow> client_step lib slib env getconv c c'"
| scavenge: "i \<in> set (cl_scavenge_timers c) \<Longrightarrow>
    client_step lib slib env getconv c (scavenge_handler lib slib now False i c)"
| event: "i < length (cl_connections c) \<Longrightarrow> tunnel_step lib slib (borrow c i) t \<Longrightarrow>
    client_step lib slib env getconv c (give_back i t c)"

inductive client_reachable ::
  "'k transport_lib \<Rightarrow> smux_lib \<Rightarrow> client_env \<Rightarrow> (bytes \<Rightarrow> u32) \<Rightarrow> client_config \<Rightarrow> 'k client \<Rightarrow> bool"
  for lib slib env getconv config where
  made: "make_client (tl_crypto lib) config counters draws = Inr c \<Longrightarrow> start_listening env c = Inr c' \<Longrightarrow>
    client_reachable lib slib env getconv config c'"
| step: "client_reachable lib slib env getconv config c \<Longrightarrow> client_step lib slib env getconv c c' \<Longrightarrow>
    client_reachable lib slib env getconv config c'"

section \<open>The invariant\<close>

text \<open>A connection is in order, and open from its session down to its socket or closed so.\<close>

definition connection_ok ::
  "'k transport_lib \<Rightarrow> ('k \<Rightarrow> int) \<Rightarrow> smux_lib \<Rightarrow> base_config \<Rightarrow> 'k connection \<Rightarrow> bool" where
  "connection_ok lib mtu slib config k \<longleftrightarrow> tunnel_inv lib mtu slib config True (cn_tunnel k) \<and>
     kt_conv (cn_tunnel k) = cn_conv k \<and> cn_socket_open k = (\<not> kt_closing (cn_tunnel k))"

definition open_connection :: "'k client \<Rightarrow> nat \<Rightarrow> bool" where
  "open_connection c i \<longleftrightarrow> i < length (cl_connections c) \<and> \<not> kt_closing (tunnel_at c i)"

definition client_inv ::
  "'k transport_lib \<Rightarrow> ('k \<Rightarrow> int) \<Rightarrow> smux_lib \<Rightarrow> client_config \<Rightarrow> 'k client \<Rightarrow> bool" where
  "client_inv lib mtu slib config c \<longleftrightarrow> cl_config c = config \<and>
     (\<forall>i < length (cl_connections c). connection_ok lib mtu slib (base_config.truncate config) (connection_at c i)) \<and>
     distinct (map fst (cl_transports c)) \<and>
     (\<forall>conv i. map_of (cl_transports c) conv = Some i \<longleftrightarrow> open_connection c i \<and> cn_conv (connection_at c i) = conv) \<and>
     length (cl_muxes c) = nat (max 1 (cfg_conn config)) \<and>
     (\<forall>i. Some i \<in> set (cl_muxes c) \<longrightarrow> i < length (cl_connections c)) \<and>
     (\<forall>i \<in> set (cl_scavenge_timers c). i < length (cl_connections c))"

text \<open>With \<open>autoexpire\<close>, every open connection but those of \<open>X\<close> has its timer.\<close>

definition timers_ok :: "nat set \<Rightarrow> 'k client \<Rightarrow> bool" where
  "timers_ok X c \<longleftrightarrow> (0 < cfg_autoexpire (cl_config c) \<longrightarrow>
     (\<forall>i. open_connection c i \<and> i \<notin> X \<longrightarrow> i \<in> set (cl_scavenge_timers c)))"

lemma client_inv_same:
  assumes "client_inv lib mtu slib config c" "cl_config c' = cl_config c" "cl_connections c' = cl_connections c"
    "cl_transports c' = cl_transports c" "length (cl_muxes c') = length (cl_muxes c)"
    "set (cl_muxes c') \<subseteq> set (cl_muxes c) \<union> {x. \<exists>i < length (cl_connections c). x = Some i}"
    "set (cl_scavenge_timers c') \<subseteq> set (cl_scavenge_timers c) \<union> {..<length (cl_connections c)}"
  shows "client_inv lib mtu slib config c'"
  using assms by (fastforce simp: client_inv_def open_connection_def connection_at_def tunnel_at_def)

lemma timers_ok_same:
  "timers_ok X c \<Longrightarrow> cl_config c' = cl_config c \<Longrightarrow> cl_connections c' = cl_connections c \<Longrightarrow>
     set (cl_scavenge_timers c) \<subseteq> set (cl_scavenge_timers c') \<union> Y \<Longrightarrow> X \<union> Y \<subseteq> Z \<Longrightarrow> timers_ok Z c'"
  by (auto simp: timers_ok_def open_connection_def tunnel_at_def connection_at_def)

text \<open>The connection after its tunnel has come back.\<close>

lemma give_back_fields:
  assumes "i < length (cl_connections c)"
  shows "cl_config (give_back i t c) = cl_config c" "cl_muxes (give_back i t c) = cl_muxes c"
    "cl_scavenge_timers (give_back i t c) = cl_scavenge_timers c"
    "length (cl_connections (give_back i t c)) = length (cl_connections c)"
    "connection_at (give_back i t c) j =
      (if j = i then (connection_at c i) \<lparr> cn_tunnel := t,
           cn_socket_open := (cn_socket_open (connection_at c i) \<and> \<not> (kt_closing t \<and> \<not> kt_closing (tunnel_at c i))) \<rparr>
       else connection_at c j)"
    "cl_transports (give_back i t c) =
      (if kt_closing t \<and> \<not> kt_closing (tunnel_at c i) then AList.delete (cn_conv (connection_at c i)) (cl_transports c)
       else cl_transports c)"
  using assms by (auto simp: give_back_def release_def connection_at_def Let_def)

lemma give_back_inv:
  assumes inv: "client_inv lib mtu slib config c" and i: "i < length (cl_connections c)"
    and t: "tunnel_inv lib mtu slib (base_config.truncate config) True t" "same_peer (tunnel_at c i) t"
    and final: "kt_closing (tunnel_at c i) \<Longrightarrow> kt_closing t"
  shows "client_inv lib mtu slib config (give_back i t c)"
    "timers_ok X c \<Longrightarrow> kt_closing t \<or> i \<notin> X \<Longrightarrow> timers_ok (X - {i}) (give_back i t c)"
proof -
  let ?c = "give_back i t c"
  note f = give_back_fields [OF i]
  have table: "\<And>conv j. map_of (cl_transports c) conv = Some j \<longleftrightarrow> open_connection c j \<and> cn_conv (connection_at c j) = conv"
    and ok: "\<And>j. j < length (cl_connections c) \<Longrightarrow> connection_ok lib mtu slib (base_config.truncate config) (connection_at c j)"
    and d: "distinct (map fst (cl_transports c))"
    using inv by (auto simp: client_inv_def simp del: map_of_eq_Some_iff)
  have i_ok: "connection_ok lib mtu slib (base_config.truncate config) (connection_at ?c i)"
    using ok [OF i] t final by (auto simp: f(5) connection_ok_def same_peer_def tunnel_at_def)
  have at: "tunnel_at ?c j = (if j = i then t else tunnel_at c j)" "cn_conv (connection_at ?c j) = cn_conv (connection_at c j)" for j
    by (simp_all add: tunnel_at_def f(5))
  have open_c: "open_connection ?c j \<longleftrightarrow> (if j = i then \<not> kt_closing t else open_connection c j)" for j
    using i by (auto simp: open_connection_def at f(4))
  have "map_of (cl_transports ?c) conv = Some j \<longleftrightarrow> open_connection ?c j \<and> cn_conv (connection_at ?c j) = conv" for conv j
  proof (cases "kt_closing t \<and> \<not> kt_closing (tunnel_at c i)")
    case True
    then have "open_connection c i" using i by (simp add: open_connection_def)
    then have "map_of (cl_transports c) (cn_conv (connection_at c i)) = Some i" using table by blast
    then show ?thesis using True table [of conv j] by (auto simp: f(6) open_c at delete_conv')
  next
    case False
    then have "open_connection ?c j = open_connection c j" using final i unfolding open_c by (auto simp: open_connection_def)
    then show ?thesis using table [of conv j] False by (auto simp: f(6) at simp del: map_of_eq_Some_iff)
  qed
  moreover have "distinct (map fst (cl_transports ?c))" using d by (simp add: f(6) distinct_delete)
  moreover have "connection_ok lib mtu slib (base_config.truncate config) (connection_at ?c j)" if "j < length (cl_connections c)" for j
    using ok [OF that] i_ok by (cases "j = i") (simp_all add: f(5))
  ultimately show "client_inv lib mtu slib config ?c"
    using inv unfolding client_inv_def f(1-4) by (simp del: map_of_eq_Some_iff)
  show "timers_ok (X - {i}) ?c" if "timers_ok X c" "kt_closing t \<or> i \<notin> X"
    using that i final unfolding timers_ok_def open_c f(1,3) by (auto simp: open_connection_def)
qed

section \<open>Every step\<close>

lemma borrow_inv:
  assumes "client_inv lib mtu slib config c" "i < length (cl_connections c)"
  shows "tunnel_inv lib mtu slib (base_config.truncate config) True (borrow c i)"
    "same_peer (tunnel_at c i) (borrow c i)" "kt_closing (borrow c i) = kt_closing (tunnel_at c i)"
  using assms
  by (auto simp: client_inv_def connection_ok_def tunnel_at_def borrow_def tunnel_inv_def kt_inv_def udp_packets_def)

text \<open>Closing a session, and opening a stream on it, are steps of its tunnel.\<close>

lemma close_session_tunnel:
  assumes lib: "kcp_documented lib mtu backlog" "crypto_documented lib" "int_range (cfg_mtu config)"
    and inv: "tunnel_inv lib mtu slib config client t"
  shows "tunnel_inv lib mtu slib config client (on_session lib now (session_close slib) t)"
    "kt_closing (on_session lib now (session_close slib) t)"
proof -
  have reach: "smux_reachable slib config client (kt_user t)" and closing: "kt_closing t = ss_closed (kt_user t)"
    using inv by (auto simp: tunnel_inv_def)
  have "tunnel_inv lib mtu slib config client (on_session lib now (session_close slib) t) \<and>
      kt_closing (on_session lib now (session_close slib) t)"
  proof (cases "ss_closed (kt_user t)")
    case True
    then have "on_session lib now (session_close slib) t = t"
      by (simp add: on_session_def session_close_def new_calls_def List.map_filter_def)
    then show ?thesis using inv closing True by simp
  next
    case False
    then have "ss_alive (kt_user t)" using smux_reachable_inv [OF reach] by (simp add: smux_inv_def)
    then have ev: "smux_step slib (kt_user t) Ev_close (session_close slib (kt_user t))" by (rule smux_step.closed)
    have "tunnel_inv lib mtu slib config client (on_session lib now (session_close slib) t)"
      using tunnel_inv_calls [OF lib inv ev] by (simp add: on_session_def Let_def)
    moreover have "kt_inv lib mtu config (t \<lparr> kt_user := session_close slib (kt_user t) \<rparr>)"
      using inv kt_inv_minor [OF _ minor_basic(5)] by (auto simp: tunnel_inv_def)
    from run_calls [OF lib this] have "kt_user (on_session lib now (session_close slib) t) = session_close slib (kt_user t)"
      by (simp add: on_session_def Let_def)
    ultimately show ?thesis by (simp add: tunnel_inv_def session_close_closed)
  qed
  then show "tunnel_inv lib mtu slib config client (on_session lib now (session_close slib) t)"
    "kt_closing (on_session lib now (session_close slib) t)" by blast+
qed

lemma open_stream_step:
  assumes "smux_reachable slib config client s" "open_stream slib s = Inr (h, s')"
  shows "smux_step slib s (Ev_open unix) (start_client unix h s')"
proof -
  have "\<not> ss_closed s" using assms(2) by (auto simp: open_stream_def)
  then have "ss_alive s" using smux_reachable_inv [OF assms(1)] by (simp add: smux_inv_def)
  then show ?thesis using assms(2) by (rule smux_step.open_ok)
qed

lemma step_inv:
  assumes lib: "kcp_documented lib mtu backlog" "crypto_documented lib" "int_range (cfg_mtu config)"
    and inv: "client_inv lib mtu slib config c" and i: "i < length (cl_connections c)"
    and step: "tunnel_step lib slib (borrow c i) t"
  shows "client_inv lib mtu slib config (give_back i t c)" "timers_ok {} c \<Longrightarrow> timers_ok {} (give_back i t c)"
proof -
  have mtu: "int_range (cfg_mtu (base_config.truncate config))" using lib(3) by (simp add: base_config.truncate_def)
  note b = borrow_inv [OF inv i]
  note t = tunnel_inv_step [OF lib(1,2) mtu b(1) step] tunnel_step_keeps [OF b(1) step]
  have "same_peer (tunnel_at c i) t" "kt_closing (tunnel_at c i) \<Longrightarrow> kt_closing t"
    using same_peer_trans [OF b(2) t(2)] t(3) b(3) by blast+
  from give_back_inv [OF inv i t(1) this] give_back_inv(2) [OF inv i t(1) this, of "{}"]
  show "client_inv lib mtu slib config (give_back i t c)" "timers_ok {} c \<Longrightarrow> timers_ok {} (give_back i t c)"
    by simp_all
qed

lemma next_conv_fresh:
  assumes "next_conv env transports n = Some r"
  shows "map_of transports (fst r) = None"
proof (rule next_conv.raw_induct [OF _ assms])
  fix go :: "client_env \<Rightarrow> (u32 \<times> nat) list \<Rightarrow> nat \<Rightarrow> (u32 \<times> nat) option" and env n r
  and transports :: "(u32 \<times> nat) list"
  assume ih: "\<And>env transports n r. go env transports n = Some r \<Longrightarrow> map_of transports (fst r) = None"
    and body: "(let conv = random_conv (ce_draw env n)
      in if map_of transports conv = None then Some (conv, n + 1) else go env transports (n + 1)) = Some r"
  show "map_of transports (fst r) = None"
    using body ih by (cases "map_of transports (random_conv (ce_draw env n)) = None") (auto simp: Let_def)
qed

lemma next_conv_ends:
  assumes "map_of transports (random_conv (ce_draw env m)) = None" "n \<le> m"
  shows "\<exists>conv k. next_conv env transports n = Some (conv, k)"
  using assms(2)
proof (induction "m - n" arbitrary: n)
  case 0
  then show ?case using assms(1) by (subst next_conv.simps) (simp add: Let_def)
next
  case (Suc d)
  then show ?case by (subst next_conv.simps) (simp add: Let_def)
qed

text \<open>What creating a connection changes.\<close>

lemma create_connection_cases:
  assumes "create_connection lib slib env now c = Some (r, c')"
  obtains (failed) e where "r = Inl e" "cl_config c' = cl_config c" "cl_connections c' = cl_connections c"
      "cl_transports c' = cl_transports c" "cl_muxes c' = cl_muxes c" "cl_scavenge_timers c' = cl_scavenge_timers c"
      "cl_crypt c' = cl_crypt c"
  | (made) conv remote t counters draws where "map_of (cl_transports c) conv = None"
      "make_tunnel lib slib now remote conv (base_config.truncate (cl_config c)) True counters draws = Inr t"
      "cl_config c' = cl_config c" "cl_crypt c' = cl_crypt c"
      "cl_connections c' = cl_connections c @
         [\<lparr> cn_tunnel = start_tunnel slib t, cn_conv = conv,
            cn_expiry = now + seconds (max 0 (cfg_autoexpire (cl_config c))), cn_socket_open = True \<rparr>]"
      "cl_transports c' = (conv, length (cl_connections c)) # cl_transports c" "cl_muxes c' = cl_muxes c"
      "if int_range (max 0 (cfg_autoexpire (cl_config c)) + max 0 (cfg_scavengettl (cl_config c))) \<or> cfg_autoexpire (cl_config c) \<le> 0
       then r = Inr (length (cl_connections c)) \<and> cl_scavenge_timers c' = cl_scavenge_timers c @
         (if 0 < cfg_autoexpire (cl_config c) then [length (cl_connections c)] else [])
       else cl_scavenge_timers c' = cl_scavenge_timers c \<and> r = Inl Undefined_behaviour"
proof -
  obtain conv n where conv: "next_conv env (cl_transports c) (cl_random c) = Some (conv, n)"
    using assms by (auto simp: create_connection_def split: option.splits)
  have fresh: "map_of (cl_transports c) conv = None" using next_conv_fresh [OF conv] by simp
  define c1 where "c1 = c \<lparr> cl_random := n \<rparr>"
  define c2 where "c2 = c1 \<lparr> cl_random := n + 1 \<rparr>"
  show ?thesis
  proof (cases "pick_remote_endpoint env c1")
    case (Inl e)
    then have "r = Inl e" "c' = c2"
      using assms unfolding create_connection_def conv by (simp_all add: Let_def c1_def c2_def)
    then show ?thesis by (intro failed [of e]) (simp_all add: c2_def c1_def)
  next
    case (Inr remote)
    note picked = Inr
    show ?thesis
    proof (cases "ce_open env remote")
      case (Inl e)
      then have "r = Inl e" "c' = c2"
        using assms picked unfolding create_connection_def conv by (simp_all add: Let_def c1_def c2_def)
      then show ?thesis by (intro failed [of e]) (simp_all add: c2_def c1_def)
    next
      case (Inr u)
      define c3 where "c3 = client_note (Set_options (length (cl_connections c2))
        (set_socket_buffers (cfg_sockbuf (cl_config c2)) @ set_dscp (cfg_dscp (cl_config c2)))) c2"
      note bound = Inr
      have c3: "cl_config c3 = cl_config c" "cl_connections c3 = cl_connections c" "cl_transports c3 = cl_transports c"
        "cl_muxes c3 = cl_muxes c" "cl_scavenge_timers c3 = cl_scavenge_timers c" "cl_crypt c3 = cl_crypt c"
        by (simp_all add: c3_def c2_def c1_def client_note_def)
      show ?thesis
      proof (cases "make_tunnel lib slib now remote conv (base_config.truncate (cl_config c)) True (cl_snmp c) (cl_draws c)")
        case (Inl e)
        then have "r = Inl e" "c' = c3"
          using assms picked bound unfolding create_connection_def conv c3_def
          by (simp_all add: Let_def c1_def c2_def client_note_def)
        then show ?thesis by (intro failed [of e]) (simp_all add: c3)
      next
        case (Inr t)
        define c4 where "c4 = add_connection now conv (start_tunnel slib t) c3"
        have c4: "cl_config c4 = cl_config c" "cl_muxes c4 = cl_muxes c" "cl_scavenge_timers c4 = cl_scavenge_timers c"
          "cl_crypt c4 = cl_crypt c" "cl_transports c4 = (conv, length (cl_connections c)) # cl_transports c"
          "cl_connections c4 = cl_connections c @ [\<lparr> cn_tunnel = start_tunnel slib t, cn_conv = conv,
            cn_expiry = now + seconds (max 0 (cfg_autoexpire (cl_config c))), cn_socket_open = True \<rparr>]"
          by (simp_all add: c4_def add_connection_def c3)
        have made_c': "arm_connection (length (cl_connections c)) c4 = (r, c')"
          using assms picked bound Inr unfolding create_connection_def conv c4_def c3_def
          by (simp add: Let_def c1_def c2_def client_note_def)
        have note_fields: "cl_config (client_note e d) = cl_config d" "cl_muxes (client_note e d) = cl_muxes d"
          "cl_scavenge_timers (client_note e d) = cl_scavenge_timers d" "cl_crypt (client_note e d) = cl_crypt d"
          "cl_transports (client_note e d) = cl_transports d" "cl_connections (client_note e d) = cl_connections d"
          for e and d :: "'a client" by (simp_all add: client_note_def)
        show ?thesis
          by (rule made [OF fresh Inr])
            (use made_c' c4 in \<open>auto simp: arm_connection_def note_fields schedule_scavenge_def int_add_def split: if_splits\<close>)
      qed
    qed
  qed
qed

text \<open>What a created connection is to the client: the newest object, open, with its own conversation.\<close>

definition created :: "client_config \<Rightarrow> int \<Rightarrow> 'k client \<Rightarrow> nat result \<Rightarrow> 'k client \<Rightarrow> bool" where
  "created config now c r c' \<longleftrightarrow>
     (case r of Inl e \<Rightarrow> cl_connections c' = cl_connections c
      | Inr i \<Rightarrow> i = length (cl_connections c) \<and> open_connection c' i \<and>
          take i (cl_connections c') = cl_connections c \<and>
          cn_expiry (connection_at c' i) = now + seconds (max 0 (cfg_autoexpire config)) \<and>
          map_of (cl_transports c) (cn_conv (connection_at c' i)) = None)"

text \<open>A new object with a fresh conversation keeps the table in step with the open connections.\<close>

lemma added_table:
  assumes inv: "client_inv lib mtu slib config c" and fresh: "map_of (cl_transports c) conv = None"
    and c': "cl_connections c' = cl_connections c @ [cn]" "cl_transports c' = (conv, length (cl_connections c)) # cl_transports c"
    and cn: "cn_conv cn = conv" "\<not> kt_closing (cn_tunnel cn)"
  shows "open_connection c' j \<longleftrightarrow> j = length (cl_connections c) \<or> open_connection c j"
    and "map_of (cl_transports c') conv' = Some j \<longleftrightarrow> open_connection c' j \<and> cn_conv (connection_at c' j) = conv'"
proof -
  let ?n = "length (cl_connections c)"
  have new: "connection_at c' ?n = cn" by (simp add: connection_at_def c'(1))
  have old: "connection_at c' j = connection_at c j" if "j < ?n" for j
    using that by (simp add: connection_at_def c'(1) nth_append)
  have table: "map_of (cl_transports c) conv = Some j \<longleftrightarrow> open_connection c j \<and> cn_conv (connection_at c j) = conv" for conv j
    using inv by (auto simp: client_inv_def simp del: map_of_eq_Some_iff)
  show opens: "open_connection c' j \<longleftrightarrow> j = ?n \<or> open_connection c j" for j
    using cn(2) new old [of j] by (auto simp: open_connection_def tunnel_at_def c'(1) less_Suc_eq)
  show "map_of (cl_transports c') conv' = Some j \<longleftrightarrow> open_connection c' j \<and> cn_conv (connection_at c' j) = conv'"
  proof (cases "j = ?n")
    case True
    have "map_of (cl_transports c) conv' \<noteq> Some ?n" using table by (auto simp: open_connection_def simp del: map_of_eq_Some_iff)
    then show ?thesis using True cn(1) by (auto simp: c'(2) opens new simp del: map_of_eq_Some_iff)
  next
    case False
    have "cn_conv (connection_at c' j) = cn_conv (connection_at c j)" if "open_connection c j"
      using that old by (simp add: open_connection_def)
    moreover have "cn_conv (connection_at c j) \<noteq> conv" if "open_connection c j"
      using that table fresh by (metis option.distinct(1))
    ultimately show ?thesis using False table [of conv' j] by (auto simp: c'(2) opens simp del: map_of_eq_Some_iff)
  qed
qed

lemma created_inv:
  assumes lib: "kcp_documented lib mtu backlog" and inv: "client_inv lib mtu slib config c" "timers_ok {} c"
    and delays: "int_range (max 0 (cfg_autoexpire config) + max 0 (cfg_scavengettl config))"
    and create: "create_connection lib slib env now c = Some (r, c')"
  shows "client_inv lib mtu slib config c' \<and> timers_ok {} c' \<and> cl_muxes c' = cl_muxes c \<and> created config now c r c'"
  using create
proof (cases rule: create_connection_cases)
  case (failed e)
  have "client_inv lib mtu slib config c'" by (rule client_inv_same [OF inv(1)]) (auto simp: failed)
  moreover have "timers_ok {} c'" by (rule timers_ok_same [OF inv(2), of _ "{}"]) (auto simp: failed)
  ultimately show ?thesis by (simp add: failed created_def)
next
  case (made conv remote t counters draws)
  let ?n = "length (cl_connections c)"
  have config: "cl_config c = config" using inv(1) by (simp add: client_inv_def)
  have r: "r = Inr ?n" and timers: "cl_scavenge_timers c' = cl_scavenge_timers c @ (if 0 < cfg_autoexpire config then [?n] else [])"
    using made(8) delays by (simp_all add: config)
  have new: "connection_at c' ?n = \<lparr> cn_tunnel = start_tunnel slib t, cn_conv = conv,
      cn_expiry = now + seconds (max 0 (cfg_autoexpire config)), cn_socket_open = True \<rparr>"
    by (simp add: connection_at_def made(5) config)
  have t: "tunnel_inv lib mtu slib (base_config.truncate config) True (start_tunnel slib t)"
    using tunnel_inv_made [OF lib made(2), of None] by (simp add: accepting_def config)
  obtain s where s: "make_kcp_transport lib remote conv (base_config.truncate config) True counters draws s = Inr t"
    using made(2) make_tunnel_parts config by metis
  have fields: "kt_conv (start_tunnel slib t) = conv" "\<not> kt_closing (start_tunnel slib t)"
    using s by (auto simp: make_kcp_transport_def configure_kcp_def start_tunnel_def start_transport_def start_update_timer_def
        set_read_handler_def note_effect_def Let_def split: sum.splits option.splits if_splits prod.splits)
  note table = added_table [OF inv(1) made(1) made(5,6)]
  have opens: "open_connection c' j \<longleftrightarrow> j = ?n \<or> open_connection c j"
    and tables: "map_of (cl_transports c') conv' = Some j \<longleftrightarrow> open_connection c' j \<and> cn_conv (connection_at c' j) = conv'" for conv' j
    using table fields(2) by simp_all
  have distinct: "distinct (map fst (cl_transports c))" "conv \<notin> fst ` set (cl_transports c)"
    using inv(1) made(1) by (auto simp: client_inv_def map_of_eq_None_iff simp del: map_of_eq_Some_iff)
  have "connection_ok lib mtu slib (base_config.truncate config) (connection_at c' j)" if "j < Suc ?n" for j
  proof (cases "j = ?n")
    case True
    then show ?thesis using t fields by (simp add: new connection_ok_def)
  next
    case False
    then have "connection_at c' j = connection_at c j" using that by (simp add: connection_at_def made(5) nth_append)
    then show ?thesis using False that inv(1) by (simp add: client_inv_def)
  qed
  moreover have "\<forall>j \<in> set (cl_scavenge_timers c'). j < Suc ?n" "\<forall>j. Some j \<in> set (cl_muxes c') \<longrightarrow> j < Suc ?n"
    using inv(1) by (auto simp: client_inv_def timers made(7) less_Suc_eq)
  ultimately have "client_inv lib mtu slib config c'"
    using inv(1) distinct tables unfolding client_inv_def made(3,7) config
    by (simp add: made(5,6) del: map_of_eq_Some_iff)
  moreover have "timers_ok {} c'"
    using inv(2) by (auto simp: timers_ok_def opens made(3) config timers)
  ultimately show ?thesis
    using made(1) by (simp add: created_def r opens new made(5,7))
qed

lemma note_count_same [simp]:
  "client_inv lib mtu slib config (client_note e c) = client_inv lib mtu slib config c"
  "client_inv lib mtu slib config (client_count f n c) = client_inv lib mtu slib config c"
  "timers_ok X (client_note e c) = timers_ok X c" "timers_ok X (client_count f n c) = timers_ok X c"
  "cl_connections (client_note e c) = cl_connections c" "cl_connections (client_count f n c) = cl_connections c"
  "cl_crypt (client_count f n c) = cl_crypt c" "connection_at (client_count f n c) i = connection_at c i"
  "tunnel_at (client_count f n c) i = tunnel_at c i" "connection_at (client_note e c) i = connection_at c i"
  "tunnel_at (client_note e c) i = tunnel_at c i"
  by (simp_all add: client_note_def client_count_def client_inv_def timers_ok_def open_connection_def
      connection_at_def tunnel_at_def)

lemma map_result_Inr: "map_option (map_sum id f) r = Some (Inr y) \<Longrightarrow> \<exists>d. r = Some (Inr d) \<and> y = f d"
  by (cases r) (auto simp: map_sum_def split: sum.splits)

definition client_ok :: "'k transport_lib \<Rightarrow> ('k \<Rightarrow> int) \<Rightarrow> smux_lib \<Rightarrow> client_config \<Rightarrow> 'k client \<Rightarrow> bool" where
  "client_ok lib mtu slib config c \<longleftrightarrow> client_inv lib mtu slib config c \<and> timers_ok {} c"

lemma ensure_session_result:
  assumes lib: "kcp_documented lib mtu backlog" and ok: "client_ok lib mtu slib config c"
    and delays: "int_range (max 0 (cfg_autoexpire config) + max 0 (cfg_scavengettl config))"
    and index: "index < length (cl_muxes c)" and ensure: "ensure_session lib slib env now index c = Some (r, c')"
  shows "client_ok lib mtu slib config c'"
    "case r of Inl e \<Rightarrow> cl_muxes c' = cl_muxes c \<and> cl_connections c' = cl_connections c
     | Inr i \<Rightarrow> open_connection c' i \<and> usable now c' i \<and> cl_muxes c' = (cl_muxes c)[index := Some i] \<and>
         (if \<exists>j. cl_muxes c ! index = Some j \<and> usable now c j then cl_muxes c ! index = Some i \<and> c' = c
          else i = length (cl_connections c) \<and> take i (cl_connections c') = cl_connections c \<and>
            map_of (cl_transports c) (cn_conv (connection_at c' i)) = None)"
proof -
  have inv: "client_inv lib mtu slib config c" "timers_ok {} c" and config: "cl_config c = config"
    using ok by (auto simp: client_ok_def client_inv_def)
  have closed: "kt_closing (tunnel_at c i) = ss_closed (kt_user (tunnel_at c i))"
    if "client_inv lib mtu slib config c" "i < length (cl_connections c)" for c i
    using that by (simp add: client_inv_def connection_ok_def tunnel_inv_def tunnel_at_def)
  have "client_ok lib mtu slib config c' \<and> (case r of Inl e \<Rightarrow> cl_muxes c' = cl_muxes c \<and> cl_connections c' = cl_connections c
     | Inr i \<Rightarrow> open_connection c' i \<and> usable now c' i \<and> cl_muxes c' = (cl_muxes c)[index := Some i] \<and>
         (if \<exists>j. cl_muxes c ! index = Some j \<and> usable now c j then cl_muxes c ! index = Some i \<and> c' = c
          else i = length (cl_connections c) \<and> take i (cl_connections c') = cl_connections c \<and>
            map_of (cl_transports c) (cn_conv (connection_at c' i)) = None))"
  proof (cases "\<exists>j. cl_muxes c ! index = Some j \<and> usable now c j")
    case True
    then obtain j where j: "cl_muxes c ! index = Some j" "usable now c j" by blast
    then have "Some j \<in> set (cl_muxes c)" using index nth_mem by metis
    then have "j < length (cl_connections c)" using inv(1) by (simp add: client_inv_def)
    then have "open_connection c j" using closed [OF inv(1)] j(2) by (simp add: open_connection_def usable_def)
    moreover have "r = Inr j" "c' = c" using ensure j by (simp_all add: ensure_session_def)
    moreover have "(cl_muxes c)[index := Some j] = cl_muxes c" using j(1) by (metis list_update_id)
    ultimately show ?thesis using True ok j by auto
  next
    case False
    then obtain r1 c1 where create: "create_connection lib slib env now c = Some (r1, c1)"
      and result: "r = r1" "c' = (case r1 of Inl e \<Rightarrow> c1 | Inr i \<Rightarrow> c1 \<lparr> cl_muxes := (cl_muxes c1)[index := Some i] \<rparr>)"
      using ensure by (auto simp: ensure_session_def Let_def split: option.splits sum.splits if_splits)
    have made: "client_inv lib mtu slib config c1" "timers_ok {} c1" "cl_muxes c1 = cl_muxes c" "created config now c r1 c1"
      using created_inv [OF lib inv delays create] by blast+
    have config1: "cl_config c1 = config" using made(1) by (simp add: client_inv_def)
    show ?thesis
    proof (cases r1)
      case (Inl e)
      then show ?thesis using made result by (simp add: client_ok_def created_def)
    next
      case (Inr i)
      have i: "i = length (cl_connections c)" "open_connection c1 i" "take i (cl_connections c1) = cl_connections c"
        "cn_expiry (connection_at c1 i) = now + seconds (max 0 (cfg_autoexpire config))"
        "map_of (cl_transports c) (cn_conv (connection_at c1 i)) = None"
        using made(4) unfolding created_def Inr sum.case by blast+
      have c': "c' = c1 \<lparr> cl_muxes := (cl_muxes c)[index := Some i] \<rparr>" using result Inr made(3) by simp
      have bound: "i < length (cl_connections c1)" using i(2) by (simp add: open_connection_def)
      have "client_inv lib mtu slib config c'"
        using bound set_update_subset_insert [of "cl_muxes c1" index "Some i"]
        by (intro client_inv_same [OF made(1)]) (auto simp: c' made(3))
      moreover have "timers_ok {} c'" by (rule timers_ok_same [OF made(2), of _ "{}"]) (auto simp: c')
      moreover have at: "connection_at c' i = connection_at c1 i" "tunnel_at c' i = tunnel_at c1 i"
        "open_connection c' i" using i(2) by (simp_all add: c' connection_at_def tunnel_at_def open_connection_def)
      moreover have "cl_config c' = config" by (simp add: c' config1)
      then have "usable now c' i"
        using closed [OF made(1) bound] i(2,4)
        by (simp add: usable_def at expired_def seconds_def open_connection_def)
      ultimately show ?thesis
        unfolding result(1) Inr sum.case if_not_P [OF False] client_ok_def using i by (simp add: c')
    qed
  qed
  then show "client_ok lib mtu slib config c'"
    "case r of Inl e \<Rightarrow> cl_muxes c' = cl_muxes c \<and> cl_connections c' = cl_connections c
     | Inr i \<Rightarrow> open_connection c' i \<and> usable now c' i \<and> cl_muxes c' = (cl_muxes c)[index := Some i] \<and>
         (if \<exists>j. cl_muxes c ! index = Some j \<and> usable now c j then cl_muxes c ! index = Some i \<and> c' = c
          else i = length (cl_connections c) \<and> take i (cl_connections c') = cl_connections c \<and>
            map_of (cl_transports c) (cn_conv (connection_at c' i)) = None)" by blast+
qed

lemma client_ok_length: "client_ok lib mtu slib config c \<Longrightarrow> 0 < length (cl_muxes c)"
  by (simp add: client_ok_def client_inv_def)

lemma client_ok_step:
  assumes lib: "kcp_documented lib mtu backlog" "crypto_documented lib" "int_range (cfg_mtu config)"
    and ok: "client_ok lib mtu slib config c" and i: "i < length (cl_connections c)"
    and step: "tunnel_step lib slib (borrow c i) t"
  shows "client_ok lib mtu slib config (give_back i t c)"
  using step_inv [OF lib _ i step] ok by (simp add: client_ok_def)

lemma client_ok_accept:
  assumes lib: "kcp_documented lib mtu backlog" "crypto_documented lib" "int_range (cfg_mtu config)"
    and delays: "int_range (max 0 (cfg_autoexpire config) + max 0 (cfg_scavengettl config))"
    and ok: "client_ok lib mtu slib config c" and accept: "handle_accept lib slib env now unix c = Some c'"
  shows "client_ok lib mtu slib config c'"
proof -
  let ?c = "c \<lparr> cl_rr := cl_rr c + 1 \<rparr>" and ?index = "unat (cl_rr c) mod length (cl_muxes c)"
  have c: "client_ok lib mtu slib config ?c"
    using ok client_inv_same [of lib mtu slib config c ?c] timers_ok_same [of "{}" c ?c "{}"] by (simp add: client_ok_def)
  have index: "?index < length (cl_muxes ?c)" using client_ok_length [OF ok] by simp
  obtain r d where ensure: "ensure_session lib slib env now ?index ?c = Some (r, d)"
    and rest: "c' = (case r of Inl e \<Rightarrow> client_note (Client_warn (''open smux stream: '' @ error_what e)) d
      | Inr i \<Rightarrow> (case open_stream slib (kt_user (tunnel_at d i)) of
            Inl e \<Rightarrow> client_note (Client_warn (''open smux stream: '' @ error_what e)) d
          | Inr (h, s) \<Rightarrow> give_back i (on_session lib now (\<lambda>_. start_client unix h s) (borrow d i)) d))"
    using accept unfolding handle_accept_def Let_def
    by (cases "ensure_session lib slib env now ?index ?c") (auto split: sum.splits)
  note d = ensure_session_result [OF lib(1) c delays index ensure]
  show ?thesis
  proof (cases "\<exists>i h s. r = Inr i \<and> open_stream slib (kt_user (tunnel_at d i)) = Inr (h, s)")
    case True
    then obtain i h s where opened: "r = Inr i" "open_stream slib (kt_user (tunnel_at d i)) = Inr (h, s)" by blast
    then have i: "i < length (cl_connections d)" using d(2) by (simp add: open_connection_def)
    have user: "kt_user (borrow d i) = kt_user (tunnel_at d i)" by (simp add: borrow_def)
    have "smux_reachable slib (base_config.truncate config) True (kt_user (borrow d i))"
      using borrow_inv(1) [OF _ i] d(1) by (auto simp: client_ok_def tunnel_inv_def)
    then have "smux_step slib (kt_user (borrow d i)) (Ev_open unix) (start_client unix h s)"
      using opened(2) by (intro open_stream_step) (simp_all add: user)
    then have "tunnel_step lib slib (borrow d i) (on_session lib now (\<lambda>_. start_client unix h s) (borrow d i))"
      by (rule tunnel_step.session)
    from client_ok_step [OF lib d(1) i this] show ?thesis using rest opened by simp
  next
    case False
    then have "\<exists>e. c' = client_note e d" using rest by (auto split: sum.splits)
    then show ?thesis using d(1) by (auto simp: client_ok_def)
  qed
qed

lemma client_ok_datagram:
  assumes lib: "kcp_documented lib mtu backlog" "crypto_documented lib" "int_range (cfg_mtu config)"
    and ok: "client_ok lib mtu slib config c" and i: "i < length (cl_connections c)"
    and handled: "handle_datagram lib getconv now i sender packet c = Some (Inr c')"
  shows "client_ok lib mtu slib config c'"
proof -
  have "client_ok lib mtu slib config c'" if input: "input_connection lib now x i c = Some (Inr c')" for x
  proof -
    obtain t where t: "transport_input lib now x (borrow c i) = Some (Inr t)" "c' = give_back i t c"
      using input by (auto simp: input_connection_def split: option.splits sum.splits)
    then show ?thesis using client_ok_step [OF lib ok i tunnel_step.received [OF t(1)]] by simp
  qed
  moreover have "client_ok lib mtu slib config (client_count f n c)" for f n using ok by (simp add: client_ok_def)
  ultimately show ?thesis
    using handled ok by (auto simp: handle_datagram_def split: option.splits if_splits)
qed

lemma client_ok_scavenge:
  assumes lib: "kcp_documented lib mtu backlog" "crypto_documented lib" "int_range (cfg_mtu config)"
    and ok: "client_ok lib mtu slib config c" and i: "i \<in> set (cl_scavenge_timers c)"
  shows "client_ok lib mtu slib config (scavenge_handler lib slib now False i c)"
    "kt_closing (tunnel_at (scavenge_handler lib slib now False i c) i)"
proof -
  let ?c = "c \<lparr> cl_scavenge_timers := remove1 i (cl_scavenge_timers c) \<rparr>"
  have inv: "client_inv lib mtu slib config c" "timers_ok {} c" and bound: "i < length (cl_connections ?c)"
    using ok i by (auto simp: client_ok_def client_inv_def)
  have mtu: "int_range (cfg_mtu (base_config.truncate config))" using lib(3) by (simp add: base_config.truncate_def)
  have c: "client_inv lib mtu slib config ?c"
    using set_remove1_subset [of i "cl_scavenge_timers c"] by (intro client_inv_same [OF inv(1)]) auto
  have timers: "timers_ok {i} ?c"
  proof (rule timers_ok_same [OF inv(2), of ?c "{i}"])
    have "x = i \<or> x \<in> set (remove1 i (cl_scavenge_timers c))" if "x \<in> set (cl_scavenge_timers c)" for x
      using that by (cases "x = i") (simp_all add: in_set_remove1)
    then show "set (cl_scavenge_timers c) \<subseteq> set (cl_scavenge_timers ?c) \<union> {i}" by auto
  qed simp_all
  note b = borrow_inv [OF c bound]
  let ?t = "on_session lib now (session_close slib) (borrow ?c i)"
  note t = close_session_tunnel [OF lib(1,2) mtu b(1), of now]
  have peer: "same_peer (tunnel_at ?c i) ?t" using b(2) by simp
  note returned = give_back_inv [OF c bound t(1) peer t(2)]
  have handler: "scavenge_handler lib slib now False i c = give_back i ?t ?c" by (simp add: scavenge_handler_def Let_def)
  show "client_ok lib mtu slib config (scavenge_handler lib slib now False i c)"
    using returned(1) returned(2) [OF timers] t(2) by (simp add: client_ok_def handler)
  show "kt_closing (tunnel_at (scavenge_handler lib slib now False i c) i)"
    using t(2) by (simp add: handler tunnel_at_def give_back_fields(5) [OF bound])
qed

lemma client_reachable_ok:
  assumes lib: "kcp_documented lib mtu backlog" "crypto_documented lib" "int_range (cfg_mtu config)"
    and delays: "int_range (max 0 (cfg_autoexpire config) + max 0 (cfg_scavengettl config))"
    and "client_reachable lib slib env getconv config c"
  shows "client_ok lib mtu slib config c"
  using assms(5)
proof (induction rule: client_reachable.induct)
  case (made counters draws c c')
  obtain crypt remote local_addr where "c = \<lparr> cl_config = config, cl_crypt = crypt, cl_local = local_addr, cl_remote = remote,
      cl_connections = [], cl_transports = [], cl_muxes = replicate (nat (max 1 (cfg_conn config))) None,
      cl_scavenge_timers = [], cl_rr = 0, cl_snmp = counters, cl_draws = draws, cl_random = 0, cl_effects = [] \<rparr>"
    using made(1) by (auto simp: make_client_def split: sum.splits)
  then have "client_ok lib mtu slib config c"
    by (simp add: client_ok_def client_inv_def timers_ok_def open_connection_def)
  moreover have "\<exists>e e'. c' = client_note e (client_note e' c)"
    using made(2) by (auto simp: start_listening_def split: local_address.splits sum.splits)
  ultimately show ?case by (auto simp: client_ok_def)
next
  case (step c c')
  note ok = step(3)
  show ?case
    using step(2)
  proof cases
    case (accept now unix failed)
    have "client_ok lib mtu slib config d" if "handle_accept lib slib env now unix c = Some d" for d
      by (rule client_ok_accept [OF lib delays ok that])
    then show ?thesis using accept ok by (auto simp: accept_handler_def client_ok_def split: if_splits)
  next
    case (datagram i now sender received)
    have counted: "client_ok lib mtu slib config (client_count f n (client_count g m c))" "client_ok lib mtu slib config (client_count f n c)"
      for f g n m using ok by (simp_all add: client_ok_def)
    have handled: "client_ok lib mtu slib config d"
      if "handle_datagram lib getconv now i sender p (client_count f n (client_count g m c)) = Some (Inr d)" for d f g n m p
      by (rule client_ok_datagram [OF lib counted(1) _ that]) (simp add: datagram)
    show ?thesis
    proof (cases received)
      case (Inl packet)
      obtain d must where "handle_datagram lib getconv now i sender packet (client_count In_bytes (length packet) (client_count In_pkts 1 c))
          = Some (Inr d)" "c' = (if must \<or> cn_socket_open (connection_at d i) then client_note (Receive_start i) d else d)"
        using map_result_Inr [OF datagram(2) [unfolded udp_handler_def Let_def Inl sum.case]] by blast
      then show ?thesis using handled by (simp add: client_ok_def)
    next
      case (Inr e)
      then show ?thesis using datagram(2) ok by (auto simp: udp_handler_def Let_def client_ok_def)
    qed
  next
    case (scavenge i now)
    then show ?thesis using client_ok_scavenge [OF lib ok] by simp
  next
    case (event i t)
    then show ?thesis using client_ok_step [OF lib ok] by simp
  qed
qed

section \<open>A client to apply the properties to\<close>

definition demo_config :: client_config where
  "demo_config = default_client_config \<lparr> cfg_crypt := ''null'', cfg_localaddr := '':5'', cfg_remoteaddr := ''10.0.0.1:4'', cfg_autoexpire := 60 \<rparr>"

definition demo_env :: client_env where
  "demo_env = \<lparr> ce_resolve = (\<lambda>_ _. Inr [(''10.0.0.1'', 4)]), ce_open = (\<lambda>_. Inr ()), ce_draw = (\<lambda>_ lo _. lo) \<rparr>"

lemma demo_env_fields:
  "ce_resolve demo_env host service = Inr [(''10.0.0.1'', 4)]" "ce_open demo_env e = Inr ()" "ce_draw demo_env n lo hi = lo"
  by (simp_all add: demo_env_def)

lemma demo_config_fields:
  "base_config.truncate demo_config = queue_config" "cfg_autoexpire demo_config = 60" "cfg_scavengettl demo_config = 600"
  "cfg_conn demo_config = 1" "cfg_localaddr demo_config = '':5''" "cfg_remoteaddr demo_config = ''10.0.0.1:4''"
  "int_range (cfg_mtu demo_config)" "cfg_crypt demo_config = ''null''"
  by (simp_all add: demo_config_def default_client_config_def base_defaults_def base_config.truncate_def int_range_def)

abbreviation demo_remote :: multi_port where
  "demo_remote \<equiv> \<lparr> mp_host = ''10.0.0.1'', mp_min_port = 4, mp_max_port = 4 \<rparr>"

lemma demo_addresses:
  "parse_multiport ''10.0.0.1:4'' = Inr demo_remote"
  "choose_local '':5'' = Inr (Local_tcp \<lparr> mp_host = [], mp_min_port = 5, mp_max_port = 5 \<rparr>)"
proof -
  have service: "service_of 4 4 = ''4''" "service_of 5 5 = ''5''" by code_simp+
  show "parse_multiport ''10.0.0.1:4'' = Inr demo_remote"
    using parse_service [OF split_plain [OF service_plain, of "''10.0.0.1''" 4 4]] by (simp add: service)
  have "parse_multiport '':5'' = Inr \<lparr> mp_host = [], mp_min_port = 5, mp_max_port = 5 \<rparr>"
    using parse_service [OF split_plain [OF service_plain, of "[]" 5 5]] by (simp add: service)
  then show "choose_local '':5'' = Inr (Local_tcp \<lparr> mp_host = [], mp_min_port = 5, mp_max_port = 5 \<rparr>)"
    by (simp add: choose_local_def)
qed

abbreviation demo_datagram :: bytes where "demo_datagram \<equiv> [7, 0, 0, 0, 81, 0]"

lemma demo_client:
  obtains c :: "queue_engine client" where "client_reachable queue_lib toy_smux_lib demo_env getconv demo_config c"
    "cl_connections c = []" "cl_transports c = []" "cl_muxes c = [None]" "cl_rr c = 0" "cl_random c = 0"
    "cl_config c = demo_config" "cl_remote c = demo_remote" "pc_decrypt toy_lib (cl_crypt c) demo_datagram = Some demo_datagram"
proof -
  have null: "normalize_method ''null'' = ''null''" by code_simp
  obtain crypt where crypt: "make_packet_crypt toy_lib demo_config = Inr crypt"
    "pc_decrypt toy_lib crypt demo_datagram = Some demo_datagram"
    by (simp add: make_packet_crypt_def null select_method_def pc_decrypt_def demo_config_fields Let_def)
  let ?c = "\<lparr> cl_config = demo_config, cl_crypt = crypt,
      cl_local = Local_tcp \<lparr> mp_host = [], mp_min_port = 5, mp_max_port = 5 \<rparr>, cl_remote = demo_remote,
      cl_connections = [], cl_transports = [], cl_muxes = [None], cl_scavenge_timers = [], cl_rr = 0,
      cl_snmp = empty_snmp, cl_draws = 0, cl_random = 0, cl_effects = [] \<rparr> :: queue_engine client"
  have made: "make_client (tl_crypto queue_lib) demo_config empty_snmp 0 = Inr ?c"
    using crypt(1) demo_addresses by (simp add: make_client_def demo_config_fields queue_lib_def)
  obtain c' where c': "start_listening demo_env ?c = Inr c'" "\<exists>e e'. c' = client_note e (client_note e' ?c)"
    by (simp add: start_listening_def make_tcp_bind_endpoint_def) blast
  have "client_reachable queue_lib toy_smux_lib demo_env getconv demo_config c'"
    by (rule client_reachable.made [OF made c'(1)])
  then show ?thesis using that [of c'] c'(2) crypt(2) by (auto simp: client_note_def)
qed

lemma demo_create:
  assumes "cl_connections c = []" "cl_transports c = []" "cl_random c = 0" "cl_config c = demo_config" "cl_remote c = demo_remote"
  obtains c' :: "queue_engine client" where
    "create_connection queue_lib toy_smux_lib demo_env 5 c = Some (Inr 0, c')" "length (cl_connections c') = 1"
    "kt_remote (tunnel_at c' 0) = (''10.0.0.1'', 4)" "cl_muxes c' = cl_muxes c" "cl_crypt c' = cl_crypt c"
proof -
  have "random_conv (ce_draw demo_env 0) = 1" by (simp add: random_conv_def demo_env_fields)
  then have conv: "next_conv demo_env [] 0 = Some (1, 1)" by (subst next_conv.simps) (simp add: Let_def)
  obtain t :: "queue_engine tunnel" where
    t: "make_tunnel queue_lib toy_smux_lib 5 (''10.0.0.1'', 4) 1 queue_config True (cl_snmp c) (cl_draws c) = Inr t"
    by (rule queue_tunnel)
  obtain s where "make_kcp_transport queue_lib (''10.0.0.1'', 4) 1 queue_config True (cl_snmp c) (cl_draws c) s = Inr t"
    using make_tunnel_parts [OF t] by blast
  then have remote: "kt_remote (start_tunnel toy_smux_lib t) = (''10.0.0.1'', 4)"
    by (auto simp: make_kcp_transport_def configure_kcp_def start_tunnel_def start_transport_def start_update_timer_def
        set_read_handler_def note_effect_def Let_def split: sum.splits option.splits if_splits prod.splits)
  obtain c' where "create_connection queue_lib toy_smux_lib demo_env 5 c = Some (Inr 0, c')" "length (cl_connections c') = 1"
    "tunnel_at c' 0 = start_tunnel toy_smux_lib t" "cl_muxes c' = cl_muxes c" "cl_crypt c' = cl_crypt c"
    using t by (simp add: create_connection_def assms conv pick_remote_endpoint_def resolve_udp_endpoint_def choose_port_def
        demo_env_fields demo_config_fields client_note_def arm_connection_def add_connection_def schedule_scavenge_def
        int_add_def int_range_def tunnel_at_def connection_at_def Let_def)
  then show ?thesis using that remote by metis
qed


lemma demo_ensure:
  obtains c c' :: "queue_engine client" where "client_reachable queue_lib toy_smux_lib demo_env getconv demo_config c"
    "length (cl_muxes c) = 1" "ensure_session queue_lib toy_smux_lib demo_env 5 0 c = Some (Inr 0, c')"
    "length (cl_connections c') = 1" "kt_remote (tunnel_at c' 0) = (''10.0.0.1'', 4)"
    "pc_decrypt toy_lib (cl_crypt c') demo_datagram = Some demo_datagram"
proof -
  obtain c :: "queue_engine client" where c: "client_reachable queue_lib toy_smux_lib demo_env getconv demo_config c"
    "cl_connections c = []" "cl_transports c = []" "cl_muxes c = [None]" "cl_rr c = 0" "cl_random c = 0"
    "cl_config c = demo_config" "cl_remote c = demo_remote" "pc_decrypt toy_lib (cl_crypt c) demo_datagram = Some demo_datagram"
    by (rule demo_client)
  obtain d where d: "create_connection queue_lib toy_smux_lib demo_env 5 c = Some (Inr 0, d)" "length (cl_connections d) = 1"
    "kt_remote (tunnel_at d 0) = (''10.0.0.1'', 4)" "cl_muxes d = cl_muxes c" "cl_crypt d = cl_crypt c"
    by (rule demo_create [OF c(2,3,6,7,8)])
  have ensure: "ensure_session queue_lib toy_smux_lib demo_env 5 0 c = Some (Inr 0, d \<lparr> cl_muxes := [Some 0] \<rparr>)"
    by (simp add: ensure_session_def c(4) d(1,4))
  show ?thesis
    using that [OF c(1) _ ensure] c(4,9) d(2,3,5) by (simp add: tunnel_at_def connection_at_def)
qed

lemma demo_delays: "int_range (max 0 (cfg_autoexpire demo_config) + max 0 (cfg_scavengettl demo_config))"
  by (simp add: demo_config_fields int_range_def)

lemma demo_accept:
  obtains c :: "queue_engine client" where "client_reachable queue_lib toy_smux_lib demo_env getconv demo_config c"
    "length (cl_connections c) = 1"
proof -
  obtain c :: "queue_engine client" where c: "client_reachable queue_lib toy_smux_lib demo_env getconv demo_config c"
    "cl_connections c = []" "cl_transports c = []" "cl_muxes c = [None]" "cl_rr c = 0" "cl_random c = 0"
    "cl_config c = demo_config" "cl_remote c = demo_remote" "pc_decrypt toy_lib (cl_crypt c) demo_datagram = Some demo_datagram"
    by (rule demo_client)
  let ?c = "c \<lparr> cl_rr := cl_rr c + 1 \<rparr>"
  obtain d where d: "create_connection queue_lib toy_smux_lib demo_env 5 ?c = Some (Inr 0, d)" "length (cl_connections d) = 1"
    "cl_muxes d = cl_muxes ?c"
    by (rule demo_create [of ?c]) (simp_all add: c)
  let ?d = "d \<lparr> cl_muxes := [Some 0] \<rparr>"
  have "ensure_session queue_lib toy_smux_lib demo_env 5 0 ?c = Some (Inr 0, ?d)"
    using d by (simp add: ensure_session_def c(4))
  then obtain c' where c': "accept_handler queue_lib toy_smux_lib demo_env 5 False False c = Some c'" "length (cl_connections c') = 1"
    using d(2) give_back_fields(4) [of 0 ?d]
    by (cases "open_stream toy_smux_lib (kt_user (tunnel_at ?d 0))")
      (auto simp: accept_handler_def handle_accept_def c(4,5) Let_def)
  show ?thesis
    by (rule that [OF client_reachable.step [OF c(1) client_step.accept [OF c'(1)]] c'(2)])
qed


section \<open>Properties\<close>

text \<open>C10: The client's connections are sound in every reachable state: a connection is open
  in its session, its transport, its socket and the table of transports, or closed in all
  four; the table maps each conversation number to the one open connection that has it; the
  slots refer to existing connections; and with \<open>autoexpire\<close> every open connection has a
  scavenge timer pending, so that none is leaked.\<close>

theorem client_connections_sound:
  assumes "kcp_documented lib mtu backlog" "crypto_documented lib" "int_range (cfg_mtu config)"
    and "int_range (max 0 (cfg_autoexpire config) + max 0 (cfg_scavengettl config))"
    and "client_reachable lib slib env getconv config c"
  shows "(\<forall>i < length (cl_connections c).
       let k = connection_at c i; t = cn_tunnel k
       in (cn_socket_open k \<longleftrightarrow> \<not> kt_closing t) \<and> (kt_closing t \<longleftrightarrow> ss_closed (kt_user t)) \<and>
         (\<not> kt_closing t \<longleftrightarrow> (\<exists>conv. map_of (cl_transports c) conv = Some i)) \<and>
         (0 < cfg_autoexpire config \<and> \<not> kt_closing t \<longrightarrow> i \<in> set (cl_scavenge_timers c))) \<and>
    (\<forall>conv i. map_of (cl_transports c) conv = Some i \<longrightarrow>
       i < length (cl_connections c) \<and> cn_conv (connection_at c i) = conv \<and> kt_conv (tunnel_at c i) = conv) \<and>
    (\<forall>i. Some i \<in> set (cl_muxes c) \<longrightarrow> i < length (cl_connections c))"
proof -
  have inv: "client_inv lib mtu slib config c" and timers: "timers_ok {} c"
    using client_reachable_ok [OF assms] by (auto simp: client_ok_def)
  have table: "\<And>conv i. map_of (cl_transports c) conv = Some i \<longleftrightarrow> open_connection c i \<and> cn_conv (connection_at c i) = conv"
    and ok: "\<And>i. i < length (cl_connections c) \<Longrightarrow> connection_ok lib mtu slib (base_config.truncate config) (connection_at c i)"
    and config: "cl_config c = config"
    using inv by (auto simp: client_inv_def simp del: map_of_eq_Some_iff)
  have "let k = connection_at c i; t = cn_tunnel k
       in (cn_socket_open k \<longleftrightarrow> \<not> kt_closing t) \<and> (kt_closing t \<longleftrightarrow> ss_closed (kt_user t)) \<and>
         (\<not> kt_closing t \<longleftrightarrow> (\<exists>conv. map_of (cl_transports c) conv = Some i)) \<and>
         (0 < cfg_autoexpire config \<and> \<not> kt_closing t \<longrightarrow> i \<in> set (cl_scavenge_timers c))"
    if i: "i < length (cl_connections c)" for i
  proof -
    have "cn_socket_open (connection_at c i) \<longleftrightarrow> \<not> kt_closing (tunnel_at c i)" "kt_closing (tunnel_at c i) \<longleftrightarrow> ss_closed (kt_user (tunnel_at c i))"
      using ok [OF i] by (auto simp: connection_ok_def tunnel_inv_def tunnel_at_def)
    moreover have "\<not> kt_closing (tunnel_at c i) \<longleftrightarrow> (\<exists>conv. map_of (cl_transports c) conv = Some i)"
      unfolding table using i by (auto simp: open_connection_def)
    moreover have "0 < cfg_autoexpire config \<and> \<not> kt_closing (tunnel_at c i) \<longrightarrow> i \<in> set (cl_scavenge_timers c)"
      using timers i unfolding timers_ok_def open_connection_def config by blast
    ultimately show ?thesis unfolding Let_def tunnel_at_def by blast
  qed
  moreover have "i < length (cl_connections c) \<and> cn_conv (connection_at c i) = conv \<and> kt_conv (tunnel_at c i) = conv"
    if "map_of (cl_transports c) conv = Some i" for conv i
    using that ok [of i] unfolding table by (simp add: open_connection_def connection_ok_def tunnel_at_def)
  moreover have "\<forall>i. Some i \<in> set (cl_muxes c) \<longrightarrow> i < length (cl_connections c)" using inv by (simp add: client_inv_def)
  ultimately show ?thesis by blast
qed

lemma client_connections_sound_witness:
  "\<exists>c :: queue_engine client. length (cl_connections c) = 1 \<and>
     (cn_socket_open (connection_at c 0) \<longrightarrow> 0 \<in> set (cl_scavenge_timers c) \<and> (\<exists>conv. map_of (cl_transports c) conv = Some 0))"
proof -
  obtain c :: "queue_engine client" where c: "client_reachable queue_lib toy_smux_lib demo_env (\<lambda>_. 1) demo_config c"
    "length (cl_connections c) = 1" by (rule demo_accept)
  show ?thesis
    using client_connections_sound [OF queue_lib_documented demo_config_fields(7) demo_delays c(1)] c(2)
    unfolding Let_def demo_config_fields by (intro exI [of _ c]) auto
qed


text \<open>C17: \<open>ensure_session\<close> gives a session that can be used: its connection is open, its
  session is not closed and has not expired, and the slot refers to it. It is the slot's own
  if that one is usable; otherwise it is a new one, whose conversation number no open
  connection has, and no other connection or slot is touched. An exception changes no slot.\<close>

theorem ensure_session_usable:
  assumes "kcp_documented lib mtu backlog" "crypto_documented lib" "int_range (cfg_mtu config)"
    and "int_range (max 0 (cfg_autoexpire config) + max 0 (cfg_scavengettl config))"
    and "client_reachable lib slib env getconv config c" "index < length (cl_muxes c)"
    and "ensure_session lib slib env now index c = Some (r, c')"
  shows "case r of
      Inl e \<Rightarrow> cl_muxes c' = cl_muxes c \<and> cl_connections c' = cl_connections c
    | Inr i \<Rightarrow>
        open_connection c' i \<and> \<not> ss_closed (kt_user (tunnel_at c' i)) \<and> \<not> expired now c' i \<and>
        cl_muxes c' = (cl_muxes c)[index := Some i] \<and>
        (if \<exists>j. cl_muxes c ! index = Some j \<and> \<not> ss_closed (kt_user (tunnel_at c j)) \<and> \<not> expired now c j
         then cl_muxes c ! index = Some i \<and> c' = c
         else i = length (cl_connections c) \<and> take i (cl_connections c') = cl_connections c \<and>
           (\<forall>j. open_connection c j \<longrightarrow> cn_conv (connection_at c j) \<noteq> cn_conv (connection_at c' i)))"
proof -
  note ok = client_reachable_ok [OF assms(1-5)]
  have table: "map_of (cl_transports c) conv = Some i \<longleftrightarrow> open_connection c i \<and> cn_conv (connection_at c i) = conv" for conv i
    using ok by (auto simp: client_ok_def client_inv_def simp del: map_of_eq_Some_iff)
  have fresh: "\<forall>j. open_connection c j \<longrightarrow> cn_conv (connection_at c j) \<noteq> conv" if "map_of (cl_transports c) conv = None" for conv
    using table that by (metis option.distinct(1))
  note result = ensure_session_result(2) [OF assms(1) ok assms(4,6,7)]
  show ?thesis
  proof (cases r)
    case (Inl e)
    then show ?thesis using result by simp
  next
    case (Inr i)
    note result = result [unfolded Inr sum.case usable_def]
    show ?thesis
    proof (cases "\<exists>j. cl_muxes c ! index = Some j \<and> \<not> ss_closed (kt_user (tunnel_at c j)) \<and> \<not> expired now c j")
      case True
      then show ?thesis using result unfolding Inr sum.case if_P [OF True] by blast
    next
      case False
      then show ?thesis using result fresh unfolding Inr sum.case if_not_P [OF False] by blast
    qed
  qed
qed

lemma ensure_session_usable_witness:
  "\<exists>c c' :: queue_engine client. ensure_session queue_lib toy_smux_lib demo_env 5 0 c = Some (Inr 0, c') \<and>
     open_connection c' 0 \<and> \<not> expired 5 c' 0 \<and> cl_muxes c' = (cl_muxes c)[0 := Some 0]"
proof -
  obtain c c' :: "queue_engine client" where c: "client_reachable queue_lib toy_smux_lib demo_env (\<lambda>_. 1) demo_config c"
    "length (cl_muxes c) = 1" "ensure_session queue_lib toy_smux_lib demo_env 5 0 c = Some (Inr 0, c')"
    by (rule demo_ensure)
  show ?thesis
    using ensure_session_usable [OF queue_lib_documented demo_config_fields(7) demo_delays c(1) _ c(3)] c(2,3) by auto
qed


text \<open>C18: Only a connection's own peer reaches its transport: whatever datagram arrives on
  the socket of a connection, no other connection changes, and its own changes only if the
  datagram decrypts, comes from the address the transport talks to, and carries the
  conversation number of the connection (or is a parity packet, which has none).\<close>

theorem client_input_only_from_peer:
  assumes "udp_handler lib getconv now i sender received c = Some (Inr c')" "i < length (cl_connections c)"
  shows "(\<forall>j. j \<noteq> i \<longrightarrow> connection_at c' j = connection_at c j) \<and>
    (connection_at c' i \<noteq> connection_at c i \<longrightarrow>
       (\<exists>packet decoded. received = Inl packet \<and> pc_decrypt (tl_crypto lib) (cl_crypt c) packet = Some decoded \<and>
          sender = kt_remote (tunnel_at c i) \<and>
          (case fec_kcp_payload_offset decoded of
             None \<Rightarrow> True
           | Some offset \<Rightarrow> getconv (drop offset decoded) = cn_conv (connection_at c i))))"
proof (cases received)
  case (Inr e)
  then show ?thesis using assms(1) by (auto simp: udp_handler_def Let_def)
next
  case (Inl packet)
  let ?c = "client_count In_bytes (length packet) (client_count In_pkts 1 c)"
  obtain d must where d: "handle_datagram lib getconv now i sender packet ?c = Some (Inr d)"
    "c' = (if must \<or> cn_socket_open (connection_at d i) then client_note (Receive_start i) d else d)"
    using map_result_Inr [OF assms(1) [unfolded udp_handler_def Let_def Inl sum.case]] by blast
  have at: "connection_at c' j = connection_at d j" for j using d(2) by simp
  have input: "connection_at e j = connection_at c j" if "input_connection lib now x i ?c = Some (Inr e)" "j \<noteq> i" for x e j
    using that assms(2) by (auto simp: input_connection_def give_back_fields(5) split: option.splits sum.splits)
  show ?thesis
    using d(1) Inl
    by (auto simp: handle_datagram_def at input split: option.splits if_splits)
qed

lemma client_input_only_from_peer_witness:
  "\<exists>c c' :: queue_engine client. length (cl_connections c) = 1 \<and>
     udp_handler queue_lib (\<lambda>_. 7) 6 0 (''10.9.9.9'', 53) (Inl demo_datagram) c = Some (Inr c') \<and>
     connection_at c' 0 = connection_at c 0"
proof -
  obtain c0 c :: "queue_engine client" where c: "length (cl_connections c) = 1"
    "kt_remote (tunnel_at c 0) = (''10.0.0.1'', 4)" "pc_decrypt toy_lib (cl_crypt c) demo_datagram = Some demo_datagram"
    by (rule demo_ensure)
  have offset: "fec_kcp_payload_offset demo_datagram = Some 0" by code_simp
  have crypto: "tl_crypto queue_lib = toy_lib" by (simp add: queue_lib_def)
  obtain c' where c': "udp_handler queue_lib (\<lambda>_. 7) 6 0 (''10.9.9.9'', 53) (Inl demo_datagram) c = Some (Inr c')"
    using c(2,3) by (simp add: udp_handler_def handle_datagram_def offset crypto Let_def)
  have "connection_at c' 0 = connection_at c 0"
    using client_input_only_from_peer [OF c'] c(1,2) by auto
  then show ?thesis using c(1) c' by blast
qed


end
