(* ===== verification/Report.thy ===== *)
theory Report
  imports Config Qpp Diagnostics Server Client_Safety
begin

text \<open>
  The start of the two programs: the report and the usage texts of \<open>config.cpp\<close>, and the
  \<open>main\<close> functions of \<open>client_main.cpp\<close> and \<open>server_main.cpp\<close> up to \<open>io.run()\<close>. All lines of
  the report carry one time stamp.
\<close>

section \<open>The report\<close>

definition program_version :: string where
  "program_version = ''SHIMAKAZE-SELFBUILD''"

text \<open>What \<open>operator <<\<close> prints for an \<open>int\<close> and a \<open>bool\<close>.\<close>

definition show_int :: "int \<Rightarrow> string" where
  "show_int n = (if n < 0 then ''-'' @ to_string (nat (- n)) else to_string (nat n))"

definition show_bool :: "bool \<Rightarrow> string" where
  "show_bool b = (if b then ''1'' else ''0'')"

definition log_all :: "string \<Rightarrow> string list \<Rightarrow> logger \<Rightarrow> logger" where
  "log_all ts messages lg = foldl (\<lambda>lg m. log_info_line ts m lg) lg messages"

definition log_common :: "string \<Rightarrow> 'a base_config_scheme \<Rightarrow> logger \<Rightarrow> logger" where
  "log_common ts config =
     log_all ts
       [''encryption: '' @ cfg_crypt config,
        ''QPP: '' @ show_bool (cfg_qpp config),
        ''QPP Count: '' @ show_int (cfg_qpp_count config),
        ''nodelay parameters: '' @ show_int (cfg_nodelay config) @ '' '' @ show_int (cfg_interval config) @ '' '' @
          show_int (cfg_resend config) @ '' '' @ show_int (cfg_nc config),
        ''sndwnd: '' @ show_int (cfg_sndwnd config) @ '' rcvwnd: '' @ show_int (cfg_rcvwnd config),
        ''compression: '' @ show_bool (\<not> cfg_nocomp config),
        ''mtu: '' @ show_int (cfg_mtu config),
        ''ratelimit: '' @ show_int (cfg_ratelimit config),
        ''datashard: '' @ show_int (cfg_datashard config) @ '' parityshard: '' @ show_int (cfg_parityshard config),
        ''acknodelay: '' @ show_bool (cfg_acknodelay config),
        ''dscp: '' @ show_int (cfg_dscp config),
        ''sockbuf: '' @ show_int (cfg_sockbuf config),
        ''smuxver: '' @ show_int (cfg_smuxver config),
        ''smuxbuf: '' @ show_int (cfg_smuxbuf config),
        ''framesize: '' @ show_int (cfg_framesize config),
        ''streambuf: '' @ show_int (cfg_streambuf config),
        ''keepalive: '' @ show_int (cfg_keepalive config),
        ''closewait: '' @ show_int (cfg_closewait config),
        ''snmplog: '' @ cfg_snmplog config,
        ''snmpperiod: '' @ show_int (cfg_snmpperiod config),
        ''loglevel: '' @ cfg_loglevel config,
        ''quiet: '' @ show_bool (cfg_quiet config),
        ''tcp: '' @ show_bool (cfg_tcp config),
        ''pprof: '' @ show_bool (cfg_pprof config)]"

definition log_effective_client_config :: "string \<Rightarrow> client_config \<Rightarrow> logger \<Rightarrow> logger" where
  "log_effective_client_config ts config lg =
     (let lg = log_all ts [''version: '' @ program_version, ''listening on: '' @ cfg_localaddr config,
                           ''remote address: '' @ cfg_remoteaddr config] lg;
          lg = log_common ts config lg
      in log_all ts [''conn: '' @ show_int (cfg_conn config), ''autoexpire: '' @ show_int (cfg_autoexpire config),
                     ''scavengettl: '' @ show_int (cfg_scavengettl config)] lg)"

definition log_effective_server_config :: "string \<Rightarrow> server_config \<Rightarrow> logger \<Rightarrow> logger" where
  "log_effective_server_config ts config lg =
     log_common ts config
       (log_all ts [''version: '' @ program_version, ''listening on: '' @ cfg_listen config,
                    ''target: '' @ cfg_target config] lg)"

text \<open>The client mode casts the configuration to its derived class; it is the argument \<open>expiry\<close>.\<close>

definition log_compatibility_notes ::
  "string \<Rightarrow> 'a base_config_scheme \<Rightarrow> (int \<times> int) option \<Rightarrow> logger \<Rightarrow> logger result" where
  "log_compatibility_notes ts config expiry lg =
     (case (if cfg_qpp config then validate_qpp_params (cfg_qpp_count config) (cfg_key config) else Inr []) of
        Inl e \<Rightarrow> Inl e
      | Inr warnings \<Rightarrow>
          let lg = foldl (\<lambda>lg w. log_warn_line ts w lg) lg warnings;
              lg = (if cfg_tcp config then
                      log_warn_line ts ''--tcp raw transport is parsed but not implemented; UDP transport will be used.'' lg
                    else lg)
          in Inr (case expiry of
                    None \<Rightarrow> lg
                  | Some (autoexpire, scavengettl) \<Rightarrow>
                      if autoexpire \<noteq> 0 \<and> scavengettl > autoexpire then
                        log_warn_line ts ''scavengettl is bigger than autoexpire; connections may race hard to use bandwidth.'' lg
                      else lg))"

section \<open>Usage\<close>

abbreviation newline :: string where "newline \<equiv> [CHR 0x0A]"

definition common_usage :: string where
  "common_usage =
     ''  --key <secret>              pre-shared secret, also SHIMAKAZE_KEY'' @ newline @
     ''  --crypt <name>              null, none, aes, aes-128/192, salsa20, sm4, tea, xor...'' @ newline @
     ''  --mode <profile>            fast3, fast2, fast, normal, manual'' @ newline @
     ''  --mtu <bytes>               UDP MTU (default 1350)'' @ newline @
     ''  --sndwnd <n> --rcvwnd <n>   KCP windows'' @ newline @
     ''  --nocomp                    disable compression flag'' @ newline @
     ''  --quiet                     reduce stream logs'' @ newline @
     ''  --loglevel <level>          trace, debug, info, warn, error, off'' @ newline @
     ''  -c <file>                   JSON config overriding command flags'' @ newline @
     ''  -h, --help                  show help'' @ newline"

definition client_usage :: "string \<Rightarrow> string" where
  "client_usage program =
     ''Usage: '' @ program @ '' [options]'' @ newline @ newline @
     ''Shimakaze client options:'' @ newline @
     ''  -l, --localaddr <addr>      local listen address (default :12948)'' @ newline @
     ''  -r, --remoteaddr <addr>     KCP server address or port range (default vps:29900)'' @ newline @
     common_usage"

definition server_usage :: "string \<Rightarrow> string" where
  "server_usage program =
     ''Usage: '' @ program @ '' [options]'' @ newline @ newline @
     ''Shimakaze server options:'' @ newline @
     ''  -l, --listen <addr>         KCP listen address or port range (default :29900)'' @ newline @
     ''  -t, --target <addr>         TCP target address (default 127.0.0.1:12948)'' @ newline @
     common_usage"

section \<open>The programs\<close>

record main_env =
  me_parse_json :: "string \<Rightarrow> json result"
  me_files :: "string \<rightharpoonup> string"
  me_key_variable :: "string option"
  me_map_order :: "(string \<times> string) list \<Rightarrow> (string \<times> string) list"
  me_writable :: "string \<Rightarrow> bool"
  me_acceptor :: "string option \<times> string option \<times> string option"
  me_timestamp :: string
  me_crypto :: crypto_lib
  me_client :: client_env

text \<open>
  A program ends with an exit code, its standard output and error and the lines logged so
  far, or reaches \<open>io.run()\<close>.
\<close>

datatype 'p outcome =
    Exits nat string string "(string option \<times> string) list"
  | Undefined
  | Runs 'p logger "(string \<times> int) option" bool

definition give_up :: "string \<Rightarrow> string \<Rightarrow> cpp_error \<Rightarrow> logger \<Rightarrow> 'p outcome" where
  "give_up name usage e lg =
     (case e of
        Help_requested \<Rightarrow> Exits 0 usage [] (lg_lines lg)
      | Version_requested \<Rightarrow> Exits 0 (program_version @ newline) [] (lg_lines lg)
      | Undefined_behaviour \<Rightarrow> Undefined
      | _ \<Rightarrow> Exits 1 [] (name @ '': '' @ error_what e @ newline @ usage) (lg_lines lg))"

text \<open>The steps that both programs share, between the configuration and their object.\<close>

definition prepare_log :: "main_env \<Rightarrow> 'a base_config_scheme \<Rightarrow> logger \<Rightarrow> logger result" where
  "prepare_log env config lg =
     (case set_level (cfg_loglevel config) (set_quiet (cfg_quiet config) lg) of
        Inl e \<Rightarrow> Inl e
      | Inr lg \<Rightarrow> set_file (me_writable env) (cfg_log config) lg)"

definition client_main :: "main_env \<Rightarrow> snmp \<Rightarrow> string \<Rightarrow> string list \<Rightarrow> logger \<Rightarrow> 'k client outcome" where
  "client_main env counters program args lg =
     (case parse_client_config (me_parse_json env) (me_files env) (me_key_variable env) (me_map_order env) args lg of
        Inl e \<Rightarrow> give_up ''client'' (client_usage program) e lg
      | Inr (config, lg) \<Rightarrow>
          (case prepare_log env config lg of
             Inl e \<Rightarrow> give_up ''client'' (client_usage program) e lg
           | Inr lg \<Rightarrow>
               let lg = log_effective_client_config (me_timestamp env) config lg
               in case log_compatibility_notes (me_timestamp env) config (Some (cfg_autoexpire config, cfg_scavengettl config)) lg of
                    Inl e \<Rightarrow> give_up ''client'' (client_usage program) e lg
                  | Inr lg \<Rightarrow>
                      let snmp_logger = start_snmp_logger (cfg_snmplog config) (cfg_snmpperiod config);
                          (open_error, bind_error, listen_error) = me_acceptor env;
                          (diagnostics, lg) = start_diagnostics_server (cfg_pprof config) (me_timestamp env)
                            open_error bind_error listen_error lg
                      in (case make_client (me_crypto env) config counters 0 of
                            Inl e \<Rightarrow> give_up ''client'' (client_usage program) e lg
                          | Inr c \<Rightarrow>
                              (case start_listening (me_client env) c of
                                 Inl e \<Rightarrow> give_up ''client'' (client_usage program) e lg
                               | Inr c \<Rightarrow> Runs c lg snmp_logger diagnostics))))"

definition server_main ::
  "main_env \<Rightarrow> string \<Rightarrow> string list \<Rightarrow> logger \<Rightarrow> (server \<times> (endpoint \<times> socket_option list) list) outcome" where
  "server_main env program args lg =
     (case parse_server_config (me_parse_json env) (me_files env) (me_key_variable env) (me_map_order env) args lg of
        Inl e \<Rightarrow> give_up ''server'' (server_usage program) e lg
      | Inr (config, lg) \<Rightarrow>
          (case prepare_log env config lg of
             Inl e \<Rightarrow> give_up ''server'' (server_usage program) e lg
           | Inr lg \<Rightarrow>
               let lg = log_effective_server_config (me_timestamp env) config lg
               in case log_compatibility_notes (me_timestamp env) config None lg of
                    Inl e \<Rightarrow> give_up ''server'' (server_usage program) e lg
                  | Inr lg \<Rightarrow>
                      let snmp_logger = start_snmp_logger (cfg_snmplog config) (cfg_snmpperiod config);
                          (open_error, bind_error, listen_error) = me_acceptor env;
                          (diagnostics, lg) = start_diagnostics_server (cfg_pprof config) (me_timestamp env)
                            open_error bind_error listen_error lg
                      in (case make_server (me_crypto env) config of
                            Inl e \<Rightarrow> give_up ''server'' (server_usage program) e lg
                          | Inr sv \<Rightarrow>
                              (case start_server_ports (ce_resolve (me_client env)) sv of
                                 Inl e \<Rightarrow> give_up ''server'' (server_usage program) e lg
                               | Inr listeners \<Rightarrow> Runs (sv, listeners) lg snmp_logger diagnostics))))"

section \<open>The steps of the programs\<close>

lemma notes_cong:
  assumes "cfg_qpp c = cfg_qpp d" "cfg_tcp c = cfg_tcp d" "cfg_qpp_count c = cfg_qpp_count d"
    and "validate_qpp_params (cfg_qpp_count d) (cfg_key c) = validate_qpp_params (cfg_qpp_count d) (cfg_key d)"
  shows "log_compatibility_notes ts c expiry lg = log_compatibility_notes ts d expiry lg"
  by (simp only: log_compatibility_notes_def assms)

lemma client_main_cases:
  obtains (gave_up) e lg' where
      "(client_main env counters program args lg :: 'k client outcome) = give_up ''client'' (client_usage program) e lg'"
    | (running) config lg1 and c0 c :: "'k client" and lg' snmp_logger diagnostics where
      "parse_client_config (me_parse_json env) (me_files env) (me_key_variable env) (me_map_order env) args lg = Inr (config, lg1)"
      "make_client (me_crypto env) config counters 0 = Inr c0" "start_listening (me_client env) c0 = Inr c"
      "client_main env counters program args lg = Runs c lg' snmp_logger diagnostics"
proof (cases "parse_client_config (me_parse_json env) (me_files env) (me_key_variable env) (me_map_order env) args lg")
  case (Inl e)
  then show ?thesis by (intro gave_up) (simp add: client_main_def)
next
  case (Inr r)
  obtain config lg1 where r: "r = (config, lg1)" by (cases r)
  note parsed = Inr [unfolded r]
  show ?thesis
  proof (cases "prepare_log env config lg1")
    case (Inl e)
    then show ?thesis using parsed by (intro gave_up) (simp add: client_main_def)
  next
    case (Inr lg2)
    note prepared = Inr
    let ?notes = "log_compatibility_notes (me_timestamp env) config (Some (cfg_autoexpire config, cfg_scavengettl config))
      (log_effective_client_config (me_timestamp env) config lg2)"
    show ?thesis
    proof (cases ?notes)
      case (Inl e)
      then show ?thesis using parsed prepared by (intro gave_up) (simp add: client_main_def Let_def)
    next
      case (Inr lg3)
      obtain oe be le where acceptor: "me_acceptor env = (oe, be, le)" by (metis prod.collapse)
      obtain d lg4 where diag: "start_diagnostics_server (cfg_pprof config) (me_timestamp env) oe be le lg3 = (d, lg4)" by fastforce
      have main: "(client_main env counters program args lg :: 'k client outcome) = (case make_client (me_crypto env) config counters 0 of
            Inl e \<Rightarrow> give_up ''client'' (client_usage program) e lg4
          | Inr c \<Rightarrow> (case start_listening (me_client env) c of
                Inl e \<Rightarrow> give_up ''client'' (client_usage program) e lg4
              | Inr c \<Rightarrow> Runs c lg4 (start_snmp_logger (cfg_snmplog config) (cfg_snmpperiod config)) d))"
        using parsed prepared Inr acceptor diag by (simp add: client_main_def Let_def)
      show ?thesis
      proof (cases "make_client (me_crypto env) config counters 0 :: 'k client result")
        case (Inl e)
        then show ?thesis using main by (intro gave_up) simp
      next
        case (Inr c0)
        then show ?thesis
          using main parsed gave_up running by (cases "start_listening (me_client env) c0") auto
      qed
    qed
  qed
qed

lemma server_main_cases:
  obtains (gave_up) e lg' where "server_main env program args lg = give_up ''server'' (server_usage program) e lg'"
    | (running) config lg1 sv listeners lg' snmp_logger diagnostics where
      "parse_server_config (me_parse_json env) (me_files env) (me_key_variable env) (me_map_order env) args lg = Inr (config, lg1)"
      "make_server (me_crypto env) config = Inr sv" "start_server_ports (ce_resolve (me_client env)) sv = Inr listeners"
      "server_main env program args lg = Runs (sv, listeners) lg' snmp_logger diagnostics"
proof (cases "parse_server_config (me_parse_json env) (me_files env) (me_key_variable env) (me_map_order env) args lg")
  case (Inl e)
  then show ?thesis by (intro gave_up) (simp add: server_main_def)
next
  case (Inr r)
  obtain config lg1 where r: "r = (config, lg1)" by (cases r)
  note parsed = Inr [unfolded r]
  show ?thesis
  proof (cases "prepare_log env config lg1")
    case (Inl e)
    then show ?thesis using parsed by (intro gave_up) (simp add: server_main_def)
  next
    case (Inr lg2)
    note prepared = Inr
    let ?notes = "log_compatibility_notes (me_timestamp env) config None (log_effective_server_config (me_timestamp env) config lg2)"
    show ?thesis
    proof (cases ?notes)
      case (Inl e)
      then show ?thesis using parsed prepared by (intro gave_up) (simp add: server_main_def Let_def)
    next
      case (Inr lg3)
      obtain oe be le where acceptor: "me_acceptor env = (oe, be, le)" by (metis prod.collapse)
      obtain d lg4 where diag: "start_diagnostics_server (cfg_pprof config) (me_timestamp env) oe be le lg3 = (d, lg4)" by fastforce
      have main: "server_main env program args lg = (case make_server (me_crypto env) config of
            Inl e \<Rightarrow> give_up ''server'' (server_usage program) e lg4
          | Inr sv \<Rightarrow> (case start_server_ports (ce_resolve (me_client env)) sv of
                Inl e \<Rightarrow> give_up ''server'' (server_usage program) e lg4
              | Inr listeners \<Rightarrow> Runs (sv, listeners) lg4 (start_snmp_logger (cfg_snmplog config) (cfg_snmpperiod config)) d))"
        using parsed prepared Inr acceptor diag by (simp add: server_main_def Let_def)
      show ?thesis
      proof (cases "make_server (me_crypto env) config")
        case (Inl e)
        then show ?thesis using main by (intro gave_up) simp
      next
        case (Inr sv)
        then show ?thesis
          using main parsed gave_up running by (cases "start_server_ports (ce_resolve (me_client env)) sv") auto
      qed
    qed
  qed
qed

lemma length_start_listeners: "start_listeners resolve sv ports = Inr ls \<Longrightarrow> length ls = length ports"
  by (induction ports arbitrary: ls) (auto split: sum.splits)

section \<open>Properties\<close>

text \<open>The report does not give the key away: configurations that differ in the key alone
  leave the same log, for keys of one length (the permutation pad's warning states the length,
  and nothing else of the key).\<close>

theorem report_hides_key:
  fixes client :: client_config and server :: server_config
  assumes "length key = length (cfg_key client)" "length key' = length (cfg_key server)"
  shows "log_effective_client_config ts (client \<lparr> cfg_key := key \<rparr>) lg = log_effective_client_config ts client lg \<and>
    log_effective_server_config ts (server \<lparr> cfg_key := key' \<rparr>) lg = log_effective_server_config ts server lg \<and>
    log_compatibility_notes ts (client \<lparr> cfg_key := key \<rparr>) expiry lg = log_compatibility_notes ts client expiry lg \<and>
    log_compatibility_notes ts (server \<lparr> cfg_key := key' \<rparr>) None lg = log_compatibility_notes ts server None lg"
proof -
  have "validate_qpp_params n key = validate_qpp_params n (cfg_key client)"
    "validate_qpp_params n key' = validate_qpp_params n (cfg_key server)" for n
    by (simp_all only: validate_qpp_params_def assms)
  then show ?thesis
    using notes_cong [of "client \<lparr> cfg_key := key \<rparr>" client] notes_cong [of "server \<lparr> cfg_key := key' \<rparr>" server]
    by (simp add: log_effective_client_config_def log_effective_server_config_def log_common_def)
qed

lemma report_hides_key_witness:
  "log_effective_client_config ''t'' (default_client_config \<lparr> cfg_key := replicate 14 CHR ''x'' \<rparr>) initial_logger =
   log_effective_client_config ''t'' default_client_config initial_logger"
  using report_hides_key [of "replicate 14 CHR ''x''" default_client_config "cfg_key default_server_config" default_server_config]
  by (simp add: default_client_config_def base_defaults_def)

text \<open>
  Errors are exceptions. The one exception of the source itself is the signed addition of
  \<open>validate_common_config\<close>; the parser of JSON and the resolver are taken to throw, if they fail.
\<close>

definition throws_only :: "'c result \<Rightarrow> bool" where
  "throws_only r \<longleftrightarrow> r \<noteq> Inl Undefined_behaviour"

definition env_throws :: "main_env \<Rightarrow> bool" where
  "env_throws env \<longleftrightarrow> (\<forall>content. throws_only (me_parse_json env content)) \<and>
     (\<forall>host service. throws_only (ce_resolve (me_client env) host service))"

lemma throws_only_simps [simp]: "throws_only (Inr c)" "throws_only (Inl e) \<longleftrightarrow> e \<noteq> Undefined_behaviour"
  by (simp_all add: throws_only_def)

lemma throws_only_then:
  assumes "throws_only r" "\<And>c. throws_only (k c)"
  shows "throws_only (then_do r k)" "throws_only (case r of Inl e \<Rightarrow> Inl e | Inr c \<Rightarrow> k c)"
  using assms by (auto simp: then_do_def split: sum.split)

lemma throws_only_each:
  assumes "\<And>x c. throws_only (f x c)"
  shows "throws_only (for_each f xs c)"
proof (induction xs arbitrary: c)
  case (Cons x xs)
  then show ?case using assms [of x c] by (cases "f x c") auto
qed simp

lemma option_values_throw: "throws_only (parse_int key v)" "throws_only (parse_bool v)" "throws_only (json_value_to_string j)"
  by (auto simp: parse_int_def parse_bool_def json_value_to_string_def Let_def split: option.split json.split)

lemma assign_common_throws: "throws_only (assign_common key v c)"
  using option_values_throw
  by (auto simp: assign_common_def apply_setter_def split: option.split option_setter.split sum.split) (metis throws_only_simps(2))+

lemma scan_args_throws: "throws_only (scan_args args scan)"
  by (induction args scan rule: scan_args.induct) (auto simp: Let_def split: prod.split option.split list.split)

lemma cli_throws: "throws_only (apply_client_cli entries c)" "throws_only (apply_server_cli entries d)"
proof -
  have common: "throws_only (apply_cli_common entries c)" for c :: "'a base_config_scheme"
    unfolding apply_cli_common_def by (rule throws_only_each) (simp add: assign_common_throws split: prod.split)
  have client: "throws_only (client_entry e c)" for e c
    by (auto simp: client_entry_def Let_def option_values_throw intro!: throws_only_then split: prod.split)
  have server: "throws_only (server_entry e d)" for e d by (auto simp: server_entry_def Let_def split: prod.split)
  show "throws_only (apply_client_cli entries c)" "throws_only (apply_server_cli entries d)"
    unfolding apply_client_cli_def apply_server_cli_def
    by (intro throws_only_then throws_only_each common client server)+
qed

lemma json_throws:
  assumes "\<And>content. throws_only (parse_json content)"
  shows "throws_only (load_json_client parse_json files path c)" "throws_only (load_json_server parse_json files path d)"
proof -
  have object: "throws_only (json_object parse_json files path)"
    using assms by (auto simp: json_object_def read_file_def split: option.split sum.split json.split) (metis throws_only_simps(2))
  have common: "throws_only (apply_json_common obj c)" for obj and c :: "'a base_config_scheme"
    unfolding apply_json_common_def
    by (rule throws_only_each) (auto simp: option_values_throw assign_common_throws intro!: throws_only_then(2) split: prod.split)
  have members: "throws_only (json_string_member obj key f c)" "throws_only (json_int_member obj key g c)" for obj key f g and c :: 'c
    by (auto simp: json_string_member_def json_int_member_def option_values_throw intro!: throws_only_then(2) split: option.split)
  show "throws_only (load_json_client parse_json files path c)" "throws_only (load_json_server parse_json files path d)"
    unfolding load_json_client_def load_json_server_def by (intro throws_only_then(1) object common members)+
qed

text \<open>The settings that reach the validation.\<close>

definition client_settings :: "main_env \<Rightarrow> string list \<Rightarrow> client_config result" where
  "client_settings env args =
     then_do (scan_args args empty_scan) (\<lambda>scan.
     then_do (apply_client_cli (me_map_order env (cli_values scan)) (apply_env (me_key_variable env) default_client_config)) (\<lambda>config.
     then_do (if cli_config_path scan \<noteq> [] then load_json_client (me_parse_json env) (me_files env) (cli_config_path scan) config
              else Inr config) (\<lambda>config. Inr (sanitize_common (apply_mode config)))))"

definition server_settings :: "main_env \<Rightarrow> string list \<Rightarrow> server_config result" where
  "server_settings env args =
     then_do (scan_args args empty_scan) (\<lambda>scan.
     then_do (apply_server_cli (me_map_order env (cli_values scan)) (apply_env (me_key_variable env) default_server_config)) (\<lambda>config.
     then_do (if cli_config_path scan \<noteq> [] then load_json_server (me_parse_json env) (me_files env) (cli_config_path scan) config
              else Inr config) (\<lambda>config. Inr (sanitize_common (apply_mode config)))))"

definition shards_overflow :: "'a base_config_scheme result \<Rightarrow> bool" where
  "shards_overflow settings \<longleftrightarrow>
     (\<exists>config. settings = Inr config \<and> 0 \<le> cfg_datashard config \<and> 0 \<le> cfg_parityshard config \<and>
        2147483647 < cfg_datashard config + cfg_parityshard config)"

lemma settings_throw:
  assumes "env_throws env"
  shows "throws_only (client_settings env args)" "throws_only (server_settings env args)"
  using assms unfolding client_settings_def server_settings_def env_throws_def
  by (auto intro!: throws_only_then(1) scan_args_throws cli_throws json_throws)

lemma validate_undefined:
  assumes "validate_common_config config lg = Inl Undefined_behaviour"
  shows "0 \<le> cfg_datashard config \<and> 0 \<le> cfg_parityshard config \<and> 2147483647 < cfg_datashard config + cfg_parityshard config"
  using assms
  by (auto simp: validate_common_config_def then_do_def int_add_def int_range_def set_level_def Let_def split: if_splits sum.splits)

lemma parse_undefined:
  assumes "env_throws env"
  shows "parse_client_config (me_parse_json env) (me_files env) (me_key_variable env) (me_map_order env) args lg = Inl Undefined_behaviour \<Longrightarrow>
      shards_overflow (client_settings env args)"
    and "parse_server_config (me_parse_json env) (me_files env) (me_key_variable env) (me_map_order env) args lg = Inl Undefined_behaviour \<Longrightarrow>
      shards_overflow (server_settings env args)"
proof -
  have "parse_client_config (me_parse_json env) (me_files env) (me_key_variable env) (me_map_order env) args lg =
      then_do (client_settings env args) (\<lambda>config. then_do (validate_common_config config lg) (\<lambda>lg.
        if cfg_conn config \<le> 0 then Inl (Runtime_error ''conn must be greater than 0'') else Inr (config, lg)))"
    by (auto simp: parse_client_config_def client_settings_def then_do_def Let_def split: sum.split)
  then show "parse_client_config (me_parse_json env) (me_files env) (me_key_variable env) (me_map_order env) args lg = Inl Undefined_behaviour \<Longrightarrow>
      shards_overflow (client_settings env args)"
    using settings_throw(1) [OF assms, of args] validate_undefined [of _ lg]
    by (auto simp: then_do_def shards_overflow_def split: sum.splits if_splits)
  have "parse_server_config (me_parse_json env) (me_files env) (me_key_variable env) (me_map_order env) args lg =
      then_do (server_settings env args) (\<lambda>config. then_do (validate_common_config config lg) (\<lambda>lg. Inr (config, lg)))"
    by (auto simp: parse_server_config_def server_settings_def then_do_def Let_def split: sum.split)
  then show "parse_server_config (me_parse_json env) (me_files env) (me_key_variable env) (me_map_order env) args lg = Inl Undefined_behaviour \<Longrightarrow>
      shards_overflow (server_settings env args)"
    using settings_throw(2) [OF assms, of args] validate_undefined [of _ lg]
    by (auto simp: then_do_def shards_overflow_def split: sum.splits)
qed

text \<open>The steps after the configuration.\<close>

lemma setup_throws: "throws_only (prepare_log env config lg)" "throws_only (log_compatibility_notes ts config expiry lg)"
    "throws_only (parse_multiport address)" "throws_only (choose_local address)" "throws_only (choose_target address)"
proof -
  have address: "throws_only (parse_multiport address)" for address
    by (cases "parse_multiport address") (auto dest: parse_multiport_error)
  show "throws_only (prepare_log env config lg)"
    by (auto simp: prepare_log_def set_level_def set_file_def Let_def split: sum.split if_splits)
  show "throws_only (log_compatibility_notes ts config expiry lg)"
    by (auto simp: log_compatibility_notes_def validate_qpp_params_def Let_def split: sum.split if_splits)
  show "throws_only (parse_multiport address)" "throws_only (choose_local address)" "throws_only (choose_target address)"
    using address by (auto simp: choose_local_def choose_target_def split: sum.split)
qed

lemma crypt_throws: "throws_only (make_packet_crypt lib config)"
proof -
  have block: "throws_only (select_block lib eff ks alg pc)" for eff ks alg pc
    by (auto simp: select_block_def Let_def split: option.split prod.split)
  then have "throws_only (select_method lib m pc)" for m pc by (simp add: select_method_def)
  then show ?thesis
    using block by (auto simp: make_packet_crypt_def Let_def split: sum.split cpp_error.split) (metis throws_only_simps(2))
qed

lemma objects_throw:
  assumes "env_throws env"
  shows "throws_only (make_client lib config counters draws)" "throws_only (start_listening (me_client env) c)"
    "throws_only (make_server lib sconfig)" "throws_only (start_server_ports (ce_resolve (me_client env)) sv)"
proof -
  have resolve: "throws_only (ce_resolve (me_client env) host service)" for host service
    using assms by (simp add: env_throws_def)
  show "throws_only (make_client lib config counters draws)" "throws_only (make_server lib sconfig)"
    unfolding make_client_def make_server_def by (auto intro!: throws_only_then(2) crypt_throws setup_throws)
  have bind: "throws_only (make_tcp_bind_endpoint (ce_resolve (me_client env)) address)"
    "throws_only (make_udp_bind_endpoint (ce_resolve (me_client env)) address port)" for address port
    using resolve by (auto simp: make_tcp_bind_endpoint_def make_udp_bind_endpoint_def split: sum.split list.split) (metis throws_only_simps(2))+
  show "throws_only (start_listening (me_client env) c)"
    unfolding start_listening_def by (cases "cl_local c") (auto intro!: throws_only_then(2) bind)
  have "throws_only (start_listeners (ce_resolve (me_client env)) sv ports)" for ports
    by (induction ports) (auto simp: start_listener_def intro!: throws_only_then(2) bind)
  then show "throws_only (start_server_ports (ce_resolve (me_client env)) sv)" by (simp add: start_server_ports_def)
qed

lemma give_up_undefined: "give_up name usage e lg = Undefined \<longleftrightarrow> e = Undefined_behaviour"
  by (cases e) (simp_all add: give_up_def)

lemma main_undefined:
  assumes env: "env_throws env"
  shows "(client_main env counters program args lg :: 'k client outcome) = Undefined \<Longrightarrow> shards_overflow (client_settings env args)"
    and "server_main env program args lg = Undefined \<Longrightarrow> shards_overflow (server_settings env args)"
proof -
  note steps = setup_throws(1,2) objects_throw [OF env]
  have no: "r = Inl Undefined_behaviour \<Longrightarrow> throws_only r \<Longrightarrow> False" for r :: "'x result" by simp
  show "(client_main env counters program args lg :: 'k client outcome) = Undefined \<Longrightarrow> shards_overflow (client_settings env args)"
    by (rule parse_undefined(1) [OF env, where lg = lg])
      (auto simp: client_main_def give_up_undefined Let_def steps dest!: no split: sum.splits prod.splits)
  show "server_main env program args lg = Undefined \<Longrightarrow> shards_overflow (server_settings env args)"
    by (rule parse_undefined(2) [OF env, where lg = lg])
      (auto simp: server_main_def give_up_undefined Let_def steps dest!: no split: sum.splits prod.splits)
qed

text \<open>The ends of a program; \<open>overflow\<close> is whether it may run into undefined behaviour.\<close>

definition ends_cleanly :: "string \<Rightarrow> string \<Rightarrow> bool \<Rightarrow> 'p outcome \<Rightarrow> bool" where
  "ends_cleanly name usage overflow r \<longleftrightarrow>
     (case r of
        Exits code out err lines \<Rightarrow>
          (if code = 0 then out \<in> {usage, program_version @ newline} \<and> err = []
           else code = 1 \<and> out = [] \<and> (\<exists>message. err = name @ '': '' @ message @ newline @ usage))
      | Undefined \<Rightarrow> overflow
      | Runs p lg snmp_logger diagnostics \<Rightarrow> True)"

lemma give_up_clean:
  "(e = Undefined_behaviour \<Longrightarrow> overflow) \<Longrightarrow> ends_cleanly name usage overflow (give_up name usage e lg)"
  "give_up name usage e lg \<noteq> Runs p lg' sl d"
  by (auto simp: ends_cleanly_def give_up_def split: cpp_error.split)

lemma client_main_clean:
  fixes counters :: snmp
  assumes "env_throws env"
  shows "ends_cleanly ''client'' (client_usage program) (shards_overflow (client_settings env args))
    (client_main env counters program args lg :: 'k client outcome)"
proof (cases rule: client_main_cases [of env counters program args lg, where 'k = 'k])
  case (gave_up e lg')
  show ?thesis
    unfolding gave_up
    by (rule give_up_clean(1)) (use main_undefined(1) [OF assms] gave_up give_up_undefined in metis)
qed (simp add: ends_cleanly_def)

lemma server_main_clean:
  assumes "env_throws env"
  shows "ends_cleanly ''server'' (server_usage program) (shards_overflow (server_settings env args)) (server_main env program args lg)"
proof (cases rule: server_main_cases [of env program args lg])
  case (gave_up e lg')
  show ?thesis
    unfolding gave_up
    by (rule give_up_clean(1)) (use main_undefined(2) [OF assms] gave_up give_up_undefined in metis)
qed (simp add: ends_cleanly_def)

lemma client_runs_valid:
  fixes c :: "'k client"
  assumes runs: "client_main env counters program args lg = Runs c lg' snmp_logger diagnostics"
  shows "config_valid (cl_config c) \<and> make_packet_crypt (me_crypto env) (cl_config c) = Inr (cl_crypt c) \<and>
    parse_multiport (cfg_remoteaddr (cl_config c)) = Inr (cl_remote c) \<and> cl_connections c = [] \<and>
    cl_muxes c = replicate (nat (cfg_conn (cl_config c))) None \<and> 0 < cfg_conn (cl_config c)"
proof (cases rule: client_main_cases [of env counters program args lg, where 'k = 'k])
  case (gave_up e lg1)
  then show ?thesis using runs give_up_clean(2) by metis
next
  case (running config lg1 c0 c' lg2 sl d)
  have "c' = c" using runs running(4) by simp
  then have "\<exists>e e'. c = client_note e (client_note e' c0)"
    using running(3) by (auto simp: start_listening_def split: local_address.splits sum.splits)
  then show ?thesis
    using running(2) parse_client_valid [OF running(1)]
    by (auto simp: make_client_def client_note_def split: sum.splits)
qed

lemma server_runs_valid:
  assumes runs: "server_main env program args lg = Runs (sv, listeners) lg' snmp_logger diagnostics"
  shows "config_valid (sv_config sv) \<and> make_packet_crypt (me_crypto env) (sv_config sv) = Inr (sv_crypt sv) \<and>
    parse_multiport (cfg_listen (sv_config sv)) = Inr (sv_listen_address sv) \<and>
    choose_target (cfg_target (sv_config sv)) = Inr (sv_target sv) \<and>
    length listeners = length (listener_ports (mp_min_port (sv_listen_address sv)) (mp_max_port (sv_listen_address sv)))"
proof (cases rule: server_main_cases [of env program args lg])
  case (gave_up e lg1)
  then show ?thesis using runs give_up_clean(2) by metis
next
  case (running config lg1 sv' listeners' lg2 sl d)
  have same: "sv' = sv" "listeners' = listeners" using runs running(4) by simp_all
  then have "length listeners = length (listener_ports (mp_min_port (sv_listen_address sv)) (mp_max_port (sv_listen_address sv)))"
    using running(3) length_start_listeners by (simp add: start_server_ports_def)
  then show ?thesis
    using running(2) parse_server_valid [OF running(1)] same
    by (auto simp: make_server_def split: sum.splits)
qed

text \<open>C37: The programs start only from what is valid: either they end with code 0 and print
  the usage or the version, or with code 1 and an error and the usage on standard error, or they
  reach the event loop with a configuration inside its bounds, the crypt and the addresses that
  the configuration names, and (the client) one empty slot per connection. There is one way to
  undefined behaviour, when both shard counts are valid but their sum exceeds an \<open>int\<close>: the
  check adds them first (\<open>shard_sum_overflows\<close> has such a command line). The parser of JSON and
  the resolver, which are not part of the source, are assumed to fail by exceptions.\<close>

theorem programs_start_valid:
  fixes c :: "'k client"
  assumes "env_throws env"
  shows "ends_cleanly ''client'' (client_usage program) (shards_overflow (client_settings env args))
      (client_main env counters program args lg :: 'k client outcome) \<and>
    ends_cleanly ''server'' (server_usage program) (shards_overflow (server_settings env args)) (server_main env program args lg) \<and>
    (client_main env counters program args lg = Runs c lg' snmp_logger diagnostics \<longrightarrow>
       config_valid (cl_config c) \<and> make_packet_crypt (me_crypto env) (cl_config c) = Inr (cl_crypt c) \<and>
       parse_multiport (cfg_remoteaddr (cl_config c)) = Inr (cl_remote c) \<and> cl_connections c = [] \<and>
       cl_muxes c = replicate (nat (cfg_conn (cl_config c))) None \<and> 0 < cfg_conn (cl_config c)) \<and>
    (server_main env program args lg = Runs (sv, listeners) lg' snmp_logger diagnostics \<longrightarrow>
       config_valid (sv_config sv) \<and> make_packet_crypt (me_crypto env) (sv_config sv) = Inr (sv_crypt sv) \<and>
       parse_multiport (cfg_listen (sv_config sv)) = Inr (sv_listen_address sv) \<and>
       choose_target (cfg_target (sv_config sv)) = Inr (sv_target sv) \<and>
       length listeners = length (listener_ports (mp_min_port (sv_listen_address sv)) (mp_max_port (sv_listen_address sv))))"
  by (rule conjI [OF client_main_clean [OF assms]], rule conjI [OF server_main_clean [OF assms]], rule conjI)
    (rule impI, (erule client_runs_valid | erule server_runs_valid))+


definition demo_main :: main_env where
  "demo_main =
     \<lparr> me_parse_json = (\<lambda>_. Inl Library_exception), me_files = (\<lambda>_. None), me_key_variable = None, me_map_order = (\<lambda>xs. xs),
       me_writable = (\<lambda>_. True), me_acceptor = (None, None, None), me_timestamp = ''t'', me_crypto = toy_lib,
       me_client = demo_env \<rparr>"

abbreviation demo_arguments :: "string list" where
  "demo_arguments \<equiv> [''--crypt=null'', ''-l'', '':5'', ''-r'', ''10.0.0.1:4'']"

lemma demo_parsed:
  "\<exists>config. parse_client_config (\<lambda>_. Inl Library_exception) (\<lambda>_. None) None (\<lambda>xs. xs) demo_arguments initial_logger =
       Inr (config, initial_logger) \<and>
     cfg_crypt config = ''null'' \<and> cfg_localaddr config = '':5'' \<and> cfg_remoteaddr config = ''10.0.0.1:4'' \<and>
     cfg_qpp config = False \<and> cfg_loglevel config = ''info'' \<and> cfg_log config = [] \<and> cfg_conn config = 1 \<and> cfg_quiet config = False"
proof -
  have names: "normalize_key ''fast'' = ''fast''" "normalize_key ''info'' = ''info''" "normalize_key ''crypt'' = ''crypt''"
      "normalize_key ''localaddr'' = ''localaddr''" "normalize_key ''remoteaddr'' = ''remoteaddr''"
    by code_simp+
  have scan: "scan_args demo_arguments empty_scan =
      Inr \<lparr> cli_values = [(''crypt'', ''null''), (''l'', '':5''), (''r'', ''10.0.0.1:4'')], cli_config_path = [] \<rparr>"
    by code_simp
  have entries: "apply_client_cli [(''crypt'', ''null''), (''l'', '':5''), (''r'', ''10.0.0.1:4'')] default_client_config =
      Inr (default_client_config \<lparr> cfg_crypt := ''null'', cfg_localaddr := '':5'', cfg_remoteaddr := ''10.0.0.1:4'' \<rparr>)"
    by code_simp
  have steps: "parse_client_config (\<lambda>_. Inl Library_exception) (\<lambda>_. None) None (\<lambda>xs. xs) demo_arguments initial_logger =
    (let config = sanitize_common (apply_mode (default_client_config
           \<lparr> cfg_crypt := ''null'', cfg_localaddr := '':5'', cfg_remoteaddr := ''10.0.0.1:4'' \<rparr>))
     in then_do (validate_common_config config initial_logger) (\<lambda>lg.
          if cfg_conn config \<le> 0 then Inl (Runtime_error ''conn must be greater than 0'') else Inr (config, lg)))"
    by (simp add: parse_client_config_def scan entries apply_env_def Let_def del: scan_args.simps)
  show ?thesis
    by (simp add: names default_client_config_def base_defaults_def
        apply_mode_def sanitize_common_def validate_common_config_def int_add_def int_range_def set_level_def Let_def
        steps [unfolded initial_logger_def] initial_logger_def)
qed

lemma programs_start_valid_witness:
  "\<exists>c lg sl d. client_main demo_main empty_snmp ''c'' demo_arguments initial_logger = Runs (c :: queue_engine client) lg sl d \<and>
     cl_muxes c = [None] \<and> config_valid (cl_config c)"
proof -
  obtain config where parsed: "parse_client_config (\<lambda>_. Inl Library_exception) (\<lambda>_. None) None (\<lambda>xs. xs) demo_arguments initial_logger =
       Inr (config, initial_logger)"
    and fields: "cfg_crypt config = ''null''" "cfg_localaddr config = '':5''" "cfg_remoteaddr config = ''10.0.0.1:4''"
      "cfg_qpp config = False" "cfg_loglevel config = ''info''" "cfg_log config = []" "cfg_conn config = 1" "cfg_quiet config = False"
    using demo_parsed by blast
  have names: "normalize_method ''null'' = ''null''" "normalize_key ''info'' = ''info''" by code_simp+
  obtain crypt where crypt: "make_packet_crypt toy_lib config = Inr crypt"
    by (simp add: make_packet_crypt_def names select_method_def fields Let_def)
  obtain lg1 where prepared: "prepare_log demo_main config initial_logger = Inr lg1"
    by (simp add: prepare_log_def fields names set_level_def set_file_def)
  obtain lg2 where noted: "log_compatibility_notes ''t'' config (Some (cfg_autoexpire config, cfg_scavengettl config))
      (log_effective_client_config ''t'' config lg1) = Inr lg2"
    by (simp add: log_compatibility_notes_def fields Let_def)
  obtain d lg3 where diagnostics: "start_diagnostics_server (cfg_pprof config) ''t'' None None None lg2 = (d, lg3)" by fastforce
  obtain c0 where c0: "make_client toy_lib config empty_snmp 0 = Inr (c0 :: queue_engine client)"
    "cl_local c0 = Local_tcp \<lparr> mp_host = [], mp_min_port = 5, mp_max_port = 5 \<rparr>" "cl_config c0 = config"
    using crypt demo_addresses by (simp add: make_client_def fields)
  obtain c where c: "start_listening demo_env c0 = Inr c" "cl_config c = config"
    using c0 by (simp add: start_listening_def make_tcp_bind_endpoint_def client_note_def)
  have "client_main demo_main empty_snmp ''c'' demo_arguments initial_logger =
      Runs c lg3 (start_snmp_logger (cfg_snmplog config) (cfg_snmpperiod config)) d"
    using parsed prepared noted diagnostics c0(1) c(1) by (simp add: client_main_def demo_main_def Let_def)
  moreover have throws: "env_throws demo_main" by (simp add: env_throws_def demo_main_def demo_env_def)
  ultimately obtain c lg sl d where runs: "client_main demo_main empty_snmp ''c'' demo_arguments initial_logger =
      Runs (c :: queue_engine client) lg sl d" "cl_config c = config" using c(2) by blast
  then show ?thesis
    using programs_start_valid [OF throws, where 'k = queue_engine and program = "''c''" and counters = empty_snmp
        and args = demo_arguments and lg = initial_logger and c = c and lg' = lg and snmp_logger = sl and diagnostics = d]
      fields(7) by auto
qed

end
