(* ===== verification/Smux_Trace.thy ===== *)
theory Smux_Trace
  imports Smux_Safety "HOL-Library.Sublist"
begin

text \<open>
  The history of one session: which frames it has sent and handled, which bytes every
  stream has taken from its socket and which it has written to it. \<open>traced\<close> ties a history
  to the state of the session, and every operation of \<open>Smux\<close> and \<open>Smux_Session\<close> extends a
  history. \<open>Smux_End_To_End\<close> joins the histories of two sessions.
\<close>

section \<open>Frames of a history\<close>

text \<open>The data of one stream, its senders, and the streams a history opens.\<close>

definition psh_of :: "u32 \<Rightarrow> frame list \<Rightarrow> bytes list" where
  "psh_of sid fs = map (snd \<circ> snd) (filter (\<lambda>(c, i, p). c = Cmd_psh \<and> i = sid \<and> p \<noteq> []) fs)"

definition psh_ids :: "frame list \<Rightarrow> u32 set" where
  "psh_ids fs = {i. \<exists>p. (Cmd_psh, i, p) \<in> set fs}"

definition syn_ids :: "frame list \<Rightarrow> u32 list" where
  "syn_ids fs = map (fst \<circ> snd) (filter (\<lambda>f. fst f = Cmd_syn) fs)"

lemma psh_of_simps [simp]:
  "psh_of sid [] = []"
  "psh_of sid ((c, i, p) # fs) = (if c = Cmd_psh \<and> i = sid \<and> p \<noteq> [] then [p] else []) @ psh_of sid fs"
  "psh_of sid (fs @ gs) = psh_of sid fs @ psh_of sid gs"
  by (auto simp: psh_of_def)

lemma psh_ids_simps [simp]:
  "psh_ids [] = {}" "psh_ids ((c, i, p) # fs) = (if c = Cmd_psh then {i} else {}) \<union> psh_ids fs"
  "psh_ids (fs @ gs) = psh_ids fs \<union> psh_ids gs"
  by (auto simp: psh_ids_def)

lemma syn_ids_simps [simp]:
  "syn_ids [] = []" "syn_ids ((c, i, p) # fs) = (if c = Cmd_syn then [i] else []) @ syn_ids fs"
  "syn_ids (fs @ gs) = syn_ids fs @ syn_ids gs"
  by (auto simp: syn_ids_def)

lemma psh_of_unknown: "sid \<notin> psh_ids fs \<Longrightarrow> psh_of sid fs = []"
  by (auto simp: psh_of_def psh_ids_def filter_empty_conv)

lemma psh_frames_ids:
  "syn_ids (psh_frames sid ys) = []" "psh_ids (psh_frames sid ys) \<subseteq> {sid}"
  "[] \<notin> set ys \<Longrightarrow> psh_of i (psh_frames sid ys) = (if i = sid then ys else [])"
  by (induction ys) (auto simp: psh_frames_def)

section \<open>Bytes of a history\<close>

definition wire_bytes :: "smux_lib \<Rightarrow> base_config \<Rightarrow> frame list \<Rightarrow> bytes" where
  "wire_bytes lib config fs =
     (let frames = map (frame_bytes (cfg_smuxver config)) fs
      in concat (if cfg_nocomp config then frames else fst (snappy_encode_list (sl_compress lib) frames False)))"

definition sent_bytes :: "smux_session \<Rightarrow> bytes" where
  "sent_bytes s = concat (sent_frames s)"

lemma snappy_encode_list_append:
  "fst (snappy_encode_list c (xs @ ys) w) =
     fst (snappy_encode_list c xs w) @ fst (snappy_encode_list c ys (w \<or> xs \<noteq> []))"
proof (induction xs arbitrary: w)
  case (Cons x xs)
  have "snd (snappy_encode c x w) = True" by (simp add: snappy_encode_def)
  then show ?case using Cons [of True] by (simp add: split_def Let_def)
qed simp

lemma wire_bytes_append:
  assumes "ss_wrote_identifier s = (fs \<noteq> [] \<and> \<not> cfg_nocomp (ss_config s))"
  shows "wire_bytes lib (ss_config s) (fs @ gs) = wire_bytes lib (ss_config s) fs @ concat (wire lib gs s)"
  using assms by (simp add: wire_bytes_def wire_def Let_def snappy_encode_list_append)

lemma sent_frames_append:
  "sent_frames (s \<lparr> ss_wrote_identifier := w, ss_effects := ss_effects s @ map Transport_send ms \<rparr>) = sent_frames s @ ms"
proof -
  have "concat (map (\<lambda>e. case e of Transport_send m \<Rightarrow> [m] | _ \<Rightarrow> []) (map Transport_send ms)) = ms"
    by (induction ms) auto
  then show ?thesis by (simp add: sent_frames_def)
qed

text \<open>What has been sent, as frames.\<close>

definition frames_sent :: "smux_lib \<Rightarrow> frame list \<Rightarrow> smux_session \<Rightarrow> bool" where
  "frames_sent lib fs s \<longleftrightarrow> sent_bytes s = wire_bytes lib (ss_config s) fs \<and>
     ss_wrote_identifier s = (fs \<noteq> [] \<and> \<not> cfg_nocomp (ss_config s)) \<and>
     (\<forall>f \<in> set fs. frame_allowed (cfg_smuxver (ss_config s)) f)"

lemma frames_sent_more:
  assumes "frames_sent lib fs s" "\<not> ss_closed s" "\<forall>f \<in> set gs. frame_allowed (cfg_smuxver (ss_config s)) f"
  shows "frames_sent lib (fs @ gs) (send_frames lib gs s)"
proof -
  have "\<forall>(c, sid, p) \<in> set gs. length p \<le> 65535" using assms(3) by (auto simp: frame_allowed_def)
  note sent = send_frames_eq [OF assms(2) this, of lib]
  have "sent_bytes (send_frames lib gs s) = sent_bytes s @ concat (wire lib gs s)"
    unfolding sent sent_bytes_def sent_frames_append by simp
  then show ?thesis
    using assms wire_bytes_append [of s fs lib gs] by (auto simp: frames_sent_def sent)
qed

lemma send_frame_closed: "ss_closed s \<Longrightarrow> send_frame lib c sid p s = s"
  by (simp add: send_frame_eq)

lemma send_frames_closed: "ss_closed s \<Longrightarrow> send_frames lib fs s = s"
  by (induction fs) (auto simp: send_frames_def send_frame_closed)

text \<open>The emitted effect is no frame.\<close>

definition no_send :: "smux_effect \<Rightarrow> bool" where
  "no_send e \<longleftrightarrow> (case e of Transport_send _ \<Rightarrow> False | _ \<Rightarrow> True)"

lemma sent_bytes_emit [simp]: "no_send e \<Longrightarrow> sent_bytes (emit e s) = sent_bytes s"
  by (cases e) (simp_all add: sent_bytes_def sent_frames_def emit_def no_send_def)

lemma sent_bytes_effects: "ss_effects s' = ss_effects s \<Longrightarrow> sent_bytes s' = sent_bytes s"
  by (simp add: sent_bytes_def sent_frames_def)

section \<open>The history of one stream\<close>

text \<open>
  \<open>W\<close> and \<open>R\<close> are the data frames sent and handled under the id of the stream, \<open>taken\<close> the
  bytes its read handlers have queued, \<open>written\<close> those whose socket writes have succeeded. The
  cipher began as \<open>q0\<close>. A closed session sends no more and a closed stream handles no more,
  hence the prefixes.
\<close>

definition sender_trace :: "qpp_stream \<Rightarrow> bool \<Rightarrow> smux_stream \<Rightarrow> bytes list \<Rightarrow> bytes \<Rightarrow> bool" where
  "sender_trace q0 closed st W taken \<longleftrightarrow>
     (\<exists>pieces. prefix W (fst (through qs_encrypt pieces q0)) \<and>
        (\<not> closed \<longrightarrow> W = fst (through qs_encrypt pieces q0)) \<and>
        taken = concat pieces @ outbound st \<and>
        qs_write_rand (sm_qpp st) = qs_write_rand (snd (through qs_encrypt pieces q0)))"

definition receiver_trace :: "qpp_stream \<Rightarrow> smux_stream \<Rightarrow> bytes list \<Rightarrow> bytes \<Rightarrow> bool" where
  "receiver_trace q0 st R written \<longleftrightarrow>
     (\<exists>R'. prefix R' R \<and> (\<not> sm_closed st \<longrightarrow> R' = R) \<and>
        written @ concat (sm_pending_tcp_writes st) = concat (fst (through qs_decrypt R' q0)) \<and>
        qs_read_rand (sm_qpp st) = qs_read_rand (snd (through qs_decrypt R' q0)))"

definition stream_fits :: "qpp_stream \<Rightarrow> smux_stream \<Rightarrow> bool" where
  "stream_fits q0 st \<longleftrightarrow> qs_pad (sm_qpp st) = qs_pad q0 \<and> length (sm_read_buffer st) = 32 * 1024 \<and>
     (\<forall>(data, off) \<in> set (sm_pending_outbound st). length data \<le> 32 * 1024)"

definition stream_trace :: "qpp_stream \<Rightarrow> bool \<Rightarrow> smux_stream \<Rightarrow> bytes list \<Rightarrow> bytes list \<Rightarrow> bytes \<Rightarrow> bytes \<Rightarrow> bool" where
  "stream_trace q0 closed st W R taken written \<longleftrightarrow>
     stream_fits q0 st \<and> sender_trace q0 closed st W taken \<and> receiver_trace q0 st R written"

text \<open>The part of a stream its history speaks of.\<close>

definition stream_core :: "smux_stream \<Rightarrow> u32 \<times> qpp_stream \<times> (bytes \<times> nat) list \<times> nat \<times> bytes list \<times> bool" where
  "stream_core st = (sm_id st, sm_qpp st, sm_pending_outbound st, length (sm_read_buffer st),
     sm_pending_tcp_writes st, sm_closed st)"

lemma stream_trace_core:
  "stream_core st' = stream_core st \<Longrightarrow> stream_trace q0 cl st' W R tk wr = stream_trace q0 cl st W R tk wr"
  by (simp add: stream_core_def stream_trace_def sender_trace_def receiver_trace_def stream_fits_def outbound_def)

lemma through_append:
  "fst (through f (xs @ ys) s) = fst (through f xs s) @ fst (through f ys (snd (through f xs s)))"
  "snd (through f (xs @ ys) s) = snd (through f ys (snd (through f xs s)))"
  by (induction xs arbitrary: s) (simp_all add: Let_def split_def)

lemma through_encrypt_same:
  "qs_pad q = qs_pad q' \<Longrightarrow> qs_write_rand q = qs_write_rand q' \<Longrightarrow>
     fst (through qs_encrypt xs q) = fst (through qs_encrypt xs q') \<and>
     qs_write_rand (snd (through qs_encrypt xs q)) = qs_write_rand (snd (through qs_encrypt xs q'))"
  by (simp add: through_qs_encrypt [of xs q] through_qs_encrypt [of xs q'])

lemma through_decrypt_same:
  "qs_pad q = qs_pad q' \<Longrightarrow> qs_read_rand q = qs_read_rand q' \<Longrightarrow>
     fst (through qs_decrypt xs q) = fst (through qs_decrypt xs q') \<and>
     qs_read_rand (snd (through qs_decrypt xs q)) = qs_read_rand (snd (through qs_decrypt xs q'))"
  by (simp add: through_qs_decrypt [of xs q] through_qs_decrypt [of xs q'])

lemma through_pads [simp]:
  "qs_pad (snd (through qs_encrypt xs q)) = qs_pad q" "qs_pad (snd (through qs_decrypt xs q)) = qs_pad q"
  "qs_read_rand (snd (through qs_encrypt xs q)) = qs_read_rand q"
  "qs_write_rand (snd (through qs_decrypt xs q)) = qs_write_rand q"
  by (simp_all add: through_qs_encrypt through_qs_decrypt)

text \<open>A new stream, a flush, a data frame, a read and a finished write.\<close>

lemma stream_trace_new:
  "stream_trace (make_qpp_stream (sl_qpp lib) (ss_qpp_pad s) (string_bytes (cfg_key (ss_config s)))) cl
     (make_stream lib sid s) [] [] [] []"
  by (auto simp: stream_trace_def sender_trace_def receiver_trace_def stream_fits_def make_stream_def outbound_def
      intro: exI [of _ "[]"])

lemma stream_trace_flushed:
  assumes t: "stream_trace q0 cl st W R tk wr" and p: "flushed lib st s pieces st' s'"
  shows "stream_trace q0 cl st' (if cl then W else W @ fst (through qs_encrypt pieces (sm_qpp st))) R tk wr"
proof -
  obtain ps where ps: "prefix W (fst (through qs_encrypt ps q0))" "\<not> cl \<longrightarrow> W = fst (through qs_encrypt ps q0)"
    "tk = concat ps @ outbound st" "qs_write_rand (sm_qpp st) = qs_write_rand (snd (through qs_encrypt ps q0))"
    using t unfolding stream_trace_def sender_trace_def by blast
  have pad: "qs_pad (sm_qpp st) = qs_pad q0" using t by (simp add: stream_trace_def stream_fits_def)
  note same = through_encrypt_same [of "sm_qpp st" "snd (through qs_encrypt ps q0)" pieces, simplified, OF pad ps(4)]
  define q' where "q' = snd (through qs_encrypt pieces (sm_qpp st))"
  define pend where "pend = sm_pending_outbound st'"
  define m where "m = sm_num_written st + of_nat (length (concat pieces))"
  have st': "st' = st \<lparr> sm_qpp := q', sm_pending_outbound := pend, sm_num_written := m \<rparr>"
    and out: "outbound st = concat pieces @ outbound st'"
    and pend_le: "\<forall>(data, off) \<in> set pend. \<exists>off'. (data, off') \<in> set (sm_pending_outbound st)"
    using p by (simp_all add: flushed_def q'_def pend_def m_def)
  have fields: "sm_qpp st' = q'" "sm_pending_outbound st' = pend" "length (sm_read_buffer st') = length (sm_read_buffer st)"
    "sm_pending_tcp_writes st' = sm_pending_tcp_writes st" "sm_closed st' = sm_closed st"
    by (simp_all add: st')
  have "stream_fits q0 st'"
    using t pend_le by (fastforce simp: stream_trace_def stream_fits_def fields q'_def)
  moreover have "sender_trace q0 cl st' (if cl then W else W @ fst (through qs_encrypt pieces (sm_qpp st))) tk"
    unfolding sender_trace_def
    using ps out same by (intro exI [of _ "ps @ pieces"]) (auto simp: through_append fields q'_def intro: prefix_prefix)
  moreover have "receiver_trace q0 st' R wr"
    using t by (simp add: stream_trace_def receiver_trace_def fields q'_def)
  ultimately show ?thesis by (simp add: stream_trace_def)
qed

text \<open>What the stream does with a data frame, with the bytes of a read, and after a write.\<close>

lemma stream_trace_data:
  assumes "stream_trace q0 cl st W R tk wr" "\<not> sm_closed st"
  shows "stream_trace q0 cl
      (st \<lparr> sm_qpp := snd (qs_decrypt p (sm_qpp st)),
            sm_pending_tcp_writes := sm_pending_tcp_writes st @ [fst (qs_decrypt p (sm_qpp st))],
            sm_tcp_write_active := active \<rparr>) W (R @ [p]) tk wr"
proof -
  have r: "wr @ concat (sm_pending_tcp_writes st) = concat (fst (through qs_decrypt R q0))"
    "qs_read_rand (sm_qpp st) = qs_read_rand (snd (through qs_decrypt R q0))"
    "qs_pad (sm_qpp st) = qs_pad q0"
    using assms by (auto simp: stream_trace_def receiver_trace_def stream_fits_def)
  have one: "qs_decrypt p q = (fst (through qs_decrypt [p] q) ! 0, snd (through qs_decrypt [p] q))" for q
    by (simp add: split_def Let_def)
  have same: "fst (through qs_decrypt [p] (sm_qpp st)) = fst (through qs_decrypt [p] (snd (through qs_decrypt R q0)))"
    "qs_read_rand (snd (through qs_decrypt [p] (sm_qpp st))) = qs_read_rand (snd (through qs_decrypt [p] (snd (through qs_decrypt R q0))))"
    using through_decrypt_same [of "sm_qpp st" "snd (through qs_decrypt R q0)" "[p]"] r by simp_all
  have keep: "qs_pad (snd (through qs_decrypt [p] q)) = qs_pad q" "qs_write_rand (snd (through qs_decrypt [p] q)) = qs_write_rand q" for q
    by (rule through_pads)+
  have len: "concat (fst (through qs_decrypt [p] q)) = fst (through qs_decrypt [p] q) ! 0" for q
    by (simp add: split_def Let_def)
  have "receiver_trace q0 (st \<lparr> sm_qpp := snd (qs_decrypt p (sm_qpp st)),
            sm_pending_tcp_writes := sm_pending_tcp_writes st @ [fst (qs_decrypt p (sm_qpp st))],
            sm_tcp_write_active := active \<rparr>) (R @ [p]) wr"
    using r same unfolding receiver_trace_def one
    by (intro exI [of _ "R @ [p]"])
      (simp add: through_append(1) [of _ R "[p]"] through_append(2) [of _ R "[p]"] len del: through.simps)
  then show ?thesis
    using assms unfolding stream_trace_def one
    by (simp add: sender_trace_def stream_fits_def outbound_def keep del: through.simps)
qed

lemma stream_trace_ignored:
  "stream_trace q0 cl st W R tk wr \<Longrightarrow> sm_closed st \<Longrightarrow> stream_trace q0 cl st W (R @ ps) tk wr"
  by (auto simp: stream_trace_def receiver_trace_def intro: prefix_prefix)

lemma stream_trace_read:
  assumes "stream_trace q0 cl st W R tk wr"
  shows "stream_trace q0 cl (queue_outbound (take n (sm_read_buffer st)) st) W R (tk @ take n (sm_read_buffer st)) wr"
proof (cases "take n (sm_read_buffer st) = []")
  case False
  then have "queue_outbound (take n (sm_read_buffer st)) st =
      st \<lparr> sm_pending_outbound := sm_pending_outbound st @ [(take n (sm_read_buffer st), 0)] \<rparr>"
    by (simp add: queue_outbound_def)
  then show ?thesis
    using assms by (fastforce simp: stream_trace_def sender_trace_def receiver_trace_def stream_fits_def outbound_def)
next
  case True
  then show ?thesis using assms unfolding True by (simp add: queue_outbound_def)
qed

lemma stream_trace_written:
  "stream_trace q0 cl st W R tk wr \<Longrightarrow>
     stream_trace q0 cl (st \<lparr> sm_pending_tcp_writes := tl (sm_pending_tcp_writes st) \<rparr>) W R tk
       (wr @ concat (take 1 (sm_pending_tcp_writes st)))"
  by (cases "sm_pending_tcp_writes st")
    (auto simp: stream_trace_def sender_trace_def receiver_trace_def stream_fits_def outbound_def)

lemma stream_trace_closed:
  "stream_trace q0 cl st W R tk wr \<Longrightarrow> stream_trace q0 cl (st \<lparr> sm_closed := True, sm_socket_open := b \<rparr>) W R tk wr"
  "stream_trace q0 cl st W R tk wr \<Longrightarrow> stream_trace q0 True st W R tk wr"
  by (auto simp: stream_trace_def sender_trace_def receiver_trace_def stream_fits_def outbound_def)

section \<open>The history of a session\<close>

definition fresh_cipher :: "smux_lib \<Rightarrow> smux_session \<Rightarrow> qpp_stream" where
  "fresh_cipher lib s = make_qpp_stream (sl_qpp lib) (ss_qpp_pad s) (string_bytes (cfg_key (ss_config s)))"

definition stream_ids :: "smux_session \<Rightarrow> u32 list" where
  "stream_ids s = map sm_id (ss_objects s)"

text \<open>
  Every stream object but the closed ones is in the table under its id; no two objects
  share an id.
\<close>

definition table_agrees :: "smux_session \<Rightarrow> bool" where
  "table_agrees s \<longleftrightarrow> distinct (stream_ids s) \<and>
     (\<forall>(sid, h) \<in> set (ss_streams s). h < length (ss_objects s) \<and> sm_id (stream_at s h) = sid) \<and>
     (\<forall>h < length (ss_objects s). \<not> ss_closed s \<longrightarrow> \<not> sm_closed (stream_at s h) \<longrightarrow>
        map_of (ss_streams s) (sm_id (stream_at s h)) = Some h)"

text \<open>
  \<open>ids\<close> are the ids of the stream objects, \<open>inp\<close> and \<open>out\<close> the frames handled and sent,
  \<open>tk h\<close> and \<open>wr h\<close> the bytes stream object \<open>h\<close> has taken from and written to its socket.
\<close>

definition traced ::
  "smux_lib \<Rightarrow> u32 list \<Rightarrow> frame list \<Rightarrow> frame list \<Rightarrow> (nat \<Rightarrow> bytes) \<Rightarrow> (nat \<Rightarrow> bytes) \<Rightarrow> smux_session \<Rightarrow> bool" where
  "traced lib ids inp out tk wr s \<longleftrightarrow>
     ids = stream_ids s \<and> table_agrees s \<and> frames_sent lib out s \<and> psh_ids out \<subseteq> set ids \<and>
     (\<forall>h < length (ss_objects s). stream_trace (fresh_cipher lib s) (ss_closed s) (stream_at s h)
        (psh_of (sm_id (stream_at s h)) out) (psh_of (sm_id (stream_at s h)) inp) (tk h) (wr h)) \<and>
     (\<forall>h \<ge> length (ss_objects s). tk h = [] \<and> wr h = [])"

lemma traced_stream:
  "traced lib ids inp out tk wr s \<Longrightarrow> h < length (ss_objects s) \<Longrightarrow>
     stream_trace (fresh_cipher lib s) (ss_closed s) (stream_at s h)
       (psh_of (sm_id (stream_at s h)) out) (psh_of (sm_id (stream_at s h)) inp) (tk h) (wr h)"
  by (simp add: traced_def)

lemma traced_psh_ids: "traced lib ids inp out tk wr s \<Longrightarrow> psh_ids out \<subseteq> set ids"
  unfolding traced_def by blast

text \<open>The session has sent further frames, none of which opens a stream.\<close>

definition evolved ::
  "smux_lib \<Rightarrow> u32 list \<Rightarrow> frame list \<Rightarrow> frame list \<Rightarrow> (nat \<Rightarrow> bytes) \<Rightarrow> (nat \<Rightarrow> bytes) \<Rightarrow> smux_session \<Rightarrow> bool" where
  "evolved lib ids inp out tk wr s \<longleftrightarrow> (\<exists>fs. syn_ids fs = [] \<and> traced lib ids inp (out @ fs) tk wr s)"

lemma traced_evolved: "traced lib ids inp out tk wr s \<Longrightarrow> evolved lib ids inp out tk wr s"
  unfolding evolved_def by (intro exI [of _ "[]"]) simp

text \<open>An operation that keeps every history keeps every evolution, so operations compose.\<close>

lemma evolved_step:
  assumes "evolved lib ids inp out tk wr s"
    and "\<And>out. traced lib ids inp out tk wr s \<Longrightarrow> evolved lib ids' inp' out tk' wr' s'"
  shows "evolved lib ids' inp' out tk' wr' s'"
proof -
  obtain fs where fs: "syn_ids fs = []" "traced lib ids inp (out @ fs) tk wr s"
    using assms(1) unfolding evolved_def by blast
  obtain gs where "syn_ids gs = []" "traced lib ids' inp' ((out @ fs) @ gs) tk' wr' s'"
    using assms(2) [OF fs(2)] unfolding evolved_def by blast
  then show ?thesis unfolding evolved_def using fs(1) by (intro exI [of _ "fs @ gs"]) simp
qed

text \<open>The session has sent further data frames only.\<close>

definition flushes ::
  "smux_lib \<Rightarrow> u32 list \<Rightarrow> frame list \<Rightarrow> frame list \<Rightarrow> (nat \<Rightarrow> bytes) \<Rightarrow> (nat \<Rightarrow> bytes) \<Rightarrow> smux_session \<Rightarrow> bool" where
  "flushes lib ids inp out tk wr s \<longleftrightarrow> (\<exists>fs. fst ` set fs \<subseteq> {Cmd_psh} \<and> traced lib ids inp (out @ fs) tk wr s)"

lemma traced_flushes: "traced lib ids inp out tk wr s \<Longrightarrow> flushes lib ids inp out tk wr s"
  unfolding flushes_def by (intro exI [of _ "[]"]) simp

lemma flushes_evolved: "flushes lib ids inp out tk wr s \<Longrightarrow> evolved lib ids inp out tk wr s"
  unfolding flushes_def evolved_def by (force simp: syn_ids_def filter_empty_conv)

lemma flushes_step:
  assumes "flushes lib ids inp out tk wr s"
    and "\<And>out. traced lib ids inp out tk wr s \<Longrightarrow> flushes lib ids' inp' out tk' wr' s'"
  shows "flushes lib ids' inp' out tk' wr' s'"
proof -
  obtain fs where fs: "fst ` set fs \<subseteq> {Cmd_psh}" "traced lib ids inp (out @ fs) tk wr s"
    using assms(1) unfolding flushes_def by blast
  obtain gs where "fst ` set gs \<subseteq> {Cmd_psh}" "traced lib ids' inp' ((out @ fs) @ gs) tk' wr' s'"
    using assms(2) [OF fs(2)] unfolding flushes_def by blast
  then show ?thesis unfolding flushes_def using fs(1) by (intro exI [of _ "fs @ gs"]) auto
qed

text \<open>Changes outside the history.\<close>

lemma traced_cong:
  assumes "ss_config s' = ss_config s" "ss_wrote_identifier s' = ss_wrote_identifier s" "ss_closed s' = ss_closed s"
    "ss_qpp_pad s' = ss_qpp_pad s" "ss_objects s' = ss_objects s" "ss_streams s' = ss_streams s"
    "sent_bytes s' = sent_bytes s"
  shows "traced lib ids inp out tk wr s' = traced lib ids inp out tk wr s"
proof -
  have at: "stream_at s' h = stream_at s h" for h by (simp add: stream_at_def assms)
  show ?thesis
    unfolding traced_def table_agrees_def frames_sent_def stream_ids_def fresh_cipher_def assms at ..
qed

lemma traced_same:
  assumes "traced lib ids inp out tk wr s" "ss_effects s' = ss_effects s"
    and "ss_config s' = ss_config s" "ss_wrote_identifier s' = ss_wrote_identifier s" "ss_closed s' = ss_closed s"
    "ss_qpp_pad s' = ss_qpp_pad s" "ss_objects s' = ss_objects s" "ss_streams s' = ss_streams s"
  shows "traced lib ids inp out tk wr s'"
  using traced_cong [OF assms(3-8) sent_bytes_effects [OF assms(2)]] assms(1) by simp

lemma traced_emit:
  assumes "no_send e" "traced lib ids inp out tk wr s"
  shows "traced lib ids inp out tk wr (emit e s)"
  by (rule traced_cong [THEN iffD2, OF _ _ _ _ _ _ _ assms(2)]) (simp_all add: assms(1), simp_all add: emit_def)

lemma stream_ids_put: "sm_id st = sm_id (stream_at s h) \<Longrightarrow> stream_ids (put_stream h st s) = stream_ids s"
  unfolding stream_ids_def put_stream_def stream_at_def
  by (cases "h < length (ss_objects s)")
    (simp_all add: map_update list_update_beyond, metis length_map list_update_id nth_map)

lemma put_fields:
  "ss_config (put_stream h st s) = ss_config s" "ss_wrote_identifier (put_stream h st s) = ss_wrote_identifier s"
  "ss_closed (put_stream h st s) = ss_closed s" "ss_qpp_pad (put_stream h st s) = ss_qpp_pad s"
  "ss_alive (put_stream h st s) = ss_alive s"
  by (simp_all add: put_stream_def)

lemma stream_id_unique:
  assumes "traced lib ids inp out tk wr s" "h < length (ss_objects s)" "k < length (ss_objects s)"
    "sm_id (stream_at s h) = sm_id (stream_at s k)"
  shows "h = k"
proof -
  have "distinct (stream_ids s)" using assms(1) by (simp add: traced_def table_agrees_def)
  then show ?thesis using assms(2-4) by (simp add: stream_ids_def stream_at_def distinct_conv_nth) metis
qed

lemma stream_id_known: "traced lib ids inp out tk wr s \<Longrightarrow> h < length (ss_objects s) \<Longrightarrow> sm_id (stream_at s h) \<in> set ids"
  by (auto simp: traced_def stream_ids_def stream_at_def)

text \<open>A changed stream object, with its new part of the history.\<close>

lemma traced_replace:
  assumes t: "traced lib ids inp out tk wr s" and id: "sm_id st = sm_id (stream_at s h)"
    and cl: "sm_closed st = sm_closed (stream_at s h)"
    and other: "\<And>k. k < length (ss_objects s) \<Longrightarrow> k \<noteq> h \<Longrightarrow>
      psh_of (sm_id (stream_at s k)) inp' = psh_of (sm_id (stream_at s k)) inp"
    and st: "h < length (ss_objects s) \<Longrightarrow>
      stream_trace (fresh_cipher lib s) (ss_closed s) (stream_at s h)
        (psh_of (sm_id st) out) (psh_of (sm_id st) inp) (tk h) (wr h) \<Longrightarrow>
      stream_trace (fresh_cipher lib s) (ss_closed s) st
        (psh_of (sm_id st) out) (psh_of (sm_id st) inp') (tk' h) (wr' h)"
    and tk': "\<And>k. k \<noteq> h \<or> length (ss_objects s) \<le> h \<Longrightarrow> tk' k = tk k \<and> wr' k = wr k"
  shows "traced lib ids inp' out tk' wr' (put_stream h st s)"
proof -
  have "sent_bytes (put_stream h st s) = sent_bytes s" by (rule sent_bytes_effects) simp
  then have sent: "frames_sent lib out (put_stream h st s) = frames_sent lib out s"
    by (simp add: frames_sent_def put_fields)
  have table: "table_agrees (put_stream h st s)"
    using t id cl by (auto simp: traced_def table_agrees_def stream_ids_put put_fields stream_at_put_any)
  show ?thesis
    using t table id st tk' other
    unfolding traced_def sent stream_ids_put [OF id]
    by (auto simp: stream_at_put_any fresh_cipher_def put_fields not_less)
qed

lemmas traced_put = traced_replace [where inp' = inp and inp = inp for inp, OF _ _ _ refl]

lemma traced_put_same:
  assumes "traced lib ids inp out tk wr s" "stream_core st = stream_core (stream_at s h)"
  shows "traced lib ids inp out tk wr (put_stream h st s)"
proof (rule traced_put [OF assms(1)])
  show "sm_id st = sm_id (stream_at s h)" "sm_closed st = sm_closed (stream_at s h)"
    using assms(2) by (simp_all add: stream_core_def)
qed (simp_all add: stream_trace_core [OF assms(2)])

section \<open>Operations that send\<close>

lemma traced_send_put:
  assumes t: "traced lib ids inp out tk wr s" and op: "\<not> ss_closed s" and h: "h < length (ss_objects s)"
    and gs: "\<forall>f \<in> set gs. frame_allowed (cfg_smuxver (ss_config s)) f" "psh_ids gs \<subseteq> {sm_id st}"
    and id: "sm_id st = sm_id (stream_at s h)" and cl: "sm_closed st = sm_closed (stream_at s h)"
    and st: "stream_trace (fresh_cipher lib s) False st
        (psh_of (sm_id st) out @ psh_of (sm_id st) gs) (psh_of (sm_id st) inp) (tk h) (wr h)"
  shows "traced lib ids inp (out @ gs) tk wr (put_stream h st (send_frames lib gs s))"
proof -
  let ?s = "put_stream h st (send_frames lib gs s)"
  have "sent_bytes ?s = sent_bytes (send_frames lib gs s)" by (rule sent_bytes_effects) simp
  moreover have "frames_sent lib out s" using t by (simp add: traced_def)
  ultimately have sent: "frames_sent lib (out @ gs) ?s"
    using frames_sent_more [OF _ op gs(1), of lib out] by (simp add: frames_sent_def put_fields del: send_frames_static)
  have ids: "stream_ids ?s = stream_ids s"
    using id stream_ids_put [of st "send_frames lib gs s" h] by (simp add: stream_ids_def)
  have at: "stream_at ?s k = (if k = h then st else stream_at s k)" for k
    using h by (simp add: stream_at_put_any)
  have other: "psh_of (sm_id (stream_at s k)) gs = []" if "k < length (ss_objects s)" "k \<noteq> h" for k
  proof (rule psh_of_unknown)
    show "sm_id (stream_at s k) \<notin> psh_ids gs"
      using gs(2) that h id stream_id_unique [OF t, of k h] by auto
  qed
  have "table_agrees ?s"
    using t id cl by (auto simp: traced_def table_agrees_def ids put_fields at)
  moreover have "sm_id st \<in> set ids" using stream_id_known [OF t h] id by simp
  ultimately show ?thesis
    using t gs(2) st other sent op
    by (auto simp: traced_def ids at fresh_cipher_def put_fields)
qed

text \<open>A frame that carries no data.\<close>

lemma traced_send_frame:
  assumes t: "traced lib ids inp out tk wr s" and c: "c \<noteq> Cmd_psh" and op: "\<not> ss_closed s"
    and ok: "frame_allowed (cfg_smuxver (ss_config s)) (c, sid, p)"
  shows "traced lib ids inp (out @ [(c, sid, p)]) tk wr (send_frame lib c sid p s)"
proof -
  let ?s = "send_frame lib c sid p s"
  have s: "?s = send_frames lib [(c, sid, p)] s" by (simp add: send_frames_def)
  have "frames_sent lib (out @ [(c, sid, p)]) ?s"
    unfolding s by (rule frames_sent_more) (use t ok op in \<open>simp_all add: traced_def\<close>)
  then show ?thesis
    using t c by (auto simp: traced_def table_agrees_def stream_ids_def stream_at_def fresh_cipher_def)
qed

lemma evolved_send_frame:
  assumes t: "traced lib ids inp out tk wr s" and c: "c \<noteq> Cmd_psh" "c \<noteq> Cmd_syn"
    and ok: "frame_allowed (cfg_smuxver (ss_config s)) (c, sid, p)"
  shows "evolved lib ids inp out tk wr (send_frame lib c sid p s)"
proof (cases "ss_closed s")
  case True
  then show ?thesis using traced_evolved [OF t] by (simp add: send_frame_closed)
next
  case False
  then show ?thesis
    using traced_send_frame [OF t c(1) _ ok] c(2) unfolding evolved_def by (intro exI [of _ "[(c, sid, p)]"]) simp
qed

lemma evolved_update:
  assumes "traced lib ids inp out tk wr s" "version s = 2"
  shows "evolved lib ids inp out tk wr (send_update lib sid c w s)"
  unfolding send_update_def
  by (rule evolved_send_frame [OF assms(1)])
    (use assms(2) in \<open>simp_all add: frame_allowed_def smux_update_size_def version_def write_le32_def memcpy_def le32_bytes_def\<close>)

text \<open>A flush sends the encrypted pieces it takes off the queue.\<close>

lemma flushes_try_flush:
  assumes t: "traced lib ids inp out tk wr s" and h: "h < length (ss_objects s)"
  shows "flushes lib ids inp out tk wr (try_flush_outbound lib h s)"
proof (cases "\<not> ss_alive s \<or> sm_closed (stream_at s h)")
  case True
  then show ?thesis using traced_flushes [OF t] by (simp add: try_flush_outbound_def)
next
  case False
  let ?st = "stream_at s h"
  obtain st1 s1 where loop: "flush_loop lib ?st s = (st1, s1)" by fastforce
  then obtain pieces where p: "flushed lib ?st s pieces st1 s1" using flush_loop_flushed by blast
  define ys where "ys = fst (through qs_encrypt pieces (sm_qpp ?st))"
  define fs where "fs = psh_frames (sm_id ?st) ys"
  have s': "try_flush_outbound lib h s = put_stream h st1 s1" using loop False by (simp add: try_flush_outbound_def)
  have s1: "s1 = send_frames lib fs s" using p by (simp add: flushed_def fs_def ys_def)
  have id: "sm_id st1 = sm_id ?st" "sm_closed st1 = sm_closed ?st" using flushed_identity [OF p] by simp_all
  have tr: "stream_trace (fresh_cipher lib s) (ss_closed s) ?st
      (psh_of (sm_id ?st) out) (psh_of (sm_id ?st) inp) (tk h) (wr h)"
    using t h by (simp add: traced_def)
  then have small: "\<forall>(data, off) \<in> set (sm_pending_outbound ?st). length data \<le> 32 * 1024"
    by (simp add: stream_trace_def stream_fits_def)
  have sizes: "length y \<le> 32 * 1024 \<and> y \<noteq> []" if "y \<in> set ys" for y
    using that unfolding ys_def by (rule piece_sizes [OF _ through_qs_encrypt_lengths p small])
  show ?thesis
  proof (cases "ss_closed s")
    case True
    have "traced lib ids inp out tk wr (put_stream h st1 s)"
      by (rule traced_put [OF t id]) (use stream_trace_flushed [OF tr p] True in \<open>simp_all add: id\<close>)
    then show ?thesis using True s1 traced_flushes by (simp add: s' send_frames_closed)
  next
    case op: False
    have "traced lib ids inp (out @ fs) tk wr (put_stream h st1 (send_frames lib fs s))"
    proof (rule traced_send_put [OF t op _ _ _ id])
      show "\<forall>f \<in> set fs. frame_allowed (cfg_smuxver (ss_config s)) f"
        using sizes by (fastforce simp: fs_def psh_frames_def frame_allowed_def)
      have "[] \<notin> set ys" using sizes by blast
      then have "psh_of (sm_id ?st) fs = ys" by (simp add: fs_def psh_frames_ids)
      then show "stream_trace (fresh_cipher lib s) False st1
          (psh_of (sm_id st1) out @ psh_of (sm_id st1) fs) (psh_of (sm_id st1) inp) (tk h) (wr h)"
        using stream_trace_flushed [OF tr p] op by (simp add: id ys_def)
    qed (use h psh_frames_ids in \<open>simp_all add: fs_def id\<close>)
    moreover have "fst ` set fs \<subseteq> {Cmd_psh}" by (auto simp: fs_def psh_frames_def)
    ultimately show ?thesis unfolding flushes_def s' s1 by blast
  qed
qed

lemmas evolved_try_flush = flushes_try_flush [THEN flushes_evolved]

section \<open>Stream operations\<close>

lemma core_flags:
  "stream_core (st \<lparr> sm_reads := n \<rparr>) = stream_core st" "stream_core (st \<lparr> sm_tcp_write_active := b \<rparr>) = stream_core st"
  "stream_core (st \<lparr> sm_reads_done := ns \<rparr>) = stream_core st" "stream_core (st \<lparr> sm_local_fin_sent := b \<rparr>) = stream_core st"
  "stream_core (st \<lparr> sm_remote_fin_received := b \<rparr>) = stream_core st" "stream_core (st \<lparr> sm_server_connecting := b \<rparr>) = stream_core st"
  "stream_core (st \<lparr> sm_socket_open := b \<rparr>) = stream_core st" "stream_core (st \<lparr> sm_tcp_ready := b \<rparr>) = stream_core st"
  "stream_core (st \<lparr> sm_unix := b \<rparr>) = stream_core st" "stream_core (st \<lparr> sm_peer_consumed := v \<rparr>) = stream_core st"
  "stream_core (st \<lparr> sm_peer_window := v \<rparr>) = stream_core st" "stream_core (st \<lparr> sm_num_read := v \<rparr>) = stream_core st"
  "stream_core (st \<lparr> sm_incr := v \<rparr>) = stream_core st"
  by (simp_all add: stream_core_def)

lemmas traced_keep = traced_emit traced_put_same

lemma traced_start_tcp_read:
  "traced lib ids inp out tk wr s \<Longrightarrow> traced lib ids inp out tk wr (start_tcp_read h s)"
  by (auto simp: start_tcp_read_def Let_def no_send_def core_flags intro!: traced_keep)

lemma traced_flush_tcp_writes:
  "traced lib ids inp out tk wr s \<Longrightarrow> traced lib ids inp out tk wr (flush_tcp_writes h s)"
  by (auto simp: flush_tcp_writes_def Let_def no_send_def core_flags intro!: traced_keep)

lemma traced_shutdown:
  "traced lib ids inp out tk wr s \<Longrightarrow> traced lib ids inp out tk wr (shutdown_tcp_send_if_ready h s)"
  by (auto simp: shutdown_tcp_send_if_ready_def Let_def no_send_def intro!: traced_keep)

lemma traced_maybe_finish:
  "traced lib ids inp out tk wr s \<Longrightarrow> traced lib ids inp out tk wr (maybe_finish h s)"
  by (auto simp: maybe_finish_def Let_def no_send_def intro!: traced_keep)

lemma traced_on_fin:
  "traced lib ids inp out tk wr s \<Longrightarrow> traced lib ids inp out tk wr (on_fin h s)"
  by (auto simp: on_fin_def Let_def core_flags intro!: traced_maybe_finish traced_shutdown traced_put_same)

lemma traced_accept:
  "traced lib ids inp out tk wr s \<Longrightarrow> traced lib ids inp out tk wr (run_accept_handler h s)"
  by (auto simp: run_accept_handler_def start_server_def start_server_unix_def no_send_def core_flags
      intro!: traced_keep split: option.split smux_target.split)

lemma traced_start_client:
  "traced lib ids inp out tk wr s \<Longrightarrow> traced lib ids inp out tk wr (start_client u h s)"
  by (auto simp: start_client_def Let_def core_flags
      intro!: traced_start_tcp_read traced_flush_tcp_writes traced_put_same)

lemma evolved_local_fin:
  assumes t: "traced lib ids inp out tk wr s"
  shows "evolved lib ids inp out tk wr (send_local_fin lib h s)"
proof -
  let ?s = "put_stream h ((stream_at s h) \<lparr> sm_local_fin_sent := True \<rparr>) s"
  have u: "traced lib ids inp out tk wr ?s" by (rule traced_put_same [OF t]) (simp add: core_flags)
  have "evolved lib ids inp out tk wr (send_frame lib Cmd_fin sid [] ?s)" for sid
    by (rule evolved_send_frame [OF u]) (simp_all add: frame_allowed_def)
  then show ?thesis
    using traced_evolved [OF t] traced_evolved [OF u] by (simp add: send_local_fin_def Let_def)
qed

lemma evolved_mark:
  assumes t: "traced lib ids inp out tk wr s"
  shows "evolved lib ids inp out tk wr (mark_payload_consumed lib h n s)"
proof (cases "\<not> ss_alive s \<or> version s \<noteq> 2 \<or> n = 0")
  case True
  then show ?thesis unfolding mark_payload_consumed_def if_P [OF True] by (intro traced_evolved t)
next
  case False
  let ?st = "stream_at s h"
  have "evolved lib ids inp out tk wr (put_stream h (?st \<lparr> sm_num_read := x, sm_incr := y \<rparr>) (send_update lib sid c w s))" for x y sid c w
    by (rule evolved_step [OF evolved_update [OF t]])
      (use False in \<open>auto intro!: traced_evolved traced_put_same simp: core_flags send_update_eq\<close>)
  moreover have "evolved lib ids inp out tk wr (put_stream h (?st \<lparr> sm_num_read := x, sm_incr := y \<rparr>) s)" for x y
    by (intro traced_evolved traced_put_same [OF t]) (simp add: core_flags)
  ultimately show ?thesis
    unfolding mark_payload_consumed_def if_not_P [OF False] Let_def by simp
qed

lemma flushes_on_update:
  assumes t: "traced lib ids inp out tk wr s" and h: "h < length (ss_objects s)"
  shows "flushes lib ids inp out tk wr (on_update lib h c w s)"
proof -
  let ?s = "put_stream h ((stream_at s h) \<lparr> sm_peer_consumed := c, sm_peer_window := w \<rparr>) s"
  have "traced lib ids inp out tk wr ?s" by (rule traced_put_same [OF t]) (simp add: core_flags)
  then have "flushes lib ids inp out tk wr (try_flush_outbound lib h ?s)" by (rule flushes_try_flush) (simp add: h)
  then show ?thesis
    unfolding on_update_def Let_def by (rule flushes_step) (simp add: traced_flushes traced_start_tcp_read)
qed

text \<open>The two operations that move bytes between a stream and its socket.\<close>

lemma evolved_read_handler:
  assumes t: "traced lib ids inp out tk wr s" and h: "h < length (ss_objects s)"
  shows "evolved lib ids inp out (tk (h := tk h @ take n (sm_read_buffer (stream_at s h)))) wr (read_handler lib h n s)"
proof -
  let ?st = "stream_at s h"
  let ?s = "put_stream h (queue_outbound (take n (sm_read_buffer ?st)) ?st) s"
  have same: "sm_id (queue_outbound x st) = sm_id st" "sm_closed (queue_outbound x st) = sm_closed st" for x st
    by (simp_all add: queue_outbound_def)
  have "traced lib ids inp out (tk (h := tk h @ take n (sm_read_buffer ?st))) wr ?s"
    by (rule traced_put [OF t]) (use h in \<open>auto simp: same intro: stream_trace_read\<close>)
  then have "evolved lib ids inp out (tk (h := tk h @ take n (sm_read_buffer ?st))) wr (try_flush_outbound lib h ?s)"
    by (rule evolved_try_flush) (simp add: h)
  then show ?thesis
    unfolding read_handler_def Let_def by (rule evolved_step) (simp add: traced_evolved traced_start_tcp_read)
qed

lemma traced_popped:
  assumes t: "traced lib ids inp out tk wr s" and "h < length (ss_objects s)"
  defines "st \<equiv> stream_at s h"
  shows "traced lib ids inp out tk (wr (h := wr h @ concat (take 1 (sm_pending_tcp_writes st))))
    (put_stream h (st \<lparr> sm_pending_tcp_writes := tl (sm_pending_tcp_writes st) \<rparr>) s)"
  unfolding st_def
  by (rule traced_put [OF t]) (use assms(2) in \<open>auto dest: stream_trace_written\<close>)

lemma evolved_written:
  assumes t: "traced lib ids inp out tk wr s" and h: "h < length (ss_objects s)"
  shows "evolved lib ids inp out tk (wr (h := wr h @ concat (take 1 (sm_pending_tcp_writes (stream_at s h)))))
    (write_handler lib h None n s)"
proof -
  let ?wr = "wr (h := wr h @ concat (take 1 (sm_pending_tcp_writes (stream_at s h))))"
  let ?t = "put_stream h ((stream_at s h) \<lparr> sm_tcp_write_active := False \<rparr>) s"
  let ?s = "put_stream h ((stream_at ?t h) \<lparr> sm_pending_tcp_writes := tl (sm_pending_tcp_writes (stream_at ?t h)) \<rparr>) ?t"
  have "traced lib ids inp out tk wr ?t" by (rule traced_put_same [OF t]) (simp add: core_flags)
  then have "traced lib ids inp out tk ?wr ?s" using traced_popped [of lib ids inp out tk wr ?t h] h by simp
  then have "evolved lib ids inp out tk ?wr (mark_payload_consumed lib h n ?s)" by (rule evolved_mark)
  then show ?thesis
    unfolding write_handler_def Let_def option.case
    by (rule evolved_step) (intro traced_evolved traced_maybe_finish traced_shutdown traced_flush_tcp_writes)
qed

section \<open>Closing\<close>

lemma stream_at_closed: "stream_at (stream_closed sid s) k = stream_at s k"
  by (simp add: stream_closed_def stream_at_def)

lemma evolved_close_stream:
  assumes t: "traced lib ids inp out tk wr s" and h: "h < length (ss_objects s)"
  shows "evolved lib ids inp out tk wr (close_stream lib h s)"
proof (cases "sm_closed (stream_at s h)")
  case True
  then show ?thesis using traced_evolved [OF t] by (simp add: close_stream_def)
next
  case False
  show ?thesis
  proof (rule evolved_step [OF evolved_local_fin [OF t, of h]])
    fix out
    let ?t = "send_local_fin lib h s"
    assume u: "traced lib ids inp out tk wr ?t"
    let ?st = "stream_at ?t h"
    have h': "h < length (ss_objects ?t)" using h by simp
    define v where "v = emit (Timers_cancel h) (put_stream h (?st \<lparr> sm_closed := True, sm_socket_open := False \<rparr>) ?t)"
    define w where "w = (if sm_socket_open ?st then emit (Socket_close h) v else v)"
    define x where "x = (if ss_alive s then stream_closed (sm_id ?st) w else w)"
    have alive: "ss_alive w = ss_alive s"
      using static_fields(11) [OF stream_op_parts(8)] by (simp add: w_def v_def emit_def put_fields)
    have x: "close_stream lib h s = x"
      using False by (simp only: close_stream_def Let_def if_False x_def alive flip: v_def w_def)
    have fields: "ss_config x = ss_config ?t" "ss_wrote_identifier x = ss_wrote_identifier ?t" "ss_closed x = ss_closed ?t"
      "ss_qpp_pad x = ss_qpp_pad ?t" "length (ss_objects x) = length (ss_objects ?t)"
      by (simp_all add: x_def w_def v_def emit_def put_fields stream_closed_def)
    have at: "stream_at x k = (if k = h then ?st \<lparr> sm_closed := True, sm_socket_open := False \<rparr> else stream_at ?t k)" for k
      using h' by (simp add: x_def w_def v_def stream_at_closed)
    have ids: "stream_ids x = stream_ids ?t"
      using stream_ids_put [of "?st \<lparr> sm_closed := True, sm_socket_open := False \<rparr>" ?t h]
      by (simp add: x_def w_def v_def stream_ids_def stream_closed_def)
    have "sent_bytes x = sent_bytes ?t"
      by (simp add: x_def w_def v_def stream_closed_def no_send_def sent_bytes_effects sent_bytes_def sent_frames_def emit_def)
    then have sent: "frames_sent lib out x = frames_sent lib out ?t" by (simp add: frames_sent_def fields)
    have streams: "ss_streams x = ss_streams ?t \<or> ss_streams x = AList.delete (sm_id ?st) (ss_streams ?t)"
      by (simp add: x_def w_def v_def stream_closed_def)
    have id: "sm_id (stream_at x k) = sm_id (stream_at ?t k)" for k by (simp add: at)
    have agrees: "table_agrees ?t" using u by (simp add: traced_def)
    have sub: "set (ss_streams x) \<subseteq> set (ss_streams ?t)"
      using streams by (auto simp: AList.delete_eq)
    have "map_of (ss_streams x) (sm_id (stream_at x k)) = Some k"
      if k: "k < length (ss_objects ?t)" "\<not> ss_closed ?t" "\<not> sm_closed (stream_at x k)" for k
    proof -
      have "k \<noteq> h" "map_of (ss_streams ?t) (sm_id (stream_at ?t k)) = Some k"
        using k agrees by (auto simp: at table_agrees_def split: if_splits)
      moreover have "sm_id (stream_at ?t k) \<noteq> sm_id ?st"
        using stream_id_unique [OF u k(1) h'] \<open>k \<noteq> h\<close> by blast
      ultimately show ?thesis using streams by (auto simp: id delete_conv')
    qed
    then have table: "table_agrees x"
      using agrees sub unfolding table_agrees_def ids fields id by blast
    have "stream_trace (fresh_cipher lib x) (ss_closed x) (stream_at x k)
        (psh_of (sm_id (stream_at x k)) out) (psh_of (sm_id (stream_at x k)) inp) (tk k) (wr k)"
      if "k < length (ss_objects ?t)" for k
      using that u stream_trace_closed(1) unfolding id by (simp add: traced_def at fields fresh_cipher_def)
    then show "evolved lib ids inp out tk wr (close_stream lib h s)"
      using u table unfolding x by (intro traced_evolved) (auto simp: traced_def sent ids fields)
  qed
qed
lemma evolved_fail_and_close:
  assumes t: "traced lib ids inp out tk wr s" and h: "h < length (ss_objects s)"
  shows "evolved lib ids inp out tk wr (fail_and_close lib m h s)"
  unfolding fail_and_close_def
  by (rule evolved_close_stream [OF traced_emit [OF _ t]]) (simp_all add: h no_send_def)

lemma evolved_fin_or_fail:
  assumes t: "traced lib ids inp out tk wr s" and h: "h < length (ss_objects s)"
  shows "evolved lib ids inp out tk wr (if b then maybe_finish h (send_local_fin lib h s) else fail_and_close lib m h s)"
  using evolved_step [OF evolved_local_fin [OF t] traced_evolved [OF traced_maybe_finish]]
    evolved_fail_and_close [OF t h] by simp

lemma evolved_write_failed:
  assumes t: "traced lib ids inp out tk wr s" and h: "h < length (ss_objects s)"
  shows "evolved lib ids inp out tk wr (write_handler lib h (Some e) n s)"
proof -
  have "traced lib ids inp out tk wr (put_stream h ((stream_at s h) \<lparr> sm_tcp_write_active := False \<rparr>) s)"
    by (rule traced_put_same [OF t]) (simp add: core_flags)
  then show ?thesis
    unfolding write_handler_def Let_def option.case by (rule evolved_fin_or_fail) (simp add: h)
qed

lemma evolved_connect_handler:
  assumes t: "traced lib ids inp out tk wr s" and h: "h < length (ss_objects s)"
  shows "evolved lib ids inp out tk wr (connect_handler lib h failed s)"
proof -
  let ?s = "put_stream h ((stream_at s h) \<lparr> sm_server_connecting := False \<rparr>) s"
  have u: "traced lib ids inp out tk wr ?s" by (rule traced_put_same [OF t]) (simp add: core_flags)
  have "traced lib ids inp out tk wr (put_stream h ((stream_at ?s h) \<lparr> sm_tcp_ready := True \<rparr>) ?s)"
    by (rule traced_put_same [OF u]) (simp add: core_flags)
  then have "traced lib ids inp out tk wr (shutdown_tcp_send_if_ready h (start_tcp_read h (flush_tcp_writes h
      (put_stream h ((stream_at ?s h) \<lparr> sm_tcp_ready := True \<rparr>) ?s))))"
    by (intro traced_shutdown traced_start_tcp_read traced_flush_tcp_writes)
  moreover have "evolved lib ids inp out tk wr (fail_and_close lib m h ?s)" for m
    by (rule evolved_fail_and_close [OF u]) (simp add: h)
  ultimately show ?thesis unfolding connect_handler_def Let_def by (simp add: traced_evolved)
qed

lemma evolved_resolve_handler:
  assumes t: "traced lib ids inp out tk wr s" and h: "h < length (ss_objects s)"
  shows "evolved lib ids inp out tk wr (resolve_handler lib h failed s)"
  using evolved_fail_and_close [OF t h]
  by (simp add: resolve_handler_def traced_evolved traced_keep t core_flags no_send_def)

text \<open>Closing the session closes every stream, and sends nothing.\<close>

lemma evolved_close_all:
  assumes "evolved lib ids inp out tk wr s" "\<forall>(sid, h) \<in> set hs. h < length (ss_objects s)"
  shows "evolved lib ids inp out tk wr (foldl (\<lambda>s (sid, h). close_stream lib h s) s hs)"
  using assms
proof (induction hs arbitrary: s)
  case (Cons x hs)
  obtain sid h where x: "x = (sid, h)" by (cases x)
  have "evolved lib ids inp out tk wr (close_stream lib h s)"
    by (rule evolved_step [OF Cons(2)], rule evolved_close_stream) (use Cons(3) x in auto)
  then show ?case using Cons.IH [of "close_stream lib h s"] Cons(3) by (simp add: x)
qed simp

lemma traced_marked_closed:
  "traced lib ids inp out tk wr s \<Longrightarrow> traced lib ids inp out tk wr (s \<lparr> ss_closed := True, ss_streams := [] \<rparr>)"
  unfolding traced_def
  by (auto simp: table_agrees_def frames_sent_def stream_ids_def stream_at_def fresh_cipher_def
      sent_bytes_def sent_frames_def intro: stream_trace_closed)

lemma evolved_session_close:
  assumes t: "traced lib ids inp out tk wr s"
  shows "evolved lib ids inp out tk wr (session_close lib s)"
proof (cases "ss_closed s")
  case True
  then show ?thesis using traced_evolved [OF t] by (simp add: session_close_def)
next
  case False
  define u where "u = emit Keepalive_cancel (s \<lparr> ss_closed := True \<rparr>) \<lparr> ss_streams := [] \<rparr>"
  define v where "v = foldl (\<lambda>s (sid, h). close_stream lib h s) u (ss_streams s)"
  have eq: "session_close lib s = (let s = emit Transport_close v in if ss_close_handler s then emit Close_handler s else s)"
    using False by (simp add: session_close_def Let_def v_def u_def emit_def)
  have u: "u = emit Keepalive_cancel (s \<lparr> ss_closed := True, ss_streams := [] \<rparr>)" by (simp add: u_def emit_def)
  have tu: "traced lib ids inp out tk wr u"
    unfolding u by (rule traced_emit [OF _ traced_marked_closed [OF t]]) (simp add: no_send_def)
  have "\<forall>(sid, h) \<in> set (ss_streams s). h < length (ss_objects u)"
    using t by (auto simp: traced_def table_agrees_def u_def)
  then have "evolved lib ids inp out tk wr v" unfolding v_def by (intro evolved_close_all traced_evolved tu)
  then show ?thesis
    unfolding eq Let_def by (rule evolved_step) (auto intro!: traced_evolved traced_emit simp: no_send_def)
qed

section \<open>Handling frames\<close>

lemma traced_no_data:
  assumes t: "traced lib ids inp out tk wr s" and x: "\<And>i. psh_of i gs = []"
  shows "traced lib ids (inp @ gs) out tk wr s"
  using t by (auto simp: traced_def x)

lemma table_index:
  assumes "traced lib ids inp out tk wr s" "map_of (ss_streams s) sid = Some h"
  shows "h < length (ss_objects s) \<and> sm_id (stream_at s h) = sid"
  using assms map_of_SomeD [OF assms(2)] by (auto simp: traced_def table_agrees_def)

lemma on_data_put:
  assumes "h < length (ss_objects s)" "\<not> sm_closed (stream_at s h)" "p \<noteq> []"
  shows "on_data h p s = flush_tcp_writes h (put_stream h ((stream_at s h)
      \<lparr> sm_qpp := snd (qs_decrypt p (sm_qpp (stream_at s h))),
        sm_pending_tcp_writes := sm_pending_tcp_writes (stream_at s h) @ [fst (qs_decrypt p (sm_qpp (stream_at s h)))],
        sm_tcp_write_active := sm_tcp_write_active (stream_at s h) \<rparr>) s)"
  using assms by (simp add: on_data_def enqueue_tcp_write_def Let_def split_def)

text \<open>A data frame reaches the open stream of its id, or nobody.\<close>

lemma traced_data:
  assumes t: "traced lib ids inp out tk wr s" and op: "\<not> ss_closed s"
  shows "traced lib ids (inp @ [(Cmd_psh, sid, p)]) out tk wr (handle_frame lib Cmd_psh sid p s)"
proof (cases "\<exists>h. map_of (ss_streams s) sid = Some h \<and> \<not> sm_closed (stream_at s h) \<and> p \<noteq> []")
  case True
  then obtain h where h: "map_of (ss_streams s) sid = Some h" "\<not> sm_closed (stream_at s h)" "p \<noteq> []" by blast
  note ix = table_index [OF t h(1)]
  have hf: "handle_frame lib Cmd_psh sid p s = on_data h p s" using h(1) by (simp add: handle_frame_def)
  show ?thesis
    unfolding hf on_data_put [OF conjunct1 [OF ix] h(2,3)]
  proof (rule traced_flush_tcp_writes [OF traced_replace [OF t]], goal_cases)
    case (3 k)
    then have "sm_id (stream_at s k) \<noteq> sid" using ix stream_id_unique [OF t, of k h] by auto
    then show ?case by simp
  next
    case 4
    from stream_trace_data [OF 4(2) h(2), where p = p and active = "sm_tcp_write_active (stream_at s h)"] show ?case
      using ix h(3) by simp
  qed simp_all
next
  case False
  have same: "handle_frame lib Cmd_psh sid p s = s"
    using False by (auto simp: handle_frame_def on_data_def split: option.split)
  have "stream_trace (fresh_cipher lib s) (ss_closed s) (stream_at s k) (psh_of (sm_id (stream_at s k)) out)
      (psh_of (sm_id (stream_at s k)) (inp @ [(Cmd_psh, sid, p)])) (tk k) (wr k)"
    if k: "k < length (ss_objects s)" for k
  proof -
    have tr: "stream_trace (fresh_cipher lib s) (ss_closed s) (stream_at s k) (psh_of (sm_id (stream_at s k)) out)
      (psh_of (sm_id (stream_at s k)) inp) (tk k) (wr k)" using t k by (simp add: traced_def)
    have "sm_closed (stream_at s k) \<or> p = [] \<or> sm_id (stream_at s k) \<noteq> sid"
      using False t k op by (auto simp: traced_def table_agrees_def)
    then show ?thesis using tr stream_trace_ignored [OF tr, of "[p]"] by auto
  qed
  then show ?thesis using t unfolding same by (auto simp: traced_def)
qed

text \<open>A new stream object enters the store and the table.\<close>

lemma traced_new:
  assumes t: "traced lib ids inp out tk wr s" and sid: "sid \<notin> set ids" "sid \<notin> psh_ids inp"
    and st: "st = make_stream lib sid s"
  shows "traced lib (ids @ [sid]) inp out tk wr (emplace_stream sid (length (ss_objects s)) (s \<lparr> ss_objects := ss_objects s @ [st] \<rparr>))"
proof -
  define s' where "s' = emplace_stream sid (length (ss_objects s)) (s \<lparr> ss_objects := ss_objects s @ [st] \<rparr>)"
  have ids: "ids = stream_ids s" and table: "table_agrees s" using t by (simp_all add: traced_def)
  have "sid \<notin> fst ` set (ss_streams s)"
    using sid(1) table by (auto simp: ids table_agrees_def stream_ids_def stream_at_def)
  then have none: "map_of (ss_streams s) sid = None" by (simp add: map_of_eq_None_iff)
  have s': "s' = s \<lparr> ss_objects := ss_objects s @ [st], ss_streams := (sid, length (ss_objects s)) # ss_streams s \<rparr>"
    using none by (simp add: s'_def emplace_stream_def)
  have fields: "ss_config s' = ss_config s" "ss_closed s' = ss_closed s" "ss_qpp_pad s' = ss_qpp_pad s"
    "ss_objects s' = ss_objects s @ [st]" "ss_streams s' = (sid, length (ss_objects s)) # ss_streams s"
    "ss_wrote_identifier s' = ss_wrote_identifier s" "sent_bytes s' = sent_bytes s"
    by (simp_all add: s' sent_bytes_def sent_frames_def)
  have id: "sm_id st = sid" by (simp add: st make_stream_def)
  have at: "stream_at s' k = (if k = length (ss_objects s) then st else stream_at s k)"
    if "k \<le> length (ss_objects s)" for k
    using that by (auto simp: stream_at_def fields nth_append)
  have other: "sm_id (stream_at s k) \<noteq> sid" if "k < length (ss_objects s)" for k
    using stream_id_known [OF t that] sid(1) by auto
  have "table_agrees s'"
    unfolding table_agrees_def stream_ids_def fields
  proof (intro conjI allI impI ballI, goal_cases)
    case 1
    show ?case using table sid(1) by (auto simp: ids table_agrees_def stream_ids_def id)
  next
    case (2 x)
    then show ?case using table id by (auto simp: table_agrees_def at)
  next
    case (3 k)
    then show ?case using table id other [of k] by (auto simp: table_agrees_def at less_Suc_eq)
  qed
  moreover have "stream_trace (fresh_cipher lib s') (ss_closed s') (stream_at s' k)
      (psh_of (sm_id (stream_at s' k)) out) (psh_of (sm_id (stream_at s' k)) inp) (tk k) (wr k)"
    if "k < length (ss_objects s')" for k
  proof (cases "k = length (ss_objects s)")
    case True
    have "psh_of sid inp = []" "psh_of sid out = []" "tk k = []" "wr k = []"
      using t sid True by (auto simp: traced_def intro!: psh_of_unknown)
    then show ?thesis
      using stream_trace_new [of lib s _ sid] True by (simp add: at id fields fresh_cipher_def) (simp add: st)
  next
    case False
    then show ?thesis using t that by (simp add: traced_def at fields fresh_cipher_def less_Suc_eq)
  qed
  moreover have "frames_sent lib out s'" using t by (simp add: traced_def frames_sent_def fields)
  moreover have "stream_ids s' = ids @ [sid]" by (simp add: ids stream_ids_def fields id)
  ultimately show ?thesis
    using t unfolding s'_def [symmetric] traced_def by (auto simp: fields)
qed

lemma flushes_handle_frame:
  assumes t: "traced lib ids inp out tk wr s" and op: "\<not> ss_closed s"
    and new: "c = Cmd_syn \<Longrightarrow> sid \<notin> set ids \<and> sid \<notin> psh_ids inp"
  shows "flushes lib (ids @ syn_ids [(c, sid, p)]) (inp @ [(c, sid, p)]) out tk wr (handle_frame lib c sid p s)"
proof (cases c)
  case Cmd_psh
  then show ?thesis using traced_flushes [OF traced_data [OF t op]] by simp
next
  case Cmd_syn
  let ?s = "s \<lparr> ss_objects := ss_objects s @ [make_stream lib sid s] \<rparr>"
  have "map_of (ss_streams s) sid = None"
    using new [OF Cmd_syn] table_index [OF t, of sid] stream_id_known [OF t] by (cases "map_of (ss_streams s) sid") auto
  then have "handle_frame lib c sid p s = run_accept_handler (length (ss_objects s)) (emplace_stream sid (length (ss_objects s)) ?s)"
    by (simp add: Cmd_syn handle_frame_def new_stream_def)
  moreover have "traced lib (ids @ [sid]) inp out tk wr (emplace_stream sid (length (ss_objects s)) ?s)"
    using new [OF Cmd_syn] by (intro traced_new [OF t]) simp_all
  ultimately show ?thesis
    using traced_flushes [OF traced_no_data [OF traced_accept]] by (simp add: Cmd_syn)
next
  case Cmd_upd
  have "flushes lib ids inp out tk wr (handle_frame lib c sid p s)"
    using flushes_on_update [OF t] table_index [OF t] traced_flushes [OF t]
    by (auto simp: Cmd_upd handle_frame_def split: option.split)
  then show ?thesis by (rule flushes_step) (simp add: traced_flushes traced_no_data Cmd_upd)
qed (use traced_flushes [OF traced_no_data] traced_on_fin t in \<open>simp_all add: handle_frame_def split: option.split\<close>)

text \<open>The frames of a peer: every id is opened once, before its data.\<close>

definition opens_first :: "frame list \<Rightarrow> bool" where
  "opens_first fs \<longleftrightarrow> distinct (syn_ids fs) \<and> (\<forall>xs. prefix xs fs \<longrightarrow> psh_ids xs \<subseteq> set (syn_ids xs))"

lemma flushes_handle_frames:
  assumes "flushes lib ids inp out tk wr s" "\<not> ss_closed s"
    and "syn_ids fs = [] \<or> ids = syn_ids inp \<and> opens_first (inp @ fs)"
  shows "flushes lib (ids @ syn_ids fs) (inp @ fs) out tk wr (handle_frames lib fs s)"
  using assms
proof (induction fs arbitrary: s ids inp)
  case (Cons f fs)
  obtain c sid p where f: "f = (c, sid, p)" by (cases f)
  let ?s = "handle_frame lib c sid p s"
  have new: "sid \<notin> set ids \<and> sid \<notin> psh_ids inp" if "c = Cmd_syn"
  proof -
    have ids: "ids = syn_ids inp" and first: "opens_first (inp @ f # fs)" using Cons(4) that by (auto simp: f)
    have "psh_ids inp \<subseteq> set (syn_ids inp)" using first by (simp add: opens_first_def)
    moreover have "sid \<notin> set (syn_ids inp)" using first that by (simp add: opens_first_def f)
    ultimately show ?thesis unfolding ids by blast
  qed
  have "flushes lib (ids @ syn_ids [f]) (inp @ [f]) out tk wr ?s"
    using Cons(2) unfolding f by (rule flushes_step) (rule flushes_handle_frame [OF _ Cons(3) new])
  moreover have "\<not> ss_closed ?s" using Cons(3) by simp
  moreover have "syn_ids fs = [] \<or> ids @ syn_ids [f] = syn_ids (inp @ [f]) \<and> opens_first ((inp @ [f]) @ fs)"
    using Cons(4) by (auto simp: f split: if_splits)
  ultimately have "flushes lib ((ids @ syn_ids [f]) @ syn_ids fs) ((inp @ [f]) @ fs) out tk wr (handle_frames lib fs ?s)"
    by (rule Cons.IH)
  then show ?case by (simp add: f)
qed simp

lemma evolved_handle_frames:
  assumes "evolved lib ids inp out tk wr s" "\<not> ss_closed s"
    and "syn_ids fs = [] \<or> ids = syn_ids inp \<and> opens_first (inp @ fs)"
  shows "evolved lib (ids @ syn_ids fs) (inp @ fs) out tk wr (handle_frames lib fs s)"
  using assms(1)
  by (rule evolved_step) (rule flushes_evolved [OF flushes_handle_frames [OF traced_flushes assms(2,3)]])

lemma evolved_with_input:
  "evolved lib ids inp out tk wr s \<Longrightarrow> evolved lib ids inp out tk wr (with_input b d t s)"
proof (rule evolved_step, assumption)
  fix out
  assume u: "traced lib ids inp out tk wr s"
  have "traced lib ids inp out tk wr (with_input b d t s)"
    by (rule traced_same [OF u]) simp_all
  then show "evolved lib ids inp out tk wr (with_input b d t s)" by (rule traced_evolved)
qed

lemma evolved_protocol_error:
  "evolved lib ids inp out tk wr s \<Longrightarrow> evolved lib ids inp out tk wr (protocol_error lib m s)"
  unfolding protocol_error_def
  by (rule evolved_step, assumption, rule evolved_session_close, rule traced_emit) (simp_all add: no_send_def)

section \<open>Steps of a session\<close>

text \<open>What an event adds to the bytes taken from the sockets and written to them.\<close>

definition note_taken :: "smux_session \<Rightarrow> smux_event \<Rightarrow> (nat \<Rightarrow> bytes) \<Rightarrow> nat \<Rightarrow> bytes" where
  "note_taken s ev tk =
     (case ev of
        Ev_read_handler h \<Rightarrow>
          tk (h := tk h @ take (hd (sm_reads_done (stream_at s h))) (sm_read_buffer (stream_at s h)))
      | _ \<Rightarrow> tk)"

definition note_written :: "smux_session \<Rightarrow> smux_event \<Rightarrow> (nat \<Rightarrow> bytes) \<Rightarrow> nat \<Rightarrow> bytes" where
  "note_written s ev wr =
     (case ev of
        Ev_written h None \<Rightarrow> wr (h := wr h @ concat (take 1 (sm_pending_tcp_writes (stream_at s h))))
      | _ \<Rightarrow> wr)"

text \<open>The events of a session but for opening streams and receiving.\<close>

definition local_event :: "smux_event \<Rightarrow> bool" where
  "local_event ev \<longleftrightarrow> (case ev of Ev_open _ \<Rightarrow> False | Ev_transport _ _ \<Rightarrow> False | _ \<Rightarrow> True)"

lemma traced_readable:
  assumes t: "traced lib ids inp out tk wr s" and "length data \<le> 32 * 1024" "h < length (ss_objects s)"
  shows "traced lib ids inp out tk wr (put_stream h ((stream_at s h)
      \<lparr> sm_read_buffer := memcpy (sm_read_buffer (stream_at s h)) 0 data, sm_reads := r, sm_reads_done := d \<rparr>) s)"
proof -
  have "length (sm_read_buffer (stream_at s h)) = 32 * 1024"
    using t assms(3) by (simp add: traced_def stream_trace_def stream_fits_def)
  then show ?thesis using assms(2) by (intro traced_put_same [OF t]) (simp add: stream_core_def)
qed

lemma evolved_local_step:
  assumes "smux_step lib s ev s'" and t: "traced lib ids inp out tk wr s" and loc: "local_event ev"
  shows "evolved lib ids inp out (note_taken s ev tk) (note_written s ev wr) s'"
  using assms(1)
proof (cases rule: smux_step.cases)
  case (readable h st data)
  then show ?thesis
    using traced_readable [OF t] by (simp add: note_taken_def note_written_def has_stream_def traced_evolved)
next
  case (read_done h st n ns)
  have "traced lib ids inp out tk wr (put_stream h (st \<lparr> sm_reads_done := ns \<rparr>) s)"
    by (rule traced_put_same [OF t]) (simp add: core_flags read_done)
  from evolved_read_handler [OF this, of h n] show ?thesis
    using read_done by (simp add: note_taken_def note_written_def has_stream_def)
next
  case (read_failed h st err)
  have "traced lib ids inp out tk wr (put_stream h (st \<lparr> sm_reads := sm_reads st - 1 \<rparr>) s)"
    by (rule traced_put_same [OF t]) (simp add: core_flags read_failed)
  then have "evolved lib ids inp out tk wr s'"
    unfolding read_failed(2) read_error_def
    by (rule evolved_fin_or_fail) (use read_failed in \<open>simp add: has_stream_def\<close>)
  then show ?thesis using read_failed(1) by (simp add: note_taken_def note_written_def)
next
  case (written h n err)
  then show ?thesis
    using evolved_written [OF t] evolved_write_failed [OF t]
    by (cases err) (simp_all add: note_taken_def note_written_def has_stream_def)
next
  case (keepalive now)
  have sent: "evolved lib ids inp out tk wr (send_frame lib Cmd_nop 0 [] s)"
    by (rule evolved_send_frame [OF t]) (simp_all add: frame_allowed_def)
  have "evolved lib ids inp out tk wr (keepalive_tick lib now s)"
  proof (cases "ss_closed s")
    case True
    then show ?thesis using traced_evolved [OF t] by (simp add: keepalive_tick_def)
  next
    case False
    then show ?thesis unfolding keepalive_tick_def if_not_P [OF False] Let_def
      by (intro evolved_step [OF sent])
        (simp add: start_keepalive_timer_def no_send_def evolved_session_close traced_evolved traced_emit)
  qed
  then show ?thesis using keepalive by (simp add: note_taken_def note_written_def)
next
  case dropped
  have "traced lib ids inp out tk wr (s \<lparr> ss_alive := False \<rparr>)"
    by (rule traced_same [OF t]) simp_all
  then show ?thesis using dropped by (simp add: note_taken_def note_written_def traced_evolved)
qed (use t loc in \<open>auto simp: local_event_def note_taken_def note_written_def has_stream_def
    intro: evolved_resolve_handler evolved_connect_handler evolved_close_stream evolved_session_close\<close>)

text \<open>Opening a stream.\<close>

lemma traced_open:
  assumes t: "traced lib ids inp out tk wr s" and o: "open_stream lib s = Inr (h, s')"
    and sid: "ss_next_stream_id s + 2 \<notin> set ids" "ss_next_stream_id s + 2 \<notin> psh_ids inp"
  shows "traced lib (ids @ [ss_next_stream_id s + 2]) inp (out @ [(Cmd_syn, ss_next_stream_id s + 2, [])]) tk wr
    (start_client u h s')"
proof -
  let ?id = "ss_next_stream_id s + 2"
  let ?s = "s \<lparr> ss_next_stream_id := ?id \<rparr>"
  let ?o = "?s \<lparr> ss_objects := ss_objects ?s @ [make_stream lib ?id ?s] \<rparr>"
  have op: "\<not> ss_closed s" and s': "s' = emplace_stream ?id (length (ss_objects s)) (send_frame lib Cmd_syn ?id [] ?o)"
    using o by (auto simp: open_stream_def new_stream_def Let_def split: if_splits)
  have swap: "emplace_stream sid k (send_frame lib c i p x) = send_frame lib c i p (emplace_stream sid k x)" for sid k c i p x
  proof (cases "map_of (ss_streams x) sid = None")
    case True
    define y where "y = x \<lparr> ss_streams := (sid, k) # ss_streams x \<rparr>"
    have y: "emplace_stream sid k x = y" "ss_closed y = ss_closed x" "ss_effects y = ss_effects x"
      "ss_wrote_identifier y = ss_wrote_identifier x" "ss_config y = ss_config x"
      using True by (simp_all add: emplace_stream_def y_def)
    have "frame_chunks lib c i p y = frame_chunks lib c i p x" unfolding frame_chunks_def y ..
    then have "send_frame lib c i p y = (send_frame lib c i p x) \<lparr> ss_streams := (sid, k) # ss_streams x \<rparr>"
      unfolding send_frame_eq y by (simp add: y_def)
    then show ?thesis unfolding y(1) using True by (simp add: emplace_stream_def)
  next
    case False
    have "emplace_stream sid k z = z" if "ss_streams z = ss_streams x" for z
      unfolding emplace_stream_def that if_not_P [OF False] ..
    then show ?thesis by simp
  qed
  have "traced lib ids inp out tk wr ?s"
    by (rule traced_same [OF t]) simp_all
  from traced_new [OF this sid refl]
  have "traced lib (ids @ [?id]) inp out tk wr (emplace_stream ?id (length (ss_objects s)) ?o)" by simp
  then have "traced lib (ids @ [?id]) inp (out @ [(Cmd_syn, ?id, [])]) tk wr s'"
    unfolding s' swap
    by (rule traced_send_frame) (simp_all add: op frame_allowed_def emplace_stream_def)
  then show ?thesis by (rule traced_start_client)
qed

lemma traced_initial:
  assumes "initial_session lib config client ch target now = Inr s"
  shows "traced lib [] [] [] (\<lambda>_. []) (\<lambda>_. []) s"
proof -
  obtain s0 where s0: "make_smux_session lib config client ch now = Inr s0"
    "s = start_session (case target of None \<Rightarrow> s0 | Some t \<Rightarrow> set_accept_handler t s0)"
    using assms by (auto simp: initial_session_def split: sum.splits)
  then have "ss_objects s = []" "ss_streams s = []" "ss_wrote_identifier s = False" "sent_bytes s = []"
    by (auto simp: make_smux_session_def Let_def start_session_def start_keepalive_timer_def emit_def set_accept_handler_def
        sent_bytes_def sent_frames_def split: if_splits sum.splits option.splits)
  then show ?thesis
    by (simp add: traced_def table_agrees_def frames_sent_def stream_ids_def wire_bytes_def)
qed

end
