(* ===== verification/Smux_End_To_End.thy ===== *)
theory Smux_End_To_End
  imports Smux_Trace
begin

text \<open>
  Two sessions joined by a reliable byte channel in each direction, which is what the KCP
  transport promises: the client opens streams, the server accepts them, and every event of
  either session may come at any time. In every reachable state the bytes a stream has
  written to its socket are a prefix of those its peer has taken from the other socket.
\<close>

section \<open>Parsing what a peer has sent\<close>

text \<open>The bytes a session makes of its input, and the state of its decompressor.\<close>

definition channel_parse :: "smux_lib \<Rightarrow> base_config \<Rightarrow> bytes \<Rightarrow> (bytes \<times> snappy_decoder) result" where
  "channel_parse lib config xs =
     (if cfg_nocomp config then Inr (xs, new_snappy_decoder)
      else case snappy_loop (sl_uncompress lib) False xs of
             Inl e \<Rightarrow> Inl e
           | Inr (saw, pieces, rest) \<Rightarrow> Inr (concat pieces, \<lparr> sd_buffer = rest, sd_saw_identifier = saw \<rparr>))"

definition plain_bytes :: "base_config \<Rightarrow> frame list \<Rightarrow> bytes" where
  "plain_bytes config fs = concat (map (frame_bytes (cfg_smuxver config)) fs)"

lemma snappy_loop_Nil: "snappy_loop unc b [] = Inr (b, [], [])"
  by (subst snappy_loop.simps) (simp add: snappy_step_def)

lemma wire_loop:
  assumes "\<And>x. sl_uncompress lib (sl_compress lib x) = Some x" "\<not> cfg_nocomp config"
  obtains saw pieces where "snappy_loop (sl_uncompress lib) False (wire_bytes lib config fs) = Inr (saw, pieces, [])"
    "concat pieces = plain_bytes config fs"
proof (cases "fs = []")
  case True
  then show ?thesis
    using that [of False "[]"] assms(2) by (simp add: wire_bytes_def plain_bytes_def snappy_loop_Nil)
next
  case False
  let ?ws = "map (frame_bytes (cfg_smuxver config)) fs"
  obtain pieces where "concat pieces = concat ?ws"
    "snappy_loop (sl_uncompress lib) False (concat (fst (snappy_encode_list (sl_compress lib) ?ws False))) = Inr (True, pieces, [])"
    using encoded_stream_loop [of "sl_uncompress lib" "sl_compress lib" ?ws] assms(1) False by auto
  then show ?thesis using that assms(2) by (simp add: wire_bytes_def plain_bytes_def Let_def)
qed

text \<open>Any prefix of the sent bytes parses, to a prefix of the frames.\<close>

lemma channel_parse_prefix:
  assumes unc: "\<And>x. sl_uncompress lib (sl_compress lib x) = Some x" and "prefix xs (wire_bytes lib config fs)"
  shows "\<exists>ds d. channel_parse lib config xs = Inr (ds, d) \<and> prefix ds (plain_bytes config fs)"
proof (cases "cfg_nocomp config")
  case True
  then show ?thesis using assms(2) by (simp add: channel_parse_def wire_bytes_def plain_bytes_def)
next
  case False
  obtain ys where ys: "wire_bytes lib config fs = xs @ ys" using assms(2) by (auto simp: prefix_def)
  obtain saw pieces where "snappy_loop (sl_uncompress lib) False (xs @ ys) = Inr (saw, pieces, [])"
    "concat pieces = plain_bytes config fs"
    using wire_loop [OF unc False, of fs] unfolding ys by blast
  then show ?thesis
    using False snappy.loop_append [of "sl_uncompress lib" False xs ys]
    by (auto simp: channel_parse_def then_parse_def prefix_def split: sum.splits) metis
qed

lemma channel_parse_whole:
  assumes "\<And>x. sl_uncompress lib (sl_compress lib x) = Some x"
  shows "\<exists>d. channel_parse lib config (wire_bytes lib config fs) = Inr (plain_bytes config fs, d)"
proof (cases "cfg_nocomp config")
  case True
  then show ?thesis by (simp add: channel_parse_def wire_bytes_def plain_bytes_def)
next
  case False
  obtain saw pieces where "snappy_loop (sl_uncompress lib) False (wire_bytes lib config fs) = Inr (saw, pieces, [])"
    "concat pieces = plain_bytes config fs"
    by (rule wire_loop [OF assms False])
  then show ?thesis using False by (simp add: channel_parse_def)
qed

lemma channel_parse_more:
  assumes "channel_parse lib config xs = Inr (ds, d)" "channel_parse lib config (xs @ ys) = Inr (es, d')" "\<not> cfg_nocomp config"
  shows "\<exists>pieces. snappy_decode (sl_uncompress lib) ys d = Inr (pieces, d') \<and> es = ds @ concat pieces"
  using assms snappy.loop_append [of "sl_uncompress lib" False xs ys]
  by (auto simp: channel_parse_def snappy_decode_def then_parse_def split: sum.splits)

lemma channel_parse_chunks:
  assumes "channel_parse lib config xs = Inr (ds, d)" "snappy_loop (sl_uncompress lib) False (xs @ ys) = Inr (saw, ps, rest)"
    and "snappy_decode (sl_uncompress lib) ys d = Inr (pieces, d')" "\<not> cfg_nocomp config"
  shows "set pieces \<subseteq> set ps"
  using assms snappy.loop_append [of "sl_uncompress lib" False xs ys]
  by (auto simp: channel_parse_def snappy_decode_def split: sum.splits)

lemma frame_loop_prefix:
  assumes "\<forall>f \<in> set fs. frame_allowed (cfg_smuxver config) f" "prefix ds (plain_bytes config fs)"
  shows "\<exists>inp rest. frame_loop (cfg_smuxver config) () ds = Inr ((), inp, rest) \<and> prefix inp fs"
proof -
  obtain es where es: "plain_bytes config fs = ds @ es" using assms(2) by (auto simp: prefix_def)
  have "frame_loop (cfg_smuxver config) () (ds @ es) = Inr ((), fs, [])"
    using frame_loop_frames [OF assms(1)] by (simp add: plain_bytes_def flip: es)
  then show ?thesis
    using frames.loop_append [of "cfg_smuxver config" "()" ds es] by (auto simp: then_parse_def prefix_def split: sum.splits)
qed

lemma wire_bytes_prefix: "prefix (wire_bytes lib config fs) (wire_bytes lib config (fs @ gs))"
  by (simp add: wire_bytes_def Let_def snappy_encode_list_append prefixI)
section \<open>Reading\<close>

text \<open>What no event of a session changes, but opening a stream.\<close>

definition kept :: "smux_session \<Rightarrow> smux_session \<Rightarrow> bool" where
  "kept s s' \<longleftrightarrow> ss_config s' = ss_config s \<and> ss_qpp_pad s' = ss_qpp_pad s \<and> ss_next_stream_id s' = ss_next_stream_id s"

lemma kept_refl [simp]: "kept s s"
  by (simp add: kept_def)

lemma kept_trans: "kept s t \<Longrightarrow> kept t u \<Longrightarrow> kept s u"
  by (simp add: kept_def)

lemma kept_part:
  assumes "session_part s' = session_part s"
  shows "kept s s'"
  unfolding kept_def by (simp only: static_fields [OF assms])

lemma kept_with_input [simp]: "kept s (with_input b d t s') = kept s s'"
  by (simp add: kept_def with_input_def)

lemma close_all_part: "session_part (foldl (\<lambda>s (sid, h). close_stream lib h s) s hs) = session_part s"
  by (induction hs arbitrary: s) auto

lemma session_close_kept: "kept s (session_close lib s) \<and> ss_closed (session_close lib s)"
proof (cases "ss_closed s")
  case True
  then show ?thesis by (simp add: session_close_def)
next
  case False
  define u where "u = emit Keepalive_cancel (s \<lparr> ss_closed := True \<rparr>) \<lparr> ss_streams := [] \<rparr>"
  have "session_part (session_close lib s) = session_part (foldl (\<lambda>s (sid, h). close_stream lib h s) u (ss_streams s))"
    using False by (simp add: session_close_def Let_def u_def emit_def session_part_def)
  then have part: "session_part (session_close lib s) = session_part u" by (simp only: close_all_part)
  show ?thesis
    using static_fields [OF part] by (simp add: kept_def u_def emit_def)
qed

lemma protocol_error_kept: "kept s (protocol_error lib m s) \<and> ss_closed (protocol_error lib m s)"
  using session_close_kept [of "emit (Warn m) s" lib] by (simp add: protocol_error_def kept_def emit_def)

text \<open>
  The session has handled a prefix of the frames \<open>fs\<close> of its peer; while it is open, they
  are the frames in the plain bytes \<open>ds\<close>. \<open>f\<close> gives the ids of its streams.
\<close>

definition reading ::
  "smux_lib \<Rightarrow> (frame list \<Rightarrow> u32 list) \<Rightarrow> frame list \<Rightarrow> frame list \<Rightarrow> (nat \<Rightarrow> bytes) \<Rightarrow> (nat \<Rightarrow> bytes) \<Rightarrow>
     bytes \<Rightarrow> snappy_decoder \<Rightarrow> smux_session \<Rightarrow> bool" where
  "reading lib f fs out tk wr ds d s \<longleftrightarrow>
     (\<exists>inp. prefix inp fs \<and> evolved lib (f inp) inp out tk wr s \<and>
        (\<not> ss_closed s \<longrightarrow> ss_decompressor s = d \<and>
           frame_loop (cfg_smuxver (ss_config s)) () ds = Inr ((), inp, ss_receive_buffer s)))"

text \<open>The streams are those the peer opens, or the peer opens none.\<close>

definition opener :: "(frame list \<Rightarrow> u32 list) \<Rightarrow> frame list \<Rightarrow> bool" where
  "opener f fs \<longleftrightarrow> f = syn_ids \<and> opens_first fs \<or> syn_ids fs = [] \<and> (\<exists>ids. f = (\<lambda>_. ids))"

lemma opens_first_prefix: "opens_first (xs @ ys) \<Longrightarrow> opens_first xs"
  by (auto simp: opens_first_def intro: prefix_prefix)

lemma evolved_reads:
  assumes "opener f fs" "prefix (inp @ gs) fs" "evolved lib (f inp) inp out tk wr s" "\<not> ss_closed s"
  shows "evolved lib (f (inp @ gs)) (inp @ gs) out tk wr (handle_frames lib gs s)"
proof -
  obtain hs where fs: "fs = (inp @ gs) @ hs" using assms(2) by (auto simp: prefix_def)
  have "syn_ids gs = [] \<or> f inp = syn_ids inp \<and> opens_first (inp @ gs)"
    using assms(1) opens_first_prefix [of "inp @ gs" hs] by (auto simp: opener_def fs)
  moreover have "f inp @ syn_ids gs = f (inp @ gs)" using assms(1) by (auto simp: opener_def fs)
  ultimately show ?thesis using evolved_handle_frames [OF assms(3,4)] by metis
qed

lemma reading_piece:
  assumes r: "reading lib f fs out tk wr ds d s" and f: "opener f fs"
    and fs: "\<forall>f \<in> set fs. frame_allowed (cfg_smuxver (ss_config s)) f"
    and ds: "prefix (ds @ piece) (plain_bytes (ss_config s) fs)"
  defines "s' \<equiv> consume_stream_bytes lib piece s"
  shows "reading lib f fs out tk wr (ds @ piece) d s' \<and> kept s s'"
proof -
  let ?v = "cfg_smuxver (ss_config s)"
  obtain inp where inp: "prefix inp fs" "evolved lib (f inp) inp out tk wr s"
    "\<not> ss_closed s \<Longrightarrow> ss_decompressor s = d \<and> frame_loop ?v () ds = Inr ((), inp, ss_receive_buffer s)"
    using r unfolding reading_def by blast
  show ?thesis
  proof (cases "int (length (ss_receive_buffer s) + length piece) > max 1 (cfg_smuxbuf (ss_config s))")
    case True
    then show ?thesis
      using inp(1) evolved_protocol_error [OF inp(2)] protocol_error_kept
      unfolding s'_def consume_stream_bytes_def if_P [OF True] reading_def by blast
  next
    case False
    let ?t = "with_input (ss_receive_buffer s @ piece) (ss_decompressor s) (ss_last_activity s) s"
    have s': "s' = consume_loop lib ?t"
      unfolding s'_def consume_stream_bytes_def if_not_P [OF False] by (simp add: with_buffer_eq)
    show ?thesis
    proof (cases "ss_closed s")
      case True
      then have "s' = ?t" by (simp add: s' consume_loop.simps)
      then show ?thesis
        using inp(1) evolved_with_input [OF inp(2)] True by (auto simp: reading_def)
    next
      case op: False
      obtain inp' rest where all: "frame_loop ?v () (ds @ piece) = Inr ((), inp', rest)" "prefix inp' fs"
        using frame_loop_prefix [OF fs ds] by blast
      then obtain gs where gs: "frame_loop ?v () (ss_receive_buffer s @ piece) = Inr ((), gs, rest)" "inp' = inp @ gs"
        using inp(3) [OF op] frames.loop_append [of ?v "()" ds piece] by (auto split: sum.splits)
      have eq: "s' = with_input rest (ss_decompressor s) (ss_last_activity s) (handle_frames lib gs ?t)"
        using consume_loop_frames [of ?t "()" "()" gs rest lib] gs(1) op by (simp add: s')
      have "evolved lib (f inp') inp' out tk wr (handle_frames lib gs ?t)"
        unfolding gs(2)
        by (rule evolved_reads [OF f _ evolved_with_input [OF inp(2)]]) (use all(2) gs(2) op in simp_all)
      then have "evolved lib (f inp') inp' out tk wr s'" unfolding eq by (rule evolved_with_input)
      moreover have "ss_receive_buffer s' = rest" "ss_decompressor s' = d" "ss_config s' = ss_config s"
        using inp(3) [OF op] by (simp_all add: eq)
      moreover have "kept s s'"
        unfolding eq handle_frames_with_input kept_with_input by (rule kept_part) simp
      ultimately show ?thesis using all unfolding reading_def by auto
    qed
  qed
qed

lemma reading_pieces:
  assumes "reading lib f fs out tk wr ds d s" "opener f fs"
    and "\<forall>f \<in> set fs. frame_allowed (cfg_smuxver (ss_config s)) f"
    and "prefix (ds @ concat pieces) (plain_bytes (ss_config s) fs)"
  shows "reading lib f fs out tk wr (ds @ concat pieces) d (foldl (\<lambda>s chunk. consume_stream_bytes lib chunk s) s pieces) \<and>
    kept s (foldl (\<lambda>s chunk. consume_stream_bytes lib chunk s) s pieces)"
  using assms
proof (induction pieces arbitrary: ds s)
  case (Cons p ps)
  let ?s = "consume_stream_bytes lib p s"
  have "prefix (ds @ p) (plain_bytes (ss_config s) fs)"
    using Cons(5) by (auto intro: prefix_order.trans [rotated])
  note one = reading_piece [OF Cons(2-4) this]
  then have "ss_config ?s = ss_config s" by (simp add: kept_def)
  then have "reading lib f fs out tk wr ((ds @ p) @ concat ps) d (foldl (\<lambda>s chunk. consume_stream_bytes lib chunk s) ?s ps) \<and>
      kept ?s (foldl (\<lambda>s chunk. consume_stream_bytes lib chunk s) ?s ps)"
    using Cons(3-5) one by (intro Cons.IH) auto
  then show ?case using one kept_trans by auto
qed simp

text \<open>A session that has read the bytes \<open>xs\<close> of its peer, whose frames are \<open>fs\<close>.\<close>

definition has_read ::
  "smux_lib \<Rightarrow> (frame list \<Rightarrow> u32 list) \<Rightarrow> frame list \<Rightarrow> frame list \<Rightarrow> (nat \<Rightarrow> bytes) \<Rightarrow> (nat \<Rightarrow> bytes) \<Rightarrow>
     bytes \<Rightarrow> smux_session \<Rightarrow> bool" where
  "has_read lib f fs out tk wr xs s \<longleftrightarrow>
     (\<exists>ds d. channel_parse lib (ss_config s) xs = Inr (ds, d) \<and> reading lib f fs out tk wr ds d s)"

lemma reading_input:
  "reading lib f fs out tk wr ds d s \<Longrightarrow> reading lib f fs out tk wr ds d (s \<lparr> ss_last_activity := t \<rparr>)"
  "reading lib f fs out tk wr ds d s \<Longrightarrow> reading lib f fs out tk wr ds d' (s \<lparr> ss_decompressor := d' \<rparr>)"
proof -
  have act: "s \<lparr> ss_last_activity := t \<rparr> = with_input (ss_receive_buffer s) (ss_decompressor s) t s"
    and dec: "s \<lparr> ss_decompressor := d' \<rparr> = with_input (ss_receive_buffer s) d' (ss_last_activity s) s"
    by (simp_all add: with_input_def)
  show "reading lib f fs out tk wr ds d s \<Longrightarrow> reading lib f fs out tk wr ds d (s \<lparr> ss_last_activity := t \<rparr>)"
    unfolding act reading_def by (auto intro: evolved_with_input)
  show "reading lib f fs out tk wr ds d s \<Longrightarrow> reading lib f fs out tk wr ds d' (s \<lparr> ss_decompressor := d' \<rparr>)"
    unfolding dec reading_def by (auto intro: evolved_with_input)
qed

lemma reading_open: "reading lib f fs out tk wr ds d s \<Longrightarrow> \<not> ss_closed s \<Longrightarrow> ss_decompressor s = d"
  by (auto simp: reading_def)

lemma reading_closed: "reading lib f fs out tk wr ds d s \<Longrightarrow> ss_closed s \<Longrightarrow> reading lib f fs out tk wr ds' d' s"
  by (auto simp: reading_def)

lemma has_read_more:
  fixes now :: int
  assumes unc: "\<And>x. sl_uncompress lib (sl_compress lib x) = Some x"
    and r: "has_read lib f fs out tk wr xs s" and f: "opener f fs"
    and fs: "\<forall>f \<in> set fs. frame_allowed (cfg_smuxver (ss_config s)) f"
    and xs: "prefix (xs @ bs) (wire_bytes lib (ss_config s) fs)"
  defines "s' \<equiv> on_transport_bytes lib now bs s"
  shows "has_read lib f fs out tk wr (xs @ bs) s' \<and> kept s s'"
proof -
  obtain ds d where d: "channel_parse lib (ss_config s) xs = Inr (ds, d)" "reading lib f fs out tk wr ds d s"
    using r unfolding has_read_def by blast
  obtain es d' where e: "channel_parse lib (ss_config s) (xs @ bs) = Inr (es, d')" "prefix es (plain_bytes (ss_config s) fs)"
    using channel_parse_prefix [OF unc xs] by blast
  have "reading lib f fs out tk wr es d' s' \<and> kept s s'"
  proof (cases "ss_closed s \<or> bs = []")
    case True
    then have "s' = s" by (simp add: s'_def on_transport_bytes_def)
    moreover have "es = ds \<and> d' = d" if "bs = []" using that d(1) e(1) by simp
    ultimately show ?thesis using True d(2) reading_closed [OF d(2)] by auto
  next
    case False
    let ?t = "s \<lparr> ss_last_activity := now \<rparr>"
    have t: "reading lib f fs out tk wr ds d ?t" "kept s ?t" using reading_input(1) [OF d(2)] by (simp_all add: kept_def)
    show ?thesis
    proof (cases "cfg_nocomp (ss_config s)")
      case True
      then have s': "s' = consume_stream_bytes lib bs ?t" using False by (simp add: s'_def on_transport_bytes_def)
      have "es = ds @ bs" "d' = d" using True d(1) e(1) by (simp_all add: channel_parse_def)
      then show ?thesis
        using reading_piece [OF t(1) f, of bs] fs e(2) kept_trans [OF t(2)] by (simp add: s')
    next
      case comp: False
      obtain pieces where p: "snappy_decode (sl_uncompress lib) bs d = Inr (pieces, d')" "es = ds @ concat pieces"
        using channel_parse_more [OF d(1) e(1) comp] by blast
      have "ss_decompressor s = d" using reading_open [OF d(2)] False by simp
      then have s': "s' = foldl (\<lambda>s chunk. consume_stream_bytes lib chunk s) (?t \<lparr> ss_decompressor := d' \<rparr>) pieces"
        using False comp p(1) by (simp add: s'_def on_transport_bytes_def Let_def)
      have "kept s (?t \<lparr> ss_decompressor := d' \<rparr>)" by (simp add: kept_def)
      then show ?thesis
        using reading_pieces [OF reading_input(2) [OF t(1)] f, of d' pieces] fs e(2) kept_trans
        unfolding s' p(2) by auto
    qed
  qed
  then show ?thesis using e(1) by (auto simp: has_read_def kept_def)
qed

section \<open>Room in the receive buffer\<close>

text \<open>
  Between two reads the receive buffer holds less than a frame of the largest size. So a
  buffer with room for one more piece (a chunk of the Snappy stream, or a whole read when
  the stream is not compressed) is never overrun.
\<close>

definition largest_rest :: nat where
  "largest_rest = 65542"

definition room_for :: "base_config \<Rightarrow> nat \<Rightarrow> bool" where
  "room_for config n \<longleftrightarrow>
     int (largest_rest + (if cfg_nocomp config then n else max_uncompressed_chunk)) \<le> max 1 (cfg_smuxbuf config)"

lemma waiting_frame_small:
  assumes "next_frame v buffer = None"
  shows "length buffer \<le> largest_rest"
proof -
  have "length buffer < smux_header_size + unat (read_le16 buffer 2)"
    using assms by (auto simp: next_frame_def Let_def split: if_splits option.splits)
  then show ?thesis
    using unat_u16_less [of "read_le16 buffer 2"] unfolding smux_header_size_def largest_rest_def by linarith
qed

text \<open>
  The input side of an open session is a function of the bytes read: the frames handled,
  what is left in the receive buffer, and the state of the decompressor.
\<close>

definition parsed :: "smux_lib \<Rightarrow> base_config \<Rightarrow> bytes \<Rightarrow> (frame list \<times> bytes \<times> snappy_decoder) option" where
  "parsed lib config xs =
     (case channel_parse lib config xs of
        Inl e \<Rightarrow> None
      | Inr (ds, d) \<Rightarrow>
          (case frame_loop (cfg_smuxver config) () ds of
             Inl e \<Rightarrow> None
           | Inr (u, inp, rest) \<Rightarrow> Some (inp, rest, d)))"

definition in_step :: "smux_lib \<Rightarrow> bytes \<Rightarrow> frame list \<Rightarrow> smux_session \<Rightarrow> bool" where
  "in_step lib xs inp s \<longleftrightarrow> \<not> ss_closed s \<and>
     parsed lib (ss_config s) xs = Some (inp, ss_receive_buffer s, ss_decompressor s)"

lemma in_stepE:
  assumes "in_step lib xs inp s"
  obtains ds where "channel_parse lib (ss_config s) xs = Inr (ds, ss_decompressor s)"
    "frame_loop (cfg_smuxver (ss_config s)) () ds = Inr ((), inp, ss_receive_buffer s)" "\<not> ss_closed s"
  using assms by (auto simp: in_step_def parsed_def split: sum.splits)

text \<open>A piece that fits is parsed and its frames are handled, no more and no less.\<close>

lemma piece_exact:
  assumes op: "\<not> ss_closed s"
    and inp: "frame_loop (cfg_smuxver (ss_config s)) () ds = Inr ((), inp, ss_receive_buffer s)"
    and fs: "\<forall>f \<in> set fs. frame_allowed (cfg_smuxver (ss_config s)) f"
    and ds: "prefix (ds @ piece) (plain_bytes (ss_config s) fs)"
    and room: "int (largest_rest + length piece) \<le> max 1 (cfg_smuxbuf (ss_config s))"
  shows "\<exists>gs rest. consume_stream_bytes lib piece s =
      with_input rest (ss_decompressor s) (ss_last_activity s) (handle_frames lib gs s) \<and>
    frame_loop (cfg_smuxver (ss_config s)) () (ds @ piece) = Inr ((), inp @ gs, rest)"
proof -
  let ?v = "cfg_smuxver (ss_config s)"
  let ?t = "with_input (ss_receive_buffer s @ piece) (ss_decompressor s) (ss_last_activity s) s"
  have "frame_step ?v () (ss_receive_buffer s) = None" using inp by (rule frames.loop_rest)
  then have "length (ss_receive_buffer s) \<le> largest_rest"
    by (intro waiting_frame_small) (auto simp: frame_step_def split: option.splits sum.splits)
  then have fit: "\<not> int (length (ss_receive_buffer s) + length piece) > max 1 (cfg_smuxbuf (ss_config s))"
    using room by linarith
  obtain inp' rest where all: "frame_loop ?v () (ds @ piece) = Inr ((), inp', rest)"
    using frame_loop_prefix [OF fs ds] by blast
  then obtain gs where gs: "frame_loop ?v () (ss_receive_buffer s @ piece) = Inr ((), gs, rest)" "inp' = inp @ gs"
    using inp frames.loop_append [of ?v "()" ds piece] by (auto split: sum.splits)
  have "consume_stream_bytes lib piece s = consume_loop lib ?t"
    unfolding consume_stream_bytes_def if_not_P [OF fit] by (simp add: with_buffer_eq)
  also have "\<dots> = with_input rest (ss_decompressor s) (ss_last_activity s) (handle_frames lib gs s)"
    using consume_loop_frames [of ?t "()" "()" gs rest lib] gs(1) op by (simp add: handle_frames_with_input)
  finally show ?thesis using all gs(2) by blast
qed

lemma pieces_exact:
  assumes "\<not> ss_closed s"
    and "frame_loop (cfg_smuxver (ss_config s)) () ds = Inr ((), inp, ss_receive_buffer s)"
    and "\<forall>f \<in> set fs. frame_allowed (cfg_smuxver (ss_config s)) f"
    and "prefix (ds @ concat pieces) (plain_bytes (ss_config s) fs)"
    and "\<forall>p \<in> set pieces. int (largest_rest + length p) \<le> max 1 (cfg_smuxbuf (ss_config s))"
  shows "\<exists>gs rest. foldl (\<lambda>s chunk. consume_stream_bytes lib chunk s) s pieces =
      with_input rest (ss_decompressor s) (ss_last_activity s) (handle_frames lib gs s) \<and>
    frame_loop (cfg_smuxver (ss_config s)) () (ds @ concat pieces) = Inr ((), inp @ gs, rest)"
  using assms
proof (induction pieces arbitrary: ds inp s)
  case Nil
  then show ?case by (intro exI [of _ "[]"] exI [of _ "ss_receive_buffer s"]) simp
next
  case (Cons p ps)
  have "prefix (ds @ p) (plain_bytes (ss_config s) fs)"
    using Cons(5) by (auto intro: prefix_order.trans [rotated])
  then obtain gs rest where one: "consume_stream_bytes lib p s =
      with_input rest (ss_decompressor s) (ss_last_activity s) (handle_frames lib gs s)"
    "frame_loop (cfg_smuxver (ss_config s)) () (ds @ p) = Inr ((), inp @ gs, rest)"
    using piece_exact [OF Cons(2-4)] Cons(6) by (meson list.set_intros(1))
  show ?case
    using Cons.IH [of "with_input rest (ss_decompressor s) (ss_last_activity s) (handle_frames lib gs s)" "ds @ p" "inp @ gs"]
      one Cons(2,4-6)
    by (auto simp: handle_frames_with_input simp flip: handle_frames_append)
qed

text \<open>The chunks of an honest encoder are small.\<close>

lemma parsed_chunks_small:
  assumes unc: "\<And>x. sl_uncompress lib (sl_compress lib x) = Some x" and "\<not> cfg_nocomp config"
    and "prefix xs (wire_bytes lib config fs)" "snappy_loop (sl_uncompress lib) False xs = Inr (saw, pieces, rest)"
  shows "\<forall>p \<in> set pieces. length p \<le> max_uncompressed_chunk"
proof (cases "fs = []")
  case True
  then have "xs = []" using assms(2,3) by (simp add: wire_bytes_def)
  then show ?thesis using assms(4) by (simp add: snappy_loop_Nil)
next
  case False
  let ?unc = "sl_uncompress lib"
  obtain ys where ys: "wire_bytes lib config fs = xs @ ys" using assms(3) by (auto simp: prefix_def)
  obtain all where all: "\<forall>p \<in> set all. length p \<le> max_uncompressed_chunk"
    "snappy_loop ?unc False (concat (fst (snappy_encode_list (sl_compress lib) (map (frame_bytes (cfg_smuxver config)) fs) False))) =
       Inr (True, all, [])"
    using encoded_stream_loop [of ?unc "sl_compress lib" "map (frame_bytes (cfg_smuxver config)) fs"] unc False by auto
  then have "snappy_loop ?unc False (xs @ ys) = Inr (True, all, [])"
    using ys assms(2) by (simp add: wire_bytes_def Let_def)
  then show ?thesis
    using all(1) assms(4) snappy.loop_append [of ?unc False xs ys] by (auto split: sum.splits)
qed

lemma transport_exact:
  assumes unc: "\<And>x. sl_uncompress lib (sl_compress lib x) = Some x"
    and st: "in_step lib xs inp s"
    and fs: "\<forall>f \<in> set fs. frame_allowed (cfg_smuxver (ss_config s)) f"
    and xs: "prefix (xs @ bs) (wire_bytes lib (ss_config s) fs)"
    and room: "room_for (ss_config s) (length bs)"
  shows "\<exists>gs b d t. on_transport_bytes lib now bs s = with_input b d t (handle_frames lib gs s) \<and>
    in_step lib (xs @ bs) (inp @ gs) (on_transport_bytes lib now bs s)"
proof (cases "bs = []")
  case True
  then have "on_transport_bytes lib now bs s = s" by (simp add: on_transport_bytes_def)
  then show ?thesis
    using st True by (intro exI [of _ "[]"] exI [of _ "ss_receive_buffer s"] exI [of _ "ss_decompressor s"] exI [of _ "ss_last_activity s"]) simp
next
  case False
  let ?v = "cfg_smuxver (ss_config s)"
  obtain ds where d: "channel_parse lib (ss_config s) xs = Inr (ds, ss_decompressor s)"
    "frame_loop ?v () ds = Inr ((), inp, ss_receive_buffer s)" and op: "\<not> ss_closed s"
    using st by (rule in_stepE)
  obtain es d' where e: "channel_parse lib (ss_config s) (xs @ bs) = Inr (es, d')" "prefix es (plain_bytes (ss_config s) fs)"
    using channel_parse_prefix [OF unc xs] by blast
  let ?t = "with_input (ss_receive_buffer s) d' now s"
  have "\<exists>pieces. on_transport_bytes lib now bs s = foldl (\<lambda>s chunk. consume_stream_bytes lib chunk s) ?t pieces \<and>
      es = ds @ concat pieces \<and> (\<forall>p \<in> set pieces. int (largest_rest + length p) \<le> max 1 (cfg_smuxbuf (ss_config s)))"
  proof (cases "cfg_nocomp (ss_config s)")
    case True
    then have "es = ds @ bs" "d' = ss_decompressor s" using d(1) e(1) by (simp_all add: channel_parse_def)
    then show ?thesis
      using True room op False
      by (intro exI [of _ "[bs]"]) (simp add: on_transport_bytes_def room_for_def activity_eq)
  next
    case comp: False
    obtain pieces where p: "snappy_decode (sl_uncompress lib) bs (ss_decompressor s) = Inr (pieces, d')" "es = ds @ concat pieces"
      using channel_parse_more [OF d(1) e(1) comp] by blast
    obtain saw ps rest where loop: "snappy_loop (sl_uncompress lib) False (xs @ bs) = Inr (saw, ps, rest)"
      using e(1) comp by (auto simp: channel_parse_def split: sum.splits)
    have "set pieces \<subseteq> set ps" by (rule channel_parse_chunks [OF d(1) loop p(1) comp])
    then have "\<forall>p \<in> set pieces. length p \<le> max_uncompressed_chunk"
      using parsed_chunks_small [OF unc comp xs loop] by blast
    then have "\<forall>p \<in> set pieces. int (largest_rest + length p) \<le> max 1 (cfg_smuxbuf (ss_config s))"
      using room comp by (fastforce simp: room_for_def)
    moreover have "on_transport_bytes lib now bs s = foldl (\<lambda>s chunk. consume_stream_bytes lib chunk s) ?t pieces"
      using False comp p(1) op by (simp add: on_transport_bytes_def activity_eq)
    ultimately show ?thesis using p(2) by blast
  qed
  then obtain pieces where p: "on_transport_bytes lib now bs s = foldl (\<lambda>s chunk. consume_stream_bytes lib chunk s) ?t pieces"
    "es = ds @ concat pieces" "\<forall>p \<in> set pieces. int (largest_rest + length p) \<le> max 1 (cfg_smuxbuf (ss_config s))"
    by blast
  obtain gs rest where g: "foldl (\<lambda>s chunk. consume_stream_bytes lib chunk s) ?t pieces = with_input rest d' now (handle_frames lib gs ?t)"
    "frame_loop ?v () es = Inr ((), inp @ gs, rest)"
    using pieces_exact [of ?t ds inp fs pieces lib] op d(2) fs e(2) p(2,3) by auto
  then have eq: "on_transport_bytes lib now bs s = with_input rest d' now (handle_frames lib gs s)"
    using p(1) by (simp add: handle_frames_with_input)
  have "in_step lib (xs @ bs) (inp @ gs) (on_transport_bytes lib now bs s)"
    using e(1) g(2) op by (simp add: eq in_step_def parsed_def)
  then show ?thesis using eq by blast
qed

lemma session_part_resolve [simp]: "session_part (fail_and_close lib m h s) = session_part s"
  by (simp add: fail_and_close_def)

lemma read_handler_part: "session_part (read_handler lib h n s) = session_part s"
  by (simp add: read_handler_def Let_def)

lemma write_handler_part: "session_part (write_handler lib h err n s) = session_part s"
  by (simp add: write_handler_def Let_def split: option.split)

lemma connect_handler_part: "session_part (connect_handler lib h failed s) = session_part s"
  by (simp add: connect_handler_def Let_def)

text \<open>A local event closes the session or leaves its input side alone.\<close>

lemma local_step_input:
  assumes "smux_step lib s ev s'" "local_event ev"
  shows "kept s s' \<and> (ss_closed s' \<or> \<not> ss_closed s \<and> ss_receive_buffer s' = ss_receive_buffer s \<and> ss_decompressor s' = ss_decompressor s)"
proof -
  have part: ?thesis if "session_part s' = session_part s"
    using kept_part [OF that] static_fields [OF that] by simp
  show ?thesis
    using assms(1)
  proof (cases rule: smux_step.cases)
    case (keepalive now)
    let ?t = "send_frame lib Cmd_nop 0 [] s"
    have "kept s (session_close lib ?t) \<and> ss_closed (session_close lib ?t)"
      using session_close_kept [of ?t lib] kept_trans [OF kept_part [of ?t s]] by simp
    moreover have "session_part (start_keepalive_timer ?t) = session_part s"
      by (simp add: start_keepalive_timer_def)
    moreover have "s' = s \<or> s' = session_close lib ?t \<or> s' = start_keepalive_timer ?t"
      by (simp add: keepalive keepalive_tick_def Let_def)
    ultimately show ?thesis using part kept_refl by auto
  qed (use assms(2) part session_close_kept in \<open>simp_all add: local_event_def read_handler_part write_handler_part
      connect_handler_part read_error_def resolve_handler_def kept_def\<close>)
qed

lemma has_read_local:
  assumes "has_read lib f fs out tk wr xs s" "smux_step lib s ev s'" "local_event ev"
  shows "has_read lib f fs out (note_taken s ev tk) (note_written s ev wr) xs s' \<and> kept s s'"
proof -
  obtain ds d inp where r: "channel_parse lib (ss_config s) xs = Inr (ds, d)" "prefix inp fs" "evolved lib (f inp) inp out tk wr s"
    "\<not> ss_closed s \<longrightarrow> ss_decompressor s = d \<and>
       frame_loop (cfg_smuxver (ss_config s)) () ds = Inr ((), inp, ss_receive_buffer s)"
    using assms(1) unfolding has_read_def reading_def by blast
  have "evolved lib (f inp) inp out (note_taken s ev tk) (note_written s ev wr) s'"
    using r(3) by (rule evolved_step) (rule evolved_local_step [OF assms(2) _ assms(3)])
  then show ?thesis
    using r local_step_input [OF assms(2,3)] by (auto simp: has_read_def reading_def kept_def)
qed

text \<open>The frames sent so far, exactly.\<close>

lemma has_read_sent:
  assumes "has_read lib f fs out tk wr xs s"
  shows "\<exists>gs. syn_ids gs = [] \<and> has_read lib f fs (out @ gs) tk wr xs s \<and> frames_sent lib (out @ gs) s \<and>
    (\<exists>inp. prefix inp fs \<and> psh_ids (out @ gs) \<subseteq> set (f inp))"
proof -
  obtain ds d inp where r: "channel_parse lib (ss_config s) xs = Inr (ds, d)" "prefix inp fs" "evolved lib (f inp) inp out tk wr s"
    "\<not> ss_closed s \<longrightarrow> ss_decompressor s = d \<and>
       frame_loop (cfg_smuxver (ss_config s)) () ds = Inr ((), inp, ss_receive_buffer s)"
    using assms(1) unfolding has_read_def reading_def by blast
  obtain gs where gs: "syn_ids gs = []" "traced lib (f inp) inp (out @ gs) tk wr s"
    using r(3) unfolding evolved_def by blast
  have "reading lib f fs (out @ gs) tk wr ds d s"
    unfolding reading_def using r(2,4) traced_evolved [OF gs(2)] by blast
  then have "has_read lib f fs (out @ gs) tk wr xs s" using r(1) unfolding has_read_def by blast
  moreover have "frames_sent lib (out @ gs) s \<and> psh_ids (out @ gs) \<subseteq> set (f inp)"
    using gs(2) traced_psh_ids [OF gs(2)] by (simp add: traced_def)
  ultimately show ?thesis using gs(1) r(2) by blast
qed

lemma has_read_grows: "has_read lib f fs out tk wr xs s \<Longrightarrow> has_read lib f (fs @ gs) out tk wr xs s"
  unfolding has_read_def reading_def by (blast intro: prefix_prefix)

section \<open>The link\<close>

text \<open>
  \<open>taken\<close> and \<open>written\<close> record, for each stream object, the bytes taken from and written to
  its socket; \<open>got\<close> is the number of bytes received of those the peer has sent.
\<close>

record smux_link =
  ln_client :: smux_session
  ln_server :: smux_session
  ln_client_got :: nat
  ln_server_got :: nat
  ln_client_taken :: "nat \<Rightarrow> bytes"
  ln_client_written :: "nat \<Rightarrow> bytes"
  ln_server_taken :: "nat \<Rightarrow> bytes"
  ln_server_written :: "nat \<Rightarrow> bytes"

inductive link_step :: "smux_lib \<Rightarrow> smux_link \<Rightarrow> smux_link \<Rightarrow> bool" for lib where
  client_opens: "smux_step lib (ln_client l) (Ev_open u) s \<Longrightarrow> link_step lib l (l \<lparr> ln_client := s \<rparr>)"
| client_acts: "smux_step lib (ln_client l) ev s \<Longrightarrow> local_event ev \<Longrightarrow>
    link_step lib l (l \<lparr> ln_client := s, ln_client_taken := note_taken (ln_client l) ev (ln_client_taken l),
      ln_client_written := note_written (ln_client l) ev (ln_client_written l) \<rparr>)"
| server_acts: "smux_step lib (ln_server l) ev s \<Longrightarrow> local_event ev \<Longrightarrow>
    link_step lib l (l \<lparr> ln_server := s, ln_server_taken := note_taken (ln_server l) ev (ln_server_taken l),
      ln_server_written := note_written (ln_server l) ev (ln_server_written l) \<rparr>)"
| client_reads: "bs = take n (drop (ln_client_got l) (sent_bytes (ln_server l))) \<Longrightarrow>
    smux_step lib (ln_client l) (Ev_transport now bs) s \<Longrightarrow>
    link_step lib l (l \<lparr> ln_client := s, ln_client_got := ln_client_got l + length bs \<rparr>)"
| server_reads: "bs = take n (drop (ln_server_got l) (sent_bytes (ln_client l))) \<Longrightarrow>
    smux_step lib (ln_server l) (Ev_transport now bs) s \<Longrightarrow>
    link_step lib l (l \<lparr> ln_server := s, ln_server_got := ln_server_got l + length bs \<rparr>)"

text \<open>The steps that only read: an end takes in bytes its peer has sent.\<close>

inductive link_reads :: "smux_lib \<Rightarrow> smux_link \<Rightarrow> smux_link \<Rightarrow> bool" for lib where
  client: "bs = take n (drop (ln_client_got l) (sent_bytes (ln_server l))) \<Longrightarrow>
    smux_step lib (ln_client l) (Ev_transport now bs) s \<Longrightarrow>
    link_reads lib l (l \<lparr> ln_client := s, ln_client_got := ln_client_got l + length bs \<rparr>)"
| server: "bs = take n (drop (ln_server_got l) (sent_bytes (ln_client l))) \<Longrightarrow>
    smux_step lib (ln_server l) (Ev_transport now bs) s \<Longrightarrow>
    link_reads lib l (l \<lparr> ln_server := s, ln_server_got := ln_server_got l + length bs \<rparr>)"

lemma link_reads_step: "link_reads lib l l' \<Longrightarrow> link_step lib l l'"
  by (induction rule: link_reads.induct) (blast intro: link_step.intros)+

text \<open>The settings the two ends must share.\<close>

definition same_channel :: "base_config \<Rightarrow> base_config \<Rightarrow> bool" where
  "same_channel ca cb \<longleftrightarrow> cfg_smuxver ca = cfg_smuxver cb \<and> cfg_nocomp ca = cfg_nocomp cb \<and> cfg_key ca = cfg_key cb \<and>
     cfg_qpp ca = cfg_qpp cb \<and> cfg_qpp_count ca = cfg_qpp_count cb"

definition new_link :: "smux_session \<Rightarrow> smux_session \<Rightarrow> smux_link" where
  "new_link a b = \<lparr> ln_client = a, ln_server = b, ln_client_got = 0, ln_server_got = 0,
     ln_client_taken = (\<lambda>_. []), ln_client_written = (\<lambda>_. []), ln_server_taken = (\<lambda>_. []), ln_server_written = (\<lambda>_. []) \<rparr>"

inductive link_reachable :: "smux_lib \<Rightarrow> smux_link \<Rightarrow> bool" for lib where
  start: "same_channel ca cb \<Longrightarrow> initial_session lib ca True ch None now = Inr a \<Longrightarrow>
    initial_session lib cb False ch' (Some target) now' = Inr b \<Longrightarrow> link_reachable lib (new_link a b)"
| step: "link_reachable lib l \<Longrightarrow> link_step lib l l' \<Longrightarrow> link_reachable lib l'"

section \<open>The invariant of the link\<close>

text \<open>\<open>oa\<close> and \<open>ob\<close> are the frames the client and the server have sent.\<close>

definition link_facts :: "smux_lib \<Rightarrow> frame list \<Rightarrow> frame list \<Rightarrow> smux_link \<Rightarrow> bool" where
  "link_facts lib oa ob l \<longleftrightarrow>
     same_channel (ss_config (ln_client l)) (ss_config (ln_server l)) \<and>
     ss_qpp_pad (ln_client l) = ss_qpp_pad (ln_server l) \<and> pad_or_plain (ss_qpp_pad (ln_server l)) \<and>
     has_read lib (\<lambda>_. syn_ids oa) ob oa (ln_client_taken l) (ln_client_written l)
       (take (ln_client_got l) (sent_bytes (ln_server l))) (ln_client l) \<and>
     has_read lib syn_ids oa ob (ln_server_taken l) (ln_server_written l)
       (take (ln_server_got l) (sent_bytes (ln_client l))) (ln_server l) \<and>
     frames_sent lib oa (ln_client l) \<and> frames_sent lib ob (ln_server l) \<and>
     ln_client_got l \<le> length (sent_bytes (ln_server l)) \<and> ln_server_got l \<le> length (sent_bytes (ln_client l)) \<and>
     opens_first oa \<and> syn_ids ob = [] \<and> psh_ids ob \<subseteq> set (syn_ids oa) \<and>
     (\<forall>i \<in> set (syn_ids oa). unat i \<le> unat (ss_next_stream_id (ln_client l)))"

definition link_inv :: "smux_lib \<Rightarrow> smux_link \<Rightarrow> bool" where
  "link_inv lib l \<longleftrightarrow> (\<exists>oa ob. link_facts lib oa ob l)"

lemma opens_first_more:
  assumes "opens_first fs" "distinct (syn_ids (fs @ gs))" "psh_ids gs \<subseteq> set (syn_ids fs)"
  shows "opens_first (fs @ gs)"
  unfolding opens_first_def
proof (intro conjI allI impI)
  fix xs
  assume "prefix xs (fs @ gs)"
  then consider "prefix xs fs" | ys where "xs = fs @ ys" "prefix ys gs" by (auto simp: prefix_append)
  then show "psh_ids xs \<subseteq> set (syn_ids xs)"
  proof cases
    case 1
    then show ?thesis using assms(1) by (simp add: opens_first_def)
  next
    case 2
    then have "psh_ids ys \<subseteq> psh_ids gs" "psh_ids fs \<subseteq> set (syn_ids fs)"
      using assms(1) by (auto simp: prefix_def opens_first_def)
    then show ?thesis using 2 assms(3) by auto
  qed
qed (rule assms(2))

lemma wire_same_channel: "same_channel ca cb \<Longrightarrow> wire_bytes lib ca fs = wire_bytes lib cb fs"
  by (simp add: wire_bytes_def same_channel_def)

lemma sent_grows:
  assumes "frames_sent lib fs s" "frames_sent lib (fs @ gs) s'" "kept s s' \<or> ss_config s' = ss_config s"
  shows "prefix (sent_bytes s) (sent_bytes s')"
  using assms wire_bytes_prefix [of lib "ss_config s" fs gs] by (auto simp: frames_sent_def kept_def)

lemma take_prefix_same: "prefix xs ys \<Longrightarrow> n \<le> length xs \<Longrightarrow> take n ys = take n xs"
  by (auto simp: prefix_def)

text \<open>Either end may be replaced by its successor.\<close>

lemma link_inv_client:
  assumes f: "link_facts lib oa ob l" and k: "kept (ln_client l) s"
    and r: "has_read lib (\<lambda>_. syn_ids oa) ob oa tk wr (take n (sent_bytes (ln_server l))) s"
    and n: "n \<le> length (sent_bytes (ln_server l))"
  shows "link_inv lib (l \<lparr> ln_client := s, ln_client_got := n, ln_client_taken := tk, ln_client_written := wr \<rparr>)"
proof -
  obtain gs inp where gs: "syn_ids gs = []" "has_read lib (\<lambda>_. syn_ids oa) ob (oa @ gs) tk wr (take n (sent_bytes (ln_server l))) s"
    "frames_sent lib (oa @ gs) s" "psh_ids (oa @ gs) \<subseteq> set (syn_ids oa)"
    using has_read_sent [OF r] by blast
  have grow: "prefix (sent_bytes (ln_client l)) (sent_bytes s)"
    using sent_grows [OF _ gs(3)] f k by (simp add: link_facts_def)
  have old: "ln_server_got l \<le> length (sent_bytes (ln_client l))" using f by (simp add: link_facts_def)
  have "opens_first (oa @ gs)"
    using f gs(1,4) by (intro opens_first_more) (auto simp: link_facts_def opens_first_def)
  moreover have "has_read lib syn_ids (oa @ gs) ob (ln_server_taken l) (ln_server_written l)
       (take (ln_server_got l) (sent_bytes s)) (ln_server l)"
    unfolding take_prefix_same [OF grow old] using f by (intro has_read_grows) (simp add: link_facts_def)
  moreover have "ln_server_got l \<le> length (sent_bytes s)" using old prefix_length_le [OF grow] by simp
  ultimately have "link_facts lib (oa @ gs) ob
      (l \<lparr> ln_client := s, ln_client_got := n, ln_client_taken := tk, ln_client_written := wr \<rparr>)"
    using f gs k n by (simp add: link_facts_def kept_def)
  then show ?thesis unfolding link_inv_def by blast
qed

lemma link_inv_server:
  assumes f: "link_facts lib oa ob l" and k: "kept (ln_server l) s"
    and r: "has_read lib syn_ids oa ob tk wr (take n (sent_bytes (ln_client l))) s"
    and n: "n \<le> length (sent_bytes (ln_client l))"
  shows "link_inv lib (l \<lparr> ln_server := s, ln_server_got := n, ln_server_taken := tk, ln_server_written := wr \<rparr>)"
proof -
  obtain gs inp where gs: "syn_ids gs = []" "has_read lib syn_ids oa (ob @ gs) tk wr (take n (sent_bytes (ln_client l))) s"
    "frames_sent lib (ob @ gs) s" "prefix inp oa" "psh_ids (ob @ gs) \<subseteq> set (syn_ids inp)"
    using has_read_sent [OF r] by blast
  have grow: "prefix (sent_bytes (ln_server l)) (sent_bytes s)"
    using sent_grows [OF _ gs(3)] f k by (simp add: link_facts_def)
  have old: "ln_client_got l \<le> length (sent_bytes (ln_server l))" using f by (simp add: link_facts_def)
  have "psh_ids (ob @ gs) \<subseteq> set (syn_ids oa)" using gs(4,5) by (auto simp: prefix_def)
  moreover have "has_read lib (\<lambda>_. syn_ids oa) (ob @ gs) oa (ln_client_taken l) (ln_client_written l)
       (take (ln_client_got l) (sent_bytes s)) (ln_client l)"
    unfolding take_prefix_same [OF grow old] using f by (intro has_read_grows) (simp add: link_facts_def)
  moreover have "ln_client_got l \<le> length (sent_bytes s)" using old prefix_length_le [OF grow] by simp
  ultimately have "link_facts lib oa (ob @ gs)
      (l \<lparr> ln_server := s, ln_server_got := n, ln_server_taken := tk, ln_server_written := wr \<rparr>)"
    using f gs k n by (simp add: link_facts_def kept_def)
  then show ?thesis unfolding link_inv_def by blast
qed

lemma take_more: "take n (drop m xs) = bs \<Longrightarrow> m \<le> length xs \<Longrightarrow>
    take m xs @ bs = take (m + length bs) xs \<and> m + length bs \<le> length xs"
  by (auto simp: take_add min_def)

lemma link_inv_client_reads:
  assumes unc: "\<And>x. sl_uncompress lib (sl_compress lib x) = Some x" and f: "link_facts lib oa ob l"
    and bs: "bs = take n (drop (ln_client_got l) (sent_bytes (ln_server l)))"
  shows "link_inv lib (l \<lparr> ln_client := on_transport_bytes lib now bs (ln_client l), ln_client_got := ln_client_got l + length bs \<rparr>)"
proof -
  let ?a = "ln_client l" and ?b = "ln_server l" and ?m = "ln_client_got l"
  have m: "?m \<le> length (sent_bytes ?b)" using f by (simp add: link_facts_def)
  note more = take_more [OF bs [symmetric] m]
  have sent: "sent_bytes ?b = wire_bytes lib (ss_config ?a) ob" "\<forall>f \<in> set ob. frame_allowed (cfg_smuxver (ss_config ?a)) f"
    using f wire_same_channel [of "ss_config ?a" "ss_config ?b" lib ob]
    by (auto simp: link_facts_def frames_sent_def same_channel_def)
  have "opener (\<lambda>_. syn_ids oa) ob" using f by (auto simp: link_facts_def opener_def)
  moreover have "prefix (take ?m (sent_bytes ?b) @ bs) (wire_bytes lib (ss_config ?a) ob)"
    using more sent(1) take_is_prefix by metis
  moreover have "has_read lib (\<lambda>_. syn_ids oa) ob oa (ln_client_taken l) (ln_client_written l) (take ?m (sent_bytes ?b)) ?a"
    using f by (simp add: link_facts_def)
  ultimately have "has_read lib (\<lambda>_. syn_ids oa) ob oa (ln_client_taken l) (ln_client_written l) (take ?m (sent_bytes ?b) @ bs)
      (on_transport_bytes lib now bs ?a) \<and> kept ?a (on_transport_bytes lib now bs ?a)"
    by (intro has_read_more [OF unc _ _ sent(2)])
  then show ?thesis
    using link_inv_client [OF f, of "on_transport_bytes lib now bs ?a" "ln_client_taken l" "ln_client_written l" "?m + length bs"] more
    by simp
qed

lemma link_inv_server_reads:
  assumes unc: "\<And>x. sl_uncompress lib (sl_compress lib x) = Some x" and f: "link_facts lib oa ob l"
    and bs: "bs = take n (drop (ln_server_got l) (sent_bytes (ln_client l)))"
  shows "link_inv lib (l \<lparr> ln_server := on_transport_bytes lib now bs (ln_server l), ln_server_got := ln_server_got l + length bs \<rparr>)"
proof -
  let ?a = "ln_client l" and ?b = "ln_server l" and ?m = "ln_server_got l"
  have m: "?m \<le> length (sent_bytes ?a)" using f by (simp add: link_facts_def)
  note more = take_more [OF bs [symmetric] m]
  have sent: "sent_bytes ?a = wire_bytes lib (ss_config ?b) oa" "\<forall>f \<in> set oa. frame_allowed (cfg_smuxver (ss_config ?b)) f"
    using f wire_same_channel [of "ss_config ?a" "ss_config ?b" lib oa]
    by (auto simp: link_facts_def frames_sent_def same_channel_def)
  have "opener syn_ids oa" using f by (auto simp: link_facts_def opener_def)
  moreover have "prefix (take ?m (sent_bytes ?a) @ bs) (wire_bytes lib (ss_config ?b) oa)"
    using more sent(1) take_is_prefix by metis
  moreover have "has_read lib syn_ids oa ob (ln_server_taken l) (ln_server_written l) (take ?m (sent_bytes ?a)) ?b"
    using f by (simp add: link_facts_def)
  ultimately have "has_read lib syn_ids oa ob (ln_server_taken l) (ln_server_written l) (take ?m (sent_bytes ?a) @ bs)
      (on_transport_bytes lib now bs ?b) \<and> kept ?b (on_transport_bytes lib now bs ?b)"
    by (intro has_read_more [OF unc _ _ sent(2)])
  then show ?thesis
    using link_inv_server [OF f, of "on_transport_bytes lib now bs ?b" "ln_server_taken l" "ln_server_written l" "?m + length bs"] more
    by simp
qed

lemma open_session_part:
  assumes "open_stream lib s = Inr (h, s')"
  shows "session_part (start_client u h s') = session_part (s \<lparr> ss_next_stream_id := ss_next_stream_id s + 2 \<rparr>)"
    and "unat (ss_next_stream_id s + 2) = unat (ss_next_stream_id s) + 2"
proof -
  have "session_part (start_client u h s') = session_part s'"
    using calm_start_client [of s' u h] by (simp add: calm_def)
  also have "\<dots> = session_part (s \<lparr> ss_next_stream_id := ss_next_stream_id s + 2 \<rparr>)"
    using assms by (auto simp: open_stream_def Let_def session_part_new_stream split: if_splits prod.splits)
  finally show "session_part (start_client u h s') = session_part (s \<lparr> ss_next_stream_id := ss_next_stream_id s + 2 \<rparr>)" .
  have "\<not> ss_next_stream_id s + 2 < ss_next_stream_id s" using assms by (auto simp: open_stream_def split: if_splits)
  then show "unat (ss_next_stream_id s + 2) = unat (ss_next_stream_id s) + 2"
    by (simp add: not_less unat_plus_simple)
qed

lemma link_inv_open:
  assumes f: "link_facts lib oa ob l" and o: "open_stream lib (ln_client l) = Inr (h, s')"
  shows "link_inv lib (l \<lparr> ln_client := start_client u h s' \<rparr>)"
proof -
  let ?a = "ln_client l" and ?b = "ln_server l" and ?s = "start_client u h s'"
  let ?sid = "ss_next_stream_id ?a + 2" and ?got = "take (ln_client_got l) (sent_bytes (ln_server l))"
  note fields = static_fields [OF open_session_part(1) [OF o, of u]]
  have "has_read lib (\<lambda>_. syn_ids oa) ob oa (ln_client_taken l) (ln_client_written l) ?got ?a"
    using f by (simp add: link_facts_def)
  then obtain ds d inp where r: "channel_parse lib (ss_config ?a) ?got = Inr (ds, d)" "prefix inp ob"
    "evolved lib (syn_ids oa) inp oa (ln_client_taken l) (ln_client_written l) ?a"
    "\<not> ss_closed ?a \<longrightarrow> ss_decompressor ?a = d \<and>
       frame_loop (cfg_smuxver (ss_config ?a)) () ds = Inr ((), inp, ss_receive_buffer ?a)"
    unfolding has_read_def reading_def by blast
  obtain gs where gs: "syn_ids gs = []" "traced lib (syn_ids oa) inp (oa @ gs) (ln_client_taken l) (ln_client_written l) ?a"
    using r(3) unfolding evolved_def by blast
  let ?oa = "(oa @ gs) @ [(Cmd_syn, ?sid, [])]"
  have fresh: "?sid \<notin> set (syn_ids oa)"
    using f open_session_part(2) [OF o] by (auto simp: link_facts_def)
  have "psh_ids inp \<subseteq> psh_ids ob" using r(2) by (auto simp: prefix_def)
  then have "?sid \<notin> psh_ids inp" using f fresh by (auto simp: link_facts_def)
  note t = traced_open [OF gs(2) o fresh this, of u]
  have sent: "frames_sent lib (oa @ (gs @ [(Cmd_syn, ?sid, [])])) ?s" using t by (simp add: traced_def)
  have grow: "prefix (sent_bytes ?a) (sent_bytes ?s)"
    using sent_grows [OF _ sent] f fields(1) by (simp add: link_facts_def)
  have old: "ln_server_got l \<le> length (sent_bytes ?a)" using f by (simp add: link_facts_def)
  have "has_read lib (\<lambda>_. syn_ids ?oa) ob ?oa (ln_client_taken l) (ln_client_written l) ?got ?s"
    unfolding has_read_def reading_def using r t gs(1)
    by (intro exI [of _ ds] exI [of _ d] conjI exI [of _ inp]) (simp_all add: fields traced_evolved)
  moreover have "has_read lib syn_ids ?oa ob (ln_server_taken l) (ln_server_written l) (take (ln_server_got l) (sent_bytes ?s)) ?b"
    unfolding take_prefix_same [OF grow old] append_assoc using f by (intro has_read_grows) (simp add: link_facts_def)
  moreover have "opens_first ?oa"
    unfolding append_assoc
  proof (rule opens_first_more)
    show "opens_first oa" using f by (simp add: link_facts_def)
    then show "distinct (syn_ids (oa @ gs @ [(Cmd_syn, ?sid, [])]))"
      using gs(1) fresh by (simp add: opens_first_def)
    show "psh_ids (gs @ [(Cmd_syn, ?sid, [])]) \<subseteq> set (syn_ids oa)"
      using traced_psh_ids [OF gs(2)] by simp
  qed
  moreover have "\<forall>i \<in> set (syn_ids ?oa). unat i \<le> unat (ss_next_stream_id ?s)"
    using f gs(1) open_session_part(2) [OF o] by (auto simp: fields link_facts_def)
  moreover have "ln_server_got l \<le> length (sent_bytes ?s)" using old prefix_length_le [OF grow] by simp
  ultimately have "link_facts lib ?oa ob (l \<lparr> ln_client := ?s \<rparr>)"
    using f sent gs(1) by (auto simp: link_facts_def fields)
  then show ?thesis unfolding link_inv_def by blast
qed

lemma link_inv_step:
  assumes unc: "\<And>x. sl_uncompress lib (sl_compress lib x) = Some x" and "link_inv lib l" "link_step lib l l'"
  shows "link_inv lib l'"
proof -
  obtain oa ob where f: "link_facts lib oa ob l" using assms(2) unfolding link_inv_def by blast
  have ra: "has_read lib (\<lambda>_. syn_ids oa) ob oa (ln_client_taken l) (ln_client_written l)
       (take (ln_client_got l) (sent_bytes (ln_server l))) (ln_client l)"
    and rb: "has_read lib syn_ids oa ob (ln_server_taken l) (ln_server_written l)
       (take (ln_server_got l) (sent_bytes (ln_client l))) (ln_server l)"
    and got: "ln_client_got l \<le> length (sent_bytes (ln_server l))" "ln_server_got l \<le> length (sent_bytes (ln_client l))"
    using f by (simp_all add: link_facts_def)
  show ?thesis
    using assms(3)
  proof (cases rule: link_step.cases)
    case (client_opens u s)
    from client_opens(2) show ?thesis
      by (cases rule: smux_step.cases) (use client_opens(1) link_inv_open [OF f] assms(2) in auto)
  next
    case (client_acts ev s)
    then show ?thesis
      using link_inv_client [OF f, where s = s and n = "ln_client_got l"] has_read_local [OF ra] got by simp
  next
    case (server_acts ev s)
    then show ?thesis
      using link_inv_server [OF f, where s = s and n = "ln_server_got l"] has_read_local [OF rb] got by simp
  next
    case (client_reads bs n now s)
    have "s = on_transport_bytes lib now bs (ln_client l)"
      using client_reads(3) by (cases rule: smux_step.cases) auto
    then show ?thesis using client_reads link_inv_client_reads [OF unc f] by simp
  next
    case (server_reads bs n now s)
    have "s = on_transport_bytes lib now bs (ln_server l)"
      using server_reads(3) by (cases rule: smux_step.cases) auto
    then show ?thesis using server_reads link_inv_server_reads [OF unc f] by simp
  qed
qed

lemma initial_session_fields:
  assumes "initial_session lib config client ch target now = Inr s"
  shows "ss_config s = config \<and> ss_receive_buffer s = [] \<and> ss_decompressor s = new_snappy_decoder \<and>
    (if cfg_qpp config
     then \<exists>pad. make_qpp_pad (sl_qpp lib) (string_bytes (cfg_key config)) (word_of_int (cfg_qpp_count config)) = Inr pad \<and> ss_qpp_pad s = Some pad
     else ss_qpp_pad s = None)"
proof -
  obtain s0 where s0: "make_smux_session lib config client ch now = Inr s0"
    "s = start_session (case target of None \<Rightarrow> s0 | Some t \<Rightarrow> set_accept_handler t s0)"
    using assms by (auto simp: initial_session_def split: sum.splits)
  then show ?thesis
    by (auto simp: make_smux_session_def Let_def start_session_def start_keepalive_timer_def emit_def set_accept_handler_def
        split: if_splits sum.splits option.splits)
qed

lemma has_read_initial:
  assumes "initial_session lib config client ch target now = Inr s" "f [] = []"
  shows "has_read lib f [] [] (\<lambda>_. []) (\<lambda>_. []) [] s"
proof -
  have "channel_parse lib (ss_config s) [] = Inr ([], new_snappy_decoder)"
    by (simp add: channel_parse_def snappy_loop_Nil new_snappy_decoder_def)
  moreover have "frame_loop (cfg_smuxver (ss_config s)) () [] = Inr ((), [], [])"
    using frame_loop_frames [of "[]"] by simp
  ultimately show ?thesis
    using traced_evolved [OF traced_initial [OF assms(1)]] initial_session_fields [OF assms(1)] assms(2)
    by (simp add: has_read_def reading_def)
qed

lemma link_reachable_inv:
  assumes "\<And>x. sl_uncompress lib (sl_compress lib x) = Some x" "qpp_documented (sl_qpp lib)" "link_reachable lib l"
  shows "link_inv lib l"
  using assms(3)
proof (induction rule: link_reachable.induct)
  case (start ca cb ch now a ch' target now' b)
  note a = initial_session_fields [OF start(2)] and b = initial_session_fields [OF start(3)]
  have "ss_qpp_pad a = ss_qpp_pad b" "pad_or_plain (ss_qpp_pad b)"
    using a b start(1) make_qpp_pad_ok [OF assms(2)] by (auto simp: same_channel_def pad_or_plain_def split: if_splits)
  then have "link_facts lib [] [] (new_link a b)"
    using start(1) a b has_read_initial [OF start(2)] has_read_initial [OF start(3)]
      traced_initial [OF start(2)] traced_initial [OF start(3)]
    by (simp add: link_facts_def new_link_def traced_def opens_first_def)
  then show ?case unfolding link_inv_def by blast
next
  case (step l l')
  then show ?case using link_inv_step [OF assms(1)] by blast
qed

section \<open>From one socket to the other\<close>

lemma through_take: "take n (fst (through g ps q)) = fst (through g (take n ps) q)"
  by (induction ps arbitrary: n q) (auto simp: take_Cons' Let_def split_def)

text \<open>What a stream has taken, and what its peer has made of it.\<close>

lemma traces_agree:
  assumes q: "pad_or_plain (qs_pad q0)" "qs_read_rand q0 = qs_write_rand q0"
    and s: "sender_trace q0 closed st W taken" and r: "receiver_trace q0 st' R written" and R: "prefix R W"
  shows "prefix (written @ concat (sm_pending_tcp_writes st')) taken"
    and "\<not> closed \<Longrightarrow> \<not> sm_closed st' \<Longrightarrow> R = W \<Longrightarrow>
      written @ concat (sm_pending_tcp_writes st') @ outbound st = taken"
proof -
  obtain pieces where p: "prefix W (fst (through qs_encrypt pieces q0))"
    "\<not> closed \<longrightarrow> W = fst (through qs_encrypt pieces q0)" "taken = concat pieces @ outbound st"
    using s unfolding sender_trace_def by blast
  obtain R' where R': "prefix R' R" "\<not> sm_closed st' \<longrightarrow> R' = R"
    "written @ concat (sm_pending_tcp_writes st') = concat (fst (through qs_decrypt R' q0))"
    using r unfolding receiver_trace_def by blast
  have "prefix R' (fst (through qs_encrypt pieces q0))"
    using R'(1) R p(1) prefix_order.trans by blast
  then have "R' = take (length R') (fst (through qs_encrypt pieces q0))" by (auto simp: prefix_def)
  then have "R' = fst (through qs_encrypt (take (length R') pieces) q0)" by (simp only: through_take)
  then have dec: "concat (fst (through qs_decrypt R' q0)) = concat (take (length R') pieces)"
    using qs_in_step(1) [OF refl q, of "take (length R') pieces"] by simp
  have "concat pieces = concat (take (length R') pieces) @ concat (drop (length R') pieces)"
    by (simp flip: concat_append)
  then show "prefix (written @ concat (sm_pending_tcp_writes st')) taken" unfolding R'(3) dec p(3) by simp
  assume "\<not> closed" "\<not> sm_closed st'" "R = W"
  then have "length R' = length pieces"
    using p R'(2) arg_cong [OF through_qs_encrypt_lengths, of length pieces q0] by simp
  then show "written @ concat (sm_pending_tcp_writes st') @ outbound st = taken"
    using R'(3) dec p(3) by (simp flip: append_assoc)
qed

text \<open>The bytes sent determine the frames.\<close>

lemma whole_frames:
  assumes "\<And>x. sl_uncompress lib (sl_compress lib x) = Some x"
    and "\<forall>f \<in> set fs. frame_allowed (cfg_smuxver config) f"
    and "channel_parse lib config (wire_bytes lib config fs) = Inr (ds, d)"
    and "frame_loop (cfg_smuxver config) () ds = Inr ((), inp, rest)"
  shows "inp = fs"
  using channel_parse_whole [OF assms(1), of config fs] frame_loop_frames [OF assms(2)] assms(3,4)
  by (simp add: plain_bytes_def)

lemma frames_sent_unique:
  assumes unc: "\<And>x. sl_uncompress lib (sl_compress lib x) = Some x" and "frames_sent lib fs s" "frames_sent lib gs s"
  shows "fs = gs"
proof -
  let ?c = "ss_config s"
  obtain d where "channel_parse lib ?c (wire_bytes lib ?c gs) = Inr (plain_bytes ?c gs, d)"
    using channel_parse_whole [OF unc] by blast
  moreover have "frame_loop (cfg_smuxver ?c) () (plain_bytes ?c gs) = Inr ((), gs, [])"
    using frame_loop_frames assms(3) by (simp add: plain_bytes_def frames_sent_def)
  moreover have wires: "wire_bytes lib ?c fs = wire_bytes lib ?c gs"
    using assms(2,3) unfolding frames_sent_def by metis
  moreover have "\<forall>f \<in> set fs. frame_allowed (cfg_smuxver ?c) f" using assms(2) unfolding frames_sent_def by blast
  ultimately have "gs = fs" using whole_frames [OF unc, of fs ?c, unfolded wires] by blast
  then show ?thesis ..
qed

lemma has_read_history:
  assumes unc: "\<And>x. sl_uncompress lib (sl_compress lib x) = Some x"
    and "has_read lib g fs out tk wr xs s" "frames_sent lib out s"
  shows "\<exists>inp. traced lib (g inp) inp out tk wr s \<and> prefix inp fs \<and>
    (\<not> ss_closed s \<longrightarrow> xs = wire_bytes lib (ss_config s) fs \<longrightarrow>
       (\<forall>f \<in> set fs. frame_allowed (cfg_smuxver (ss_config s)) f) \<longrightarrow> inp = fs)"
proof -
  obtain ds d inp where r: "channel_parse lib (ss_config s) xs = Inr (ds, d)" "prefix inp fs"
    "evolved lib (g inp) inp out tk wr s"
    "\<not> ss_closed s \<longrightarrow> frame_loop (cfg_smuxver (ss_config s)) () ds = Inr ((), inp, ss_receive_buffer s)"
    using assms(2) unfolding has_read_def reading_def by blast
  obtain gs where gs: "traced lib (g inp) inp (out @ gs) tk wr s" using r(3) unfolding evolved_def by blast
  then have "frames_sent lib (out @ gs) s" by (simp add: traced_def)
  then have "gs = []" using frames_sent_unique [OF unc assms(3)] by fastforce
  moreover have "inp = fs" if "\<not> ss_closed s" "xs = wire_bytes lib (ss_config s) fs"
      "\<forall>f \<in> set fs. frame_allowed (cfg_smuxver (ss_config s)) f"
    by (rule whole_frames [OF unc that(3)]) (use r(1,4) that(1,2) in auto)
  ultimately show ?thesis using gs r(2) by auto
qed

text \<open>The histories of both ends of a reachable link.\<close>

lemma link_histories:
  assumes unc: "\<And>x. sl_uncompress lib (sl_compress lib x) = Some x" and "qpp_documented (sl_qpp lib)" "link_reachable lib l"
  obtains oa ob ia ib where
    "traced lib (syn_ids oa) ia oa (ln_client_taken l) (ln_client_written l) (ln_client l)"
    "traced lib (syn_ids ib) ib ob (ln_server_taken l) (ln_server_written l) (ln_server l)"
    "prefix ia ob" "prefix ib oa"
    "fresh_cipher lib (ln_client l) = fresh_cipher lib (ln_server l)"
    "pad_or_plain (qs_pad (fresh_cipher lib (ln_server l)))"
    "\<not> ss_closed (ln_client l) \<Longrightarrow> ln_client_got l = length (sent_bytes (ln_server l)) \<Longrightarrow> ia = ob"
    "\<not> ss_closed (ln_server l) \<Longrightarrow> ln_server_got l = length (sent_bytes (ln_client l)) \<Longrightarrow> ib = oa"
proof -
  let ?a = "ln_client l" and ?b = "ln_server l"
  obtain oa ob where f: "link_facts lib oa ob l"
    using link_reachable_inv [OF assms] unfolding link_inv_def by blast
  then have same: "same_channel (ss_config ?a) (ss_config ?b)" and pads: "ss_qpp_pad ?a = ss_qpp_pad ?b" "pad_or_plain (ss_qpp_pad ?b)"
    and reads: "has_read lib (\<lambda>_. syn_ids oa) ob oa (ln_client_taken l) (ln_client_written l)
       (take (ln_client_got l) (sent_bytes ?b)) ?a"
      "has_read lib syn_ids oa ob (ln_server_taken l) (ln_server_written l)
       (take (ln_server_got l) (sent_bytes ?a)) ?b"
    and sent: "frames_sent lib oa ?a" "frames_sent lib ob ?b"
    by (simp_all add: link_facts_def)
  have wires: "sent_bytes ?b = wire_bytes lib (ss_config ?a) ob" "sent_bytes ?a = wire_bytes lib (ss_config ?b) oa"
    "\<forall>f \<in> set ob. frame_allowed (cfg_smuxver (ss_config ?a)) f" "\<forall>f \<in> set oa. frame_allowed (cfg_smuxver (ss_config ?b)) f"
    using sent same wire_same_channel [OF same] by (auto simp: frames_sent_def same_channel_def)
  obtain ia where a: "traced lib (syn_ids oa) ia oa (ln_client_taken l) (ln_client_written l) ?a" "prefix ia ob"
    "\<not> ss_closed ?a \<Longrightarrow> ln_client_got l = length (sent_bytes ?b) \<Longrightarrow> ia = ob"
    using has_read_history [OF unc reads(1) sent(1)] wires by auto
  obtain ib where b: "traced lib (syn_ids ib) ib ob (ln_server_taken l) (ln_server_written l) ?b" "prefix ib oa"
    "\<not> ss_closed ?b \<Longrightarrow> ln_server_got l = length (sent_bytes ?a) \<Longrightarrow> ib = oa"
    using has_read_history [OF unc reads(2) sent(2)] wires by auto
  show ?thesis
    by (rule that [OF a(1) b(1) a(2) b(2) _ _ a(3) b(3)])
      (use same pads in \<open>simp_all add: fresh_cipher_def same_channel_def\<close>)
qed

lemma prefix_psh_of: "prefix xs ys \<Longrightarrow> prefix (psh_of i xs) (psh_of i ys)"
  by (auto simp: prefix_def)

lemma prefix_nth_ids: "prefix (map f xs) (map f ys) \<Longrightarrow> k < length xs \<Longrightarrow> k < length ys \<and> f (xs ! k) = f (ys ! k)"
proof -
  assume "prefix (map f xs) (map f ys)" and k: "k < length xs"
  then obtain zs where zs: "map f ys = map f xs @ zs" by (auto simp: prefix_def)
  have "length ys = length xs + length zs" using zs by (metis length_append length_map)
  then have "k < length ys" using k by simp
  moreover have "map f ys ! k = map f xs ! k" using k by (simp add: zs nth_append)
  ultimately show ?thesis using k by simp
qed

lemma prefix_syn_ids: "prefix xs ys \<Longrightarrow> prefix (syn_ids xs) (syn_ids ys)"
  by (auto simp: prefix_def)

text \<open>Nothing is lost: when both sessions are open and have read all that was sent, every
  byte taken from a socket has been written at the other end, waits there to be written, or
  waits in the outbound queue.\<close>

definition all_read :: "smux_link \<Rightarrow> bool" where
  "all_read l \<longleftrightarrow> \<not> ss_closed (ln_client l) \<and> \<not> ss_closed (ln_server l) \<and>
     ln_client_got l = length (sent_bytes (ln_server l)) \<and> ln_server_got l = length (sent_bytes (ln_client l))"

definition nothing_lost :: "smux_link \<Rightarrow> bool" where
  "nothing_lost l \<longleftrightarrow> stream_ids (ln_server l) = stream_ids (ln_client l) \<and>
     (\<forall>k < length (ss_objects (ln_client l)).
        (\<not> sm_closed (stream_at (ln_server l) k) \<longrightarrow>
           ln_server_written l k @ concat (sm_pending_tcp_writes (stream_at (ln_server l) k)) @
           outbound (stream_at (ln_client l) k) = ln_client_taken l k) \<and>
        (\<not> sm_closed (stream_at (ln_client l) k) \<longrightarrow>
           ln_client_written l k @ concat (sm_pending_tcp_writes (stream_at (ln_client l) k)) @
           outbound (stream_at (ln_server l) k) = ln_server_taken l k))"

lemma all_read_nothing_lost:
  assumes unc: "\<And>x. sl_uncompress lib (sl_compress lib x) = Some x" and "qpp_documented (sl_qpp lib)"
    and "link_reachable lib l" "all_read l"
  shows "nothing_lost l"
proof -
  let ?a = "ln_client l" and ?b = "ln_server l"
  obtain oa ob ia ib where
    a: "traced lib (syn_ids oa) ia oa (ln_client_taken l) (ln_client_written l) ?a" and
    b: "traced lib (syn_ids ib) ib ob (ln_server_taken l) (ln_server_written l) ?b" and
    q: "fresh_cipher lib ?a = fresh_cipher lib ?b" "pad_or_plain (qs_pad (fresh_cipher lib ?b))" and
    io: "ia = ob" "ib = oa"
    by (rule link_histories [OF unc assms(2,3)]) (use assms(4) in \<open>auto simp: all_read_def\<close>)
  have ids: "stream_ids ?b = stream_ids ?a" using a b by (simp add: traced_def io)
  have rand: "qs_read_rand (fresh_cipher lib ?b) = qs_write_rand (fresh_cipher lib ?b)" by (simp add: fresh_cipher_def)
  note agree = traces_agree(2) [OF q(2) rand]
  have "(\<not> sm_closed (stream_at ?b k) \<longrightarrow>
           ln_server_written l k @ concat (sm_pending_tcp_writes (stream_at ?b k)) @ outbound (stream_at ?a k) = ln_client_taken l k) \<and>
        (\<not> sm_closed (stream_at ?a k) \<longrightarrow>
           ln_client_written l k @ concat (sm_pending_tcp_writes (stream_at ?a k)) @ outbound (stream_at ?b k) = ln_server_taken l k)"
    if k: "k < length (ss_objects ?a)" for k
  proof -
    have k': "k < length (ss_objects ?b)" using k arg_cong [OF ids, of length] by (simp add: stream_ids_def)
    have id: "sm_id (stream_at ?b k) = sm_id (stream_at ?a k)"
      using k k' arg_cong [OF ids, of "\<lambda>xs. xs ! k"] by (simp add: stream_ids_def stream_at_def)
    let ?i = "sm_id (stream_at ?a k)"
    have "stream_trace (fresh_cipher lib ?b) (ss_closed ?a) (stream_at ?a k) (psh_of ?i oa) (psh_of ?i ob)
        (ln_client_taken l k) (ln_client_written l k)"
      and "stream_trace (fresh_cipher lib ?b) (ss_closed ?b) (stream_at ?b k) (psh_of ?i ob) (psh_of ?i oa)
        (ln_server_taken l k) (ln_server_written l k)"
      using traced_stream [OF a k] traced_stream [OF b k'] by (simp_all only: q(1) id io)
    then show ?thesis using assms(4) agree prefix_order.refl unfolding stream_trace_def all_read_def by blast
  qed
  then show ?thesis using ids unfolding nothing_lost_def by blast
qed

section \<open>Coming to rest\<close>

text \<open>Either end of a reachable link is a reachable session, so an open one is alive.\<close>

lemma link_sessions_inv:
  "link_reachable lib l \<Longrightarrow>
     \<exists>ca cb. smux_inv ca True (ln_client l) \<and> smux_inv cb False (ln_server l)"
proof (induction rule: link_reachable.induct)
  case (start ca cb ch now a ch' target now' b)
  then show ?case using smux_inv_initial [OF start(2)] smux_inv_initial [OF start(3)] by (auto simp: new_link_def)
next
  case (step l l')
  then show ?case using smux_inv_step by (elim link_step.cases) (simp, blast)+
qed

lemma psh_sends_nothing:
  "fst ` set gs \<subseteq> {Cmd_psh} \<Longrightarrow> sent_bytes (handle_frames lib gs s) = sent_bytes s"
proof (induction gs arbitrary: s)
  case (Cons g gs)
  obtain sid p where g: "g = (Cmd_psh, sid, p)" using Cons(2) by (cases g) auto
  have "sent_bytes (flush_tcp_writes h s) = sent_bytes s" for h s
    by (simp add: flush_tcp_writes_def Let_def no_send_def sent_bytes_effects [of "put_stream _ _ _"])
  then have "sent_bytes (on_data h p s) = sent_bytes s" for h
    by (simp add: on_data_def enqueue_tcp_write_def Let_def split_def sent_bytes_effects [of "put_stream _ _ _"])
  then have "sent_bytes (handle_frame lib Cmd_psh sid p s) = sent_bytes s"
    by (simp add: handle_frame_def split: option.split)
  then show ?case using Cons by (simp add: g)
qed simp

text \<open>Frames of the peer close no stream: those that exist stay as open as they are, new ones are open.\<close>

definition streams_kept :: "smux_session \<Rightarrow> smux_session \<Rightarrow> bool" where
  "streams_kept s s' \<longleftrightarrow> length (ss_objects s) \<le> length (ss_objects s') \<and>
     (\<forall>k < length (ss_objects s'). sm_closed (stream_at s' k) \<longleftrightarrow> k < length (ss_objects s) \<and> sm_closed (stream_at s k))"

lemma streams_kept_refl [simp]: "streams_kept s s"
  by (simp add: streams_kept_def)

lemma streams_kept_trans: "streams_kept s t \<Longrightarrow> streams_kept t u \<Longrightarrow> streams_kept s u"
  unfolding streams_kept_def by (meson order_trans less_le_trans)

lemma streams_kept_with_input [simp]: "streams_kept s (with_input b d t s') = streams_kept s s'"
  by (simp add: streams_kept_def)

lemma streams_kept_calm: "calm s s' \<Longrightarrow> streams_kept s s'"
  by (simp add: calm_def streams_kept_def)

lemma streams_kept_handle_frame: "streams_kept s (handle_frame lib c sid p s)"
proof (cases "c = Cmd_syn \<and> map_of (ss_streams s) sid = None")
  case True
  let ?s = "s \<lparr> ss_objects := ss_objects s @ [make_stream lib sid s] \<rparr>"
  have "streams_kept s (emplace_stream sid (length (ss_objects s)) ?s)"
    by (auto simp: streams_kept_def emplace_stream_def stream_at_def nth_append make_stream_def less_Suc_eq)
  then have "streams_kept s (run_accept_handler (length (ss_objects s)) (emplace_stream sid (length (ss_objects s)) ?s))"
    by (rule streams_kept_trans) (rule streams_kept_calm [OF calm_accept])
  then show ?thesis using True by (simp add: handle_frame_def new_stream_def)
next
  case False
  have "calm s (handle_frame lib c sid p s)"
    using False calm_on_fin calm_on_data calm_on_update by (auto simp: handle_frame_def split: smux_command.split option.split)
  then show ?thesis by (rule streams_kept_calm)
qed

lemma streams_kept_handle_frames [simp]: "streams_kept s (handle_frames lib fs s)"
proof (induction fs arbitrary: s)
  case (Cons f fs)
  obtain c sid p where f: "f = (c, sid, p)" by (cases f)
  show ?case using streams_kept_trans [OF streams_kept_handle_frame Cons] by (simp add: f)
qed simp

text \<open>A session that reads byte by byte handles exactly the frames it had not handled yet.\<close>

definition feed :: "smux_lib \<Rightarrow> bytes \<Rightarrow> smux_session \<Rightarrow> smux_session" where
  "feed lib bs s = foldl (\<lambda>s x. on_transport_bytes lib 0 [x] s) s bs"

lemma feed_simps [simp]:
  "feed lib [] s = s" "feed lib (x # bs) s = feed lib bs (on_transport_bytes lib 0 [x] s)"
  "feed lib (bs @ cs) s = feed lib cs (feed lib bs s)"
  by (simp_all add: feed_def)

lemma feed_exact:
  assumes unc: "\<And>x. sl_uncompress lib (sl_compress lib x) = Some x"
  shows "in_step lib xs inp s \<Longrightarrow> \<forall>f \<in> set fs. frame_allowed (cfg_smuxver (ss_config s)) f \<Longrightarrow>
    prefix (xs @ bs) (wire_bytes lib (ss_config s) fs) \<Longrightarrow> room_for (ss_config s) 1 \<Longrightarrow>
    \<exists>gs b d t. feed lib bs s = with_input b d t (handle_frames lib gs s) \<and> in_step lib (xs @ bs) (inp @ gs) (feed lib bs s)"
proof (induction bs arbitrary: xs inp s)
  case Nil
  then show ?case
    by (intro exI [of _ "[]"] exI [of _ "ss_receive_buffer s"] exI [of _ "ss_decompressor s"] exI [of _ "ss_last_activity s"]) simp
next
  case (Cons x bs)
  let ?s = "on_transport_bytes lib 0 [x] s"
  have px: "prefix (xs @ [x]) (wire_bytes lib (ss_config s) fs)" using Cons(4) by (auto simp: prefix_def)
  have "room_for (ss_config s) (length [x])" using Cons(5) by simp
  then obtain gs b d t where one: "?s = with_input b d t (handle_frames lib gs s)" "in_step lib (xs @ [x]) (inp @ gs) ?s"
    using transport_exact [OF unc Cons(2,3) px] by blast
  then have same: "ss_config ?s = ss_config s" by simp
  obtain hs b' d' t' where "feed lib bs ?s = with_input b' d' t' (handle_frames lib hs ?s)"
    "in_step lib ((xs @ [x]) @ bs) ((inp @ gs) @ hs) (feed lib bs ?s)"
    using Cons.IH [OF one(2)] Cons(3-5) unfolding same by auto
  then have "feed lib (x # bs) s = with_input b' d' t' (handle_frames lib (gs @ hs) s)"
    "in_step lib (xs @ x # bs) (inp @ gs @ hs) (feed lib (x # bs) s)"
    by (simp_all add: one(1) handle_frames_with_input handle_frames_append)
  then show ?case by blast
qed

text \<open>On the link these are steps of the server, or of the client.\<close>

lemma next_byte: "prefix (bs @ [x]) (drop m xs) \<Longrightarrow> [x] = take 1 (drop (m + length bs) xs)"
proof -
  assume "prefix (bs @ [x]) (drop m xs)"
  then obtain zs where "drop m xs = bs @ x # zs" by (auto simp: prefix_def)
  then have "drop (length bs) (drop m xs) = x # zs" by simp
  then show ?thesis by (simp add: add.commute)
qed

lemma server_feeds:
  "\<forall>ys. prefix ys bs \<longrightarrow> ss_alive (feed lib ys (ln_server l)) \<Longrightarrow> prefix bs (drop (ln_server_got l) (sent_bytes (ln_client l))) \<Longrightarrow>
    (link_reads lib)\<^sup>*\<^sup>* l (l \<lparr> ln_server := feed lib bs (ln_server l), ln_server_got := ln_server_got l + length bs \<rparr>)"
proof (induction bs rule: rev_induct)
  case (snoc x bs)
  let ?l = "l \<lparr> ln_server := feed lib bs (ln_server l), ln_server_got := ln_server_got l + length bs \<rparr>"
  have "(link_reads lib)\<^sup>*\<^sup>* l ?l" using snoc by (simp add: append_prefixD)
  moreover have "link_reads lib ?l (?l \<lparr> ln_server := on_transport_bytes lib 0 [x] (ln_server ?l), ln_server_got := ln_server_got ?l + length [x] \<rparr>)"
  proof (rule link_reads.server [where n = 1])
    show "[x] = take 1 (drop (ln_server_got ?l) (sent_bytes (ln_client ?l)))" using next_byte [OF snoc(3)] by simp
    show "smux_step lib (ln_server ?l) (Ev_transport 0 [x]) (on_transport_bytes lib 0 [x] (ln_server ?l))"
      using snoc(2) by (intro smux_step.transport) simp
  qed
  ultimately show ?case by (simp add: rtranclp.rtrancl_into_rtrancl)
qed simp

lemma client_feeds:
  "\<forall>ys. prefix ys bs \<longrightarrow> ss_alive (feed lib ys (ln_client l)) \<Longrightarrow> prefix bs (drop (ln_client_got l) (sent_bytes (ln_server l))) \<Longrightarrow>
    (link_reads lib)\<^sup>*\<^sup>* l (l \<lparr> ln_client := feed lib bs (ln_client l), ln_client_got := ln_client_got l + length bs \<rparr>)"
proof (induction bs rule: rev_induct)
  case (snoc x bs)
  let ?l = "l \<lparr> ln_client := feed lib bs (ln_client l), ln_client_got := ln_client_got l + length bs \<rparr>"
  have "(link_reads lib)\<^sup>*\<^sup>* l ?l" using snoc by (simp add: append_prefixD)
  moreover have "link_reads lib ?l (?l \<lparr> ln_client := on_transport_bytes lib 0 [x] (ln_client ?l), ln_client_got := ln_client_got ?l + length [x] \<rparr>)"
  proof (rule link_reads.client [where n = 1])
    show "[x] = take 1 (drop (ln_client_got ?l) (sent_bytes (ln_server ?l)))" using next_byte [OF snoc(3)] by simp
    show "smux_step lib (ln_client ?l) (Ev_transport 0 [x]) (on_transport_bytes lib 0 [x] (ln_client ?l))"
      using snoc(2) by (intro smux_step.transport) simp
  qed
  ultimately show ?case by (simp add: rtranclp.rtrancl_into_rtrancl)
qed simp

text \<open>What an open session reads of the rest of the bytes, the frames of all of them being \<open>fs\<close>.\<close>

lemma rest_exact:
  assumes unc: "\<And>x. sl_uncompress lib (sl_compress lib x) = Some x"
    and r: "has_read lib g fs out tk wr (take n w) s" and out: "frames_sent lib out s" and op: "\<not> ss_closed s" "ss_alive s"
    and w: "w = wire_bytes lib (ss_config s) fs" and fs: "\<forall>f \<in> set fs. frame_allowed (cfg_smuxver (ss_config s)) f"
    and room: "room_for (ss_config s) 1"
  shows "\<exists>inp gs b d t. inp @ gs = fs \<and> traced lib (g inp) inp out tk wr s \<and>
    (\<forall>ms. prefix ms fs \<longrightarrow> take n w = wire_bytes lib (ss_config s) ms \<longrightarrow> inp = ms) \<and>
    feed lib (drop n w) s = with_input b d t (handle_frames lib gs s)"
    and "\<forall>ys. prefix ys (drop n w) \<longrightarrow> ss_alive (feed lib ys s)"
proof -
  obtain ds d inp where i: "channel_parse lib (ss_config s) (take n w) = Inr (ds, d)" "prefix inp fs"
    "evolved lib (g inp) inp out tk wr s" "ss_decompressor s = d"
    "frame_loop (cfg_smuxver (ss_config s)) () ds = Inr ((), inp, ss_receive_buffer s)"
    using r op(1) unfolding has_read_def reading_def by blast
  then have st: "in_step lib (take n w) inp s" using op(1) by (simp add: in_step_def parsed_def)
  obtain hs where hs: "traced lib (g inp) inp (out @ hs) tk wr s" using i(3) unfolding evolved_def by blast
  then have "out @ hs = out" by (intro frames_sent_unique [OF unc _ out]) (simp add: traced_def)
  then have t: "traced lib (g inp) inp out tk wr s" using hs by simp
  have whole: "inp' = ms" if "in_step lib (wire_bytes lib (ss_config s) ms) inp' s'" "ss_config s' = ss_config s" "prefix ms fs" for inp' s' ms
    using that(1)
  proof (rule in_stepE)
    have "\<forall>f \<in> set ms. frame_allowed (cfg_smuxver (ss_config s)) f" using fs set_mono_prefix [OF that(3)] by blast
    note whole_frames [OF unc this]
    moreover fix ds
    assume "channel_parse lib (ss_config s') (wire_bytes lib (ss_config s) ms) = Inr (ds, ss_decompressor s')"
      "frame_loop (cfg_smuxver (ss_config s')) () ds = Inr ((), inp', ss_receive_buffer s')"
    ultimately show ?thesis by (simp add: that(2))
  qed
  obtain gs b e u where gs: "feed lib (drop n w) s = with_input b e u (handle_frames lib gs s)"
    "in_step lib w (inp @ gs) (feed lib (drop n w) s)"
    using feed_exact [OF unc st fs _ room, of "drop n w"] by (auto simp: w)
  have "inp @ gs = fs" by (rule whole [OF gs(2) [unfolded w]]) (simp_all add: gs(1) [unfolded w])
  moreover have "\<forall>ms. prefix ms fs \<longrightarrow> take n w = wire_bytes lib (ss_config s) ms \<longrightarrow> inp = ms" using whole [of _ inp s] st by auto
  ultimately show "\<exists>inp gs b d t. inp @ gs = fs \<and> traced lib (g inp) inp out tk wr s \<and>
    (\<forall>ms. prefix ms fs \<longrightarrow> take n w = wire_bytes lib (ss_config s) ms \<longrightarrow> inp = ms) \<and>
    feed lib (drop n w) s = with_input b d t (handle_frames lib gs s)"
    using t gs(1) by blast
  show "\<forall>ys. prefix ys (drop n w) \<longrightarrow> ss_alive (feed lib ys s)"
  proof (intro allI impI)
    fix ys
    assume "prefix ys (drop n w)"
    then have "prefix (take n w @ ys) (take n w @ drop n w)" by (simp only: same_prefix_prefix)
    then have "prefix (take n w @ ys) (wire_bytes lib (ss_config s) fs)" by (simp add: w)
    then show "ss_alive (feed lib ys s)" using feed_exact [OF unc st fs _ room] op(2) by fastforce
  qed
qed

text \<open>An open end of the link reads what it has not read yet, in steps of the link.\<close>

lemma server_catches_up:
  assumes unc: "\<And>x. sl_uncompress lib (sl_compress lib x) = Some x" and "qpp_documented (sl_qpp lib)" and reach: "link_reachable lib l"
    and op: "\<not> ss_closed (ln_server l)" and room: "room_for (ss_config (ln_server l)) 1"
    and sent: "frames_sent lib oa (ln_client l)" "frames_sent lib ob (ln_server l)"
  shows "\<exists>ib gs b d t. ib @ gs = oa \<and> opens_first oa \<and>
    traced lib (syn_ids ib) ib ob (ln_server_taken l) (ln_server_written l) (ln_server l) \<and>
    (\<forall>ms. prefix ms oa \<longrightarrow> take (ln_server_got l) (sent_bytes (ln_client l)) = wire_bytes lib (ss_config (ln_client l)) ms \<longrightarrow> ib = ms) \<and>
    (link_reads lib)\<^sup>*\<^sup>* l (l \<lparr> ln_server := with_input b d t (handle_frames lib gs (ln_server l)),
      ln_server_got := length (sent_bytes (ln_client l)) \<rparr>)"
proof -
  let ?b = "ln_server l" and ?w = "sent_bytes (ln_client l)" and ?n = "ln_server_got l"
  obtain oa' ob' where "link_facts lib oa' ob' l"
    using link_reachable_inv [OF assms(1-3)] unfolding link_inv_def by blast
  moreover from this have "oa' = oa" "ob' = ob"
    using sent by (auto simp: link_facts_def intro: frames_sent_unique [OF unc])
  ultimately have f: "link_facts lib oa ob l" by simp
  then have same: "same_channel (ss_config (ln_client l)) (ss_config ?b)" by (simp add: link_facts_def)
  have alive: "ss_alive ?b" using link_sessions_inv [OF reach] op by (auto simp: smux_inv_def)
  have r: "has_read lib syn_ids oa ob (ln_server_taken l) (ln_server_written l) (take ?n ?w) ?b"
    and n: "?n \<le> length ?w" and oa: "opens_first oa"
    using f by (simp_all add: link_facts_def)
  note wire = wire_same_channel [OF same]
  have w: "?w = wire_bytes lib (ss_config ?b) oa" and fs: "\<forall>f \<in> set oa. frame_allowed (cfg_smuxver (ss_config ?b)) f"
    using sent(1) same wire by (auto simp: frames_sent_def same_channel_def)
  note exact = rest_exact [OF unc r sent(2) op alive w fs room]
  have "(link_reads lib)\<^sup>*\<^sup>* l (l \<lparr> ln_server := feed lib (drop ?n ?w) ?b, ln_server_got := length ?w \<rparr>)"
    using server_feeds [OF exact(2)] n by simp
  then show ?thesis using exact(1) oa unfolding wire by metis
qed

lemma client_catches_up:
  assumes unc: "\<And>x. sl_uncompress lib (sl_compress lib x) = Some x" and "qpp_documented (sl_qpp lib)" and reach: "link_reachable lib l"
    and op: "\<not> ss_closed (ln_client l)" and room: "room_for (ss_config (ln_client l)) 1"
    and sent: "frames_sent lib oa (ln_client l)" "frames_sent lib ob (ln_server l)"
  shows "\<exists>ia gs b d t. ia @ gs = ob \<and> syn_ids ob = [] \<and>
    traced lib (syn_ids oa) ia oa (ln_client_taken l) (ln_client_written l) (ln_client l) \<and>
    (link_reads lib)\<^sup>*\<^sup>* l (l \<lparr> ln_client := with_input b d t (handle_frames lib gs (ln_client l)),
      ln_client_got := length (sent_bytes (ln_server l)) \<rparr>)"
proof -
  let ?a = "ln_client l" and ?w = "sent_bytes (ln_server l)" and ?n = "ln_client_got l"
  obtain oa' ob' where "link_facts lib oa' ob' l"
    using link_reachable_inv [OF assms(1-3)] unfolding link_inv_def by blast
  moreover from this have "oa' = oa" "ob' = ob"
    using sent by (auto simp: link_facts_def intro: frames_sent_unique [OF unc])
  ultimately have f: "link_facts lib oa ob l" by simp
  then have same: "same_channel (ss_config ?a) (ss_config (ln_server l))" by (simp add: link_facts_def)
  have alive: "ss_alive ?a" using link_sessions_inv [OF reach] op by (auto simp: smux_inv_def)
  have r: "has_read lib (\<lambda>_. syn_ids oa) ob oa (ln_client_taken l) (ln_client_written l) (take ?n ?w) ?a"
    and n: "?n \<le> length ?w" and ob: "syn_ids ob = []"
    using f by (simp_all add: link_facts_def)
  have w: "?w = wire_bytes lib (ss_config ?a) ob" and fs: "\<forall>f \<in> set ob. frame_allowed (cfg_smuxver (ss_config ?a)) f"
    using sent(2) same wire_same_channel [OF same] by (auto simp: frames_sent_def same_channel_def)
  note exact = rest_exact [OF unc r sent(1) op alive w fs room]
  have "(link_reads lib)\<^sup>*\<^sup>* l (l \<lparr> ln_client := feed lib (drop ?n ?w) ?a, ln_client_got := length ?w \<rparr>)"
    using client_feeds [OF exact(2)] n by simp
  then show ?thesis using exact(1) ob by metis
qed

lemma frames_sent_with_input [simp]: "frames_sent lib fs (with_input b d t s) = frames_sent lib fs s"
  by (simp add: frames_sent_def sent_bytes_def sent_frames_def)

lemma link_reachable_steps: "(link_reads lib)\<^sup>*\<^sup>* l l' \<Longrightarrow> link_reachable lib l \<Longrightarrow> link_reachable lib l'"
  by (induction rule: rtranclp_induct) (auto intro: link_reachable.step link_reads_step)

text \<open>What a round of reading leaves alone: the bytes taken and written, and the settings of both ends.\<close>

definition read_round :: "smux_lib \<Rightarrow> smux_link \<Rightarrow> smux_link \<Rightarrow> bool" where
  "read_round lib l l' \<longleftrightarrow> (link_reads lib)\<^sup>*\<^sup>* l l' \<and>
     ss_config (ln_client l') = ss_config (ln_client l) \<and> ss_config (ln_server l') = ss_config (ln_server l) \<and>
     ss_closed (ln_client l') = ss_closed (ln_client l) \<and> ss_closed (ln_server l') = ss_closed (ln_server l) \<and>
     streams_kept (ln_client l) (ln_client l') \<and> streams_kept (ln_server l) (ln_server l') \<and>
     ln_client_taken l' = ln_client_taken l \<and> ln_client_written l' = ln_client_written l \<and>
     ln_server_taken l' = ln_server_taken l \<and> ln_server_written l' = ln_server_written l"

lemma read_round_trans: "read_round lib l m \<Longrightarrow> read_round lib m n \<Longrightarrow> read_round lib l n"
  unfolding read_round_def by (auto intro: rtranclp_trans streams_kept_trans)

lemma server_round:
  assumes unc: "\<And>x. sl_uncompress lib (sl_compress lib x) = Some x" and qpp: "qpp_documented (sl_qpp lib)" and reach: "link_reachable lib l"
    and op: "\<not> ss_closed (ln_server l)" and room: "room_for (ss_config (ln_server l)) 1"
    and sent: "frames_sent lib oa (ln_client l)" "frames_sent lib ob (ln_server l)"
  obtains l' q where "read_round lib l l'" "ln_client l' = ln_client l" "ln_client_got l' = ln_client_got l"
    "ln_server_got l' = length (sent_bytes (ln_client l))" "frames_sent lib (ob @ q) (ln_server l')"
    "\<And>ms gs. oa = ms @ gs \<Longrightarrow> take (ln_server_got l) (sent_bytes (ln_client l)) = wire_bytes lib (ss_config (ln_client l)) ms \<Longrightarrow>
       fst ` set gs \<subseteq> {Cmd_psh} \<Longrightarrow> sent_bytes (ln_server l') = sent_bytes (ln_server l)"
proof -
  let ?b = "ln_server l"
  obtain ib gs b d t where ib: "ib @ gs = oa" "opens_first oa" "traced lib (syn_ids ib) ib ob (ln_server_taken l) (ln_server_written l) ?b"
    "\<forall>ms. prefix ms oa \<longrightarrow> take (ln_server_got l) (sent_bytes (ln_client l)) = wire_bytes lib (ss_config (ln_client l)) ms \<longrightarrow> ib = ms"
    and steps: "(link_reads lib)\<^sup>*\<^sup>* l (l \<lparr> ln_server := with_input b d t (handle_frames lib gs ?b),
      ln_server_got := length (sent_bytes (ln_client l)) \<rparr>)"
    using server_catches_up [OF unc qpp reach op room sent] by blast
  let ?s = "with_input b d t (handle_frames lib gs ?b)"
  have "flushes lib (syn_ids ib @ syn_ids gs) (ib @ gs) ob (ln_server_taken l) (ln_server_written l) (handle_frames lib gs ?b)"
    using ib(1-3) by (intro flushes_handle_frames traced_flushes op) simp_all
  then obtain q where "frames_sent lib (ob @ q) (handle_frames lib gs ?b)"
    by (auto simp: flushes_def traced_def)
  moreover have "sent_bytes ?s = sent_bytes ?b" if "oa = ms @ hs"
      "take (ln_server_got l) (sent_bytes (ln_client l)) = wire_bytes lib (ss_config (ln_client l)) ms" "fst ` set hs \<subseteq> {Cmd_psh}" for ms hs
  proof -
    have "ib = ms" using ib(4) that(1,2) by auto
    then have "gs = hs" using ib(1) that(1) by simp
    then show ?thesis using psh_sends_nothing [OF that(3), of lib ?b] by (simp add: sent_bytes_def sent_frames_def)
  qed
  ultimately show ?thesis
    using steps
    by (intro that [of "l \<lparr> ln_server := ?s, ln_server_got := length (sent_bytes (ln_client l)) \<rparr>" q]) (simp_all add: read_round_def)
qed

lemma client_round:
  assumes unc: "\<And>x. sl_uncompress lib (sl_compress lib x) = Some x" and qpp: "qpp_documented (sl_qpp lib)" and reach: "link_reachable lib l"
    and op: "\<not> ss_closed (ln_client l)" and room: "room_for (ss_config (ln_client l)) 1"
    and sent: "frames_sent lib oa (ln_client l)" "frames_sent lib ob (ln_server l)"
  obtains l' p where "read_round lib l l'" "ln_server l' = ln_server l" "ln_server_got l' = ln_server_got l"
    "ln_client_got l' = length (sent_bytes (ln_server l))" "frames_sent lib (oa @ p) (ln_client l')" "fst ` set p \<subseteq> {Cmd_psh}"
proof -
  let ?a = "ln_client l"
  obtain ia gs b d t where ia: "ia @ gs = ob" "syn_ids ob = []" "traced lib (syn_ids oa) ia oa (ln_client_taken l) (ln_client_written l) ?a"
    and steps: "(link_reads lib)\<^sup>*\<^sup>* l (l \<lparr> ln_client := with_input b d t (handle_frames lib gs ?a),
      ln_client_got := length (sent_bytes (ln_server l)) \<rparr>)"
    using client_catches_up [OF unc qpp reach op room sent] by blast
  have gs: "syn_ids gs = []" using ia(2) by (simp flip: ia(1))
  have "flushes lib (syn_ids oa @ syn_ids gs) (ia @ gs) oa (ln_client_taken l) (ln_client_written l) (handle_frames lib gs ?a)"
    using ia gs by (intro flushes_handle_frames traced_flushes op) simp_all
  then obtain p where "fst ` set p \<subseteq> {Cmd_psh}" "frames_sent lib (oa @ p) (handle_frames lib gs ?a)"
    by (auto simp: flushes_def traced_def)
  then show ?thesis
    using steps
    by (intro that [of "l \<lparr> ln_client := with_input b d t (handle_frames lib gs ?a), ln_client_got := length (sent_bytes (ln_server l)) \<rparr>" p])
      (simp_all add: read_round_def)
qed

text \<open>
  The server reads, then the client, which may flush data the updates of the server made
  room for, then the server again, which answers nothing to data.
\<close>

lemma link_rests:
  assumes unc: "\<And>x. sl_uncompress lib (sl_compress lib x) = Some x" and qpp: "qpp_documented (sl_qpp lib)" and reach: "link_reachable lib l"
    and op: "\<not> ss_closed (ln_client l)" "\<not> ss_closed (ln_server l)"
    and room: "room_for (ss_config (ln_client l)) 1" "room_for (ss_config (ln_server l)) 1"
  shows "\<exists>l'. read_round lib l l' \<and> all_read l'"
proof -
  have reach': "link_reachable lib l'" if "read_round lib l l'" for l'
    using that reach link_reachable_steps by (auto simp: read_round_def)
  obtain oa ob where sent: "frames_sent lib oa (ln_client l)" "frames_sent lib ob (ln_server l)"
    using link_reachable_inv [OF unc qpp reach] by (auto simp: link_inv_def link_facts_def)
  obtain l1 q where l1: "read_round lib l l1" "ln_client l1 = ln_client l"
    "ln_server_got l1 = length (sent_bytes (ln_client l))" "frames_sent lib (ob @ q) (ln_server l1)"
    by (rule server_round [OF unc qpp reach op(2) room(2) sent])
  have c1: "\<not> ss_closed (ln_client l1)" "room_for (ss_config (ln_client l1)) 1" "frames_sent lib oa (ln_client l1)"
    using sent(1) op(1) room(1) l1(2) by simp_all
  obtain l2 p where l2: "read_round lib l1 l2" "ln_server l2 = ln_server l1" "ln_server_got l2 = ln_server_got l1"
    "ln_client_got l2 = length (sent_bytes (ln_server l1))" "frames_sent lib (oa @ p) (ln_client l2)" "fst ` set p \<subseteq> {Cmd_psh}"
    by (rule client_round [OF unc qpp reach' [OF l1(1)] c1 l1(4)])
  note both = read_round_trans [OF l1(1) l2(1)]
  have "frames_sent lib (ob @ q) (ln_server l2)" "\<not> ss_closed (ln_server l2)" "room_for (ss_config (ln_server l2)) 1"
    using l1(4) l2(2) both op(2) room(2) by (simp_all add: read_round_def)
  then obtain l3 where l3: "read_round lib l2 l3" "ln_client l3 = ln_client l2" "ln_client_got l3 = ln_client_got l2"
    "ln_server_got l3 = length (sent_bytes (ln_client l2))"
    and quiet: "\<And>ms gs. oa @ p = ms @ gs \<Longrightarrow> take (ln_server_got l2) (sent_bytes (ln_client l2)) = wire_bytes lib (ss_config (ln_client l2)) ms \<Longrightarrow>
       fst ` set gs \<subseteq> {Cmd_psh} \<Longrightarrow> sent_bytes (ln_server l3) = sent_bytes (ln_server l2)"
    using server_round [OF unc qpp reach' [OF both] _ _ l2(5)] by metis
  have config: "ss_config (ln_client l2) = ss_config (ln_client l)" using both by (simp add: read_round_def)
  then have "take (ln_server_got l2) (sent_bytes (ln_client l2)) = sent_bytes (ln_client l)"
    using sent_grows [OF sent(1) l2(5)] l1(3) l2(3) by (auto simp: prefix_def)
  then have "sent_bytes (ln_server l3) = sent_bytes (ln_server l2)"
    using quiet [OF refl _ l2(6)] sent(1) config by (simp add: frames_sent_def)
  then have "all_read l3" using l1 l2 l3 op read_round_trans [OF both l3(1)] by (simp add: all_read_def read_round_def)
  then show ?thesis using read_round_trans [OF both l3(1)] by blast
qed

section \<open>Properties\<close>

text \<open>C1: End to end: two sessions with the same version, compression setting, key and pad,
  joined by reliable byte channels, with any interleaving of opening streams, socket reads
  and writes, errors, timers, closing, and arbitrary cuts of the received bytes. In every
  reachable state the streams of the server are the first ones the client opened, under the
  same ids, and in both directions the bytes written to the socket of a stream, followed by
  those waiting to be written, are a prefix of the bytes its peer has taken from the other
  socket: nothing is lost in the middle, reordered, duplicated, or crosses to another
  stream. Taken are the bytes a read handler finds in the read buffer; that two pending reads
  of a stream share this buffer is the subject of \<open>update_starts_overlapping_read\<close>.\<close>

theorem link_delivers_in_order:
  assumes "\<forall>x. sl_uncompress lib (sl_compress lib x) = Some x" "qpp_documented (sl_qpp lib)"
    and "link_reachable lib l" "k < length (ss_objects (ln_server l))"
  shows "k < length (ss_objects (ln_client l)) \<and>
    sm_id (stream_at (ln_server l) k) = sm_id (stream_at (ln_client l) k) \<and>
    prefix (ln_server_written l k @ concat (sm_pending_tcp_writes (stream_at (ln_server l) k))) (ln_client_taken l k) \<and>
    prefix (ln_client_written l k @ concat (sm_pending_tcp_writes (stream_at (ln_client l) k))) (ln_server_taken l k)"
proof -
  let ?a = "ln_client l" and ?b = "ln_server l"
  have unc: "\<And>x. sl_uncompress lib (sl_compress lib x) = Some x" using assms(1) by blast
  obtain oa ob ia ib where
    a: "traced lib (syn_ids oa) ia oa (ln_client_taken l) (ln_client_written l) ?a" and
    b: "traced lib (syn_ids ib) ib ob (ln_server_taken l) (ln_server_written l) ?b" and
    io: "prefix ia ob" "prefix ib oa" and
    q: "fresh_cipher lib ?a = fresh_cipher lib ?b" "pad_or_plain (qs_pad (fresh_cipher lib ?b))"
    by (rule link_histories [OF unc assms(2,3)])
  have "prefix (stream_ids ?b) (stream_ids ?a)"
    using prefix_syn_ids [OF io(2)] a b by (simp add: traced_def)
  then have k: "k < length (ss_objects ?a)" and id: "sm_id (stream_at ?b k) = sm_id (stream_at ?a k)"
    using prefix_nth_ids [OF _ assms(4)] by (auto simp: stream_ids_def stream_at_def)
  have rand: "qs_read_rand (fresh_cipher lib ?b) = qs_write_rand (fresh_cipher lib ?b)" by (simp add: fresh_cipher_def)
  let ?i = "sm_id (stream_at ?b k)"
  have ta: "stream_trace (fresh_cipher lib ?b) (ss_closed ?a) (stream_at ?a k) (psh_of ?i oa) (psh_of ?i ia)
      (ln_client_taken l k) (ln_client_written l k)"
    and tb: "stream_trace (fresh_cipher lib ?b) (ss_closed ?b) (stream_at ?b k) (psh_of ?i ob) (psh_of ?i ib)
      (ln_server_taken l k) (ln_server_written l k)"
    using traced_stream [OF a k] traced_stream [OF b assms(4)] by (simp_all only: q(1) id)
  show ?thesis
    using k id ta tb traces_agree(1) [OF q(2) rand] prefix_psh_of [OF io(1), of ?i] prefix_psh_of [OF io(2), of ?i]
    unfolding stream_trace_def by blast
qed

text \<open>C2: End to end, completeness: in a reachable state in which both sessions are open and
  have read all their peer has sent, the server has accepted every stream of the client, and
  for every stream whose end is not closed no byte is missing: what its peer has taken from
  the other socket is what this end has written, followed by what waits to be written, followed
  by what waits in the outbound queue of the peer. In both directions.\<close>

theorem link_delivers_everything:
  assumes "\<forall>x. sl_uncompress lib (sl_compress lib x) = Some x" "qpp_documented (sl_qpp lib)"
    and "link_reachable lib l" "all_read l"
  shows "nothing_lost l"
  using all_read_nothing_lost assms by blast

text \<open>C3: End to end, progress: as long as both sessions are open, and their receive buffers
  have room for a largest frame and a piece of input, reading alone can bring the link to rest:
  there is a sequence of reads, and of nothing else, to a state in which both sessions are still
  open, both have read all that was sent, what they sent while reading included, and no byte is
  missing. No stream is closed on the way, the ones that the server accepts on the way are open,
  and nothing is taken from a socket or written to one.\<close>

theorem link_comes_to_rest:
  assumes "\<forall>x. sl_uncompress lib (sl_compress lib x) = Some x" "qpp_documented (sl_qpp lib)"
    and "link_reachable lib l" "\<not> ss_closed (ln_client l)" "\<not> ss_closed (ln_server l)"
    and "room_for (ss_config (ln_client l)) 1" "room_for (ss_config (ln_server l)) 1"
  shows "\<exists>l'. (link_reads lib)\<^sup>*\<^sup>* l l' \<and> all_read l' \<and> nothing_lost l' \<and>
    streams_kept (ln_client l) (ln_client l') \<and> streams_kept (ln_server l) (ln_server l') \<and>
    ln_client_taken l' = ln_client_taken l \<and> ln_client_written l' = ln_client_written l \<and>
    ln_server_taken l' = ln_server_taken l \<and> ln_server_written l' = ln_server_written l"
proof -
  have unc: "\<And>x. sl_uncompress lib (sl_compress lib x) = Some x" using assms(1) by blast
  obtain l' where l': "read_round lib l l'" "all_read l'"
    using link_rests [OF unc assms(2-7)] by blast
  then have "link_reachable lib l'" using assms(3) link_reachable_steps by (auto simp: read_round_def)
  then have "nothing_lost l'" using all_read_nothing_lost [OF unc assms(2)] l'(2) by blast
  with l' show ?thesis by (auto simp: read_round_def)
qed

section \<open>A run\<close>

definition plain_server :: "smux_lib \<Rightarrow> smux_session" where
  "plain_server lib = projr (initial_session lib ((base_defaults ()) \<lparr> cfg_nocomp := True \<rparr>) False False (Some (Unix_target ''/s'')) 0)"

lemma plain_server_fields:
  "ss_config (plain_server lib) = (base_defaults ()) \<lparr> cfg_nocomp := True \<rparr>" "\<not> ss_closed (plain_server lib)"
  "ss_alive (plain_server lib)" "ss_objects (plain_server lib) = []" "ss_streams (plain_server lib) = []"
  "ss_receive_buffer (plain_server lib) = []" "ss_qpp_pad (plain_server lib) = None"
  "ss_accept_handler (plain_server lib) = Some (Unix_target ''/s'')"
  "ss_effects (plain_server lib) = [Transport_start, Keepalive_start 10]"
  by (simp_all add: plain_server_def initial_session_def make_smux_session_def start_session_def
      start_keepalive_timer_def emit_def base_defaults_def set_accept_handler_def)

text \<open>The server reads the opening frame and a byte of data.\<close>

lemma plain_server_reads:
  fixes lib :: smux_lib
  defines "s \<equiv> on_transport_bytes lib 1 (make_frame 2 Cmd_syn 3 [] @ make_frame 2 Cmd_psh 3 [7]) (plain_server lib)"
  shows "\<exists>st. ss_objects s = [st] \<and> sm_pending_tcp_writes st = [[7]] \<and> \<not> sm_closed st" "\<not> ss_closed s" "sent_bytes s = []"
proof -
  let ?s = "plain_server lib" and ?fs = "[(Cmd_syn, 3, []), (Cmd_psh, 3, [7])] :: frame list"
  let ?bs = "make_frame 2 Cmd_syn 3 [] @ make_frame 2 Cmd_psh 3 [7]"
  have "frame_loop 2 () ?bs = Inr ((), ?fs, [])"
    using frame_loop_frames [of ?fs 2 "()"] by (simp add: frame_bytes_def frame_allowed_def)
  then have "foldl (\<lambda>s bs. consume_stream_bytes lib bs s) (with_input [] (ss_decompressor ?s) 1 ?s) [?bs] =
      with_input [] (ss_decompressor ?s) 1 (handle_frames lib ?fs ?s)"
    using foldl_consume_input [of ?s "[?bs]" ?fs "[]" lib "ss_decompressor ?s" 1]
    by (simp add: plain_server_fields base_defaults_def reads_fit_def smux_header_size_def frame_step_def next_frame_def)
  moreover have "make_frame 2 Cmd_syn 3 [] \<noteq> []" by (simp add: make_frame_eq)
  ultimately have s: "s = with_input [] (ss_decompressor ?s) 1 (handle_frames lib ?fs ?s)"
    by (simp add: s_def on_transport_bytes_def activity_eq plain_server_fields)
  show "\<exists>st. ss_objects s = [st] \<and> sm_pending_tcp_writes st = [[7]] \<and> \<not> sm_closed st" "\<not> ss_closed s" "sent_bytes s = []"
    by (simp_all add: s plain_server_fields handle_frame_def new_stream_def emplace_stream_def run_accept_handler_def
        start_server_unix_def put_stream_def stream_at_def emit_def on_data_def enqueue_tcp_write_def flush_tcp_writes_def
        make_stream_def make_qpp_stream_def qs_decrypt_def Let_def sent_bytes_def sent_frames_def)
qed

lemma run_local:
  assumes "link_reachable lib l" "smux_step lib (ln_client l) ev s" "local_event ev"
    and "l' = l \<lparr> ln_client := s, ln_client_taken := note_taken (ln_client l) ev (ln_client_taken l),
      ln_client_written := note_written (ln_client l) ev (ln_client_written l) \<rparr>"
  shows "link_reachable lib l'"
  unfolding assms(4) by (rule link_reachable.step [OF assms(1) link_step.client_acts [OF assms(2,3)]])

text \<open>The socket of the client yields one byte, which the client sends.\<close>

lemma demo_sent:
  "\<exists>l. link_reachable toy_smux_lib l \<and> ln_server l = plain_server toy_smux_lib \<and>
     ss_config (ln_client l) = (base_defaults ()) \<lparr> cfg_nocomp := True \<rparr> \<and> \<not> ss_closed (ln_client l) \<and>
     ln_client_got l = 0 \<and> ln_server_got l = 0 \<and>
     sent_bytes (ln_client l) = make_frame 2 Cmd_syn 3 [] @ make_frame 2 Cmd_psh 3 [7] \<and>
     length (ss_objects (ln_client l)) = 1 \<and> ln_client_taken l 0 = [7] \<and> ln_server_written l 0 = [] \<and>
     outbound (stream_at (ln_client l) 0) = []"
proof -
  let ?lib = toy_smux_lib
  let ?cfg = "(base_defaults ()) \<lparr> cfg_nocomp := True \<rparr>"
  define st where "st = (make_stream ?lib 3 (plain_client ?lib)) \<lparr> sm_socket_open := True, sm_tcp_ready := True, sm_reads := 1 \<rparr>"
  have buf: "length (sm_read_buffer st) = 32768" by (simp add: st_def make_stream_def)
  have ready: "ready st" and counts: "sm_reads st = 1" "sm_reads_done st = []" "sm_num_written st = 0"
      "sm_peer_consumed st = 0" "sm_peer_window st = 262144" and pend: "sm_pending_outbound st = []"
    by (simp_all add: st_def make_stream_def ready_def make_qpp_stream_def qpp_enabled_def plain_client_def
        initial_session_def make_smux_session_def start_session_def start_keepalive_timer_def emit_def base_defaults_def)
  note facts = ready_counters ready counts memcpy_zero available_peer_window_def Let_def
  let ?es = "[Transport_start, Keepalive_start 10, Transport_send (make_frame 2 Cmd_syn 3 []), Read_start 0]"
  let ?l0 = "new_link (plain_client ?lib) (plain_server ?lib)"
  have "initial_session ?lib ?cfg True False None 0 = Inr (plain_client ?lib)"
    "initial_session ?lib ?cfg False False (Some (Unix_target ''/s'')) 0 = Inr (plain_server ?lib)"
    by (simp_all add: plain_client_def plain_server_def initial_session_def make_smux_session_def base_defaults_def)
  then have "link_reachable ?lib ?l0" by (rule link_reachable.start [rotated]) (simp add: same_channel_def)
  then have r1: "link_reachable ?lib (?l0 \<lparr> ln_client := one_stream ?lib st ?es 0 \<rparr>)"
    by (rule link_reachable.step [OF _ link_step.client_opens [where u = False]]) (simp add: new_link_def run_open [of ?lib, folded st_def])
  let ?st1 = "st \<lparr> sm_read_buffer := memcpy (sm_read_buffer st) 0 [7], sm_reads := sm_reads st - 1, sm_reads_done := sm_reads_done st @ [1] \<rparr>"
  let ?l1 = "?l0 \<lparr> ln_client := one_stream ?lib ?st1 ?es 0 \<rparr>"
  have r2: "link_reachable ?lib ?l1"
    by (rule run_local [OF r1, where ev = "Ev_readable 0 [7]"], simp, rule run_readable)
      (simp_all add: facts local_event_def new_link_def note_taken_def note_written_def)
  let ?st2 = "?st1 \<lparr> sm_reads_done := [], sm_num_written := sm_num_written ?st1 + 1, sm_reads := sm_reads ?st1 + 1 \<rparr>"
  let ?a = "one_stream ?lib ?st2 (?es @ [Transport_send (make_frame 2 Cmd_psh 3 [7]), Read_start 0]) 0"
  let ?l2 = "?l0 \<lparr> ln_client := ?a, ln_client_taken := (\<lambda>_. []) (0 := [7]) \<rparr>"
  have "smux_step ?lib (ln_client ?l1) (Ev_read_handler 0) ?a"
    using run_handler [where x = 7 and ns = "[]" and st = ?st1 and lib = ?lib and es = ?es and t = 0] by (simp add: facts)
  then have r3: "link_reachable ?lib ?l2"
    by (rule run_local [OF r2]) (simp_all add: facts local_event_def new_link_def note_taken_def note_written_def)
  have "ss_config ?a = ?cfg"
    by (simp add: one_stream_def plain_client_def initial_session_def make_smux_session_def start_session_def
        start_keepalive_timer_def emit_def base_defaults_def)
  then show ?thesis
    using r3 pend by (intro exI [of _ ?l2]) (simp add: new_link_def sent_bytes_def sent_frames_def outbound_def stream_at_def)
qed

text \<open>The server reads it and queues the byte for its socket.\<close>

lemma demo_link:
  "\<exists>l. link_reachable toy_smux_lib l \<and> \<not> ss_closed (ln_client l) \<and> \<not> ss_closed (ln_server l) \<and>
     ln_client_got l = length (sent_bytes (ln_server l)) \<and> ln_server_got l = length (sent_bytes (ln_client l)) \<and>
     length (ss_objects (ln_client l)) = 1 \<and> length (ss_objects (ln_server l)) = 1 \<and>
     ln_client_taken l 0 = [7] \<and> ln_server_written l 0 = [] \<and>
     outbound (stream_at (ln_client l) 0) = [] \<and> \<not> sm_closed (stream_at (ln_server l) 0)"
proof -
  let ?lib = toy_smux_lib and ?bs = "make_frame 2 Cmd_syn 3 [] @ make_frame 2 Cmd_psh 3 [7]"
  obtain l where l: "link_reachable ?lib l" "ln_server l = plain_server ?lib" "\<not> ss_closed (ln_client l)"
    "ln_client_got l = 0" "ln_server_got l = 0" "sent_bytes (ln_client l) = ?bs" "length (ss_objects (ln_client l)) = 1"
    "ln_client_taken l 0 = [7]" "ln_server_written l 0 = []" "outbound (stream_at (ln_client l) 0) = []"
    using demo_sent by blast
  define b where "b = on_transport_bytes ?lib 1 ?bs (plain_server ?lib)"
  let ?l = "l \<lparr> ln_server := b, ln_server_got := ln_server_got l + length ?bs \<rparr>"
  have "link_reachable ?lib ?l"
    by (rule link_reachable.step [OF l(1) link_step.server_reads [where n = "length ?bs" and now = 1]])
      (simp_all add: b_def l plain_server_fields smux_step.transport)
  moreover obtain t where "ss_objects b = [t]" "\<not> sm_closed t" "\<not> ss_closed b" "sent_bytes b = []"
    using plain_server_reads [of ?lib] unfolding b_def by blast
  ultimately show ?thesis using l by (intro exI [of _ ?l]) (simp add: stream_at_def)
qed

lemma toy_lib_facts:
  "\<forall>x. sl_uncompress toy_smux_lib (sl_compress toy_smux_lib x) = Some x" "qpp_documented (sl_qpp toy_smux_lib)"
  using toy_smux_unc toy_qpp_documented by (simp_all add: toy_smux_lib_def)

lemma link_delivers_in_order_witness:
  "\<exists>l. link_reachable toy_smux_lib l \<and> ln_client_taken l 0 = [7] \<and>
     prefix (ln_server_written l 0 @ concat (sm_pending_tcp_writes (stream_at (ln_server l) 0))) [7]"
proof -
  obtain l where l: "link_reachable toy_smux_lib l" "length (ss_objects (ln_server l)) = 1" "ln_client_taken l 0 = [7]"
    using demo_link by blast
  have "prefix (ln_server_written l 0 @ concat (sm_pending_tcp_writes (stream_at (ln_server l) 0))) (ln_client_taken l 0)"
    using link_delivers_in_order [OF toy_lib_facts l(1), of 0] l(2) by simp
  with l show ?thesis by auto
qed

lemma link_delivers_everything_witness:
  "\<exists>l. link_reachable toy_smux_lib l \<and> ln_client_taken l 0 = [7] \<and>
     ln_server_written l 0 @ concat (sm_pending_tcp_writes (stream_at (ln_server l) 0)) = [7]"
proof -
  obtain l where l: "link_reachable toy_smux_lib l" "\<not> ss_closed (ln_client l)" "\<not> ss_closed (ln_server l)"
    "ln_client_got l = length (sent_bytes (ln_server l))" "ln_server_got l = length (sent_bytes (ln_client l))"
    "length (ss_objects (ln_client l)) = 1" "ln_client_taken l 0 = [7]"
    "outbound (stream_at (ln_client l) 0) = []" "\<not> sm_closed (stream_at (ln_server l) 0)"
    using demo_link by blast
  then have "all_read l" by (simp add: all_read_def)
  then have "nothing_lost l" by (rule link_delivers_everything [OF toy_lib_facts l(1)])
  then have "ln_server_written l 0 @ concat (sm_pending_tcp_writes (stream_at (ln_server l) 0)) = ln_client_taken l 0"
    using l by (simp add: nothing_lost_def)
  with l show ?thesis by auto
qed

text \<open>From the state in which the server has not read anything yet.\<close>

lemma link_comes_to_rest_witness:
  "\<exists>l l'. ln_server_got l = 0 \<and> (link_reads toy_smux_lib)\<^sup>*\<^sup>* l l' \<and> all_read l' \<and>
     ln_server_written l' 0 @ concat (sm_pending_tcp_writes (stream_at (ln_server l') 0)) @ outbound (stream_at (ln_client l') 0) = [7]"
proof -
  obtain l where l: "link_reachable toy_smux_lib l" "ln_server l = plain_server toy_smux_lib"
    "ss_config (ln_client l) = (base_defaults ()) \<lparr> cfg_nocomp := True \<rparr>" "\<not> ss_closed (ln_client l)"
    "ln_server_got l = 0" "ln_client_taken l 0 = [7]" "length (ss_objects (ln_client l)) = 1"
    using demo_sent by blast
  have "room_for ((base_defaults ()) \<lparr> cfg_nocomp := True \<rparr>) 1"
    by (simp add: room_for_def largest_rest_def base_defaults_def)
  then have room: "room_for (ss_config (ln_client l)) 1" "room_for (ss_config (ln_server l)) 1"
    by (simp_all only: l(2,3) plain_server_fields)
  have "\<not> ss_closed (ln_server l)" by (simp add: l(2) plain_server_fields)
  then obtain l' where l': "(link_reads toy_smux_lib)\<^sup>*\<^sup>* l l'" "all_read l'" "nothing_lost l'" "ln_client_taken l' = ln_client_taken l"
    "streams_kept (ln_client l) (ln_client l')" "streams_kept (ln_server l) (ln_server l')"
    using link_comes_to_rest [OF toy_lib_facts l(1,4) _ room] by blast
  have "stream_ids (ln_server l') = stream_ids (ln_client l')" using l'(3) by (simp add: nothing_lost_def)
  then have one: "0 < length (ss_objects (ln_client l'))" "0 < length (ss_objects (ln_server l'))"
    using l'(5) l(7) arg_cong [of _ _ length] by (fastforce simp: streams_kept_def stream_ids_def)+
  then have "\<not> sm_closed (stream_at (ln_server l') 0)"
    using l'(6) by (simp add: streams_kept_def l(2) plain_server_fields)
  then have "ln_server_written l' 0 @ concat (sm_pending_tcp_writes (stream_at (ln_server l') 0)) @ outbound (stream_at (ln_client l') 0) = [7]"
    using l'(3,4) one(1) l(6) by (simp add: nothing_lost_def)
  then show ?thesis using l(5) l'(1,2) by blast
qed

end
