(* ===== verification/Source_Copies.thy ===== *)
theory Source_Copies
  imports Smux_Session
begin

text \<open>
  What the source writes more than once. Every file that handles a wire format has its own
  copy of the little-endian helpers; \<open>Wire\<close> models one of each and the other theories use
  it. Here every copy is translated statement by statement, and is shown to be the shared
  definition wherever the bytes it touches exist. The connect handlers of TCP and of Unix
  sockets are a case of the same kind, and so are the two functions of \<open>compression.cpp\<close>,
  which repeat the calls that \<open>snappy_stream.cpp\<close> makes of the Snappy library.
\<close>

section \<open>Little-endian helpers\<close>

text \<open>\<open>smux.cpp\<close>.\<close>

definition smux_write_le16 :: "bytes \<Rightarrow> nat \<Rightarrow> u16 \<Rightarrow> bytes" where
  "smux_write_le16 data off value =
     (let data = data[off := ucast (value AND 0xff)]
      in data[off + 1 := ucast (drop_bit 8 value AND 0xff)])"

definition smux_write_le32 :: "bytes \<Rightarrow> nat \<Rightarrow> u32 \<Rightarrow> bytes" where
  "smux_write_le32 data off value =
     (let data = data[off := ucast (value AND 0xff)];
          data = data[off + 1 := ucast (drop_bit 8 value AND 0xff)];
          data = data[off + 2 := ucast (drop_bit 16 value AND 0xff)]
      in data[off + 3 := ucast (drop_bit 24 value AND 0xff)])"

definition smux_read_le16 :: "bytes \<Rightarrow> nat \<Rightarrow> u16" where
  "smux_read_le16 data off = ucast (data ! off) OR ucast (push_bit 8 (ucast (data ! (off + 1)) :: u16))"

definition smux_read_le32 :: "bytes \<Rightarrow> nat \<Rightarrow> u32" where
  "smux_read_le32 data off =
     ((ucast (data ! off) OR push_bit 8 (ucast (data ! (off + 1)))) OR
      push_bit 16 (ucast (data ! (off + 2)))) OR push_bit 24 (ucast (data ! (off + 3)))"

text \<open>\<open>crypto.cpp\<close>.\<close>

definition crypto_write_le32 :: "bytes \<Rightarrow> nat \<Rightarrow> u32 \<Rightarrow> bytes" where
  "crypto_write_le32 data off value =
     (let data = data[off := ucast (value AND 0xff)];
          data = data[off + 1 := ucast (drop_bit 8 value AND 0xff)];
          data = data[off + 2 := ucast (drop_bit 16 value AND 0xff)]
      in data[off + 3 := ucast (drop_bit 24 value AND 0xff)])"

definition crypto_read_le32 :: "bytes \<Rightarrow> nat \<Rightarrow> u32" where
  "crypto_read_le32 data off =
     ((ucast (data ! off) OR push_bit 8 (ucast (data ! (off + 1)))) OR
      push_bit 16 (ucast (data ! (off + 2)))) OR push_bit 24 (ucast (data ! (off + 3)))"

text \<open>\<open>snappy_stream.cpp\<close>.\<close>

definition snappy_write_le32 :: "bytes \<Rightarrow> nat \<Rightarrow> u32 \<Rightarrow> bytes" where
  "snappy_write_le32 data off value =
     (let data = data[off := ucast (value AND 0xff)];
          data = data[off + 1 := ucast (drop_bit 8 value AND 0xff)];
          data = data[off + 2 := ucast (drop_bit 16 value AND 0xff)]
      in data[off + 3 := ucast (drop_bit 24 value AND 0xff)])"

definition snappy_read_le32 :: "bytes \<Rightarrow> nat \<Rightarrow> u32" where
  "snappy_read_le32 data off =
     ((ucast (data ! off) OR push_bit 8 (ucast (data ! (off + 1)))) OR
      push_bit 16 (ucast (data ! (off + 2)))) OR push_bit 24 (ucast (data ! (off + 3)))"

text \<open>\<open>kcp_transport.cpp\<close> and \<open>fec.cpp\<close>.\<close>

definition read_le32_kcp :: "bytes \<Rightarrow> nat \<Rightarrow> u32" where
  "read_le32_kcp data off =
     ((ucast (data ! off) OR push_bit 8 (ucast (data ! (off + 1)))) OR
      push_bit 16 (ucast (data ! (off + 2)))) OR push_bit 24 (ucast (data ! (off + 3)))"

definition read_le16_raw :: "bytes \<Rightarrow> nat \<Rightarrow> u16" where
  "read_le16_raw data off = ucast (data ! off) OR ucast (push_bit 8 (ucast (data ! (off + 1)) :: u16))"

text \<open>Storing byte after byte is copying the encoded field.\<close>

lemma memcpy_Cons:
  "off < length buf \<Longrightarrow> memcpy buf off (x # xs) = memcpy (buf[off := x]) (off + 1) xs"
  by (simp add: memcpy_def upd_conv_take_nth_drop take_Suc_conv_app_nth add.commute)

lemma memcpy_Nil [simp]: "memcpy buf off [] = buf"
  by (simp add: memcpy_def)

lemma write_copies:
  assumes "off + 4 \<le> length data"
  shows "smux_write_le16 data off v = write_le16 data off v" "smux_write_le32 data off w = write_le32 data off w"
    "crypto_write_le32 data off w = write_le32 data off w" "snappy_write_le32 data off w = write_le32 data off w"
  using assms
  by (simp_all add: smux_write_le16_def smux_write_le32_def crypto_write_le32_def snappy_write_le32_def Let_def
      write_le16_def write_le32_def le16_bytes_def le32_bytes_def memcpy_Cons numeral_3_eq_3)

lemma read_copies:
  "smux_read_le16 = read_le16" "read_le16_raw = read_le16" "smux_read_le32 = read_le32"
  "crypto_read_le32 = read_le32" "snappy_read_le32 = read_le32" "read_le32_kcp = read_le32"
  by (simp_all add: fun_eq_iff smux_read_le16_def read_le16_raw_def read_le16_def smux_read_le32_def
      crypto_read_le32_def snappy_read_le32_def read_le32_kcp_def read_le32_def or.assoc)

text \<open>So every copy reads what every other copy has written.\<close>

lemma copies_roundtrip:
  assumes "off + 4 \<le> length data"
  shows "smux_read_le16 (smux_write_le16 data off v) off = v" "smux_read_le32 (smux_write_le32 data off w) off = w"
    "read_le32_kcp (snappy_write_le32 data off w) off = w" "crypto_read_le32 (crypto_write_le32 data off w) off = w"
  using assms
  by (simp_all add: write_copies read_copies write_le16_def write_le32_def le16.dec_memcpy le32.dec_memcpy)

section \<open>The handlers of both kinds of socket\<close>

text \<open>The handler of \<open>start_server_unix\<close>. The TCP handler also sets the socket's buffer sizes.\<close>

definition connect_unix_handler :: "smux_lib \<Rightarrow> nat \<Rightarrow> bool \<Rightarrow> smux_session \<Rightarrow> smux_session" where
  "connect_unix_handler lib h failed s =
     (let s = put_stream h ((stream_at s h) \<lparr> sm_server_connecting := False \<rparr>) s
      in if failed then fail_and_close lib ''connect unix target'' h s
         else
           let s = put_stream h ((stream_at s h) \<lparr> sm_tcp_ready := True \<rparr>) s;
               s = flush_tcp_writes h s;
               s = start_tcp_read h s
           in shutdown_tcp_send_if_ready h s)"

lemma connect_handler_unix:
  "sm_unix (stream_at s h) \<Longrightarrow> connect_handler lib h failed s = connect_unix_handler lib h failed s"
  by (simp add: connect_handler_def connect_unix_handler_def Let_def)

section \<open>The functions of \<open>compression.cpp\<close>\<close>

text \<open>The arguments are the functions of the Snappy library.\<close>

definition snappy_compress :: "(bytes \<Rightarrow> bytes) \<Rightarrow> bytes \<Rightarrow> bytes" where
  "snappy_compress compress payload = (let compressed = compress payload in compressed)"

definition snappy_uncompress :: "(bytes \<Rightarrow> bytes option) \<Rightarrow> bytes \<Rightarrow> bytes option" where
  "snappy_uncompress uncompress payload =
     (case uncompress payload of None \<Rightarrow> None | Some uncompressed \<Rightarrow> Some uncompressed)"

lemma snappy_functions_roundtrip:
  "unc (compress x) = Some x \<Longrightarrow> snappy_uncompress unc (snappy_compress compress x) = Some x"
  by (simp add: snappy_uncompress_def snappy_compress_def)

end
