(* ===== verification/Spec2Isabelle.thy ===== *)
theory Spec2Isabelle
  imports Fec Snappy_Stream Crypto Kcp_Pacing Kcp_Session_Safety Report Smux_End_To_End Source_Copies
begin

text \<open>
  \<^bold>\<open>Shimakaze\<close> tunnels TCP (or Unix domain) streams over KCP, a reliable protocol on UDP. A
  client accepts local connections and turns each into a stream of a multiplexed session;
  a session runs over a KCP transport; the transport adds forward error correction and
  encryption to the KCP packets and sends them as datagrams. The server does the reverse and
  connects every stream to its target. All files named here are under
  \<open>src/shimakaze/src/shimakaze/\<close>.

  \<^bold>\<open>Layers and theories\<close>, from the bottom:

  \<^item> \<open>Prelude\<close>, \<open>Wire\<close>, \<open>Cpp_String\<close>: bytes, words, results, buffer operations; little- and
    big-endian integers (\<open>utils.cpp\<close>, \<open>fec.cpp\<close>); the string functions the source uses.
  \<^item> \<open>Galois\<close>, \<open>Matrix\<close>, \<open>Reed_Solomon\<close>, \<open>Fec\<close> (\<open>fec.cpp\<close>): the field GF(256), Gauss-Jordan
    elimination, the erasure code, and \<open>FecCodec\<close>, which groups packets, numbers them and
    recovers lost ones.
  \<^item> \<open>Checksum\<close>, \<open>Crypto\<close> (\<open>crypto.cpp\<close>): CRC-32, the choice of the method, the CFB loop and
    the packet formats of \<open>PacketCrypt\<close>.
  \<^item> \<open>Stream_Parser\<close>, \<open>Snappy_Stream\<close> (\<open>snappy_stream.cpp\<close>): the framed compression format
    and its incremental decoder. \<open>Qpp\<close> (\<open>qpp.cpp\<close>): the permutation pad of streams.
  \<^item> \<open>Kcp_Transport\<close> (\<open>kcp_transport.cpp\<close>): \<open>KcpTransport\<close> around the KCP engine.
    \<open>Kcp_Delivery\<close> and \<open>Kcp_Pacing\<close> hold its properties.
  \<^item> \<open>Smux\<close>, \<open>Smux_Session\<close> (\<open>smux.cpp\<close>): streams and sessions with all completion handlers.
    \<open>Smux_Frames\<close>, \<open>Smux_Flow\<close> and \<open>Smux_Safety\<close> hold their properties: the frame channel,
    flow control, and the invariant of the reachable states. \<open>Smux_Trace\<close> adds the history of
    a session, and \<open>Smux_End_To_End\<close> joins two sessions by byte channels (\<open>link_step\<close>) and
    follows the bytes from one socket to the other.
  \<^item> \<open>Tunnel\<close>, \<open>Tunnel_Safety\<close>: a session wired to its transport by \<open>SmuxSession::start\<close>.
  \<^item> \<open>Server\<close> (\<open>server.cpp\<close>), \<open>Client\<close> and \<open>Client_Safety\<close> (\<open>client.cpp\<close>): the session table
    of a listener, and the slots, connections and timers of the client.
  \<^item> \<open>Source_Copies\<close>: what the source repeats from file to file, with its equality to the shared
    definition, and \<open>compression.cpp\<close>, which is not compiled.
  \<^item> \<open>Kcp_Session\<close>, \<open>Kcp_Session_Safety\<close> (\<open>kcp_session.cpp\<close>, which \<open>CMakeLists.txt\<close> does not list):
    a session that carries one TCP connection in frames, without multiplexing.
  \<^item> \<open>Base_Config\<close>, \<open>Config\<close> (\<open>config.hpp\<close>, \<open>config.cpp\<close>), \<open>Utils\<close> (\<open>utils.cpp\<close>), \<open>Logger\<close>
    (\<open>logger.hpp\<close>, \<open>logger.cpp\<close>), \<open>Stats\<close> (\<open>stats.cpp\<close>): options, addresses, log and counters.
  \<^item> \<open>Diagnostics\<close> (\<open>diagnostics.cpp\<close>): the HTTP server that reports the counters, and the timer
    that logs them. \<open>Report\<close>: the start-up report and usage texts (\<open>config.cpp\<close>) and the two
    \<open>main\<close> functions (\<open>client_main.cpp\<close>, \<open>server_main.cpp\<close>, one directory up).

  \<^bold>\<open>How the code is represented.\<close> A class is a record with the fields of the class, and each
  member function a definition that returns the changed record; functions of the source
  keep their names. Objects that several handlers share (streams of a session, connections of
  the client) live in a list and are named by their index. Calls of sockets, timers and the
  transport are appended to a list of effects, in order; a completion handler is a definition
  of its own, and the theories named \<open>_Safety\<close> say in a step relation when it may run. An
  exception is the left side of \<open>result\<close>; \<open>Undefined_behaviour\<close> marks signed overflow.
  Integers have the width of the source where they wrap (\<open>u32\<close> identifiers, counters), and are
  \<open>int\<close> or \<open>nat\<close> where the source's range is checked or bounded by memory.

  \<^bold>\<open>Parameters.\<close> Code outside the repository is an argument: the KCP engine \<open>ikcp\<close> (the record
  \<open>transport_lib\<close>, its documented behaviour \<open>kcp_documented\<close>), Crypto++ (\<open>crypto_lib\<close>,
  \<open>qpp_lib\<close>, with \<open>crypto_documented\<close>: AES-GCM and the random pool), the Snappy block codec
  (\<open>smux_lib\<close>), Boost.JSON, the resolver, the clock and the random distributions. The
  witnesses instantiate them with small concrete functions (\<open>queue_lib\<close>, \<open>toy_lib\<close>,
  \<open>toy_smux_lib\<close>).

  \<^bold>\<open>Loops.\<close> Loops over data are structural or have a measure. Some may not end
  on their own and are option-valued partial functions: \<open>drain_kcp\<close> (of both
  sessions), shown to end for a documented engine, and the random loop \<open>next_conv\<close>,
  which ends once the generator draws a free number. No fuel is used.

  \<^bold>\<open>What is shown.\<close> Codecs: what is decoded is what was encoded, under every
  fragmentation and (for FEC) every loss within the code's capacity; damage is detected by the
  checksums wherever the cipher keeps it local (for a block cipher: in the last block).
  Transport: a datagram carries a KCP packet to the session of the peer, fits the MTU, respects
  the rate, and the receive loop ends. Multiplexer: end to end, over all interleavings of the
  events of two sessions, a stream writes to its socket a prefix of what its peer has taken from
  the other one, no byte is missing once everything has been read, and from every state with
  both sessions open reads alone can lead there, closing no stream; the windows are respected and
  reopen; closed sessions stay silent. Composition: session and transport close
  together; the server isolates its clients; the client's table, slots, sockets and timers agree;
  the single-connection session writes what it receives in order and ends once, but lets the
  peer's \<open>fin\<close> overtake data. Configuration: only values in range are accepted, and
  addresses print and parse. Programs: a start ends with a message and an exit code or in a valid
  state, or overflows in one addition of the validation; the report does not depend on the key;
  the HTTP server answers at the first read that fails or completes the request.

  \<^bold>\<open>Not modelled.\<close> The unit tests (\<open>config_tests.cpp\<close>) and the two-line wrappers of Crypto++
  functions (\<open>qpp.cpp\<close>, \<open>crypto.cpp\<close>), which are the library parameters themselves. The
  event loop of Asio, the operating system's sockets, timers and files, and the text of most log lines are left out; so is destruction of objects, except where
  it has an effect (a session that has been dropped). One call of an operation reads the clock
  once.
\<close>

end
